(* ===== verification/Prelude.thy ===== *)
theory Prelude
  imports Main "HOL-Library.Word" "HOL-Library.Signed_Division" "HOL-Library.Sublist"
begin

text \<open>
  What every component theory shares: the machine integer types of the Rust code, the two ways
  Rust's \<open>i64\<close> arithmetic can go wrong (a panic in a debug build, a wrap in a release build),
  byte and character tests of the standard library, and generic lemmas on lists and maps.

  \<^item> \<open>wrap64\<close> is the cast \<open>as i64\<close> from a wider signed integer.
  \<^item> \<open>checked64\<close> is the value of an \<open>i64\<close> expression whose exact value is given: in a
    \<open>Debug\<close> build an overflow panics (\<open>None\<close>), in a \<open>Release\<close> build it wraps.
  \<^item> Sequence numbers, lengths and counters that the code only increments are \<open>nat\<close>.
\<close>

named_theorems code_unfold_model \<open>definitions of the model that proofs unfold together\<close>
named_theorems inv_intros \<open>introduction rules for the invariants of the components\<close>

subsection \<open>Machine integers\<close>

type_synonym u8 = "8 word"
type_synonym u16 = "16 word"
type_synonym u32 = "32 word"
type_synonym u64 = "64 word"
type_synonym bytes = "8 word list"

text \<open>\<open>u16::from_be_bytes\<close>.\<close>

definition be16 :: "u8 \<Rightarrow> u8 \<Rightarrow> u16" where
  "be16 a b = or (push_bit 8 (ucast a)) (ucast b)"

text \<open>\<open>u16::to_be_bytes\<close>.\<close>

definition to_be16 :: "u16 \<Rightarrow> bytes" where
  "to_be16 w = [ucast (drop_bit 8 w), ucast w]"

lemma be16_to_be16: "be16 (ucast (drop_bit 8 w)) (ucast w) = w"
  unfolding be16_def by (rule bit_word_eqI) (auto simp: bit_simps)

text \<open>\<open>u32::to_be_bytes\<close>.\<close>

definition to_be32 :: "nat \<Rightarrow> bytes" where
  "to_be32 n = [of_nat (n div 2 ^ 24), of_nat (n div 2 ^ 16), of_nat (n div 2 ^ 8), of_nat n]"

lemma length_to_be32 [simp]: "length (to_be32 n) = 4"
  by (simp add: to_be32_def)

text \<open>\<open>u32::from_be_bytes\<close> as a length.\<close>

definition be32 :: "bytes \<Rightarrow> nat" where
  "be32 d = ((unat (d ! 0) * 256 + unat (d ! 1)) * 256 + unat (d ! 2)) * 256 + unat (d ! 3)"

lemma be32_to_be32:
  assumes "n < 2 ^ 32"
  shows "be32 (to_be32 n @ rest) = n"
proof -
  have "be32 (to_be32 n @ rest) =
      ((n div 2 ^ 24 mod 256 * 256 + n div 2 ^ 16 mod 256) * 256 + n div 2 ^ 8 mod 256) * 256 + n mod 256"
    by (simp add: be32_def to_be32_def unat_of_nat)
  also have "\<dots> = n"
  proof -
    have split: "n div 2 ^ 16 = n div 256 div 256" "n div 2 ^ 24 = n div 256 div 256 div 256" "n div 2 ^ 8 = n div 256"
      by (simp_all add: div_mult2_eq [symmetric])
    have "n div 256 div 256 div 256 mod 256 = n div 256 div 256 div 256"
      using assms by (simp add: div_mult2_eq [symmetric])
    then show ?thesis by (simp only: split div_mult_mod_eq)
  qed
  finally show ?thesis .
qed

definition i64_min :: int where "i64_min = - (2 ^ 63)"
definition i64_max :: int where "i64_max = 2 ^ 63 - 1"
definition u64_max :: nat where "u64_max = 2 ^ 64 - 1"

definition in_i64 :: "int \<Rightarrow> bool" where
  "in_i64 x \<longleftrightarrow> i64_min \<le> x \<and> x \<le> i64_max"

definition wrap64 :: "int \<Rightarrow> int" where
  "wrap64 x = (x + 2 ^ 63) mod 2 ^ 64 - 2 ^ 63"

datatype profile = Debug | Release

definition checked64 :: "profile \<Rightarrow> int \<Rightarrow> int option" where
  "checked64 p x =
     (if in_i64 x then Some x else (case p of Debug \<Rightarrow> None | Release \<Rightarrow> Some (wrap64 x)))"

lemma in_i64_bounds: "in_i64 x \<longleftrightarrow> - 9223372036854775808 \<le> x \<and> x \<le> 9223372036854775807"
  by (simp add: in_i64_def i64_min_def i64_max_def)

lemma in_i64_wrap64 [simp, intro]: "in_i64 (wrap64 x)"
proof -
  have "0 \<le> (x + 2 ^ 63) mod 2 ^ 64" and "(x + 2 ^ 63) mod 2 ^ 64 < 2 ^ 64"
    by simp_all
  then show ?thesis
    unfolding in_i64_def i64_min_def i64_max_def wrap64_def by simp
qed

lemma wrap64_id: "in_i64 x \<Longrightarrow> wrap64 x = x"
  by (simp add: in_i64_def i64_min_def i64_max_def wrap64_def)

lemma wrap64_is_cast: "wrap64 x = sint (word_of_int x :: 64 word)"
  by (simp add: wrap64_def sint_sbintrunc' signed_take_bit_eq_take_bit_shift take_bit_eq_mod)

lemma checked64_in_range [simp]: "in_i64 x \<Longrightarrow> checked64 p x = Some x"
  by (simp add: checked64_def)

lemma checked64_release: "checked64 Release x = Some (wrap64 x)"
  by (simp add: checked64_def wrap64_id)

lemma checked64_debug: "checked64 Debug x = (if in_i64 x then Some x else None)"
  by (simp add: checked64_def)

lemma checked64_SomeD: "checked64 p x = Some y \<Longrightarrow> in_i64 y"
  by (auto simp: checked64_def split: if_splits profile.splits)

text \<open>Wrap-around is a ring homomorphism: only the last wrap of a sum counts.\<close>

lemma wrap64_mod_eq: "wrap64 x = wrap64 y \<longleftrightarrow> x mod 2 ^ 64 = y mod 2 ^ 64"
proof -
  have "wrap64 x = wrap64 y \<longleftrightarrow> (x + 2 ^ 63) mod 2 ^ 64 = (y + 2 ^ 63) mod 2 ^ 64"
    by (simp add: wrap64_def)
  also have "\<dots> \<longleftrightarrow> x mod 2 ^ 64 = y mod 2 ^ 64"
    by (simp add: mod_eq_dvd_iff)
  finally show ?thesis .
qed

lemma wrap64_mod [simp]: "wrap64 x mod 2 ^ 64 = x mod 2 ^ 64"
proof -
  have "wrap64 x mod 2 ^ 64 = ((x + 2 ^ 63) - 2 ^ 63) mod 2 ^ 64"
    unfolding wrap64_def by (rule mod_diff_left_eq)
  then show ?thesis by simp
qed

lemma wrap64_add_left [simp]: "wrap64 (wrap64 x + y) = wrap64 (x + y)"
  unfolding wrap64_mod_eq by (rule mod_add_cong) (simp_all only: wrap64_mod)

lemma wrap64_add_right [simp]: "wrap64 (x + wrap64 y) = wrap64 (x + y)"
  unfolding wrap64_mod_eq by (rule mod_add_cong) (simp_all only: wrap64_mod)

lemma wrap64_diff_left [simp]: "wrap64 (wrap64 x - y) = wrap64 (x - y)"
  unfolding wrap64_mod_eq by (rule mod_diff_cong) (simp_all only: wrap64_mod)

lemma wrap64_diff_right [simp]: "wrap64 (x - wrap64 y) = wrap64 (x - y)"
  unfolding wrap64_mod_eq by (rule mod_diff_cong) (simp_all only: wrap64_mod)

lemma wrap64_add_diff_left [simp]: "wrap64 (a + (wrap64 x - b)) = wrap64 (a + (x - b))"
  using wrap64_add_left [of x "a - b"] by (simp add: algebra_simps)

lemma wrap64_add_diff_right [simp]: "wrap64 (a + (x - wrap64 b)) = wrap64 (a + (x - b))"
  using wrap64_diff_right [of "a + x" b] by (simp add: algebra_simps)

lemma wrap64_wrap64 [simp]: "wrap64 (wrap64 x) = wrap64 x"
  by (simp add: wrap64_id)

lemma checked64_wrap: "checked64 p x = Some y \<Longrightarrow> y = wrap64 x"
  by (auto simp: checked64_def wrap64_id split: if_splits profile.splits)

lemma checked64_to_release: "checked64 p x = Some y \<Longrightarrow> checked64 Release x = Some y"
  by (auto simp: checked64_release dest: checked64_wrap)

lemma wrap64_Suc: "in_i64 x \<Longrightarrow> x \<noteq> i64_max \<Longrightarrow> wrap64 (x + 1) = x + 1"
  by (rule wrap64_id) (simp add: in_i64_def i64_min_def i64_max_def)

text \<open>
  The two builds. \<open>agrees a b\<close>: the computation \<open>a\<close> panics or gives the result of \<open>b\<close>; the rules
  follow the structure of the option monad the components are written in, and so do the rules for
  computations that return.
\<close>

definition agrees :: "'a option \<Rightarrow> 'a option \<Rightarrow> bool" where
  "agrees a b \<longleftrightarrow> a = None \<or> a = b"

named_theorems builds \<open>structural rules for computations of the two builds\<close>

lemma agrees_refl [builds]: "agrees a a"
  by (simp add: agrees_def)

lemma agrees_checked64 [builds]: "agrees (checked64 p x) (checked64 Release x)"
  by (auto simp: agrees_def checked64_def split: profile.splits)

lemma agrees_bind [builds]:
  assumes "agrees a b" and "\<And>x. agrees (f x) (g x)"
  shows "agrees (Option.bind a f) (Option.bind b g)"
proof (cases a)
  case (Some x)
  with assms(1) assms(2) [of x] show ?thesis by (auto simp: agrees_def)
qed (simp add: agrees_def)

lemma agrees_if [builds]: "agrees a b \<Longrightarrow> agrees c d \<Longrightarrow> agrees (if x then a else c) (if x then b else d)"
  by simp

lemma agrees_let [builds]: "(\<And>x. agrees (f x) (g x)) \<Longrightarrow> agrees (Let t f) (Let t g)"
  by simp

lemma agrees_case_option [builds]:
  "agrees a b \<Longrightarrow> (\<And>x. agrees (f x) (g x)) \<Longrightarrow> agrees (case t of None \<Rightarrow> a | Some x \<Rightarrow> f x) (case t of None \<Rightarrow> b | Some x \<Rightarrow> g x)"
  by (cases t) simp_all

lemma agrees_case_prod [builds]:
  "(\<And>x y. agrees (f x y) (g x y)) \<Longrightarrow> agrees (case t of (x, y) \<Rightarrow> f x y) (case t of (x, y) \<Rightarrow> g x y)"
  by (cases t) simp

lemma agrees_map_option [builds]: "agrees a b \<Longrightarrow> agrees (map_option f a) (map_option f b)"
  by (auto simp: agrees_def)

lemma agrees_those [builds]: "(\<And>x. agrees (f x) (g x)) \<Longrightarrow> agrees (those (map f xs)) (those (map g xs))"
  unfolding agrees_def
proof (induction xs)
  case (Cons x xs)
  show ?case
  proof (cases "f x")
    case (Some y)
    then have "g x = Some y" using Cons.prems [of x] by simp
    with Cons.IH Cons.prems Some show ?thesis by auto
  qed simp
qed simp

lemma agreesD: "agrees a b \<Longrightarrow> a = Some r \<Longrightarrow> b = Some r"
  by (simp add: agrees_def)

named_theorems returns \<open>structural rules for computations that return\<close>

lemma returns_Some [returns]: "\<exists>r. Some x = Some r"
  by simp

lemma returns_release [returns]: "\<exists>r. checked64 Release x = Some r"
  by (simp add: checked64_release)

lemma returns_bind [returns]:
  "\<exists>r. a = Some r \<Longrightarrow> (\<And>x. \<exists>r. f x = Some r) \<Longrightarrow> \<exists>r. Option.bind a f = Some r"
  by auto

lemma returns_if [returns]: "\<exists>r. a = Some r \<Longrightarrow> \<exists>r. b = Some r \<Longrightarrow> \<exists>r. (if x then a else b) = Some r"
  by simp

lemma returns_let [returns]: "(\<And>x. \<exists>r. f x = Some r) \<Longrightarrow> \<exists>r. Let t f = Some r"
  by simp

lemma returns_case_option [returns]:
  "\<exists>r. a = Some r \<Longrightarrow> (\<And>x. \<exists>r. f x = Some r) \<Longrightarrow> \<exists>r. (case t of None \<Rightarrow> a | Some x \<Rightarrow> f x) = Some r"
  by (cases t) simp_all

lemma returns_case_prod [returns]: "(\<And>x y. \<exists>r. f x y = Some r) \<Longrightarrow> \<exists>r. (case t of (x, y) \<Rightarrow> f x y) = Some r"
  by (cases t) simp

lemma returns_map_option [returns]: "\<exists>r. a = Some r \<Longrightarrow> \<exists>r. map_option f a = Some r"
  by auto

lemma returns_those [returns]: "(\<And>x. \<exists>r. f x = Some r) \<Longrightarrow> \<exists>r. those (map f xs) = Some r"
  by (induction xs) (auto split: option.splits)

text \<open>
  \<open>usize\<close> and \<open>u64\<close> subtraction of quantities kept as \<open>nat\<close>; \<open>Duration\<close> values are counted in
  nanoseconds.
\<close>

definition checked_sub64 :: "profile \<Rightarrow> nat \<Rightarrow> nat \<Rightarrow> nat option" where
  "checked_sub64 p a b =
     (if b \<le> a then Some (a - b)
      else (case p of Debug \<Rightarrow> None | Release \<Rightarrow> Some (a + 2 ^ 64 - b)))"

lemma checked_sub64_le [simp]: "b \<le> a \<Longrightarrow> checked_sub64 p a b = Some (a - b)"
  by (simp add: checked_sub64_def)

type_synonym duration = nat

definition as_micros :: "duration \<Rightarrow> nat" where
  "as_micros d = d div 1000"

text \<open>Rust's integer division truncates towards zero; \<open>div_euclid\<close> by a positive divisor floors.\<close>

lemma sdiv_nonneg: "0 \<le> (a::int) \<Longrightarrow> 0 \<le> b \<Longrightarrow> a sdiv b = a div b"
  by (simp add: signed_divide_int_def sgn_if)

lemma sdiv_neg: "(a::int) < 0 \<Longrightarrow> 0 < b \<Longrightarrow> a sdiv b = - ((- a) div b)"
  by (simp add: signed_divide_int_def sgn_if)

lemma sdiv_mono:
  assumes "(a::int) \<le> a'" and "0 < b"
  shows "a sdiv b \<le> a' sdiv b"
proof (cases "0 \<le> a"; cases "0 \<le> a'")
  assume "0 \<le> a" "0 \<le> a'"
  with assms show ?thesis by (simp add: sdiv_nonneg zdiv_mono1)
next
  assume "\<not> 0 \<le> a" "0 \<le> a'"
  moreover from this assms have "0 \<le> a' div b" and "0 \<le> (- a) div b"
    by (simp_all add: pos_imp_zdiv_nonneg_iff)
  ultimately show ?thesis
    using assms by (simp add: sdiv_nonneg sdiv_neg)
next
  assume "\<not> 0 \<le> a" "\<not> 0 \<le> a'"
  with assms show ?thesis by (simp add: sdiv_neg zdiv_mono1)
qed (use assms in simp)

subsection \<open>Characters and strings\<close>

text \<open>
  A Rust \<open>&str\<close> is its UTF-8 bytes here (\<open>string\<close>, a list of \<open>char\<close>, one per byte), so
  \<open>length\<close> is \<open>str::len\<close>. The byte tests are those of \<open>core::num\<close> (\<open>u8::is_ascii_*\<close>).
\<close>

definition byte_of :: "char \<Rightarrow> int" where
  "byte_of c = of_char c"

definition is_ascii_digit :: "char \<Rightarrow> bool" where
  "is_ascii_digit c \<longleftrightarrow> 48 \<le> byte_of c \<and> byte_of c \<le> 57"

definition is_ascii_uppercase :: "char \<Rightarrow> bool" where
  "is_ascii_uppercase c \<longleftrightarrow> 65 \<le> byte_of c \<and> byte_of c \<le> 90"

definition is_ascii_lowercase :: "char \<Rightarrow> bool" where
  "is_ascii_lowercase c \<longleftrightarrow> 97 \<le> byte_of c \<and> byte_of c \<le> 122"

definition is_ascii_alphabetic :: "char \<Rightarrow> bool" where
  "is_ascii_alphabetic c \<longleftrightarrow> is_ascii_uppercase c \<or> is_ascii_lowercase c"

definition is_ascii_alphanumeric :: "char \<Rightarrow> bool" where
  "is_ascii_alphanumeric c \<longleftrightarrow> is_ascii_alphabetic c \<or> is_ascii_digit c"

definition to_ascii_uppercase :: "char \<Rightarrow> char" where
  "to_ascii_uppercase c = (if is_ascii_lowercase c then char_of (byte_of c - 32) else c)"

lemmas ascii_defs =
  is_ascii_digit_def is_ascii_uppercase_def is_ascii_lowercase_def is_ascii_alphabetic_def
  is_ascii_alphanumeric_def byte_of_def

text \<open>\<open>str::strip_prefix\<close> and \<open>str::strip_suffix\<close>.\<close>

fun strip_prefix :: "string \<Rightarrow> string \<Rightarrow> string option" where
  "strip_prefix [] s = Some s"
| "strip_prefix (c # cs) [] = None"
| "strip_prefix (c # cs) (d # ds) = (if c = d then strip_prefix cs ds else None)"

definition strip_suffix_char :: "char \<Rightarrow> string \<Rightarrow> string option" where
  "strip_suffix_char c s = (if s \<noteq> [] \<and> last s = c then Some (butlast s) else None)"

lemma strip_prefix_Some: "strip_prefix p s = Some r \<longleftrightarrow> s = p @ r"
  by (induction p s arbitrary: r rule: strip_prefix.induct) auto

lemma strip_prefix_None: "strip_prefix p s = None \<longleftrightarrow> (\<nexists>r. s = p @ r)"
  by (metis not_None_eq strip_prefix_Some)

lemma strip_suffix_char_Some: "strip_suffix_char c s = Some r \<longleftrightarrow> s = r @ [c]"
  by (cases s rule: rev_cases) (auto simp: strip_suffix_char_def)

text \<open>\<open>Display\<close> of an unsigned integer.\<close>

fun decimal :: "nat \<Rightarrow> string" where
  "decimal n = (if n < 10 then [char_of (48 + n)] else decimal (n div 10) @ [char_of (48 + n mod 10)])"

declare decimal.simps [simp del]

fun undecimal :: "nat \<Rightarrow> string \<Rightarrow> nat" where
  "undecimal n [] = n"
| "undecimal n (c # cs) = undecimal (n * 10 + (of_char c - 48)) cs"

lemma undecimal_snoc: "undecimal n (cs @ [c]) = undecimal n cs * 10 + (of_char c - 48)"
  by (induction n cs rule: undecimal.induct) auto

lemma undecimal_decimal: "undecimal 0 (decimal n) = n"
proof (induction n rule: decimal.induct)
  case (1 n)
  show ?case
  proof (cases "n < 10")
    case True
    then show ?thesis by (simp add: decimal.simps [of n])
  next
    case False
    have "undecimal 0 (decimal n) = undecimal 0 (decimal (n div 10)) * 10 + n mod 10"
      using False by (simp add: decimal.simps [of n] undecimal_snoc)
    with 1 False show ?thesis by simp
  qed
qed

lemma decimal_inj: "decimal m = decimal n \<Longrightarrow> m = n"
  by (metis undecimal_decimal)

subsection \<open>Lists\<close>

text \<open>\<open>Iterator::find\<close> and \<open>Iterator::position\<close> over a list.\<close>

fun position :: "('a \<Rightarrow> bool) \<Rightarrow> 'a list \<Rightarrow> nat option" where
  "position p [] = None"
| "position p (x # xs) = (if p x then Some 0 else map_option Suc (position p xs))"

lemma position_Some:
  "position p xs = Some i \<Longrightarrow> i < length xs \<and> p (xs ! i) \<and> (\<forall>j < i. \<not> p (xs ! j))"
proof (induction xs arbitrary: i)
  case (Cons x xs)
  then show ?case
    by (auto split: if_splits simp: nth_Cons split: nat.splits)
qed simp

lemma position_None: "position p xs = None \<longleftrightarrow> (\<forall>x \<in> set xs. \<not> p x)"
  by (induction xs) auto

lemma find_SomeD: "find p xs = Some x \<Longrightarrow> x \<in> set xs \<and> p x"
  by (induction xs) (auto split: if_splits)

lemma sum_list_nth_drop:
  "i < length xs \<Longrightarrow> sum_list (map f (drop i xs)) = f (xs ! i) + sum_list (map f (drop (Suc i) xs))"
  for f :: "'a \<Rightarrow> nat"
  by (simp add: Cons_nth_drop_Suc [symmetric])

lemma sorted_wrt_less_Cons_drop:
  "sorted_wrt (<) (k # ks) \<Longrightarrow> (\<forall>x \<in> set ks. k < x)"
  by simp

text \<open>\<open>slice::chunks\<close>: pieces of \<open>n\<close> elements, the last one shorter.\<close>

function chunks :: "nat \<Rightarrow> 'a list \<Rightarrow> 'a list list" where
  "chunks n xs = (if n = 0 \<or> xs = [] then [] else take n xs # chunks n (drop n xs))"
  by pat_completeness auto
termination
  by (relation "measure (\<lambda>(n, xs). length xs)") auto

declare chunks.simps [simp del]

lemma chunks_Nil [simp]: "chunks n [] = []"
  by (simp add: chunks.simps)

lemma chunks_step: "0 < n \<Longrightarrow> xs \<noteq> [] \<Longrightarrow> chunks n xs = take n xs # chunks n (drop n xs)"
  by (simp add: chunks.simps [of n xs])

lemma concat_chunks [simp]: "0 < n \<Longrightarrow> concat (chunks n xs) = xs"
  by (induction n xs rule: chunks.induct) (metis append_take_drop_id chunks.simps concat.simps less_numeral_extra(3))

lemma chunks_bounds: "c \<in> set (chunks n xs) \<Longrightarrow> c \<noteq> [] \<and> length c \<le> n"
proof (induction n xs rule: chunks.induct)
  case (1 n xs)
  then show ?case
    by (cases "n = 0 \<or> xs = []") (auto simp: chunks.simps [of n xs])
qed

end
