(* ===== verification/Net.thy ===== *)
theory Net
  imports Prelude
begin

text \<open>
  \<open>crates/caudal-core/src/net.rs\<close>: networks in CIDR notation and the address a request is judged
  by behind trusted reverse proxies. The file rests on the standard library for parsing: the
  first two subsections model what it uses of \<open>str\<close> (\<open>trim\<close>, \<open>split\<close>, \<open>u8::from_str\<close>) and of
  \<open>core::net::parser\<close> (\<open>IpAddr::from_str\<close>).
\<close>

subsection \<open>String functions of the standard library\<close>

text \<open>The UTF-8 encodings of the characters with the Unicode property \<open>White_Space\<close>.\<close>

definition whitespace :: "string list" where
  "whitespace =
     map (map char_of) ([[9], [10], [11], [12], [13], [32], [0xC2, 0x85], [0xC2, 0xA0], [0xE1, 0x9A, 0x80]]
       @ map (\<lambda>k. [0xE2, 0x80, k]) [0x80..0x8A]
       @ [[0xE2, 0x80, 0xA8], [0xE2, 0x80, 0xA9], [0xE2, 0x80, 0xAF], [0xE2, 0x81, 0x9F], [0xE3, 0x80, 0x80 :: int]])"

text \<open>The rest of \<open>s\<close> after the first non-empty string of \<open>ws\<close> that it starts with.\<close>

fun strip_any :: "string list \<Rightarrow> string \<Rightarrow> string option" where
  "strip_any [] s = None"
| "strip_any (w # ws) s =
     (case strip_prefix w s of
        Some r \<Rightarrow> if w \<noteq> [] then Some r else strip_any ws s
      | None \<Rightarrow> strip_any ws s)"

lemma strip_any_shorter: "strip_any ws s = Some r \<Longrightarrow> length r < length s"
  by (induction ws) (auto split: option.splits if_splits simp: strip_prefix_Some)

function trim_front :: "string list \<Rightarrow> string \<Rightarrow> string" where
  "trim_front ws s = (case strip_any ws s of None \<Rightarrow> s | Some r \<Rightarrow> trim_front ws r)"
  by pat_completeness auto
termination
  by (relation "measure (\<lambda>(ws, s). length s)") (auto dest: strip_any_shorter)

declare trim_front.simps [simp del]

definition trim :: "string \<Rightarrow> string" where
  "trim s = rev (trim_front (map rev whitespace) (rev (trim_front whitespace s)))"

text \<open>\<open>str::split\<close> on one character: always at least one piece.\<close>

fun split_char :: "char \<Rightarrow> string \<Rightarrow> string list" where
  "split_char c [] = [[]]"
| "split_char c (d # s) =
     (if c = d then [] # split_char c s
      else (case split_char c s of [] \<Rightarrow> [[d]] | p # ps \<Rightarrow> (d # p) # ps))"

lemma split_char_nonempty [simp]: "split_char c s \<noteq> []"
  by (induction s) (auto split: list.splits)

lemma split_char_append: "split_char c (s @ [c] @ t) = split_char c s @ split_char c t"
  by (induction s) (auto split: list.splits)

text \<open>\<open>str::split_once\<close>.\<close>

fun split_once :: "char \<Rightarrow> string \<Rightarrow> (string \<times> string) option" where
  "split_once c [] = None"
| "split_once c (d # s) =
     (if c = d then Some ([], s)
      else map_option (\<lambda>(a, b). (d # a, b)) (split_once c s))"

definition digit_val :: "char \<Rightarrow> int" where
  "digit_val c = byte_of c - 48"

definition dec_value :: "string \<Rightarrow> int" where
  "dec_value ds = foldl (\<lambda>n c. n * 10 + digit_val c) 0 ds"

text \<open>\<open>u32::from_str\<close>: an optional \<open>+\<close>, then at least one digit and nothing else, in range.\<close>

definition parse_u32 :: "string \<Rightarrow> nat option" where
  "parse_u32 s =
     (let ds = (case s of c # r \<Rightarrow> if c = CHR ''+'' then r else s | [] \<Rightarrow> [])
      in if ds = [] \<or> \<not> list_all is_ascii_digit ds \<or> dec_value ds > 4294967295 then None
         else Some (nat (dec_value ds)))"

text \<open>\<open>u8::from_str\<close>: an optional \<open>+\<close>, then at least one digit and nothing else, at most 255.\<close>

definition parse_u8 :: "string \<Rightarrow> nat option" where
  "parse_u8 s =
     (let ds = (case s of c # r \<Rightarrow> if c = CHR ''+'' then r else s | [] \<Rightarrow> [])
      in if ds = [] \<or> \<not> list_all is_ascii_digit ds \<or> dec_value ds > 255 then None
         else Some (nat (dec_value ds)))"

subsection \<open>IP addresses and their parser\<close>

datatype ip_addr = V4 "32 word" | V6 "128 word"

text \<open>
  \<open>core::net::parser\<close>: each reader takes the remaining input and gives the value read and what
  is left, or \<open>None\<close> with the input untouched (\<open>read_atomically\<close>).
\<close>

definition hex_digit :: "char \<Rightarrow> int option" where
  "hex_digit c = (let b = byte_of c in
     if 48 \<le> b \<and> b \<le> 57 then Some (b - 48)
     else if 97 \<le> b \<and> b \<le> 102 then Some (b - 87)
     else if 65 \<le> b \<and> b \<le> 70 then Some (b - 55) else None)"

definition to_digit :: "int \<Rightarrow> char \<Rightarrow> int option" where
  "to_digit radix c = (case hex_digit c of
       Some d \<Rightarrow> if d < radix then Some d else None
     | None \<Rightarrow> None)"

definition read_number :: "int \<Rightarrow> nat \<Rightarrow> bool \<Rightarrow> int \<Rightarrow> string \<Rightarrow> (int \<times> string) option" where
  "read_number radix max_digits allow_zero_prefix limit s =
     (let ds = takeWhile (\<lambda>c. to_digit radix c \<noteq> None) s;
          n = foldl (\<lambda>n c. n * radix + the (to_digit radix c)) 0 ds
      in if ds = [] \<or> length ds > max_digits then None
         else if \<not> allow_zero_prefix \<and> hd ds = CHR ''0'' \<and> length ds > 1 then None
         else if n < limit then Some (n, drop (length ds) s) else None)"

definition read_given_char :: "char \<Rightarrow> string \<Rightarrow> string option" where
  "read_given_char c s = (case s of d # r \<Rightarrow> if d = c then Some r else None | [] \<Rightarrow> None)"

definition read_separator ::
    "char \<Rightarrow> nat \<Rightarrow> (string \<Rightarrow> ('a \<times> string) option) \<Rightarrow> string \<Rightarrow> ('a \<times> string) option" where
  "read_separator sep i inner s =
     (if i > 0 then (case read_given_char sep s of Some r \<Rightarrow> inner r | None \<Rightarrow> None) else inner s)"

fun read_octets :: "nat \<Rightarrow> nat \<Rightarrow> string \<Rightarrow> (int list \<times> string) option" where
  "read_octets 0 i s = Some ([], s)"
| "read_octets (Suc n) i s =
     (case read_separator CHR ''.'' i (read_number 10 3 False 256) s of
        None \<Rightarrow> None
      | Some (b, r) \<Rightarrow> map_option (\<lambda>(bs, r'). (b # bs, r')) (read_octets n (Suc i) r))"

definition read_ipv4 :: "string \<Rightarrow> (int list \<times> string) option" where
  "read_ipv4 s = read_octets 4 0 s"

text \<open>\<open>read_groups\<close>: the groups read, and whether they end in an embedded IPv4 address.\<close>

function read_groups :: "nat \<Rightarrow> nat \<Rightarrow> string \<Rightarrow> int list \<times> bool \<times> string" where
  "read_groups limit i s =
     (if i \<ge> limit then ([], False, s)
      else case (if i < limit - 1 then read_separator CHR '':'' i read_ipv4 s else None) of
        Some ([a, b, c, d], r) \<Rightarrow> ([a * 256 + b, c * 256 + d], True, r)
      | _ \<Rightarrow>
         (case read_separator CHR '':'' i (read_number 16 4 True 65536) s of
            None \<Rightarrow> ([], False, s)
          | Some (g, r) \<Rightarrow> (let (gs, v4, r') = read_groups limit (Suc i) r in (g # gs, v4, r'))))"
  by pat_completeness auto
termination
  by (relation "measure (\<lambda>(limit, i, s). limit - i)") auto

declare read_groups.simps [simp del]

definition read_ipv6 :: "string \<Rightarrow> (int list \<times> string) option" where
  "read_ipv6 s =
     (let (hd_groups, hd_v4, r) = read_groups 8 0 s
      in if length hd_groups = 8 then Some (hd_groups, r)
         else if hd_v4 then None
         else case Option.bind (read_given_char CHR '':'' r) (read_given_char CHR '':'') of
           None \<Rightarrow> None
         | Some r' \<Rightarrow>
             (let (tl_groups, _, r'') = read_groups (8 - (length hd_groups + 1)) 0 r'
              in Some (hd_groups @ replicate (8 - length hd_groups - length tl_groups) 0 @ tl_groups, r'')))"

definition be_value :: "int \<Rightarrow> int list \<Rightarrow> int" where
  "be_value base ds = foldl (\<lambda>n d. n * base + d) 0 ds"

text \<open>\<open>IpAddr::from_str\<close>: IPv4 first, then IPv6, and the whole input must be read.\<close>

definition parse_ip :: "string \<Rightarrow> ip_addr option" where
  "parse_ip s =
     (case read_ipv4 s of
        Some (os, []) \<Rightarrow> Some (V4 (word_of_int (be_value 256 os)))
      | Some _ \<Rightarrow> None
      | None \<Rightarrow>
         (case read_ipv6 s of
            Some (gs, []) \<Rightarrow> Some (V6 (word_of_int (be_value 65536 gs)))
          | _ \<Rightarrow> None))"

lemma parse_ip_examples:
  "parse_ip ''10.0.0.5'' = Some (V4 0x0A000005)"
  "parse_ip ''10.0.0.05'' = None"
  "parse_ip ''2001:db8::1'' = Some (V6 0x20010DB8000000000000000000000001)"
  "parse_ip ''::ffff:1.2.3.4'' = Some (V6 0xFFFF01020304)"
  "parse_ip ''not-an-ip'' = None"
  by code_simp+

subsection \<open>Networks\<close>

record cidr =
  cidr_addr :: ip_addr
  cidr_prefix :: nat

datatype cidr_error = NotAnAddress string | NonNumericPrefix string | PrefixTooLong string nat

definition max_prefix :: "ip_addr \<Rightarrow> nat" where
  "max_prefix a = (case a of V4 _ \<Rightarrow> 32 | V6 _ \<Rightarrow> 128)"

definition cidr_parse :: "string \<Rightarrow> cidr_error + cidr" where
  "cidr_parse s =
     (let (addr_part, prefix_part) =
            (case split_once CHR ''/'' s of Some (a, p) \<Rightarrow> (a, Some p) | None \<Rightarrow> (s, None))
      in case parse_ip (trim addr_part) of
           None \<Rightarrow> Inl (NotAnAddress s)
         | Some addr \<Rightarrow>
            (case prefix_part of
               Some p \<Rightarrow>
                 (case parse_u8 (trim p) of
                    None \<Rightarrow> Inl (NonNumericPrefix s)
                  | Some n \<Rightarrow>
                      if n > max_prefix addr then Inl (PrefixTooLong s (max_prefix addr))
                      else Inr \<lparr>cidr_addr = addr, cidr_prefix = n\<rparr>)
             | None \<Rightarrow> Inr \<lparr>cidr_addr = addr, cidr_prefix = max_prefix addr\<rparr>))"

definition v4_mask :: "nat \<Rightarrow> 32 word" where
  "v4_mask n = (if n = 0 then 0 else push_bit (32 - n) (- 1))"

definition v6_mask :: "nat \<Rightarrow> 128 word" where
  "v6_mask n = (if n = 0 then 0 else push_bit (128 - n) (- 1))"

unbundle bit_operations_syntax

definition cidr_contains :: "cidr \<Rightarrow> ip_addr \<Rightarrow> bool" where
  "cidr_contains c ip =
     (case (cidr_addr c, ip) of
        (V4 net, V4 i) \<Rightarrow> net AND v4_mask (cidr_prefix c) = i AND v4_mask (cidr_prefix c)
      | (V6 net, V6 i) \<Rightarrow> net AND v6_mask (cidr_prefix c) = i AND v6_mask (cidr_prefix c)
      | _ \<Rightarrow> False)"

definition cidr_wf :: "cidr \<Rightarrow> bool" where
  "cidr_wf c \<longleftrightarrow> cidr_prefix c \<le> max_prefix (cidr_addr c)"

lemma cidr_parse_wf: "cidr_parse s = Inr c \<Longrightarrow> cidr_wf c"
  by (auto simp: cidr_parse_def cidr_wf_def Let_def split: option.splits prod.splits if_splits)

text \<open>Masking with the top \<open>p\<close> bits compares exactly those bits.\<close>

lemma and_mask_eq_iff_drop_bit:
  fixes a b :: "'a::len word"
  assumes "p \<le> LENGTH('a)" and "0 < p"
  shows "a AND push_bit (LENGTH('a) - p) (- 1) = b AND push_bit (LENGTH('a) - p) (- 1) \<longleftrightarrow>
         drop_bit (LENGTH('a) - p) a = drop_bit (LENGTH('a) - p) b" (is "?L \<longleftrightarrow> ?R")
proof
  assume L: ?L
  show ?R
  proof (rule bit_word_eqI)
    fix n
    assume "n < LENGTH('a)"
    show "bit (drop_bit (LENGTH('a) - p) a) n \<longleftrightarrow> bit (drop_bit (LENGTH('a) - p) b) n"
    proof (cases "LENGTH('a) - p + n < LENGTH('a)")
      case True
      have "bit (a AND push_bit (LENGTH('a) - p) (- 1)) (LENGTH('a) - p + n) \<longleftrightarrow>
            bit (b AND push_bit (LENGTH('a) - p) (- 1)) (LENGTH('a) - p + n)"
        using L by simp
      with True show ?thesis by (simp add: bit_simps)
    next
      case False
      then have "\<not> bit a (LENGTH('a) - p + n)" and "\<not> bit b (LENGTH('a) - p + n)"
        by (meson bit_imp_le_length not_le)+
      then show ?thesis by (simp add: bit_simps)
    qed
  qed
next
  assume R: ?R
  show ?L
  proof (rule bit_word_eqI)
    fix n
    assume n: "n < LENGTH('a)"
    have "bit (drop_bit (LENGTH('a) - p) a) (n - (LENGTH('a) - p)) \<longleftrightarrow>
          bit (drop_bit (LENGTH('a) - p) b) (n - (LENGTH('a) - p))"
      using R by simp
    with n show "bit (a AND push_bit (LENGTH('a) - p) (- 1)) n \<longleftrightarrow>
          bit (b AND push_bit (LENGTH('a) - p) (- 1)) n"
      by (auto simp: bit_simps)
  qed
qed

lemma drop_bit_all: "drop_bit LENGTH('a) (a :: 'a::len word) = 0"
  by (rule bit_word_eqI) (simp add: bit_simps)

lemma and_v4_mask: "p \<le> 32 \<Longrightarrow> a AND v4_mask p = b AND v4_mask p \<longleftrightarrow> drop_bit (32 - p) a = drop_bit (32 - p) b"
  using and_mask_eq_iff_drop_bit [where 'a = 32, of p a b] drop_bit_all [where 'a = 32]
  by (cases "p = 0") (simp_all add: v4_mask_def)

lemma and_v6_mask: "p \<le> 128 \<Longrightarrow> a AND v6_mask p = b AND v6_mask p \<longleftrightarrow> drop_bit (128 - p) a = drop_bit (128 - p) b"
  using and_mask_eq_iff_drop_bit [where 'a = 128, of p a b] drop_bit_all [where 'a = 128]
  by (cases "p = 0") (simp_all add: v6_mask_def)

subsection \<open>Resolving the client address\<close>

definition is_trusted :: "cidr list \<Rightarrow> ip_addr \<Rightarrow> bool" where
  "is_trusted trusted ip \<longleftrightarrow> list_ex (\<lambda>c. cidr_contains c ip) trusted"

fun first_untrusted :: "cidr list \<Rightarrow> string list \<Rightarrow> ip_addr option" where
  "first_untrusted trusted [] = None"
| "first_untrusted trusted (part # parts) =
     (case parse_ip (trim part) of
        Some ip \<Rightarrow> if \<not> is_trusted trusted ip then Some ip else first_untrusted trusted parts
      | None \<Rightarrow> first_untrusted trusted parts)"

definition resolve_forwarded :: "ip_addr \<Rightarrow> string option \<Rightarrow> cidr list \<Rightarrow> ip_addr" where
  "resolve_forwarded peer forwarded_for trusted =
     (if \<not> is_trusted trusted peer then peer
      else case forwarded_for of
        None \<Rightarrow> peer
      | Some xff \<Rightarrow>
         (case first_untrusted trusted (rev (split_char CHR '','' xff)) of
            Some ip \<Rightarrow> ip
          | None \<Rightarrow> peer))"

lemma first_untrusted_append:
  "first_untrusted t (xs @ ys) =
     (case first_untrusted t xs of Some ip \<Rightarrow> Some ip | None \<Rightarrow> first_untrusted t ys)"
  by (induction xs) (auto split: option.splits)

lemma first_untrusted_SomeD: "first_untrusted t xs = Some ip \<Longrightarrow> \<not> is_trusted t ip"
  by (induction xs) (auto split: option.splits if_splits)

lemma first_untrusted_in: "first_untrusted t xs = Some ip \<Longrightarrow> \<exists>p \<in> set xs. parse_ip (trim p) = Some ip"
  by (induction xs) (auto split: option.splits if_splits)

subsection \<open>Properties\<close>

text \<open>
  A network parsed from text contains exactly the addresses of its own family that share
  its first \<open>prefix\<close> bits: a v4 network never contains a v6 address, \<open>/0\<close> contains its whole family
  and a bare address contains itself only.
\<close>

theorem cidr_contains_prefix_bits:
  assumes "cidr_parse s = Inr c"
  shows "cidr_contains c ip \<longleftrightarrow>
     (case (cidr_addr c, ip) of
        (V4 net, V4 i) \<Rightarrow> drop_bit (32 - cidr_prefix c) net = drop_bit (32 - cidr_prefix c) i
      | (V6 net, V6 i) \<Rightarrow> drop_bit (128 - cidr_prefix c) net = drop_bit (128 - cidr_prefix c) i
      | _ \<Rightarrow> False)"
proof -
  have wf: "cidr_prefix c \<le> max_prefix (cidr_addr c)"
    using cidr_parse_wf [OF assms] by (simp add: cidr_wf_def)
  show ?thesis
  proof (cases "cidr_addr c")
    case (V4 net)
    with wf have "cidr_prefix c \<le> 32" by (simp add: max_prefix_def)
    from and_v4_mask [OF this] show ?thesis by (cases ip) (simp_all add: cidr_contains_def V4)
  next
    case (V6 net)
    with wf have "cidr_prefix c \<le> 128" by (simp add: max_prefix_def)
    from and_v6_mask [OF this] show ?thesis by (cases ip) (simp_all add: cidr_contains_def V6)
  qed
qed

theorem cidr_contains_prefix_bits_witness:
  "cidr_contains \<lparr>cidr_addr = V4 0x0A000000, cidr_prefix = 8\<rparr> (V4 0x0AFFFFFF) \<and>
   \<not> cidr_contains \<lparr>cidr_addr = V4 0x0A000000, cidr_prefix = 8\<rparr> (V6 0)"
proof -
  have "cidr_parse ''10.0.0.0/8'' = Inr \<lparr>cidr_addr = V4 0x0A000000, cidr_prefix = 8\<rparr>"
    by code_simp
  note c = cidr_contains_prefix_bits [OF this]
  have "drop_bit 24 (0x0A000000 :: 32 word) = drop_bit 24 0x0AFFFFFF"
    by code_simp
  then show ?thesis by (simp add: c)
qed

text \<open>
  Claim C8. A client cannot choose the address it is judged by. Behind an untrusted peer the header
  is ignored; behind a trusted one, whatever the client writes in front of the hops the proxies
  appended changes nothing, and the address found is one of the appended hops and is not a trusted
  proxy.
\<close>

theorem forwarded_for_not_spoofable:
  assumes "first_untrusted trusted (rev (split_char CHR '','' hops)) = Some ip"
  shows "resolve_forwarded peer (Some (spoofed @ [CHR '',''] @ hops)) trusted =
         (if is_trusted trusted peer then ip else peer) \<and>
     \<not> is_trusted trusted ip \<and> (\<exists>part \<in> set (split_char CHR '','' hops). parse_ip (trim part) = Some ip)"
proof -
  have f: "first_untrusted trusted (rev (split_char CHR '','' (spoofed @ [CHR '',''] @ hops))) = Some ip"
    unfolding split_char_append rev_append first_untrusted_append assms option.case by (rule refl)
  have "resolve_forwarded peer (Some (spoofed @ [CHR '',''] @ hops)) trusted =
        (if is_trusted trusted peer then ip else peer)"
    unfolding resolve_forwarded_def option.case f by (cases "is_trusted trusted peer") simp_all
  with first_untrusted_SomeD [OF assms] first_untrusted_in [OF assms] show ?thesis
    unfolding set_rev by argo
qed

theorem forwarded_for_not_spoofable_witness:
  "resolve_forwarded (V4 0x0A000001) (Some (''10.9.9.9'' @ [CHR '',''] @ ''198.51.100.1, 10.0.0.2''))
     [\<lparr>cidr_addr = V4 0x0A000000, cidr_prefix = 8\<rparr>] = V4 0xC6336401"
proof -
  have h: "first_untrusted [\<lparr>cidr_addr = V4 0x0A000000, cidr_prefix = 8\<rparr>]
      (rev (split_char CHR '','' ''198.51.100.1, 10.0.0.2'')) = Some (V4 0xC6336401)"
    by code_simp
  have "is_trusted [\<lparr>cidr_addr = V4 0x0A000000, cidr_prefix = 8\<rparr>] (V4 0x0A000001)"
    by code_simp
  with forwarded_for_not_spoofable [OF h, of "V4 0x0A000001" "''10.9.9.9''"] show ?thesis by argo
qed

end
