(* ===== verification/Media.thy ===== *)
theory Media
  imports Prelude
begin

text \<open>
  \<open>crates/caudal-core/src/media.rs\<close>: tracks, frames and cues, the media model every other
  component speaks. Timestamps are \<open>i64\<close> in the source and \<open>int\<close> here; where a conversion can
  leave the \<open>i64\<close> range the cast is written out (\<open>wrap64\<close>). Payload bytes (\<open>Bytes\<close>) are byte
  lists: the reference counting that makes a frame cheap to share is not observable.
\<close>

subsection \<open>Track identifiers\<close>

datatype track_id = TrackId (track_num: u32)

text \<open>\<open>#[derive(PartialOrd, Ord)]\<close> on the newtype: the order of the wrapped \<open>u32\<close>.\<close>

instantiation track_id :: linorder
begin

definition less_eq_track_id :: "track_id \<Rightarrow> track_id \<Rightarrow> bool" where
  "less_eq_track_id a b \<longleftrightarrow> track_num a \<le> track_num b"

definition less_track_id :: "track_id \<Rightarrow> track_id \<Rightarrow> bool" where
  "less_track_id a b \<longleftrightarrow> track_num a < track_num b"

instance
  by standard (auto simp: less_eq_track_id_def less_track_id_def intro: track_id.expand)

end

subsection \<open>Codecs and kinds\<close>

datatype track_kind = Video | Audio | Subtitle | Data

datatype codec =
  H264 | H265 | Av1 | Vp8 | Vp9 | Aac | Opus | Mp3 | Ac3 | Eac3 | Flac | Pcm | WebVtt | Scte35 | Json

fun track_kind_as_str :: "track_kind \<Rightarrow> string" where
  "track_kind_as_str Video = ''video''"
| "track_kind_as_str Audio = ''audio''"
| "track_kind_as_str Subtitle = ''subtitle''"
| "track_kind_as_str Data = ''data''"

fun codec_as_str :: "codec \<Rightarrow> string" where
  "codec_as_str H264 = ''h264''"
| "codec_as_str H265 = ''h265''"
| "codec_as_str Av1 = ''av1''"
| "codec_as_str Vp8 = ''vp8''"
| "codec_as_str Vp9 = ''vp9''"
| "codec_as_str Aac = ''aac''"
| "codec_as_str Opus = ''opus''"
| "codec_as_str Mp3 = ''mp3''"
| "codec_as_str Ac3 = ''ac3''"
| "codec_as_str Eac3 = ''eac3''"
| "codec_as_str Flac = ''flac''"
| "codec_as_str Pcm = ''pcm''"
| "codec_as_str WebVtt = ''webvtt''"
| "codec_as_str Scte35 = ''scte35''"
| "codec_as_str Json = ''json''"

fun codec_kind :: "codec \<Rightarrow> track_kind" where
  "codec_kind H264 = Video"
| "codec_kind H265 = Video"
| "codec_kind Av1 = Video"
| "codec_kind Vp8 = Video"
| "codec_kind Vp9 = Video"
| "codec_kind Aac = Audio"
| "codec_kind Opus = Audio"
| "codec_kind Mp3 = Audio"
| "codec_kind Ac3 = Audio"
| "codec_kind Eac3 = Audio"
| "codec_kind Flac = Audio"
| "codec_kind Pcm = Audio"
| "codec_kind WebVtt = Subtitle"
| "codec_kind Scte35 = Data"
| "codec_kind Json = Data"

lemma inj_codec_as_str: "codec_as_str c = codec_as_str d \<Longrightarrow> c = d"
  by (cases c; cases d) simp_all

subsection \<open>Tracks\<close>

text \<open>
  \<open>fps\<close> is an \<open>f64\<close>, kept as its IEEE 754 bit pattern. \<open>f64_eq\<close> is the comparison the derived
  \<open>PartialEq\<close> uses: a NaN equals nothing, the two zeros are equal, otherwise the bits decide.
\<close>

type_synonym f64_bits = "64 word"

definition f64_is_nan :: "f64_bits \<Rightarrow> bool" where
  "f64_is_nan w \<longleftrightarrow> uint w mod 2 ^ 63 > 0x7FF0000000000000"

definition f64_is_zero :: "f64_bits \<Rightarrow> bool" where
  "f64_is_zero w \<longleftrightarrow> uint w mod 2 ^ 63 = 0"

definition f64_eq :: "f64_bits \<Rightarrow> f64_bits \<Rightarrow> bool" where
  "f64_eq a b \<longleftrightarrow> \<not> f64_is_nan a \<and> \<not> f64_is_nan b \<and> (a = b \<or> (f64_is_zero a \<and> f64_is_zero b))"

record video_params =
  vp_width :: u32
  vp_height :: u32
  vp_fps :: "f64_bits option"

record audio_params =
  ap_sample_rate :: u32
  ap_channels :: u8

record track_info =
  ti_id :: track_id
  ti_codec :: codec
  ti_timescale :: u32
  ti_init :: bytes
  ti_lang :: "string option"
  ti_video :: "video_params option"
  ti_audio :: "audio_params option"

text \<open>The derived \<open>PartialEq\<close> of \<open>VideoParams\<close> and \<open>TrackInfo\<close>.\<close>

definition opt_eq :: "('a \<Rightarrow> 'a \<Rightarrow> bool) \<Rightarrow> 'a option \<Rightarrow> 'a option \<Rightarrow> bool" where
  "opt_eq eq a b = (case (a, b) of
       (None, None) \<Rightarrow> True
     | (Some x, Some y) \<Rightarrow> eq x y
     | _ \<Rightarrow> False)"

definition video_params_eq :: "video_params \<Rightarrow> video_params \<Rightarrow> bool" where
  "video_params_eq a b \<longleftrightarrow>
     vp_width a = vp_width b \<and> vp_height a = vp_height b \<and> opt_eq f64_eq (vp_fps a) (vp_fps b)"

definition track_info_eq :: "track_info \<Rightarrow> track_info \<Rightarrow> bool" where
  "track_info_eq a b \<longleftrightarrow>
     ti_id a = ti_id b \<and> ti_codec a = ti_codec b \<and> ti_timescale a = ti_timescale b \<and>
     ti_init a = ti_init b \<and> ti_lang a = ti_lang b \<and>
     opt_eq video_params_eq (ti_video a) (ti_video b) \<and> ti_audio a = ti_audio b"

definition tracks_eq :: "track_info list \<Rightarrow> track_info list \<Rightarrow> bool" where
  "tracks_eq xs ys \<longleftrightarrow> list_all2 track_info_eq xs ys"

definition track_kind_of :: "track_info \<Rightarrow> track_kind" where
  "track_kind_of t = codec_kind (ti_codec t)"

text \<open>The intermediate product is an \<open>i128\<close>, which an \<open>i64\<close> times a million always fits.\<close>

definition to_micros :: "track_info \<Rightarrow> int \<Rightarrow> int" where
  "to_micros t ts = wrap64 ((ts * 1000000) sdiv max (uint (ti_timescale t)) 1)"

lemma in_i64_to_micros [simp]: "in_i64 (to_micros t ts)"
  by (simp add: to_micros_def)

lemma to_micros_mono:
  assumes "ts \<le> ts'"
    and "in_i64 ((ts * 1000000) sdiv max (uint (ti_timescale t)) 1)"
    and "in_i64 ((ts' * 1000000) sdiv max (uint (ti_timescale t)) 1)"
  shows "to_micros t ts \<le> to_micros t ts'"
  using assms by (simp add: to_micros_def wrap64_id sdiv_mono)

lemma opt_eq_refl: "(\<And>x. a = Some x \<Longrightarrow> eq x x) \<Longrightarrow> opt_eq eq a a"
  by (auto simp: opt_eq_def split: option.splits)

lemma tracks_eq_length: "tracks_eq xs ys \<Longrightarrow> length xs = length ys"
  by (simp add: tracks_eq_def list_all2_lengthD)

lemma track_info_eq_kind: "track_info_eq a b \<Longrightarrow> track_kind_of a = track_kind_of b"
  by (simp add: track_info_eq_def track_kind_of_def)

subsection \<open>Frames and cues\<close>

record frame =
  fr_track :: track_id
  fr_dts :: int
  fr_pts :: int
  fr_keyframe :: bool
  fr_data :: bytes

datatype cue_kind = CueOut (out_duration_us: "int option") | CueIn | CueOther

fun cue_kind_as_str :: "cue_kind \<Rightarrow> string" where
  "cue_kind_as_str (CueOut _) = ''out''"
| "cue_kind_as_str CueIn = ''in''"
| "cue_kind_as_str CueOther = ''other''"

record cue =
  cue_at_us :: int
  cue_section :: bytes
  cue_kind_of :: cue_kind

subsection \<open>Stream names\<close>

definition stream_name_byte :: "char \<Rightarrow> bool" where
  "stream_name_byte b \<longleftrightarrow>
     is_ascii_alphanumeric b \<or> b = CHR ''_'' \<or> b = CHR ''-'' \<or> b = CHR ''.'' \<or> b = CHR ''+''"

definition valid_stream_name :: "string \<Rightarrow> bool" where
  "valid_stream_name name \<longleftrightarrow>
     name \<noteq> [] \<and> length name \<le> 128 \<and> \<not> (hd name = CHR ''.'') \<and> list_all stream_name_byte name"

lemma valid_stream_name_examples:
  "valid_stream_name ''live+wildcard''" "valid_stream_name ''event-2026.main''"
  "\<not> valid_stream_name ''.hidden''" "\<not> valid_stream_name ''a/b''" "\<not> valid_stream_name []"
  by (simp_all add: valid_stream_name_def stream_name_byte_def ascii_defs)

end
