(* ===== verification/Ring.thy ===== *)
theory Ring
  imports Media
begin

text \<open>
  \<open>crates/caudal-core/src/stream.rs\<close>, the ring between one publisher and many viewers: its state,
  the three eviction routines and the write operations (\<open>set_tracks\<close>, \<open>push\<close>, \<open>inject_cue\<close>,
  \<open>end\<close>), each under the write lock and therefore one step. A result of \<open>None\<close> is a panic or a
  loop that does not end; \<open>Some (Inl e)\<close> is \<open>Err(e)\<close>. Sequence numbers are \<open>nat\<close>: a \<open>u64\<close> that
  only grows by one per pushed frame.
\<close>

subsection \<open>Data\<close>

record buffer_config =
  bc_window :: duration
  bc_max_bytes :: nat

definition buffer_config_default :: buffer_config where
  "buffer_config_default = \<lparr>bc_window = 50 * 10 ^ 9, bc_max_bytes = 256 * 1024 * 1024\<rparr>"

datatype push_error = UnknownTrack track_id | Ended

datatype start_at = LiveEdge | Oldest

datatype event =
  FrameEv frame
| TracksChanged
| Lagged (lagged_skipped: nat)
| CueEv cue
| End

datatype item = FrameItem frame | CueItem cue

fun item_len :: "item \<Rightarrow> nat" where
  "item_len (FrameItem f) = length (fr_data f)"
| "item_len (CueItem c) = length (cue_section c)"

fun item_event :: "item \<Rightarrow> event" where
  "item_event (FrameItem f) = FrameEv f"
| "item_event (CueItem c) = CueEv c"

record entry =
  en_item :: item
  en_micros :: int

record ring =
  rg_frames :: "entry list"
  rg_base :: nat
  rg_keys :: "nat list"
  rg_bytes :: nat
  rg_newest :: int
  rg_tracks :: "track_info list"
  rg_tracks_version :: nat
  rg_has_video :: bool
  rg_ended :: bool

definition ring_new :: ring where
  "ring_new = \<lparr>rg_frames = [], rg_base = 0, rg_keys = [], rg_bytes = 0, rg_newest = i64_min,
     rg_tracks = [], rg_tracks_version = 0, rg_has_video = False, rg_ended = False\<rparr>"

abbreviation entry_len :: "entry \<Rightarrow> nat" where
  "entry_len e \<equiv> item_len (en_item e)"

subsection \<open>Reading the ring\<close>

definition end_seq :: "ring \<Rightarrow> nat" where
  "end_seq r = rg_base r + length (rg_frames r)"

definition micros_at :: "ring \<Rightarrow> nat \<Rightarrow> int option" where
  "micros_at r seq =
     (if rg_base r \<le> seq \<and> seq - rg_base r < length (rg_frames r)
      then Some (en_micros (rg_frames r ! (seq - rg_base r))) else None)"

subsection \<open>Eviction\<close>

text \<open>\<open>evict_to\<close>: the first loop pops \<open>seq - base\<close> entries, the second drops the keys they held.\<close>

fun pop_entries :: "profile \<Rightarrow> nat \<Rightarrow> entry list \<Rightarrow> nat \<Rightarrow> nat \<Rightarrow> (entry list \<times> nat \<times> nat) option" where
  "pop_entries p 0 fs base bytes = Some (fs, base, bytes)"
| "pop_entries p (Suc n) [] base bytes = None"
| "pop_entries p (Suc n) (e # fs) base bytes =
     (case checked_sub64 p bytes (entry_len e) of
        None \<Rightarrow> None
      | Some bytes' \<Rightarrow> pop_entries p n fs (Suc base) bytes')"

definition evict_to :: "profile \<Rightarrow> ring \<Rightarrow> nat \<Rightarrow> ring option" where
  "evict_to p r seq =
     (case pop_entries p (seq - rg_base r) (rg_frames r) (rg_base r) (rg_bytes r) of
        None \<Rightarrow> None
      | Some (fs, base, bytes) \<Rightarrow>
          Some (r\<lparr>rg_frames := fs, rg_base := base, rg_bytes := bytes,
                  rg_keys := dropWhile (\<lambda>k. k < base) (rg_keys r)\<rparr>))"

partial_function (option) evict_gops ::
    "profile \<Rightarrow> buffer_config \<Rightarrow> int \<Rightarrow> ring \<Rightarrow> ring option" where
  "evict_gops p cfg cutoff r =
     (if length (rg_keys r) \<ge> 2
      then (let second = rg_keys r ! 1; over_bytes = rg_bytes r > bc_max_bytes cfg
            in Option.bind (if over_bytes then Some True
                            else map_option (\<lambda>m. m \<le> cutoff) (micros_at r second))
                 (\<lambda>drop_gop. if drop_gop
                    then Option.bind (evict_to p r second) (\<lambda>r'. evict_gops p cfg cutoff r')
                    else Some r))
      else Some r)"

partial_function (option) evict_bytes :: "profile \<Rightarrow> buffer_config \<Rightarrow> ring \<Rightarrow> ring option" where
  "evict_bytes p cfg r =
     (if rg_bytes r > bc_max_bytes cfg \<and> length (rg_frames r) > 1
      then Option.bind (evict_to p r (rg_base r + 1)) (\<lambda>r'. evict_bytes p cfg r')
      else Some r)"

definition window_micros :: "buffer_config \<Rightarrow> int" where
  "window_micros cfg = wrap64 (int (as_micros (bc_window cfg)))"

definition evict :: "profile \<Rightarrow> buffer_config \<Rightarrow> ring \<Rightarrow> ring option" where
  "evict p cfg r =
     Option.bind (case rg_keys r of [] \<Rightarrow> Some r | first # _ \<Rightarrow> evict_to p r first) (\<lambda>r1.
     Option.bind (checked64 p (rg_newest r1 - window_micros cfg)) (\<lambda>cutoff.
     Option.bind (evict_gops p cfg cutoff r1) (\<lambda>r2.
       if length (rg_keys r2) < 2 then evict_bytes p cfg r2 else Some r2)))"

subsection \<open>Writing\<close>

definition ring_set_tracks :: "ring \<Rightarrow> track_info list \<Rightarrow> push_error + ring" where
  "ring_set_tracks r tracks =
     (if rg_ended r then Inl Ended
      else if tracks_eq (rg_tracks r) tracks then Inr r
      else Inr (r\<lparr>rg_has_video := list_ex (\<lambda>t. track_kind_of t = Video) tracks,
                  rg_tracks := tracks, rg_tracks_version := rg_tracks_version r + 1\<rparr>))"

definition is_sync :: "ring \<Rightarrow> track_info \<Rightarrow> frame \<Rightarrow> bool" where
  "is_sync r t f \<longleftrightarrow> fr_keyframe f \<and> (track_kind_of t = Video \<or> \<not> rg_has_video r)"

definition append_frame :: "ring \<Rightarrow> track_info \<Rightarrow> frame \<Rightarrow> ring" where
  "append_frame r t f =
     (let micros = to_micros t (fr_dts f) in
      r\<lparr>rg_keys := (if is_sync r t f then rg_keys r @ [end_seq r] else rg_keys r),
        rg_newest := max (rg_newest r) micros,
        rg_bytes := rg_bytes r + length (fr_data f),
        rg_frames := rg_frames r @ [\<lparr>en_item = FrameItem f, en_micros = micros\<rparr>]\<rparr>)"

definition ring_push :: "profile \<Rightarrow> buffer_config \<Rightarrow> ring \<Rightarrow> frame \<Rightarrow> (push_error + ring) option" where
  "ring_push p cfg r f =
     (if rg_ended r then Some (Inl Ended)
      else case find (\<lambda>t. ti_id t = fr_track f) (rg_tracks r) of
        None \<Rightarrow> Some (Inl (UnknownTrack (fr_track f)))
      | Some t \<Rightarrow> map_option Inr (evict p cfg (append_frame r t f)))"

definition append_cue :: "ring \<Rightarrow> cue \<Rightarrow> ring" where
  "append_cue r c =
     (let micros = (if rg_newest r = i64_min then cue_at_us c else rg_newest r) in
      r\<lparr>rg_bytes := rg_bytes r + length (cue_section c),
        rg_frames := rg_frames r @ [\<lparr>en_item = CueItem c, en_micros = micros\<rparr>]\<rparr>)"

definition ring_inject_cue :: "profile \<Rightarrow> buffer_config \<Rightarrow> ring \<Rightarrow> cue \<Rightarrow> (push_error + ring) option" where
  "ring_inject_cue p cfg r c =
     (if rg_ended r then Some (Inl Ended)
      else map_option Inr (evict p cfg (append_cue r c)))"

definition ring_end :: "ring \<Rightarrow> ring" where
  "ring_end r = r\<lparr>rg_ended := True\<rparr>"

definition ring_newest_micros :: "ring \<Rightarrow> int option" where
  "ring_newest_micros r = (if rg_newest r \<noteq> i64_min then Some (rg_newest r) else None)"

subsection \<open>The invariant\<close>

text \<open>
  \<open>ring_core\<close> is what the fields agree on at every moment, also between an append and the
  eviction that follows it; \<open>ring_inv\<close> is what holds whenever the lock is free: the oldest join
  point is the oldest entry.
\<close>

definition is_key_entry :: "entry \<Rightarrow> bool" where
  "is_key_entry e \<longleftrightarrow> (case en_item e of FrameItem f \<Rightarrow> fr_keyframe f | CueItem _ \<Rightarrow> False)"

definition ring_core :: "ring \<Rightarrow> bool" where
  "ring_core r \<longleftrightarrow>
     sorted_wrt (<) (rg_keys r) \<and>
     (\<forall>k \<in> set (rg_keys r). rg_base r \<le> k \<and> k < end_seq r \<and>
        is_key_entry (rg_frames r ! (k - rg_base r))) \<and>
     rg_bytes r = sum_list (map entry_len (rg_frames r))"

definition ring_inv :: "ring \<Rightarrow> bool" where
  "ring_inv r \<longleftrightarrow> ring_core r \<and> (rg_keys r \<noteq> [] \<longrightarrow> hd (rg_keys r) = rg_base r)"

text \<open>The ring without its \<open>n\<close> oldest entries: what every eviction routine amounts to.\<close>

definition ring_drop :: "nat \<Rightarrow> ring \<Rightarrow> ring" where
  "ring_drop n r = r\<lparr>rg_frames := drop n (rg_frames r), rg_base := rg_base r + n,
     rg_bytes := sum_list (map entry_len (drop n (rg_frames r))),
     rg_keys := filter (\<lambda>k. rg_base r + n \<le> k) (rg_keys r)\<rparr>"

lemma ring_drop_sel [simp]:
  "rg_frames (ring_drop n r) = drop n (rg_frames r)"
  "rg_base (ring_drop n r) = rg_base r + n"
  "rg_bytes (ring_drop n r) = sum_list (map entry_len (drop n (rg_frames r)))"
  "rg_keys (ring_drop n r) = filter (\<lambda>k. rg_base r + n \<le> k) (rg_keys r)"
  "rg_newest (ring_drop n r) = rg_newest r" "rg_tracks (ring_drop n r) = rg_tracks r"
  "rg_tracks_version (ring_drop n r) = rg_tracks_version r"
  "rg_has_video (ring_drop n r) = rg_has_video r" "rg_ended (ring_drop n r) = rg_ended r"
  by (simp_all add: ring_drop_def)

lemma ring_inv_core [dest]: "ring_inv r \<Longrightarrow> ring_core r"
  by (simp add: ring_inv_def)

lemma ring_core_keys:
  "ring_core r \<Longrightarrow> k \<in> set (rg_keys r) \<Longrightarrow> rg_base r \<le> k \<and> k < end_seq r"
  by (simp add: ring_core_def)

lemma end_seq_ring_drop: "n \<le> length (rg_frames r) \<Longrightarrow> end_seq (ring_drop n r) = end_seq r"
  by (simp add: end_seq_def)

lemma ring_core_drop [inv_intros]:
  assumes "ring_core r" and "n \<le> length (rg_frames r)"
  shows "ring_core (ring_drop n r)"
  unfolding ring_core_def
proof (intro conjI ballI)
  show "sorted_wrt (<) (rg_keys (ring_drop n r))"
    using assms(1) by (simp add: ring_core_def sorted_wrt_filter)
next
  fix k
  assume "k \<in> set (rg_keys (ring_drop n r))"
  then have k: "k \<in> set (rg_keys r)" "rg_base r + n \<le> k"
    by auto
  then have "n + (k - (rg_base r + n)) = k - rg_base r"
    by simp
  with k assms show "rg_base (ring_drop n r) \<le> k" and "k < end_seq (ring_drop n r)"
    and "is_key_entry (rg_frames (ring_drop n r) ! (k - rg_base (ring_drop n r)))"
    by (auto simp: ring_core_def end_seq_ring_drop)
qed simp

lemma ring_drop_0: "ring_core r \<Longrightarrow> ring_drop 0 r = r"
  by (auto simp: ring_drop_def ring_core_def intro!: ring.equality filter_True)

lemma ring_drop_drop: "ring_drop m (ring_drop n r) = ring_drop (n + m) r"
  by (auto simp: ring_drop_def add.commute add.assoc intro!: ring.equality filter_cong)

lemma dropWhile_keys:
  fixes b :: nat
  shows "sorted_wrt (<) ks \<Longrightarrow> dropWhile (\<lambda>k. k < b) ks = filter (\<lambda>k. b \<le> k) ks"
  by (induction ks) (auto intro!: filter_True [symmetric])

lemma pop_entries_spec:
  "n \<le> length fs \<Longrightarrow> bytes = sum_list (map entry_len fs) \<Longrightarrow>
   pop_entries p n fs base bytes = Some (drop n fs, base + n, sum_list (map entry_len (drop n fs)))"
  by (induction p n fs base bytes rule: pop_entries.induct) auto

lemma evict_to_spec:
  assumes "ring_core r" and "rg_base r \<le> seq" and "seq \<le> end_seq r"
  shows "evict_to p r seq = Some (ring_drop (seq - rg_base r) r)"
proof -
  have "seq - rg_base r \<le> length (rg_frames r)"
    using assms by (simp add: end_seq_def)
  with assms show ?thesis
    by (auto simp: evict_to_def pop_entries_spec ring_core_def dropWhile_keys ring_drop_def
        intro!: ring.equality)
qed

lemma micros_at_in_ring:
  "rg_base r \<le> s \<Longrightarrow> s < end_seq r \<Longrightarrow> micros_at r s = Some (en_micros (rg_frames r ! (s - rg_base r)))"
  by (auto simp: micros_at_def end_seq_def)

text \<open>What an eviction loop leaves behind.\<close>

definition gops_bounded :: "buffer_config \<Rightarrow> int \<Rightarrow> ring \<Rightarrow> bool" where
  "gops_bounded cfg cutoff r \<longleftrightarrow>
     (length (rg_keys r) \<ge> 2 \<longrightarrow>
        rg_bytes r \<le> bc_max_bytes cfg \<and> (\<exists>m. micros_at r (rg_keys r ! 1) = Some m \<and> cutoff < m))"

lemma filter_second_key:
  fixes k1 :: nat
  assumes "sorted_wrt (<) (k1 # k2 # ks)"
  shows "filter (\<lambda>k. k2 \<le> k) (k1 # k2 # ks) = k2 # ks"
  using assms by (auto intro!: filter_True)

lemma evict_gops_spec:
  assumes "ring_inv r" and "rg_keys r \<noteq> []"
  shows "\<exists>n < length (rg_frames r). evict_gops p cfg cutoff r = Some (ring_drop n r) \<and>
     ring_inv (ring_drop n r) \<and> gops_bounded cfg cutoff (ring_drop n r)"
  using assms
proof (induction "length (rg_keys r)" arbitrary: r rule: less_induct)
  case less
  then have core: "ring_core r" and hd: "hd (rg_keys r) = rg_base r"
    by (auto simp: ring_inv_def)
  then have ne: "0 < length (rg_frames r)"
    using less.prems(2) ring_core_keys [OF core hd_in_set] by (auto simp: end_seq_def)
  show ?case
  proof (cases "length (rg_keys r) \<ge> 2")
    case False
    then show ?thesis
      using ne less.prems core
      by (intro exI [of _ 0]) (simp add: evict_gops.simps ring_drop_0 gops_bounded_def)
  next
    case True
    then obtain k1 k2 ks where keys: "rg_keys r = k1 # k2 # ks"
      by (cases "rg_keys r"; cases "tl (rg_keys r)") auto
    have k2: "rg_base r < k2" "k2 < end_seq r"
      using core hd ring_core_keys [OF core, of k2] by (auto simp: keys ring_core_def)
    let ?m = "en_micros (rg_frames r ! (k2 - rg_base r))"
    have m: "micros_at r k2 = Some ?m"
      using k2 by (simp add: micros_at_in_ring)
    show ?thesis
    proof (cases "rg_bytes r > bc_max_bytes cfg \<or> ?m \<le> cutoff")
      case False
      then show ?thesis
        using ne less.prems core keys m
        by (intro exI [of _ 0]) (simp add: evict_gops.simps ring_drop_0 gops_bounded_def)
    next
      case True
      define r' where "r' = ring_drop (k2 - rg_base r) r"
      have step: "evict_gops p cfg cutoff r = evict_gops p cfg cutoff r'"
        using True keys m k2 core
        by (subst evict_gops.simps) (auto simp: evict_to_spec r'_def)
      have keys': "rg_keys r' = k2 # ks"
        using filter_second_key [of k1 k2 ks] core k2 unfolding r'_def ring_drop_sel ring_core_def keys
        by simp
      have inv': "ring_inv r'"
        using ring_core_drop [OF core, of "k2 - rg_base r"] k2 keys'
        by (simp add: ring_inv_def r'_def end_seq_def)
      obtain n where n: "n < length (rg_frames r')" "evict_gops p cfg cutoff r' = Some (ring_drop n r')"
          "ring_inv (ring_drop n r')" "gops_bounded cfg cutoff (ring_drop n r')"
        using less.hyps [of r'] inv' keys keys' by auto
      then show ?thesis
        using step by (intro exI [of _ "k2 - rg_base r + n"]) (auto simp: r'_def ring_drop_drop)
    qed
  qed
qed

lemma evict_bytes_spec:
  assumes "ring_core r"
  shows "\<exists>n. (n = 0 \<or> n < length (rg_frames r)) \<and> evict_bytes p cfg r = Some (ring_drop n r) \<and>
     (rg_bytes (ring_drop n r) \<le> bc_max_bytes cfg \<or> length (rg_frames (ring_drop n r)) \<le> 1)"
  using assms
proof (induction "length (rg_frames r)" arbitrary: r rule: less_induct)
  case less
  show ?case
  proof (cases "rg_bytes r > bc_max_bytes cfg \<and> length (rg_frames r) > 1")
    case False
    then have "evict_bytes p cfg r = Some (ring_drop 0 r)"
      using less.prems by (subst evict_bytes.simps) (auto simp: ring_drop_0)
    then show ?thesis
      using False less.prems ring_drop_0 [OF less.prems] by (intro exI [of _ 0]) auto
  next
    case True
    define r' where "r' = ring_drop 1 r"
    have "evict_to p r (rg_base r + 1) = Some r'"
      using True less.prems by (simp add: evict_to_spec r'_def end_seq_def)
    then have step: "evict_bytes p cfg r = evict_bytes p cfg r'"
      using True by (subst evict_bytes.simps) simp
    have "ring_core r'" and "length (rg_frames r') < length (rg_frames r)"
      using True less.prems by (auto simp: r'_def intro!: ring_core_drop)
    then obtain n where n: "n = 0 \<or> n < length (rg_frames r')"
        "evict_bytes p cfg r' = Some (ring_drop n r')"
        "rg_bytes (ring_drop n r') \<le> bc_max_bytes cfg \<or> length (rg_frames (ring_drop n r')) \<le> 1"
      using less.hyps by blast
    have "ring_drop n r' = ring_drop (1 + n) r"
      by (simp only: r'_def ring_drop_drop)
    then show ?thesis
      using n step True by (intro exI [of _ "1 + n"]) (auto simp: r'_def)
  qed
qed

text \<open>
  Eviction as a whole. The only way it can fail is the subtraction that computes the cutoff, in a
  debug build.
\<close>

lemma evict_spec:
  assumes core: "ring_core r" and cut: "checked64 p (rg_newest r - window_micros cfg) = Some cutoff"
  shows "\<exists>n \<le> length (rg_frames r). evict p cfg r = Some (ring_drop n r) \<and>
     ring_inv (ring_drop n r) \<and> gops_bounded cfg cutoff (ring_drop n r) \<and>
     (rg_frames r \<noteq> [] \<longrightarrow> n < length (rg_frames r)) \<and>
     (rg_bytes (ring_drop n r) \<le> bc_max_bytes cfg \<or> length (rg_frames (ring_drop n r)) \<le> 1)"
proof (cases "rg_keys r")
  case Nil
  obtain n where n: "n = 0 \<or> n < length (rg_frames r)" "evict_bytes p cfg r = Some (ring_drop n r)"
      "rg_bytes (ring_drop n r) \<le> bc_max_bytes cfg \<or> length (rg_frames (ring_drop n r)) \<le> 1"
    using evict_bytes_spec [OF core] by blast
  have "evict p cfg r = Some (ring_drop n r)"
    using Nil cut n by (simp add: evict_def evict_gops.simps)
  moreover have "ring_inv (ring_drop n r)"
    using core n(1) Nil by (auto simp: ring_inv_def intro: ring_core_drop)
  moreover have "gops_bounded cfg cutoff (ring_drop n r)"
    using Nil by (simp add: gops_bounded_def)
  ultimately show ?thesis
    using n by (intro exI [of _ n]) auto
next
  case (Cons first ks)
  have first: "rg_base r \<le> first" "first < end_seq r"
    using ring_core_keys [OF core] Cons by auto
  define a where "a = first - rg_base r"
  have a: "a < length (rg_frames r)"
    using first by (simp add: a_def end_seq_def)
  have inv1: "ring_inv (ring_drop a r)"
  proof -
    have "filter (\<lambda>k. first \<le> k) (rg_keys r) = rg_keys r"
      using core Cons by (auto simp: ring_core_def intro!: filter_True)
    then show ?thesis
      using ring_core_drop [OF core, of a] a first Cons by (simp add: ring_inv_def a_def)
  qed
  have keys1: "rg_keys (ring_drop a r) \<noteq> []"
    using Cons first by (simp add: a_def)
  obtain b where b: "b < length (rg_frames (ring_drop a r))"
      "evict_gops p cfg cutoff (ring_drop a r) = Some (ring_drop b (ring_drop a r))"
      "ring_inv (ring_drop b (ring_drop a r))" "gops_bounded cfg cutoff (ring_drop b (ring_drop a r))"
    using evict_gops_spec [OF inv1 keys1] by blast
  define r2 where "r2 = ring_drop (a + b) r"
  have r2: "ring_drop b (ring_drop a r) = r2"
    by (simp add: r2_def ring_drop_drop)
  have ev: "evict p cfg r = (if length (rg_keys r2) < 2 then evict_bytes p cfg r2 else Some r2)"
    using Cons cut b(2) first core by (simp add: evict_def evict_to_spec a_def [symmetric] r2)
  show ?thesis
  proof (cases "length (rg_keys r2) < 2")
    case False
    then show ?thesis
      using ev b r2 by (intro exI [of _ "a + b"]) (auto simp: r2_def gops_bounded_def)
  next
    case True
    obtain c where c: "c = 0 \<or> c < length (rg_frames r2)" "evict_bytes p cfg r2 = Some (ring_drop c r2)"
        "rg_bytes (ring_drop c r2) \<le> bc_max_bytes cfg \<or> length (rg_frames (ring_drop c r2)) \<le> 1"
      using evict_bytes_spec [of r2] b(3) r2 by blast
    have inv: "ring_inv (ring_drop c r2)"
    proof (cases "c = 0")
      case True
      then show ?thesis using b(3) ring_drop_0 [OF ring_inv_core, of r2] unfolding r2 by simp
    next
      case False
      have "\<forall>k \<in> set (rg_keys r2). k = rg_base r2"
        using True b(3) unfolding r2 by (cases "rg_keys r2") (auto simp: ring_inv_def)
      then have "filter (\<lambda>k. rg_base r2 + c \<le> k) (rg_keys r2) = []"
        using False by (auto simp: filter_empty_conv)
      then show ?thesis
        using ring_core_drop [of r2 c] b(3) r2 c(1) by (auto simp: ring_inv_def)
    qed
    moreover have "gops_bounded cfg cutoff (ring_drop c r2)"
    proof -
      have "length (rg_keys (ring_drop c r2)) \<le> length (rg_keys r2)"
        unfolding ring_drop_sel by (rule length_filter_le)
      with True have "\<not> 2 \<le> length (rg_keys (ring_drop c r2))"
        by linarith
      then show ?thesis
        unfolding gops_bounded_def by blast
    qed
    moreover have "ring_drop c r2 = ring_drop (a + b + c) r"
      by (simp add: r2_def ring_drop_drop)
    ultimately show ?thesis
      using ev True c b r2 a by (intro exI [of _ "a + b + c"]) (auto simp: r2_def)
  qed
qed

lemma evict_to_newest: "evict_to p r s = Some r' \<Longrightarrow> rg_newest r' = rg_newest r"
  by (auto simp: evict_to_def split: option.splits)

lemma evict_cutoff:
  "evict p cfg r = Some r' \<Longrightarrow> \<exists>c. checked64 p (rg_newest r - window_micros cfg) = Some c"
  by (auto simp: evict_def bind_eq_Some_conv evict_to_newest split: list.splits)

end
