(* ===== verification/Live_Log.thy ===== *)
theory Live_Log
  imports Prelude
begin

text \<open>
  The contract between whoever writes a live log and whoever reads it by sequence number: the log
  holds the entries of a window \<open>[base, top)\<close>, both ends only grow, an entry never changes while it
  is in the window, and the join points are entries of the window that stay join points until they
  are evicted. The reader's lemmas are proved once, from these laws, for any number of writes.
\<close>

locale live_log =
  fixes inv :: "'r \<Rightarrow> bool"
    and base :: "'r \<Rightarrow> nat"
    and top :: "'r \<Rightarrow> nat"
    and joins :: "'r \<Rightarrow> nat set"
    and entry_at :: "'r \<Rightarrow> nat \<Rightarrow> 'e"
    and step :: "'r \<Rightarrow> 'r \<Rightarrow> bool"
  assumes inv_write: "inv r \<Longrightarrow> step r r' \<Longrightarrow> inv r'"
    and base_write: "inv r \<Longrightarrow> step r r' \<Longrightarrow> base r \<le> base r'"
    and top_write: "inv r \<Longrightarrow> step r r' \<Longrightarrow> top r \<le> top r'"
    and base_top: "inv r \<Longrightarrow> base r \<le> top r"
    and entry_write: "inv r \<Longrightarrow> step r r' \<Longrightarrow> base r' \<le> s \<Longrightarrow> s < top r \<Longrightarrow> entry_at r' s = entry_at r s"
    and joins_window: "inv r \<Longrightarrow> k \<in> joins r \<Longrightarrow> base r \<le> k \<and> k < top r"
    and joins_write: "inv r \<Longrightarrow> step r r' \<Longrightarrow> k < top r \<Longrightarrow> base r' \<le> k \<Longrightarrow> k \<in> joins r' \<longleftrightarrow> k \<in> joins r"
begin

lemma inv_writes: "step\<^sup>*\<^sup>* r r' \<Longrightarrow> inv r \<Longrightarrow> inv r'"
  by (induction rule: rtranclp_induct) (auto intro: inv_write)

lemma window_writes: "step\<^sup>*\<^sup>* r r' \<Longrightarrow> inv r \<Longrightarrow> base r \<le> base r' \<and> top r \<le> top r'"
proof (induction rule: rtranclp_induct)
  case (step r1 r2)
  then have "inv r1" by (blast intro: inv_writes)
  with step show ?case by (meson base_write top_write le_trans)
qed simp

text \<open>An entry that is still in the window is the entry that was written.\<close>

lemma entry_writes:
  assumes "step\<^sup>*\<^sup>* r r'" and "inv r" and "base r' \<le> s" and "s < top r"
  shows "entry_at r' s = entry_at r s"
  using assms
proof (induction rule: rtranclp_induct)
  case (step r1 r2)
  then have "inv r1" and "base r1 \<le> base r2" and "top r \<le> top r1"
    using inv_writes base_write window_writes by blast+
  with step show ?case by (auto simp: entry_write)
qed simp

text \<open>A reader standing on a join point stays on it, or is overtaken by the eviction.\<close>

lemma cursor_writes:
  assumes "step\<^sup>*\<^sup>* r r'" and "inv r" and "s \<in> joins r"
  shows "s < base r' \<or> s \<in> joins r'"
  using assms
proof (induction rule: rtranclp_induct)
  case (step r1 r2)
  then have i1: "inv r1" and w: "base r1 \<le> base r2" "top r \<le> top r1" and s: "s < top r"
    using inv_writes base_write window_writes joins_window by blast+
  with step show ?case
    by (cases "base r2 \<le> s") (auto simp: joins_write)
qed simp

end

end
