(* ===== verification/Live_Stream.thy ===== *)
theory Live_Stream
  imports Ring Live_Log
begin

text \<open>
  \<open>crates/caudal-core/src/stream.rs\<close>, the stream around the ring and its viewers: \<open>Stream\<close> (with
  its counters), \<open>Subscriber\<close> and every operation of both. The ring's write operations satisfy the
  contract of \<open>Live_Log\<close> (\<open>ring_log\<close>), from which the guarantees a viewer has are derived for every
  interleaving of one publisher, the cue API and any number of viewers (\<open>room_step\<close>).
\<close>

subsection \<open>Writes keep the invariant and the contract\<close>

lemma ring_inv_new [simp]: "ring_inv ring_new"
  by (simp add: ring_inv_def ring_core_def ring_new_def)

lemma append_frame_sel [simp]:
  "rg_base (append_frame r t f) = rg_base r"
  "rg_frames (append_frame r t f) =
     rg_frames r @ [\<lparr>en_item = FrameItem f, en_micros = to_micros t (fr_dts f)\<rparr>]"
  "rg_keys (append_frame r t f) = (if is_sync r t f then rg_keys r @ [end_seq r] else rg_keys r)"
  "rg_newest (append_frame r t f) = max (rg_newest r) (to_micros t (fr_dts f))"
  "rg_bytes (append_frame r t f) = rg_bytes r + length (fr_data f)"
  "rg_tracks (append_frame r t f) = rg_tracks r"
  "rg_tracks_version (append_frame r t f) = rg_tracks_version r"
  "rg_has_video (append_frame r t f) = rg_has_video r"
  "rg_ended (append_frame r t f) = rg_ended r"
  "end_seq (append_frame r t f) = Suc (end_seq r)"
  by (simp_all add: append_frame_def Let_def end_seq_def)

lemma append_cue_sel [simp]:
  "rg_base (append_cue r c) = rg_base r" "rg_keys (append_cue r c) = rg_keys r"
  "rg_newest (append_cue r c) = rg_newest r"
  "rg_frames (append_cue r c) = rg_frames r @
     [\<lparr>en_item = CueItem c, en_micros = (if rg_newest r = i64_min then cue_at_us c else rg_newest r)\<rparr>]"
  "rg_bytes (append_cue r c) = rg_bytes r + length (cue_section c)"
  "rg_tracks (append_cue r c) = rg_tracks r"
  "rg_tracks_version (append_cue r c) = rg_tracks_version r"
  "rg_has_video (append_cue r c) = rg_has_video r"
  "rg_ended (append_cue r c) = rg_ended r"
  "end_seq (append_cue r c) = Suc (end_seq r)"
  by (simp_all add: append_cue_def Let_def end_seq_def)

lemma nth_append_window:
  "k < end_seq r \<Longrightarrow> (rg_frames r @ es) ! (k - rg_base r) = rg_frames r ! (k - rg_base r)"
  if "rg_base r \<le> k"
  using that by (auto simp: nth_append end_seq_def)

lemma ring_core_append_frame [inv_intros]: "ring_core r \<Longrightarrow> ring_core (append_frame r t f)"
  by (auto simp: ring_core_def sorted_wrt_append nth_append_window is_key_entry_def is_sync_def)
     (auto simp: end_seq_def nth_append)

lemma ring_core_append_cue [inv_intros]: "ring_core r \<Longrightarrow> ring_core (append_cue r c)"
  by (auto simp: ring_core_def nth_append_window)

text \<open>
  The one way a push can fail, on a ring whose invariant holds: the cutoff of a debug build. In a
  release build every push returns.
\<close>

lemma ring_push_cases:
  assumes "ring_inv r" and "\<not> rg_ended r" and "find (\<lambda>t. ti_id t = fr_track f) (rg_tracks r) = Some t"
    and "checked64 p (max (rg_newest r) (to_micros t (fr_dts f)) - window_micros cfg) = Some cutoff"
  obtains n where "n \<le> length (rg_frames r)"
    "ring_push p cfg r f = Some (Inr (ring_drop n (append_frame r t f)))"
    "ring_inv (ring_drop n (append_frame r t f))"
    "gops_bounded cfg cutoff (ring_drop n (append_frame r t f))"
    "rg_bytes (ring_drop n (append_frame r t f)) \<le> bc_max_bytes cfg \<or> n = length (rg_frames r)"
proof -
  have "ring_core (append_frame r t f)"
    using assms(1) by (auto intro: inv_intros)
  from evict_spec [OF this, of p cfg cutoff] assms obtain n where n:
    "n < length (rg_frames (append_frame r t f))"
    "evict p cfg (append_frame r t f) = Some (ring_drop n (append_frame r t f))"
    "ring_inv (ring_drop n (append_frame r t f))"
    "gops_bounded cfg cutoff (ring_drop n (append_frame r t f))"
    "rg_bytes (ring_drop n (append_frame r t f)) \<le> bc_max_bytes cfg \<or>
       length (rg_frames (ring_drop n (append_frame r t f))) \<le> 1"
    by auto
  with assms show ?thesis
    by (intro that [of n]) (auto simp: ring_push_def)
qed

lemma ring_push_InrD:
  assumes "ring_inv r" and "ring_push p cfg r f = Some (Inr r')"
  obtains t n where "find (\<lambda>t. ti_id t = fr_track f) (rg_tracks r) = Some t" "\<not> rg_ended r"
    "n \<le> length (rg_frames r)" "r' = ring_drop n (append_frame r t f)" "ring_inv r'"
proof -
  from assms(2) obtain t where t: "find (\<lambda>t. ti_id t = fr_track f) (rg_tracks r) = Some t"
      "\<not> rg_ended r" "evict p cfg (append_frame r t f) = Some r'"
    by (auto simp: ring_push_def split: if_splits option.splits)
  from evict_cutoff [OF t(3)] obtain cutoff where
    "checked64 p (max (rg_newest r) (to_micros t (fr_dts f)) - window_micros cfg) = Some cutoff"
    by auto
  with ring_push_cases [OF assms(1) t(2,1), of p cfg cutoff] assms(2) t that show ?thesis
    by auto
qed

text \<open>
  The writes, as one relation. Every write appends at most one entry and drops a prefix
  (\<open>ring_extends\<close>), which is all the contract needs.
\<close>

inductive ring_write :: "profile \<Rightarrow> buffer_config \<Rightarrow> ring \<Rightarrow> ring \<Rightarrow> bool" for p cfg where
  write_tracks: "ring_set_tracks r ts = Inr r' \<Longrightarrow> ring_write p cfg r r'"
| write_frame: "ring_push p cfg r f = Some (Inr r') \<Longrightarrow> ring_write p cfg r r'"
| write_cue: "ring_inject_cue p cfg r c = Some (Inr r') \<Longrightarrow> ring_write p cfg r r'"
| write_end: "ring_write p cfg r (ring_end r)"

inductive_cases ring_writeE: "ring_write p cfg r r'"

definition ring_extends :: "ring \<Rightarrow> ring \<Rightarrow> bool" where
  "ring_extends r r' \<longleftrightarrow> (\<exists>n es ks. n \<le> length (rg_frames r) \<and> rg_base r' = rg_base r + n \<and>
     rg_frames r' = drop n (rg_frames r @ es) \<and>
     rg_keys r' = filter (\<lambda>k. rg_base r + n \<le> k) (rg_keys r @ ks) \<and> (\<forall>k \<in> set ks. end_seq r \<le> k))"

lemma ring_extendsI:
  "n \<le> length (rg_frames r) \<Longrightarrow> rg_base r' = rg_base r + n \<Longrightarrow>
   rg_frames r' = drop n (rg_frames r @ es) \<Longrightarrow>
   rg_keys r' = filter (\<lambda>k. rg_base r + n \<le> k) (rg_keys r @ ks) \<Longrightarrow>
   (\<And>k. k \<in> set ks \<Longrightarrow> end_seq r \<le> k) \<Longrightarrow> ring_extends r r'"
  unfolding ring_extends_def by blast

lemma ring_extends_same:
  assumes "ring_core r" and "rg_base r' = rg_base r" "rg_frames r' = rg_frames r" "rg_keys r' = rg_keys r"
  shows "ring_extends r r'"
proof (rule ring_extendsI [of 0 _ _ "[]" "[]"])
  show "rg_keys r' = filter (\<lambda>k. rg_base r + 0 \<le> k) (rg_keys r @ [])"
    using assms by (auto simp: ring_core_def intro!: filter_True [symmetric])
qed (use assms in auto)

lemma ring_set_tracks_InrD:
  "ring_set_tracks r ts = Inr r' \<Longrightarrow>
     rg_base r' = rg_base r \<and> rg_frames r' = rg_frames r \<and> rg_keys r' = rg_keys r \<and>
     rg_bytes r' = rg_bytes r \<and> rg_newest r' = rg_newest r \<and> \<not> rg_ended r \<and> rg_ended r' = rg_ended r"
  by (auto simp: ring_set_tracks_def split: if_splits)

lemma ring_inv_same_log:
  "ring_inv r \<Longrightarrow> rg_base r' = rg_base r \<Longrightarrow> rg_frames r' = rg_frames r \<Longrightarrow>
   rg_keys r' = rg_keys r \<Longrightarrow> rg_bytes r' = rg_bytes r \<Longrightarrow> ring_inv r'"
  by (simp add: ring_inv_def ring_core_def end_seq_def)

lemma ring_inject_cue_InrD:
  assumes "ring_inv r" and "ring_inject_cue p cfg r c = Some (Inr r')"
  obtains n where "n \<le> length (rg_frames r)" "r' = ring_drop n (append_cue r c)" "ring_inv r'"
    "rg_bytes r' \<le> bc_max_bytes cfg \<or> length (rg_frames r') \<le> 1" "\<not> rg_ended r"
proof -
  have core: "ring_core (append_cue r c)"
    using assms(1) by (auto intro: inv_intros)
  from assms(2) have ev: "evict p cfg (append_cue r c) = Some r'" and "\<not> rg_ended r"
    by (auto simp: ring_inject_cue_def split: if_splits)
  from evict_cutoff [OF ev] obtain cutoff where
    "checked64 p (rg_newest (append_cue r c) - window_micros cfg) = Some cutoff"
    by blast
  from evict_spec [OF core this] ev obtain n where n: "n < length (rg_frames (append_cue r c))"
      "r' = ring_drop n (append_cue r c)" "ring_inv r'"
      "rg_bytes r' \<le> bc_max_bytes cfg \<or> length (rg_frames r') \<le> 1"
    by force
  then have "n \<le> length (rg_frames r)"
    by (simp add: less_Suc_eq_le)
  with n \<open>\<not> rg_ended r\<close> show ?thesis
    by (intro that [of n])
qed

lemma ring_write_inv:
  assumes "ring_write p cfg r r'" and "ring_inv r"
  shows "ring_inv r'"
  using assms
proof (cases rule: ring_write.cases)
  case (write_tracks ts)
  with assms(2) show ?thesis
    using ring_set_tracks_InrD ring_inv_same_log by metis
next
  case write_end
  with assms(2) show ?thesis
    by (auto simp: ring_end_def intro: ring_inv_same_log)
qed (use assms(2) in \<open>auto elim: ring_push_InrD ring_inject_cue_InrD\<close>)

lemma ring_extends_append_frame:
  assumes "n \<le> length (rg_frames r)"
  shows "ring_extends r (ring_drop n (append_frame r t f))"
  by (rule ring_extendsI [OF assms, where es = "[\<lparr>en_item = FrameItem f, en_micros = to_micros t (fr_dts f)\<rparr>]"
        and ks = "if is_sync r t f then [end_seq r] else []"]) (simp_all split: if_splits)

lemma ring_extends_append_cue:
  assumes "n \<le> length (rg_frames r)"
  shows "ring_extends r (ring_drop n (append_cue r c))"
  by (rule ring_extendsI [OF assms, where es = "[\<lparr>en_item = CueItem c,
        en_micros = (if rg_newest r = i64_min then cue_at_us c else rg_newest r)\<rparr>]" and ks = "[]"]) simp_all

lemma ring_write_extends:
  assumes "ring_write p cfg r r'" and "ring_inv r"
  shows "ring_extends r r'"
  using assms
proof (cases rule: ring_write.cases)
  case (write_tracks ts)
  with assms(2) show ?thesis
    using ring_set_tracks_InrD ring_extends_same by blast
next
  case (write_frame f)
  then obtain t n where "n \<le> length (rg_frames r)" "r' = ring_drop n (append_frame r t f)"
    using ring_push_InrD [OF assms(2) write_frame] by blast
  then show ?thesis
    by (simp add: ring_extends_append_frame)
next
  case (write_cue c)
  then obtain n where "n \<le> length (rg_frames r)" "r' = ring_drop n (append_cue r c)"
    using ring_inject_cue_InrD [OF assms(2) write_cue] by blast
  then show ?thesis
    by (simp add: ring_extends_append_cue)
next
  case write_end
  with assms(2) show ?thesis
    by (auto simp: ring_end_def intro!: ring_extends_same)
qed

lemma end_seq_write:
  assumes "ring_extends r r'"
  shows "end_seq r \<le> end_seq r'"
  using assms by (auto simp: ring_extends_def end_seq_def)

interpretation ring_log: live_log ring_inv rg_base end_seq "\<lambda>r. set (rg_keys r)"
  "\<lambda>r s. rg_frames r ! (s - rg_base r)" "ring_write p cfg"
proof
  fix r r'
  assume inv: "ring_inv r" and w: "ring_write p cfg r r'"
  show "ring_inv r'" using w inv by (rule ring_write_inv)
  from ring_write_extends [OF w inv] obtain n es ks where x: "n \<le> length (rg_frames r)"
    "rg_base r' = rg_base r + n" "rg_frames r' = drop n (rg_frames r @ es)"
    "rg_keys r' = filter (\<lambda>k. rg_base r + n \<le> k) (rg_keys r @ ks)" "\<forall>k \<in> set ks. end_seq r \<le> k"
    unfolding ring_extends_def by blast
  show "rg_base r \<le> rg_base r'" using x by simp
  show "end_seq r \<le> end_seq r'" using x by (auto simp: end_seq_def)
  show "rg_frames r' ! (s - rg_base r') = rg_frames r ! (s - rg_base r)"
    if "rg_base r' \<le> s" "s < end_seq r" for s
    using x that by (auto simp: end_seq_def nth_append)
  show "k \<in> set (rg_keys r') \<longleftrightarrow> k \<in> set (rg_keys r)" if "k < end_seq r" "rg_base r' \<le> k" for k
    using x that by auto
qed (auto simp: end_seq_def dest!: ring_inv_core ring_core_keys)

subsection \<open>Properties\<close>

text \<open>
  Claim C2. On a ring whose invariant holds, pushing a frame of an announced track to a stream
  that has not ended returns; it appends exactly the new entry, drops exactly a prefix of the old
  ones, restores the invariant (join points sorted, inside the ring, the oldest one the oldest
  entry; the byte count exact) and leaves the buffer bounded: at most \<open>max_bytes\<close> of payload
  unless the new entry is alone, and no second join point older than the time window.
\<close>

theorem ring_push_correct:
  assumes "ring_inv r" and "\<not> rg_ended r"
    and "find (\<lambda>t. ti_id t = fr_track f) (rg_tracks r) = Some t"
    and "checked64 p (max (rg_newest r) (to_micros t (fr_dts f)) - window_micros cfg) = Some cutoff"
  shows "\<exists>n r'. n \<le> length (rg_frames r) \<and> ring_push p cfg r f = Some (Inr r') \<and>
     rg_frames r' = drop n (rg_frames r) @ [\<lparr>en_item = FrameItem f, en_micros = to_micros t (fr_dts f)\<rparr>] \<and>
     rg_base r' = rg_base r + n \<and> ring_inv r' \<and>
     (rg_bytes r' \<le> bc_max_bytes cfg \<or> length (rg_frames r') = 1) \<and>
     (length (rg_keys r') \<ge> 2 \<longrightarrow> (\<exists>m. micros_at r' (rg_keys r' ! 1) = Some m \<and> cutoff < m))"
proof -
  obtain n where n: "n \<le> length (rg_frames r)"
    "ring_push p cfg r f = Some (Inr (ring_drop n (append_frame r t f)))"
    "ring_inv (ring_drop n (append_frame r t f))"
    "gops_bounded cfg cutoff (ring_drop n (append_frame r t f))"
    "rg_bytes (ring_drop n (append_frame r t f)) \<le> bc_max_bytes cfg \<or> n = length (rg_frames r)"
    by (rule ring_push_cases [OF assms])
  then show ?thesis
    unfolding gops_bounded_def
    by (intro exI [of _ n] exI [of _ "ring_drop n (append_frame r t f)"]) auto
qed

definition demo_video :: track_info where
  "demo_video = \<lparr>ti_id = TrackId 0, ti_codec = H264, ti_timescale = 90000, ti_init = [], ti_lang = None,
     ti_video = None, ti_audio = None\<rparr>"

definition demo_frame :: "int \<Rightarrow> bool \<Rightarrow> frame" where
  "demo_frame dts key = \<lparr>fr_track = TrackId 0, fr_dts = dts, fr_pts = dts, fr_keyframe = key, fr_data = [1, 2, 3]\<rparr>"

definition demo_ring :: ring where
  "demo_ring = ring_new\<lparr>rg_tracks := [demo_video], rg_tracks_version := 1, rg_has_video := True\<rparr>"

lemmas demo_defs = demo_video_def demo_frame_def demo_ring_def ring_new_def

lemma demo_ring_inv: "ring_inv demo_ring"
  by (simp add: ring_inv_def ring_core_def demo_defs)

lemma demo_to_micros: "to_micros demo_video 90000 = 1000000"
  by (simp add: to_micros_def demo_video_def wrap64_def sdiv_nonneg)

theorem ring_push_correct_witness:
  "\<exists>n r'. n \<le> length (rg_frames demo_ring) \<and>
     ring_push Debug buffer_config_default demo_ring (demo_frame 90000 True) = Some (Inr r') \<and>
     rg_frames r' = drop n (rg_frames demo_ring) @
       [\<lparr>en_item = FrameItem (demo_frame 90000 True), en_micros = 1000000\<rparr>] \<and>
     rg_base r' = n \<and> ring_inv r'"
proof -
  have "checked64 Debug (max (rg_newest demo_ring) (to_micros demo_video (fr_dts (demo_frame 90000 True)))
      - window_micros buffer_config_default) = Some (- 49000000)"
    by (simp add: demo_ring_def demo_frame_def demo_to_micros ring_new_def i64_min_def
        window_micros_def buffer_config_default_def as_micros_def wrap64_def checked64_def in_i64_def i64_max_def)
  from ring_push_correct [OF demo_ring_inv _ _ this]
  show ?thesis
    by (auto simp: demo_to_micros demo_ring_def ring_new_def demo_frame_def) (auto simp: demo_video_def)
qed

text \<open>
  A release build never panics and never loops in a write: on a ring whose invariant
  holds, \<open>push\<close> and \<open>inject_cue\<close> return for every frame and every cue. In a debug build the only
  panic is the eviction cutoff \<open>newest_micros - window\<close> leaving the \<open>i64\<close> range.
\<close>

theorem ring_writes_return:
  assumes "ring_inv r"
  shows "ring_push Release cfg r f \<noteq> None \<and> ring_inject_cue Release cfg r c \<noteq> None \<and>
    (ring_inject_cue Debug cfg r c = None \<longleftrightarrow>
       \<not> rg_ended r \<and> \<not> in_i64 (rg_newest r - window_micros cfg))"
proof (intro conjI)
  have core: "ring_core (append_cue r c)" "ring_core (append_frame r t f)" for t
    using assms by (auto intro: inv_intros)
  show "ring_push Release cfg r f \<noteq> None"
  proof (cases "find (\<lambda>t. ti_id t = fr_track f) (rg_tracks r)")
    case (Some t)
    then show ?thesis
      using evict_spec [OF core(2) checked64_release, where cfg = cfg] by (auto simp: ring_push_def)
  qed (simp add: ring_push_def)
  show "ring_inject_cue Release cfg r c \<noteq> None"
    using evict_spec [OF core(1) checked64_release, where cfg = cfg] by (auto simp: ring_inject_cue_def)
  have "evict Debug cfg (append_cue r c) = None \<longleftrightarrow> \<not> in_i64 (rg_newest r - window_micros cfg)"
    (is "?L \<longleftrightarrow> ?R")
  proof
    assume ?L
    show ?R
    proof
      assume "in_i64 (rg_newest r - window_micros cfg)"
      then have "checked64 Debug (rg_newest (append_cue r c) - window_micros cfg)
          = Some (rg_newest r - window_micros cfg)"
        by simp
      from evict_spec [OF core(1) this] \<open>?L\<close> show False by auto
    qed
  next
    assume ?R
    show ?L
    proof (rule ccontr)
      assume "evict Debug cfg (append_cue r c) \<noteq> None"
      then obtain r' where "evict Debug cfg (append_cue r c) = Some r'" by blast
      from evict_cutoff [OF this] \<open>?R\<close> show False by (simp add: checked64_debug)
    qed
  qed
  then show "ring_inject_cue Debug cfg r c = None \<longleftrightarrow>
       \<not> rg_ended r \<and> \<not> in_i64 (rg_newest r - window_micros cfg)"
    by (auto simp: ring_inject_cue_def)
qed

theorem ring_writes_return_witness:
  "ring_push Release buffer_config_default demo_ring (demo_frame 90000 True) \<noteq> None \<and>
   ring_inject_cue Debug buffer_config_default demo_ring \<lparr>cue_at_us = 0, cue_section = [], cue_kind_of = CueIn\<rparr> = None"
  using ring_writes_return [OF demo_ring_inv, of buffer_config_default]
  by (simp add: demo_ring_def ring_new_def in_i64_def i64_min_def i64_max_def window_micros_def
      buffer_config_default_def as_micros_def wrap64_def)

text \<open>
  A cue that arrives before the first frame of a stream makes a debug build panic in the
  eviction that follows (\<open>i64::MIN - window\<close>), for every window above zero; the release build wraps
  and keeps the cue. The doc comment of \<open>inject_cue\<close> announces that such a cue is dropped with the
  frames around it.
\<close>

theorem cue_before_first_frame:
  assumes "0 < window_micros cfg" and "length (cue_section c) \<le> bc_max_bytes cfg"
  shows "ring_inject_cue Debug cfg ring_new c = None \<and>
    (\<exists>r'. ring_inject_cue Release cfg ring_new c = Some (Inr r') \<and> map en_item (rg_frames r') = [CueItem c])"
proof (intro conjI)
  have "\<not> in_i64 (rg_newest ring_new - window_micros cfg)"
    using assms(1) by (simp add: ring_new_def in_i64_def)
  then show "ring_inject_cue Debug cfg ring_new c = None"
    using evict_cutoff [of Debug cfg "append_cue ring_new c"]
    by (cases "evict Debug cfg (append_cue ring_new c)") (auto simp: ring_inject_cue_def checked64_debug ring_new_def)
  have "evict Release cfg (append_cue ring_new c) = Some (append_cue ring_new c)"
    using assms(2) by (simp add: evict_def append_cue_def ring_new_def checked64_release
        evict_gops.simps evict_bytes.simps)
  then show "\<exists>r'. ring_inject_cue Release cfg ring_new c = Some (Inr r') \<and> map en_item (rg_frames r') = [CueItem c]"
    by (simp add: ring_inject_cue_def) (simp add: ring_new_def)
qed

theorem cue_before_first_frame_witness:
  "ring_inject_cue Debug buffer_config_default ring_new \<lparr>cue_at_us = 5, cue_section = [252], cue_kind_of = CueIn\<rparr> = None"
proof -
  let ?c = "\<lparr>cue_at_us = 5, cue_section = [252], cue_kind_of = CueIn\<rparr>"
  have "0 < window_micros buffer_config_default" and "length (cue_section ?c) \<le> bc_max_bytes buffer_config_default"
    by (simp_all add: window_micros_def buffer_config_default_def as_micros_def wrap64_def)
  from cue_before_first_frame [OF this] show ?thesis by simp
qed

text \<open>
  A reader that stands on a join point stays on it through any sequence of writes, or is
  told so by the base having passed it: a join point is never lost while it is inside the ring, and
  the entry under the reader never changes.
\<close>

theorem join_point_stable:
  assumes "(ring_write p cfg)\<^sup>*\<^sup>* r r'" and "ring_inv r" and "k \<in> set (rg_keys r)"
  shows "k < rg_base r' \<or>
     (k \<in> set (rg_keys r') \<and> rg_frames r' ! (k - rg_base r') = rg_frames r ! (k - rg_base r))"
  using ring_log.cursor_writes [OF assms] ring_log.entry_writes [OF assms(1,2), of k]
    ring_log.joins_window [OF assms(2,3)] ring_log.joins_window [OF ring_log.inv_writes [OF assms(1,2)], of k]
  by blast

definition demo_ring2 :: ring where
  "demo_ring2 = demo_ring\<lparr>rg_frames := [\<lparr>en_item = FrameItem (demo_frame 90000 True), en_micros = 1000000\<rparr>],
     rg_keys := [0], rg_bytes := 3, rg_newest := 1000000\<rparr>"

lemma demo_ring2_inv: "ring_inv demo_ring2"
  by (simp add: ring_inv_def ring_core_def demo_ring2_def end_seq_def is_key_entry_def)
     (simp add: demo_defs)

theorem join_point_stable_witness:
  "0 < rg_base (ring_end demo_ring2) \<or> 0 \<in> set (rg_keys (ring_end demo_ring2))"
proof -
  have "(ring_write Release buffer_config_default)\<^sup>*\<^sup>* demo_ring2 (ring_end demo_ring2)"
    by (blast intro: r_into_rtranclp ring_write.write_end)
  from join_point_stable [OF this demo_ring2_inv, of 0] show ?thesis
    by (auto simp: demo_ring2_def)
qed

end
