(* ===== verification/Viewers.thy ===== *)
theory Viewers
  imports Live_Stream
begin

text \<open>
  \<open>crates/caudal-core/src/stream.rs\<close>, the second half: the \<open>Stream\<close> object with its counters, the
  \<open>Subscriber\<close> (one viewer's read position) and the room of one publisher and any number of
  viewers that the read/write lock turns into a sequence of atomic steps.
\<close>

subsection \<open>The stream object\<close>

record stream =
  st_name :: string
  st_cfg :: buffer_config
  st_ring :: ring
  st_notify :: u64
  st_frames_in :: u64
  st_bytes_in :: u64
  st_viewers :: u64
  st_output_viewers :: "(string \<times> nat) list"

definition stream_new :: "string \<Rightarrow> buffer_config \<Rightarrow> stream" where
  "stream_new name cfg = \<lparr>st_name = name, st_cfg = cfg, st_ring = ring_new, st_notify = 0,
     st_frames_in = 0, st_bytes_in = 0, st_viewers = 0, st_output_viewers = []\<rparr>"

definition stream_tracks :: "stream \<Rightarrow> track_info list" where
  "stream_tracks st = rg_tracks (st_ring st)"

definition is_ended :: "stream \<Rightarrow> bool" where
  "is_ended st = rg_ended (st_ring st)"

record stream_stats =
  ss_frames_buffered :: nat
  ss_bytes_buffered :: nat
  ss_buffered_micros :: int
  ss_frames_in :: u64
  ss_bytes_in :: u64
  ss_viewers :: nat

definition stats :: "profile \<Rightarrow> stream \<Rightarrow> stream_stats option" where
  "stats p st =
     (let r = st_ring st in
      map_option (\<lambda>span.
        \<lparr>ss_frames_buffered = length (rg_frames r), ss_bytes_buffered = rg_bytes r,
         ss_buffered_micros = span, ss_frames_in = st_frames_in st, ss_bytes_in = st_bytes_in st,
         ss_viewers = unat (st_viewers st) + sum_list (map snd (st_output_viewers st))\<rparr>)
        (if rg_frames r = [] then Some 0
         else checked64 p (en_micros (last (rg_frames r)) - en_micros (hd (rg_frames r)))))"

fun set_output_count :: "string \<Rightarrow> nat \<Rightarrow> (string \<times> nat) list \<Rightarrow> (string \<times> nat) list" where
  "set_output_count output n [] = [(output, n)]"
| "set_output_count output n ((o', m) # v) =
     (if o' = output then (o', n) # v else (o', m) # set_output_count output n v)"

definition set_output_viewers :: "string \<Rightarrow> nat \<Rightarrow> stream \<Rightarrow> stream" where
  "set_output_viewers output n st =
     st\<lparr>st_output_viewers := set_output_count output n (st_output_viewers st)\<rparr>"

definition wake :: "stream \<Rightarrow> stream" where
  "wake st = st\<lparr>st_notify := st_notify st + 1\<rparr>"

text \<open>An unchanged track list returns before the wake-up.\<close>

definition stream_set_tracks :: "stream \<Rightarrow> track_info list \<Rightarrow> push_error + stream" where
  "stream_set_tracks st tracks =
     (case ring_set_tracks (st_ring st) tracks of
        Inl e \<Rightarrow> Inl e
      | Inr r \<Rightarrow>
          if tracks_eq (rg_tracks (st_ring st)) tracks then Inr st
          else Inr (wake (st\<lparr>st_ring := r\<rparr>)))"

definition stream_push :: "profile \<Rightarrow> stream \<Rightarrow> frame \<Rightarrow> (push_error + stream) option" where
  "stream_push p st f =
     map_option (\<lambda>res. case res of
         Inl e \<Rightarrow> Inl e
       | Inr r \<Rightarrow> Inr (wake (st\<lparr>st_ring := r, st_frames_in := st_frames_in st + 1,
            st_bytes_in := st_bytes_in st + of_nat (length (fr_data f))\<rparr>)))
       (ring_push p (st_cfg st) (st_ring st) f)"

definition stream_inject_cue :: "profile \<Rightarrow> stream \<Rightarrow> cue \<Rightarrow> (push_error + stream) option" where
  "stream_inject_cue p st c =
     map_option (\<lambda>res. case res of Inl e \<Rightarrow> Inl e | Inr r \<Rightarrow> Inr (wake (st\<lparr>st_ring := r\<rparr>)))
       (ring_inject_cue p (st_cfg st) (st_ring st) c)"

definition newest_micros :: "stream \<Rightarrow> int option" where
  "newest_micros st = ring_newest_micros (st_ring st)"

definition stream_end :: "stream \<Rightarrow> stream" where
  "stream_end st = wake (st\<lparr>st_ring := ring_end (st_ring st)\<rparr>)"

subsection \<open>Subscribers\<close>

record subscriber =
  sb_next :: nat
  sb_tracks_version :: nat
  sb_counted :: bool

definition reader :: "ring \<Rightarrow> start_at \<Rightarrow> bool \<Rightarrow> subscriber" where
  "reader r start counted =
     \<lparr>sb_next = (case start of
         LiveEdge \<Rightarrow> if rg_keys r = [] then u64_max else last (rg_keys r)
       | Oldest \<Rightarrow> if rg_keys r = [] then u64_max else hd (rg_keys r)),
      sb_tracks_version = 0, sb_counted = counted\<rparr>"

definition subscribe :: "stream \<Rightarrow> start_at \<Rightarrow> subscriber \<times> stream" where
  "subscribe st start = (reader (st_ring st) start True, st\<lparr>st_viewers := st_viewers st + 1\<rparr>)"

definition subscribe_internal :: "stream \<Rightarrow> start_at \<Rightarrow> subscriber \<times> stream" where
  "subscribe_internal st start = (reader (st_ring st) start False, st)"

definition drop_subscriber :: "subscriber \<Rightarrow> stream \<Rightarrow> stream" where
  "drop_subscriber s st =
     (if sb_counted s then st\<lparr>st_viewers := st_viewers st - 1\<rparr> else st)"

text \<open>
  \<open>try_recv\<close>: the position is resolved first (\<open>Inl\<close> is an early return), then a viewer that fell
  off the back of the ring is moved forward, otherwise the next entry is delivered.
\<close>

definition resolve_next :: "ring \<Rightarrow> subscriber \<Rightarrow> event option + subscriber" where
  "resolve_next r s =
     (if sb_next s = u64_max
      then (case rg_keys r of
              k # _ \<Rightarrow> Inr (s\<lparr>sb_next := k\<rparr>)
            | [] \<Rightarrow> Inl (if rg_ended r then Some End else None))
      else Inr s)"

definition resume_point :: "ring \<Rightarrow> nat" where
  "resume_point r = (case find (\<lambda>k. rg_base r \<le> k) (rg_keys r) of Some k \<Rightarrow> k | None \<Rightarrow> end_seq r)"

definition try_recv :: "ring \<Rightarrow> subscriber \<Rightarrow> event option \<times> subscriber" where
  "try_recv r s =
     (if rg_tracks_version r \<noteq> sb_tracks_version s
      then (Some TracksChanged, s\<lparr>sb_tracks_version := rg_tracks_version r\<rparr>)
      else case resolve_next r s of
        Inl ev \<Rightarrow> (ev, s)
      | Inr s' \<Rightarrow>
          if sb_next s' < rg_base r then
            (let resume = resume_point r in
             (Some (Lagged (resume - sb_next s')),
              s'\<lparr>sb_next := (if resume = end_seq r \<and> rg_keys r = [] then u64_max else resume)\<rparr>))
          else if sb_next s' < end_seq r then
            (Some (item_event (en_item (rg_frames r ! (sb_next s' - rg_base r)))),
             s'\<lparr>sb_next := sb_next s' + 1\<rparr>)
          else (if rg_ended r then Some End else None, s'))"

definition skip_to_live :: "ring \<Rightarrow> subscriber \<Rightarrow> nat \<times> subscriber" where
  "skip_to_live r s =
     (if rg_keys r \<noteq> [] \<and> last (rg_keys r) > sb_next s
      then (last (rg_keys r) - sb_next s, s\<lparr>sb_next := last (rg_keys r)\<rparr>)
      else (0, s))"

definition backlog :: "ring \<Rightarrow> subscriber \<Rightarrow> nat" where
  "backlog r s = end_seq r - max (sb_next s) (rg_base r)"

lemma resume_point_inv:
  "ring_inv r \<Longrightarrow> resume_point r = (if rg_keys r = [] then end_seq r else rg_base r)"
  by (cases "rg_keys r") (auto simp: resume_point_def ring_inv_def)

text \<open>Under the invariant the four outcomes of a read are these.\<close>

lemma try_recv_cases:
  assumes inv: "ring_inv r" and recv: "try_recv r s = (ev, s')"
  obtains
    (tracks) "rg_tracks_version r \<noteq> sb_tracks_version s" "ev = Some TracksChanged"
      "s' = s\<lparr>sb_tracks_version := rg_tracks_version r\<rparr>"
  | (lagged) k where "rg_tracks_version r = sb_tracks_version s" "sb_next s < rg_base r"
      "sb_next s \<noteq> u64_max"
      "ev = Some (Lagged (resume_point r - sb_next s))"
      "s' = s\<lparr>sb_next := k\<rparr>" "rg_keys r = [] \<and> k = u64_max \<or> rg_keys r \<noteq> [] \<and> k = rg_base r"
  | (delivered) q where "rg_tracks_version r = sb_tracks_version s"
      "sb_next s = u64_max \<and> rg_keys r \<noteq> [] \<and> q = rg_base r \<or> sb_next s \<noteq> u64_max \<and> q = sb_next s"
      "rg_base r \<le> q" "q < end_seq r"
      "ev = Some (item_event (en_item (rg_frames r ! (q - rg_base r))))" "s' = s\<lparr>sb_next := Suc q\<rparr>"
  | (idle) "rg_tracks_version r = sb_tracks_version s" "s' = s"
      "ev = (if rg_ended r then Some End else None)"
      "sb_next s = u64_max \<and> rg_keys r = [] \<or>
       sb_next s \<noteq> u64_max \<and> end_seq r \<le> sb_next s \<and> rg_base r \<le> sb_next s"
proof (cases "rg_tracks_version r = sb_tracks_version s")
  case False
  then show ?thesis using recv tracks by (simp add: try_recv_def)
next
  case tv: True
  show ?thesis
  proof (cases "sb_next s = u64_max")
    case True
    show ?thesis
    proof (cases "rg_keys r")
      case Nil
      have "try_recv r s = (if rg_ended r then Some End else None, s)"
        using True tv Nil by (simp add: try_recv_def resolve_next_def)
      with recv have "ev = (if rg_ended r then Some End else None)" "s' = s"
        by simp_all
      then show ?thesis
        using idle [OF tv] True Nil by blast
    next
      case (Cons k ks)
      then have k: "k = rg_base r" "k < end_seq r"
        using inv ring_core_keys [of r k] by (auto simp: ring_inv_def)
      then have "try_recv r s =
          (Some (item_event (en_item (rg_frames r ! (k - rg_base r)))), s\<lparr>sb_next := Suc k\<rparr>)"
        using True tv Cons by (simp add: try_recv_def resolve_next_def)
      with recv have "ev = Some (item_event (en_item (rg_frames r ! (k - rg_base r))))"
          "s' = s\<lparr>sb_next := Suc k\<rparr>"
        by simp_all
      then show ?thesis
        using delivered [OF tv _ _ k(2)] True Cons k by simp
    qed
  next
    case False
    then have res: "resolve_next r s = Inr s"
      by (simp add: resolve_next_def)
    consider "sb_next s < rg_base r" | "rg_base r \<le> sb_next s" "sb_next s < end_seq r" | "end_seq r \<le> sb_next s" "rg_base r \<le> sb_next s"
      by linarith
    then show ?thesis
    proof cases
      case 1
      let ?k = "if rg_keys r = [] then u64_max else rg_base r"
      have "try_recv r s = (Some (Lagged (resume_point r - sb_next s)), s\<lparr>sb_next := ?k\<rparr>)"
        using tv 1 res by (auto simp: try_recv_def resume_point_inv [OF inv] Let_def)
      with recv have "ev = Some (Lagged (resume_point r - sb_next s))" "s' = s\<lparr>sb_next := ?k\<rparr>"
        by simp_all
      from lagged [OF tv 1 False this] show ?thesis by simp
    next
      case 2
      then have "try_recv r s =
          (Some (item_event (en_item (rg_frames r ! (sb_next s - rg_base r)))), s\<lparr>sb_next := Suc (sb_next s)\<rparr>)"
        using tv res by (simp add: try_recv_def)
      with recv have "ev = Some (item_event (en_item (rg_frames r ! (sb_next s - rg_base r))))"
          "s' = s\<lparr>sb_next := Suc (sb_next s)\<rparr>"
        by simp_all
      then show ?thesis
        using delivered [OF tv _ 2] False by simp
    next
      case 3
      then have "try_recv r s = (if rg_ended r then Some End else None, s)"
        using tv res by (simp add: try_recv_def)
      with recv have "ev = (if rg_ended r then Some End else None)" "s' = s"
        by simp_all
      then show ?thesis
        using idle [OF tv] False 3 by simp
    qed
  qed
qed

subsection \<open>One publisher, many viewers\<close>

text \<open>
  Every operation runs under the ring's lock, so a running stream is a sequence of atomic steps in
  any order. The room records what happened beside what the code keeps: the history of every entry
  ever pushed, with a flag for join points, and for each viewer the entries it received with their
  sequence numbers. Sequence numbers are \<open>u64\<close> with \<open>u64_max\<close> as the mark "wait for a join
  point"; a step that would push entry number \<open>u64_max\<close> is left out.
\<close>

record viewer =
  vw_sub :: subscriber
  vw_got :: "(nat \<times> event) list"

record room =
  rm_ring :: ring
  rm_hist :: "(entry \<times> bool) list"
  rm_viewers :: "nat \<Rightarrow> viewer option"

definition room_new :: room where
  "room_new = \<lparr>rm_ring = ring_new, rm_hist = [], rm_viewers = (\<lambda>_. None)\<rparr>"

definition pushed :: "ring \<Rightarrow> ring \<Rightarrow> entry \<times> bool" where
  "pushed r r' = (last (rg_frames r'), end_seq r \<in> set (rg_keys r'))"

definition viewer_recv :: "ring \<Rightarrow> viewer \<Rightarrow> viewer" where
  "viewer_recv r v =
     (let (ev, s) = try_recv r (vw_sub v) in
      v\<lparr>vw_sub := s,
        vw_got := (case ev of
             Some (FrameEv f) \<Rightarrow> vw_got v @ [(sb_next s - 1, FrameEv f)]
           | Some (CueEv c) \<Rightarrow> vw_got v @ [(sb_next s - 1, CueEv c)]
           | _ \<Rightarrow> vw_got v)\<rparr>)"

inductive room_step :: "profile \<Rightarrow> buffer_config \<Rightarrow> room \<Rightarrow> room \<Rightarrow> bool" for p cfg where
  set_tracks: "ring_set_tracks (rm_ring m) ts = Inr r' \<Longrightarrow> room_step p cfg m (m\<lparr>rm_ring := r'\<rparr>)"
| push: "ring_push p cfg (rm_ring m) f = Some (Inr r') \<Longrightarrow> end_seq r' < u64_max \<Longrightarrow>
     room_step p cfg m (m\<lparr>rm_ring := r', rm_hist := rm_hist m @ [pushed (rm_ring m) r']\<rparr>)"
| cue: "ring_inject_cue p cfg (rm_ring m) c = Some (Inr r') \<Longrightarrow> end_seq r' < u64_max \<Longrightarrow>
     room_step p cfg m (m\<lparr>rm_ring := r', rm_hist := rm_hist m @ [pushed (rm_ring m) r']\<rparr>)"
| finish: "room_step p cfg m (m\<lparr>rm_ring := ring_end (rm_ring m)\<rparr>)"
| join: "rm_viewers m i = None \<Longrightarrow> room_step p cfg m (m\<lparr>rm_viewers := (rm_viewers m)
     (i \<mapsto> \<lparr>vw_sub = reader (rm_ring m) start counted, vw_got = []\<rparr>)\<rparr>)"
| recv: "rm_viewers m i = Some v \<Longrightarrow> room_step p cfg m (m\<lparr>rm_viewers := (rm_viewers m)
     (i \<mapsto> viewer_recv (rm_ring m) v)\<rparr>)"
| skip: "rm_viewers m i = Some v \<Longrightarrow> room_step p cfg m (m\<lparr>rm_viewers := (rm_viewers m)
     (i \<mapsto> v\<lparr>vw_sub := snd (skip_to_live (rm_ring m) (vw_sub v))\<rparr>)\<rparr>)"
| leave: "room_step p cfg m (m\<lparr>rm_viewers := (rm_viewers m)(i := None)\<rparr>)"

inductive_cases room_stepE: "room_step p cfg m m'"

inductive reachable :: "profile \<Rightarrow> buffer_config \<Rightarrow> room \<Rightarrow> bool" for p cfg where
  start: "reachable p cfg room_new"
| step: "reachable p cfg m \<Longrightarrow> room_step p cfg m m' \<Longrightarrow> reachable p cfg m'"

text \<open>The ring is the tail of the history.\<close>

definition hist_ok :: "ring \<Rightarrow> (entry \<times> bool) list \<Rightarrow> bool" where
  "hist_ok r h \<longleftrightarrow> length h = end_seq r \<and> rg_frames r = map fst (drop (rg_base r) h) \<and>
     (\<forall>k \<in> set (rg_keys r). snd (h ! k)) \<and> end_seq r < u64_max"

definition tracks_ok :: "ring \<Rightarrow> bool" where
  "tracks_ok r \<longleftrightarrow> (rg_tracks_version r = 0 \<longrightarrow> rg_tracks r = [] \<and> rg_keys r = [])"

definition bytes_ok :: "buffer_config \<Rightarrow> ring \<Rightarrow> bool" where
  "bytes_ok cfg r \<longleftrightarrow> rg_bytes r \<le> bc_max_bytes cfg \<or> length (rg_frames r) \<le> 1"

definition contiguous_or_join :: "(entry \<times> bool) list \<Rightarrow> nat list \<Rightarrow> bool" where
  "contiguous_or_join h ps \<longleftrightarrow>
     (\<forall>i < length ps. (i = 0 \<or> ps ! i \<noteq> Suc (ps ! (i - 1))) \<longrightarrow> snd (h ! (ps ! i)))"

definition cursor_ok :: "ring \<Rightarrow> (entry \<times> bool) list \<Rightarrow> nat \<Rightarrow> nat \<Rightarrow> nat list \<Rightarrow> bool" where
  "cursor_ok r h next tv ps \<longleftrightarrow>
     sorted_wrt (<) ps \<and> (\<forall>q \<in> set ps. q < length h) \<and>
     (\<forall>q \<in> set ps. q < (if next = u64_max then rg_base r else next)) \<and>
     (next = u64_max \<or> next \<le> length h) \<and>
     (next = u64_max \<or> next < rg_base r \<or> (ps \<noteq> [] \<and> next = Suc (last ps)) \<or>
        (next < length h \<and> snd (h ! next))) \<and>
     contiguous_or_join h ps \<and>
     (rg_tracks_version r = 0 \<longrightarrow> next = u64_max \<and> ps = []) \<and> (tv = 0 \<longrightarrow> ps = [])"

definition got_ok :: "(entry \<times> bool) list \<Rightarrow> (nat \<times> event) list \<Rightarrow> bool" where
  "got_ok h got \<longleftrightarrow> (\<forall>(q, e) \<in> set got. q < length h \<and> e = item_event (en_item (fst (h ! q))))"

definition viewer_ok :: "ring \<Rightarrow> (entry \<times> bool) list \<Rightarrow> viewer \<Rightarrow> bool" where
  "viewer_ok r h v \<longleftrightarrow> got_ok h (vw_got v) \<and>
     cursor_ok r h (sb_next (vw_sub v)) (sb_tracks_version (vw_sub v)) (map fst (vw_got v))"

definition room_inv :: "buffer_config \<Rightarrow> room \<Rightarrow> bool" where
  "room_inv cfg m \<longleftrightarrow> ring_inv (rm_ring m) \<and> hist_ok (rm_ring m) (rm_hist m) \<and> tracks_ok (rm_ring m) \<and>
     bytes_ok cfg (rm_ring m) \<and> (\<forall>i v. rm_viewers m i = Some v \<longrightarrow> viewer_ok (rm_ring m) (rm_hist m) v)"

lemma contiguous_or_join_snoc:
  assumes "contiguous_or_join h ps" and "ps = [] \<or> q \<noteq> Suc (last ps) \<Longrightarrow> snd (h ! q)"
  shows "contiguous_or_join h (ps @ [q])"
  unfolding contiguous_or_join_def
proof (intro allI impI)
  fix i
  assume i: "i < length (ps @ [q])" and gap: "i = 0 \<or> (ps @ [q]) ! i \<noteq> Suc ((ps @ [q]) ! (i - 1))"
  show "snd (h ! ((ps @ [q]) ! i))"
  proof (cases "i < length ps")
    case True
    then have "(ps @ [q]) ! i = ps ! i" and "(ps @ [q]) ! (i - 1) = ps ! (i - 1)"
      by (auto simp: nth_append)
    with True gap assms(1) show ?thesis unfolding contiguous_or_join_def by metis
  next
    case False
    with i have i: "i = length ps" by simp
    then have "ps = [] \<or> q \<noteq> Suc (last ps)"
      using gap by (auto simp: nth_append last_conv_nth split: if_splits)
    with assms(2) i show ?thesis by simp
  qed
qed

lemma contiguous_or_join_hist:
  assumes "\<forall>q \<in> set ps. q < length h"
  shows "contiguous_or_join (h @ es) ps \<longleftrightarrow> contiguous_or_join h ps"
proof -
  have "i < length ps \<Longrightarrow> (h @ es) ! (ps ! i) = h ! (ps ! i)" for i
    using assms by (simp add: nth_append)
  then show ?thesis by (auto simp: contiguous_or_join_def)
qed

lemma hist_ok_entry:
  assumes "hist_ok r h" and "rg_base r \<le> q" and "q < end_seq r"
  shows "rg_frames r ! (q - rg_base r) = fst (h ! q)" and "q < length h"
proof -
  show "q < length h"
    using assms by (simp add: hist_ok_def)
  moreover have "rg_frames r = map fst (drop (rg_base r) h)"
    using assms(1) by (simp add: hist_ok_def)
  ultimately show "rg_frames r ! (q - rg_base r) = fst (h ! q)"
    using assms(2) by simp
qed

lemma hist_ok_length: "hist_ok r h \<Longrightarrow> length h = rg_base r + length (rg_frames r)"
  unfolding hist_ok_def end_seq_def by blast

lemma hist_ok_frames: "hist_ok r h \<Longrightarrow> rg_frames r = map fst (drop (rg_base r) h)"
  by (simp add: hist_ok_def)

lemma hist_ok_same:
  "hist_ok r h \<Longrightarrow> rg_base r' = rg_base r \<Longrightarrow> rg_frames r' = rg_frames r \<Longrightarrow> rg_keys r' = rg_keys r \<Longrightarrow>
   hist_ok r' h"
  unfolding hist_ok_def end_seq_def by metis

lemma hist_ok_append:
  assumes inv: "ring_inv r" and h: "hist_ok r h" and n: "n \<le> length (rg_frames r)"
    and r': "rg_frames r' = drop n (rg_frames r @ [e])" "rg_base r' = rg_base r + n"
      "set (rg_keys r') \<subseteq> insert (end_seq r) (set (rg_keys r))"
    and lim: "end_seq r' < u64_max"
  shows "hist_ok r' (h @ [pushed r r'])"
proof -
  have "last (rg_frames r') = e"
    using n r'(1) by (simp add: last_drop)
  moreover have "rg_base r + n \<le> length h"
    using hist_ok_length [OF h] n by simp
  moreover have "snd ((h @ [pushed r r']) ! k)" if "k \<in> set (rg_keys r')" for k
  proof (cases "k = end_seq r")
    case True
    then show ?thesis using h that by (simp add: hist_ok_def pushed_def nth_append)
  next
    case False
    with that r'(3) have k: "k \<in> set (rg_keys r)" by auto
    then have "k < length h"
      using h ring_core_keys [OF ring_inv_core [OF inv] k] by (simp add: hist_ok_def)
    with h k show ?thesis by (simp add: hist_ok_def nth_append)
  qed
  moreover have "rg_frames r' = map fst (drop (rg_base r') (h @ [pushed r r']))"
    using hist_ok_frames [OF h] n r'(1,2) calculation(1,2)
    by (simp add: pushed_def drop_map add.commute)
  moreover have "length (h @ [pushed r r']) = end_seq r'"
    using hist_ok_length [OF h] n r'(1,2) by (simp add: end_seq_def)
  ultimately show ?thesis
    using lim by (simp add: hist_ok_def)
qed

lemma cursor_okI:
  assumes "sorted_wrt (<) ps" "\<And>q. q \<in> set ps \<Longrightarrow> q < length h"
    "\<And>q. q \<in> set ps \<Longrightarrow> q < (if next = u64_max then rg_base r else next)"
    "next \<noteq> u64_max \<Longrightarrow> next \<le> length h"
    "next \<noteq> u64_max \<Longrightarrow> rg_base r \<le> next \<Longrightarrow> ps = [] \<or> next \<noteq> Suc (last ps) \<Longrightarrow> next < length h \<and> snd (h ! next)"
    "contiguous_or_join h ps" "rg_tracks_version r = 0 \<Longrightarrow> next = u64_max \<and> ps = []" "tv = 0 \<Longrightarrow> ps = []"
  shows "cursor_ok r h next tv ps"
  using assms unfolding cursor_ok_def by (meson not_le)

lemma cursor_okD:
  assumes "cursor_ok r h next tv ps"
  shows "sorted_wrt (<) ps" "\<And>q. q \<in> set ps \<Longrightarrow> q < length h"
    "\<And>q. q \<in> set ps \<Longrightarrow> q < (if next = u64_max then rg_base r else next)"
    "next \<noteq> u64_max \<Longrightarrow> next \<le> length h"
    "next \<noteq> u64_max \<Longrightarrow> rg_base r \<le> next \<Longrightarrow> ps = [] \<or> next \<noteq> Suc (last ps) \<Longrightarrow> next < length h \<and> snd (h ! next)"
    "contiguous_or_join h ps" "rg_tracks_version r = 0 \<Longrightarrow> next = u64_max \<and> ps = []" "tv = 0 \<Longrightarrow> ps = []"
  using assms unfolding cursor_ok_def by auto

lemma got_ok_append [simp]:
  "got_ok h (got @ [(q, e)]) \<longleftrightarrow> got_ok h got \<and> q < length h \<and> e = item_event (en_item (fst (h ! q)))"
  by (auto simp: got_ok_def)

lemma got_ok_hist: "got_ok h got \<Longrightarrow> got_ok (h @ es) got"
  by (fastforce simp: got_ok_def nth_append)

text \<open>A joined reader and a moved reader keep what the history says of them.\<close>

lemma cursor_ok_write:
  assumes c: "cursor_ok r h next tv ps" and b: "rg_base r \<le> rg_base r'"
    and v: "rg_tracks_version r' = 0 \<Longrightarrow> rg_tracks_version r = 0"
  shows "cursor_ok r' (h @ es) next tv ps"
proof (rule cursor_okI)
  show "contiguous_or_join (h @ es) ps"
    using contiguous_or_join_hist [of ps h es] cursor_okD(2,6) [OF c] by blast
  show "next < length (h @ es) \<and> snd ((h @ es) ! next)"
    if "next \<noteq> u64_max" "rg_base r' \<le> next" "ps = [] \<or> next \<noteq> Suc (last ps)"
    using cursor_okD(5) [OF c that(1) _ that(3)] that(2) b by (auto simp: nth_append)
  show "q < (if next = u64_max then rg_base r' else next)" if "q \<in> set ps" for q
    using cursor_okD(3) [OF c that] b by (auto split: if_splits)
qed (use cursor_okD(1,2,4,7,8) [OF c] v in \<open>auto simp: trans_less_add1\<close>)

lemma viewer_ok_write:
  "viewer_ok r h v \<Longrightarrow> rg_base r \<le> rg_base r' \<Longrightarrow>
   (rg_tracks_version r' = 0 \<Longrightarrow> rg_tracks_version r = 0) \<Longrightarrow> viewer_ok r' (h @ es) v"
  by (auto simp: viewer_ok_def intro: cursor_ok_write got_ok_hist)

lemma key_in_hist:
  "ring_inv r \<Longrightarrow> hist_ok r h \<Longrightarrow> k \<in> set (rg_keys r) \<Longrightarrow>
   rg_base r \<le> k \<and> k < length h \<and> snd (h ! k) \<and> k < u64_max"
  by (auto simp: hist_ok_def dest!: ring_inv_core ring_core_keys)

lemma cursor_ok_at_key:
  assumes "ring_inv r" "hist_ok r h" "tracks_ok r" and "k \<in> set (rg_keys r)"
    and "sorted_wrt (<) ps" "contiguous_or_join h ps" "\<And>q. q \<in> set ps \<Longrightarrow> q < k" "tv = 0 \<Longrightarrow> ps = []"
  shows "cursor_ok r h k tv ps"
  using key_in_hist [OF assms(1,2,4)] assms
  by (intro cursor_okI) (force simp: tracks_ok_def)+

lemma cursor_ok_wait:
  assumes "\<And>q. q \<in> set ps \<Longrightarrow> q < rg_base r \<and> q < length h"
    and "sorted_wrt (<) ps" "contiguous_or_join h ps" "tv = 0 \<Longrightarrow> ps = []"
    and "rg_tracks_version r = 0 \<Longrightarrow> ps = []"
  shows "cursor_ok r h u64_max tv ps"
  using assms by (intro cursor_okI) auto

lemma viewer_ok_reader:
  assumes "ring_inv r" and "hist_ok r h" and "tracks_ok r"
  shows "viewer_ok r h \<lparr>vw_sub = reader r start counted, vw_got = []\<rparr>"
proof -
  have "cursor_ok r h (sb_next (reader r start counted)) 0 []"
  proof (cases "rg_keys r = []")
    case True
    then show ?thesis
      by (auto simp: reader_def contiguous_or_join_def intro!: cursor_ok_wait split: start_at.splits)
  next
    case False
    then have "sb_next (reader r start counted) \<in> set (rg_keys r)"
      by (auto simp: reader_def split: start_at.splits)
    with assms show ?thesis
      by (intro cursor_ok_at_key) (auto simp: contiguous_or_join_def)
  qed
  then show ?thesis
    by (simp add: viewer_ok_def got_ok_def reader_def)
qed

lemma viewer_ok_skip:
  assumes inv: "ring_inv r" and h: "hist_ok r h" and t: "tracks_ok r" and v: "viewer_ok r h v"
  shows "viewer_ok r h (v\<lparr>vw_sub := snd (skip_to_live r (vw_sub v))\<rparr>)"
proof (cases "rg_keys r \<noteq> [] \<and> last (rg_keys r) > sb_next (vw_sub v)")
  case False
  then have "skip_to_live r (vw_sub v) = (0, vw_sub v)"
    by (simp add: skip_to_live_def)
  with v show ?thesis by (simp add: viewer_ok_def)
next
  case True
  then have k: "last (rg_keys r) \<in> set (rg_keys r)" by simp
  let ?s = "vw_sub v" and ?ps = "map fst (vw_got v)"
  have c: "cursor_ok r h (sb_next ?s) (sb_tracks_version ?s) ?ps"
    using v by (simp add: viewer_ok_def)
  have "sb_next ?s \<noteq> u64_max"
    using True key_in_hist [OF inv h k] by auto
  then have "cursor_ok r h (last (rg_keys r)) (sb_tracks_version ?s) ?ps"
    using True cursor_okD(1,6,8) [OF c] cursor_okD(3) [OF c, THEN less_trans] inv h t k
    by (intro cursor_ok_at_key) auto
  with True v show ?thesis
    by (simp add: skip_to_live_def viewer_ok_def)
qed

lemma viewer_recv_got:
  assumes "try_recv r (vw_sub v) = (ev, s')"
  shows "viewer_recv r v = v\<lparr>vw_sub := s',
     vw_got := (case ev of Some (FrameEv f) \<Rightarrow> vw_got v @ [(sb_next s' - 1, FrameEv f)]
        | Some (CueEv c) \<Rightarrow> vw_got v @ [(sb_next s' - 1, CueEv c)] | _ \<Rightarrow> vw_got v)\<rparr>"
  using assms by (simp add: viewer_recv_def)

text \<open>A delivered entry: the next position is the delivered one plus one.\<close>

lemma cursor_ok_deliver:
  assumes inv: "ring_inv r" and h: "hist_ok r h" and t: "tracks_ok r"
    and c: "cursor_ok r h next tv ps" and tv: "rg_tracks_version r = tv"
    and q: "next = u64_max \<and> rg_keys r \<noteq> [] \<and> q = rg_base r \<or> next \<noteq> u64_max \<and> q = next"
    and win: "rg_base r \<le> q" "q < end_seq r"
  shows "cursor_ok r h (Suc q) tv (ps @ [q])"
proof -
  have len: "q < length h" "Suc q \<noteq> u64_max"
    using win h by (auto simp: hist_ok_def)
  have less: "p < q" if "p \<in> set ps" for p
    using cursor_okD(3) [OF c that] q by (auto split: if_splits)
  have ver: "rg_tracks_version r \<noteq> 0"
    using q cursor_okD(7) [OF c] t by (auto simp: tracks_ok_def)
  have "snd (h ! q)" if "ps = [] \<or> q \<noteq> Suc (last ps)"
  proof (cases "next = u64_max")
    case True
    with q inv have "q = hd (rg_keys r)" "rg_keys r \<noteq> []"
      by (auto simp: ring_inv_def)
    then show ?thesis using key_in_hist [OF inv h, of q] by auto
  next
    case False
    then show ?thesis using cursor_okD(5) [OF c] that q win by auto
  qed
  then have "contiguous_or_join h (ps @ [q])"
    by (rule contiguous_or_join_snoc [OF cursor_okD(6) [OF c]])
  with len less ver cursor_okD(1,2) [OF c] tv show ?thesis
    by (intro cursor_okI) (auto simp: sorted_wrt_append less_SucI)
qed

lemma viewer_ok_recv:
  assumes inv: "ring_inv r" and h: "hist_ok r h" and t: "tracks_ok r" and v: "viewer_ok r h v"
  shows "viewer_ok r h (viewer_recv r v)"
proof -
  let ?s = "vw_sub v" and ?ps = "map fst (vw_got v)"
  have c: "cursor_ok r h (sb_next ?s) (sb_tracks_version ?s) ?ps" and g: "got_ok h (vw_got v)"
    using v by (simp_all add: viewer_ok_def)
  obtain ev s' where recv: "try_recv r ?s = (ev, s')" by (cases "try_recv r ?s")
  from inv recv show ?thesis
  proof (cases rule: try_recv_cases)
    case tracks
    have "cursor_ok r h (sb_next ?s) (rg_tracks_version r) ?ps"
      using c by (auto simp: cursor_ok_def)
    with tracks g show ?thesis
      by (simp add: viewer_recv_got [OF recv] viewer_ok_def)
  next
    case idle
    with c g show ?thesis
      by (simp add: viewer_recv_got [OF recv] viewer_ok_def)
  next
    case (lagged k)
    have less: "q < rg_base r" if "q \<in> set ?ps" for q
      using cursor_okD(3) [OF c that] lagged by simp
    have "cursor_ok r h k (sb_tracks_version ?s) ?ps"
    proof (cases "rg_keys r = []")
      case True
      with lagged less cursor_okD [OF c] show ?thesis by (auto intro!: cursor_ok_wait)
    next
      case False
      with inv lagged have "k \<in> set (rg_keys r)" "k = rg_base r"
        by (auto simp: ring_inv_def dest: hd_in_set)
      with less cursor_okD(1,6,8) [OF c] inv h t show ?thesis by (intro cursor_ok_at_key) auto
    qed
    with lagged g show ?thesis
      by (simp add: viewer_recv_got [OF recv] viewer_ok_def)
  next
    case (delivered q)
    note d = cursor_ok_deliver [OF inv h t c delivered(1,2,3,4)]
    let ?ev = "item_event (en_item (fst (h ! q)))"
    have "viewer_recv r v = v\<lparr>vw_sub := s', vw_got := vw_got v @ [(q, ?ev)]\<rparr>"
      using delivered hist_ok_entry [OF h delivered(3,4)]
      by (cases "en_item (fst (h ! q))") (simp_all add: viewer_recv_got [OF recv])
    with d g delivered hist_ok_entry [OF h delivered(3,4)] show ?thesis
      by (simp add: viewer_ok_def)
  qed
qed

lemma bytes_ok_same:
  "bytes_ok cfg r \<Longrightarrow> rg_bytes r' = rg_bytes r \<Longrightarrow> rg_frames r' = rg_frames r \<Longrightarrow> bytes_ok cfg r'"
  by (simp add: bytes_ok_def)

lemma ring_push_bytes_ok:
  assumes "ring_inv r" and "ring_push p cfg r f = Some (Inr r')"
  shows "bytes_ok cfg r'"
proof -
  obtain t n where t: "find (\<lambda>t. ti_id t = fr_track f) (rg_tracks r) = Some t" "\<not> rg_ended r"
    using ring_push_InrD [OF assms] by blast
  then have ev: "evict p cfg (append_frame r t f) = Some r'"
    using assms(2) by (auto simp: ring_push_def)
  from evict_cutoff [OF ev] obtain c where
    c: "checked64 p (rg_newest (append_frame r t f) - window_micros cfg) = Some c" by blast
  have core: "ring_core (append_frame r t f)"
    using assms(1) by (auto intro: inv_intros)
  from evict_spec [OF core c] ev show ?thesis
    unfolding bytes_ok_def by force
qed

lemma room_inv_writes:
  assumes m: "room_inv cfg m" and inv: "ring_inv r'" and b: "rg_base (rm_ring m) \<le> rg_base r'"
    and h: "hist_ok r' (rm_hist m @ es)" and t: "tracks_ok r'" and bytes: "bytes_ok cfg r'"
    and v: "rg_tracks_version r' = 0 \<Longrightarrow> rg_tracks_version (rm_ring m) = 0"
  shows "room_inv cfg (m\<lparr>rm_ring := r', rm_hist := rm_hist m @ es\<rparr>)"
  using m inv h t bytes viewer_ok_write [OF _ b v] by (auto simp: room_inv_def)

lemma room_inv_viewer:
  assumes "room_inv cfg m" and "viewer_ok (rm_ring m) (rm_hist m) v"
  shows "room_inv cfg (m\<lparr>rm_viewers := (rm_viewers m)(i \<mapsto> v)\<rparr>)"
  using assms by (auto simp: room_inv_def)

lemma room_inv_step:
  assumes "room_step p cfg m m'" and inv: "room_inv cfg m"
  shows "room_inv cfg m'"
proof -
  let ?r = "rm_ring m"
  have r: "ring_inv ?r" "hist_ok ?r (rm_hist m)" "tracks_ok ?r" "bytes_ok cfg ?r"
    using inv by (auto simp: room_inv_def)
  from assms(1) show ?thesis
  proof (cases rule: room_step.cases)
    case (set_tracks ts r')
    note same = ring_set_tracks_InrD [OF set_tracks(2)]
    have "ring_inv r'"
      using r(1) same ring_inv_same_log by metis
    moreover have "tracks_ok r'" and "rg_tracks_version r' = 0 \<Longrightarrow> rg_tracks_version ?r = 0"
      using set_tracks(2) r(3) by (auto simp: ring_set_tracks_def tracks_ok_def split: if_splits)
    moreover have "hist_ok r' (rm_hist m @ [])"
      using hist_ok_same [OF r(2)] same by simp
    ultimately show ?thesis
      using room_inv_writes [OF inv, of r' "[]"] same bytes_ok_same [OF r(4)] set_tracks(1) by simp
  next
    case (push f r')
    obtain t n where p: "find (\<lambda>t. ti_id t = fr_track f) (rg_tracks ?r) = Some t"
        "n \<le> length (rg_frames ?r)" "r' = ring_drop n (append_frame ?r t f)" "ring_inv r'"
      using ring_push_InrD [OF r(1) push(2)] by blast
    have ver: "rg_tracks_version ?r \<noteq> 0"
      using p(1) r(3) find_SomeD [OF p(1)] by (auto simp: tracks_ok_def)
    have "hist_ok r' (rm_hist m @ [pushed ?r r'])"
      using p push(3) by (intro hist_ok_append [OF r(1,2) p(2)]) auto
    moreover have "tracks_ok r'" and "rg_tracks_version r' = rg_tracks_version ?r"
      and "rg_base ?r \<le> rg_base r'"
      using p ver by (simp_all add: tracks_ok_def)
    ultimately show ?thesis
      using room_inv_writes [OF inv p(4)] ring_push_bytes_ok [OF r(1) push(2)] push(1) by simp
  next
    case (cue c r')
    obtain n where p: "n \<le> length (rg_frames ?r)" "r' = ring_drop n (append_cue ?r c)" "ring_inv r'"
        "bytes_ok cfg r'"
      using ring_inject_cue_InrD [OF r(1) cue(2)] unfolding bytes_ok_def by blast
    have "hist_ok r' (rm_hist m @ [pushed ?r r'])"
      using p cue(3) by (intro hist_ok_append [OF r(1,2) p(1)]) auto
    moreover have "tracks_ok r'" and "rg_tracks_version r' = rg_tracks_version ?r"
      and "rg_base ?r \<le> rg_base r'"
      using p r(3) by (simp_all add: tracks_ok_def)
    ultimately show ?thesis
      using room_inv_writes [OF inv p(3)] p(4) cue(1) by simp
  next
    case finish
    have "ring_inv (ring_end ?r)"
      using r(1) by (auto simp: ring_end_def intro: ring_inv_same_log)
    moreover have "hist_ok (ring_end ?r) (rm_hist m @ [])"
      using hist_ok_same [OF r(2)] by (simp add: ring_end_def)
    moreover have "tracks_ok (ring_end ?r)" "bytes_ok cfg (ring_end ?r)"
      using r by (simp_all add: tracks_ok_def bytes_ok_def ring_end_def)
    ultimately show ?thesis
      using room_inv_writes [OF inv, of "ring_end ?r" "[]"] finish by (simp add: ring_end_def)
  next
    case (join i start counted)
    then show ?thesis using r inv by (auto intro: room_inv_viewer viewer_ok_reader)
  next
    case (recv i v)
    then have "viewer_ok ?r (rm_hist m) v" using inv by (simp add: room_inv_def)
    with recv r inv show ?thesis by (auto intro: room_inv_viewer viewer_ok_recv)
  next
    case (skip i v)
    then have "viewer_ok ?r (rm_hist m) v" using inv by (simp add: room_inv_def)
    with skip r inv show ?thesis by (auto intro: room_inv_viewer viewer_ok_skip)
  next
    case (leave i)
    with inv show ?thesis by (auto simp: room_inv_def)
  qed
qed

lemma room_inv_new: "room_inv cfg room_new"
  by (simp add: room_inv_def room_new_def hist_ok_def tracks_ok_def bytes_ok_def end_seq_def)
     (simp add: ring_new_def u64_max_def)

lemma reachable_room_inv: "reachable p cfg m \<Longrightarrow> room_inv cfg m"
  by (induction rule: reachable.induct) (auto intro: room_inv_new room_inv_step)

subsection \<open>Catching up\<close>

text \<open>The number of reads a viewer needs, at most, before it is told there is nothing more.\<close>

definition reads_left :: "ring \<Rightarrow> subscriber \<Rightarrow> nat" where
  "reads_left r s =
     (if rg_tracks_version r \<noteq> sb_tracks_version s then 1 else 0) +
     (let buffered = (if rg_keys r = [] then 0 else length (rg_frames r)) in
      if sb_next s = u64_max then buffered
      else if sb_next s < rg_base r then Suc buffered
      else end_seq r - sb_next s)"

fun recv_times :: "nat \<Rightarrow> ring \<Rightarrow> subscriber \<Rightarrow> subscriber" where
  "recv_times 0 r s = s"
| "recv_times (Suc n) r s = recv_times n r (snd (try_recv r s))"

definition caught_up :: "event option \<Rightarrow> bool" where
  "caught_up ev \<longleftrightarrow> ev = None \<or> ev = Some End"

lemma item_event_not_caught_up [simp]: "\<not> caught_up (Some (item_event i))"
  by (cases i) (simp_all add: caught_up_def)

lemma reads_left_decreases:
  assumes inv: "ring_inv r" and lim: "end_seq r < u64_max" and recv: "try_recv r s = (ev, s')"
  shows "caught_up ev \<or> reads_left r s' < reads_left r s"
  using inv recv
proof (cases rule: try_recv_cases)
  case (lagged k)
  have "k = u64_max \<and> rg_keys r = [] \<or> rg_keys r \<noteq> [] \<and> k = rg_base r \<and> k \<noteq> u64_max"
    using lagged lim by (auto simp: end_seq_def)
  with lagged show ?thesis
    by (auto simp: reads_left_def end_seq_def)
next
  case (delivered q)
  have q: "q < end_seq r" "rg_base r \<le> q" "Suc q \<noteq> u64_max"
    using delivered(3,4) lim by auto
  from delivered(2) show ?thesis
  proof
    assume "sb_next s = u64_max \<and> rg_keys r \<noteq> [] \<and> q = rg_base r"
    with delivered(1,6) q show ?thesis by (auto simp: reads_left_def end_seq_def)
  next
    assume "sb_next s \<noteq> u64_max \<and> q = sb_next s"
    with delivered(1,6) q show ?thesis by (auto simp: reads_left_def)
  qed
qed (auto simp: reads_left_def caught_up_def)

lemma catches_up_in:
  assumes "ring_inv r" and "end_seq r < u64_max"
  shows "\<exists>n \<le> reads_left r s. caught_up (fst (try_recv r (recv_times n r s)))"
proof (induction "reads_left r s" arbitrary: s rule: less_induct)
  case less
  obtain ev s' where recv: "try_recv r s = (ev, s')" by (cases "try_recv r s")
  show ?case
  proof (cases "caught_up ev")
    case True
    then show ?thesis using recv by (intro exI [of _ 0]) simp
  next
    case False
    then have dec: "reads_left r s' < reads_left r s"
      using reads_left_decreases [OF assms recv] by blast
    from less [OF dec] obtain n where "n \<le> reads_left r s'"
        "caught_up (fst (try_recv r (recv_times n r s')))"
      by blast
    then show ?thesis using dec recv by (intro exI [of _ "Suc n"]) simp
  qed
qed

lemma reads_left_bound:
  "sb_next s = u64_max \<or> sb_next s \<le> end_seq r \<Longrightarrow> reads_left r s \<le> length (rg_frames r) + 2"
  by (auto simp: reads_left_def end_seq_def Let_def)

subsection \<open>Properties\<close>

text \<open>
  Claim C3. In every state a stream can reach, whatever the publisher, the cue API and the viewers
  did in whatever order, with and without join points: the ring's invariant holds and its payload is within
  \<open>max_bytes\<close> (or it holds a single entry). If it has a join point, every buffered entry has a join point at or
  before it that is a keyframe and is buffered too.
\<close>

theorem reachable_ring_decodable:
  assumes "reachable p cfg m"
  shows "ring_inv (rm_ring m) \<and>
     (rg_bytes (rm_ring m) \<le> bc_max_bytes cfg \<or> length (rg_frames (rm_ring m)) \<le> 1) \<and>
     (rg_keys (rm_ring m) \<noteq> [] \<longrightarrow>
        (\<forall>s. rg_base (rm_ring m) \<le> s \<and> s < end_seq (rm_ring m) \<longrightarrow>
           (\<exists>k \<in> set (rg_keys (rm_ring m)). k \<le> s \<and> rg_base (rm_ring m) \<le> k \<and>
              is_key_entry (rg_frames (rm_ring m) ! (k - rg_base (rm_ring m))))))"
proof -
  have inv: "ring_inv (rm_ring m)" and b: "bytes_ok cfg (rm_ring m)"
    using reachable_room_inv [OF assms] by (auto simp: room_inv_def)
  have "rg_base (rm_ring m) \<in> set (rg_keys (rm_ring m)) \<and>
      is_key_entry (rg_frames (rm_ring m) ! (rg_base (rm_ring m) - rg_base (rm_ring m)))" if "rg_keys (rm_ring m) \<noteq> []"
  proof -
    from inv that have "rg_base (rm_ring m) \<in> set (rg_keys (rm_ring m))" by (metis hd_in_set ring_inv_def)
    with inv show ?thesis unfolding ring_inv_def ring_core_def by blast
  qed
  with inv b show ?thesis unfolding bytes_ok_def by blast
qed

definition demo_room :: room where
  "demo_room = room_new\<lparr>rm_ring := demo_ring2,
     rm_hist := [(\<lparr>en_item = FrameItem (demo_frame 90000 True), en_micros = 1000000\<rparr>, True)]\<rparr>"

lemma demo_push:
  "ring_push Release buffer_config_default demo_ring (demo_frame 90000 True) = Some (Inr demo_ring2)"
proof -
  have f: "find (\<lambda>t. ti_id t = fr_track (demo_frame 90000 True)) (rg_tracks demo_ring) = Some demo_video"
    by (simp add: demo_defs)
  have a: "append_frame demo_ring demo_video (demo_frame 90000 True) = demo_ring2"
    using demo_to_micros
    by (simp add: append_frame_def demo_ring2_def is_sync_def demo_ring_def ring_new_def demo_frame_def
        end_seq_def track_kind_of_def i64_min_def Let_def) (simp add: demo_video_def)
  have "evict Release buffer_config_default demo_ring2 = Some demo_ring2"
    by (simp add: evict_def demo_ring2_def evict_to_def checked64_release evict_gops.simps
        evict_bytes.simps demo_ring_def ring_new_def)
  with f a show ?thesis
    by (simp add: ring_push_def) (simp add: demo_ring_def ring_new_def)
qed

lemma demo_room_reachable: "reachable Release buffer_config_default demo_room"
proof -
  have "room_step Release buffer_config_default room_new (room_new\<lparr>rm_ring := demo_ring\<rparr>)"
    by (rule room_step.set_tracks [where ts = "[demo_video]"])
       (simp add: ring_set_tracks_def room_new_def ring_new_def demo_ring_def tracks_eq_def
          track_kind_of_def demo_video_def)
  then have r: "reachable Release buffer_config_default (room_new\<lparr>rm_ring := demo_ring\<rparr>)"
    by (rule reachable.step [OF reachable.start])
  have push: "ring_push Release buffer_config_default (rm_ring (room_new\<lparr>rm_ring := demo_ring\<rparr>))
      (demo_frame 90000 True) = Some (Inr demo_ring2)"
    by (simp add: demo_push)
  have lim: "end_seq demo_ring2 < u64_max"
    by (simp add: end_seq_def demo_ring2_def demo_ring_def ring_new_def u64_max_def)
  have "demo_room = (room_new\<lparr>rm_ring := demo_ring\<rparr>)\<lparr>rm_ring := demo_ring2, rm_hist :=
      rm_hist (room_new\<lparr>rm_ring := demo_ring\<rparr>) @ [pushed (rm_ring (room_new\<lparr>rm_ring := demo_ring\<rparr>)) demo_ring2]\<rparr>"
    by (simp add: demo_room_def room_new_def pushed_def demo_ring2_def end_seq_def)
       (simp add: demo_ring_def ring_new_def)
  with reachable.step [OF r room_step.push [OF push lim]] show ?thesis
    by (simp only:)
qed

theorem reachable_ring_decodable_witness:
  "ring_inv demo_ring2 \<and> is_key_entry (rg_frames demo_ring2 ! 0)"
  using reachable_ring_decodable [OF demo_room_reachable]
  by (auto simp: demo_room_def demo_ring2_def end_seq_def demo_ring_def ring_new_def)

text \<open>
  Claim C1. What a viewer receives is the stream: in every reachable state the entries it was given
  are entries of the push history under strictly increasing sequence numbers (nothing twice, nothing
  out of order, nothing made up), and wherever the sequence starts or jumps it lands on a join point,
  so the first thing a viewer decodes after joining, lagging or skipping is decodable.
\<close>

theorem viewer_sees_history:
  assumes "reachable p cfg m" and "rm_viewers m i = Some v"
  shows "sorted_wrt (<) (map fst (vw_got v)) \<and>
     (\<forall>(q, e) \<in> set (vw_got v). q < length (rm_hist m) \<and> e = item_event (en_item (fst (rm_hist m ! q)))) \<and>
     (\<forall>j < length (vw_got v). (j = 0 \<or> fst (vw_got v ! j) \<noteq> Suc (fst (vw_got v ! (j - 1)))) \<longrightarrow>
        snd (rm_hist m ! fst (vw_got v ! j)))"
proof -
  have v: "viewer_ok (rm_ring m) (rm_hist m) v"
    using reachable_room_inv [OF assms(1)] assms(2) by (auto simp: room_inv_def)
  then have "contiguous_or_join (rm_hist m) (map fst (vw_got v))"
    and "sorted_wrt (<) (map fst (vw_got v))" and "got_ok (rm_hist m) (vw_got v)"
    by (simp_all add: viewer_ok_def cursor_ok_def)
  then show ?thesis
    by (auto simp: contiguous_or_join_def got_ok_def)
qed

definition demo_viewer :: viewer where
  "demo_viewer = \<lparr>vw_sub = \<lparr>sb_next = 1, sb_tracks_version = 1, sb_counted = True\<rparr>,
     vw_got = [(0, FrameEv (demo_frame 90000 True))]\<rparr>"

lemma demo_viewer_reachable:
  "reachable Release buffer_config_default (demo_room\<lparr>rm_viewers := [0 \<mapsto> demo_viewer]\<rparr>)"
proof -
  let ?v0 = "\<lparr>vw_sub = reader demo_ring2 LiveEdge True, vw_got = []\<rparr>"
  have m0: "reachable Release buffer_config_default (demo_room\<lparr>rm_viewers := [0 \<mapsto> ?v0]\<rparr>)"
    using reachable.step [OF demo_room_reachable room_step.join [of demo_room 0 _ _ LiveEdge True]]
    by (simp add: demo_room_def room_new_def)
  have m1: "reachable Release buffer_config_default
      (demo_room\<lparr>rm_viewers := [0 \<mapsto> viewer_recv demo_ring2 ?v0]\<rparr>)"
    using reachable.step [OF m0 room_step.recv [of _ 0 ?v0]] by (simp add: demo_room_def)
  have m2: "reachable Release buffer_config_default
      (demo_room\<lparr>rm_viewers := [0 \<mapsto> viewer_recv demo_ring2 (viewer_recv demo_ring2 ?v0)]\<rparr>)"
    using reachable.step [OF m1 room_step.recv [of _ 0 "viewer_recv demo_ring2 ?v0"]] by (simp add: demo_room_def)
  have "viewer_recv demo_ring2 (viewer_recv demo_ring2 ?v0) = demo_viewer"
    by (simp add: viewer_recv_def reader_def try_recv_def resolve_next_def demo_ring2_def demo_viewer_def
        end_seq_def demo_ring_def ring_new_def u64_max_def)
  with m2 show ?thesis by simp
qed

theorem viewer_sees_history_witness:
  "sorted_wrt (<) (map fst (vw_got demo_viewer)) \<and> snd (rm_hist demo_room ! 0)"
  using viewer_sees_history [OF demo_viewer_reachable, of 0 demo_viewer]
  by (simp add: demo_viewer_def)

text \<open>
  A viewer is told the track list before its first entry: in every reachable state a
  viewer that has not been sent \<open>TracksChanged\<close> has been sent no frame and no cue, and no read
  delivers an entry under a track list the viewer was not told about.
\<close>

theorem tracks_before_frames:
  assumes "reachable p cfg m" and "rm_viewers m i = Some v"
  shows "(sb_tracks_version (vw_sub v) = 0 \<longrightarrow> vw_got v = []) \<and>
     (rg_tracks_version (rm_ring m) \<noteq> sb_tracks_version (vw_sub v) \<longrightarrow>
        fst (try_recv (rm_ring m) (vw_sub v)) = Some TracksChanged \<and>
        vw_got (viewer_recv (rm_ring m) v) = vw_got v)"
proof -
  have "viewer_ok (rm_ring m) (rm_hist m) v"
    using reachable_room_inv [OF assms(1)] assms(2) by (auto simp: room_inv_def)
  then show ?thesis
    by (simp add: viewer_ok_def cursor_ok_def viewer_recv_def try_recv_def)
qed

theorem tracks_before_frames_witness:
  "fst (try_recv demo_ring2 (reader demo_ring2 LiveEdge True)) = Some TracksChanged"
proof -
  let ?v0 = "\<lparr>vw_sub = reader demo_ring2 LiveEdge True, vw_got = []\<rparr>"
  have "reachable Release buffer_config_default (demo_room\<lparr>rm_viewers := [0 \<mapsto> ?v0]\<rparr>)"
    using reachable.step [OF demo_room_reachable room_step.join [of demo_room 0 _ _ LiveEdge True]]
    by (simp add: demo_room_def room_new_def)
  from tracks_before_frames [OF this, of 0 ?v0] show ?thesis
    by (simp add: demo_room_def) (simp add: demo_ring2_def demo_ring_def reader_def)
qed

text \<open>
  Claim C4. A viewer that keeps reading catches up: from any position it can have, at most two reads
  more than the ring has entries are answered before one says there is nothing left (\<open>None\<close> on a
  live stream, \<open>End\<close> on an ended one).
\<close>

theorem viewer_catches_up:
  assumes "reachable p cfg m" and "rm_viewers m i = Some v"
  shows "\<exists>n \<le> length (rg_frames (rm_ring m)) + 2.
     caught_up (fst (try_recv (rm_ring m) (recv_times n (rm_ring m) (vw_sub v))))"
proof -
  let ?r = "rm_ring m" and ?s = "vw_sub v"
  have inv: "ring_inv ?r" and h: "hist_ok ?r (rm_hist m)" and v: "viewer_ok ?r (rm_hist m) v"
    using reachable_room_inv [OF assms(1)] assms(2) by (auto simp: room_inv_def)
  then have lim: "end_seq ?r < u64_max" and "length (rm_hist m) = end_seq ?r"
    unfolding hist_ok_def by blast+
  then have "sb_next ?s = u64_max \<or> sb_next ?s \<le> end_seq ?r"
    using v by (auto simp: viewer_ok_def cursor_ok_def)
  then have "reads_left ?r ?s \<le> length (rg_frames ?r) + 2"
    by (rule reads_left_bound)
  with catches_up_in [OF inv lim, of ?s] show ?thesis
    by (meson le_trans)
qed

theorem viewer_catches_up_witness:
  "\<exists>n \<le> 3. caught_up (fst (try_recv demo_ring2 (recv_times n demo_ring2 (vw_sub demo_viewer))))"
  using viewer_catches_up [OF demo_viewer_reachable, of 0 demo_viewer]
  by (simp add: demo_room_def demo_ring2_def eval_nat_numeral)

text \<open>
  The exception to "eviction drops whole GOPs": when the only buffered GOP outgrows
  \<open>max_bytes\<close>, a further delta frame evicts the GOP's keyframe and keeps its delta frames, so the
  ring holds frames that no buffered keyframe decodes (until the next keyframe clears them).
\<close>

theorem oversized_gop_loses_its_keyframe:
  assumes "ring_inv r" and "length (rg_keys r) = 1" and "\<not> fr_keyframe f"
    and "rg_bytes r + length (fr_data f) > bc_max_bytes cfg"
    and "ring_push p cfg r f = Some (Inr r')"
  shows "rg_keys r' = [] \<and> rg_frames r' \<noteq> []"
proof -
  obtain t n where t: "find (\<lambda>t. ti_id t = fr_track f) (rg_tracks r) = Some t"
      "n \<le> length (rg_frames r)" "r' = ring_drop n (append_frame r t f)"
    using ring_push_InrD [OF assms(1,5)] by blast
  have keys: "rg_keys r = [rg_base r]"
    using assms(1,2) by (cases "rg_keys r") (auto simp: ring_inv_def)
  then have "rg_frames r \<noteq> []"
    using ring_core_keys [OF ring_inv_core [OF assms(1)], of "rg_base r"] by (auto simp: end_seq_def)
  moreover have "bytes_ok cfg r'"
    by (rule ring_push_bytes_ok [OF assms(1,5)])
  moreover have "rg_bytes r = sum_list (map entry_len (rg_frames r))"
    using assms(1) by (auto simp: ring_inv_def ring_core_def)
  ultimately have "n \<noteq> 0"
    using assms(4) t(3) by (intro notI) (simp add: bytes_ok_def)
  then show ?thesis
    using t keys assms(3) by (simp add: is_sync_def)
qed

theorem oversized_gop_loses_its_keyframe_witness:
  "\<exists>r'. ring_push Release \<lparr>bc_window = 0, bc_max_bytes = 5\<rparr> demo_ring2 (demo_frame 93000 False) = Some (Inr r') \<and>
     rg_keys r' = [] \<and> rg_frames r' \<noteq> []"
proof -
  let ?cfg = "\<lparr>bc_window = 0, bc_max_bytes = 5\<rparr>" and ?f = "demo_frame 93000 False"
  have f: "find (\<lambda>t. ti_id t = fr_track ?f) (rg_tracks demo_ring2) = Some demo_video" "\<not> rg_ended demo_ring2"
    by (simp_all add: demo_ring2_def demo_defs)
  obtain n where "ring_push Release ?cfg demo_ring2 ?f = Some (Inr (ring_drop n (append_frame demo_ring2 demo_video ?f)))"
    by (rule ring_push_cases [OF demo_ring2_inv f(2,1) checked64_release])
  from oversized_gop_loses_its_keyframe [OF demo_ring2_inv _ _ _ this] this show ?thesis
    by (auto simp: demo_ring2_def demo_defs)
qed

end
