(* ===== verification/Wakeups.thy ===== *)
theory Wakeups
  imports Viewers
begin

text \<open>
  \<open>crates/caudal-core/src/stream.rs\<close>, \<open>Subscriber::recv\<close>: the waiting loop around \<open>try_recv\<close>. A
  writer changes the ring under the lock and only then, with the lock released, bumps the watch
  channel; the viewer marks the version it has seen before it looks. Both are split into those
  steps here, so every interleaving of a viewer with any number of writers is a run of
  \<open>wait_step\<close>. The version is the watch channel's own, which grows by one per \<open>send_modify\<close>.
\<close>

datatype wait_pc = Running | Looking | Sleeping

record wait_state =
  ws_ring :: ring
  ws_version :: nat
  ws_pending :: nat
  ws_sub :: subscriber
  ws_seen :: nat
  ws_pc :: wait_pc

definition wait_init :: "ring \<Rightarrow> subscriber \<Rightarrow> wait_state" where
  "wait_init r s = \<lparr>ws_ring = r, ws_version = 0, ws_pending = 0, ws_sub = s, ws_seen = 0, ws_pc = Running\<rparr>"

text \<open>\<open>borrow_and_update\<close>, then the look at the ring, then \<open>changed\<close> (dropping the future is \<open>cancel\<close>).\<close>

definition mark_seen :: "wait_state \<Rightarrow> wait_state" where
  "mark_seen w = w\<lparr>ws_seen := ws_version w, ws_pc := Looking\<rparr>"

definition look :: "wait_state \<Rightarrow> event option \<times> wait_state" where
  "look w = (let (ev, s) = try_recv (ws_ring w) (ws_sub w) in
     (ev, w\<lparr>ws_sub := s, ws_pc := (case ev of None \<Rightarrow> Sleeping | Some _ \<Rightarrow> Running)\<rparr>))"

definition may_wake :: "wait_state \<Rightarrow> bool" where
  "may_wake w \<longleftrightarrow> ws_version w \<noteq> ws_seen w"

inductive wait_step :: "profile \<Rightarrow> buffer_config \<Rightarrow> wait_state \<Rightarrow> wait_state \<Rightarrow> bool" for p cfg where
  change: "ring_write p cfg (ws_ring w) r' \<Longrightarrow>
     wait_step p cfg w (w\<lparr>ws_ring := r', ws_pending := (if r' = ws_ring w then ws_pending w else ws_pending w + 1)\<rparr>)"
| notify: "0 < ws_pending w \<Longrightarrow>
     wait_step p cfg w (w\<lparr>ws_pending := ws_pending w - 1, ws_version := ws_version w + 1\<rparr>)"
| notify_unchanged: "wait_step p cfg w (w\<lparr>ws_version := ws_version w + 1\<rparr>)"
| mark: "ws_pc w = Running \<Longrightarrow> wait_step p cfg w (mark_seen w)"
| look: "ws_pc w = Looking \<Longrightarrow> wait_step p cfg w (snd (look w))"
| woken: "ws_pc w = Sleeping \<Longrightarrow> may_wake w \<Longrightarrow> wait_step p cfg w (w\<lparr>ws_pc := Running\<rparr>)"
| cancel: "wait_step p cfg w (w\<lparr>ws_pc := Running\<rparr>)"

lemma try_recv_None_idle: "try_recv r s = (None, s') \<Longrightarrow> fst (try_recv r s') = None"
  by (auto simp: try_recv_def resolve_next_def Let_def split: if_splits list.splits)

definition wait_inv :: "wait_state \<Rightarrow> bool" where
  "wait_inv w \<longleftrightarrow> ws_seen w \<le> ws_version w \<and>
     (ws_pc w = Sleeping \<longrightarrow> ws_version w = ws_seen w \<longrightarrow> ws_pending w = 0 \<longrightarrow>
        fst (try_recv (ws_ring w) (ws_sub w)) = None)"

lemma wait_inv_step: "wait_step p cfg w w' \<Longrightarrow> wait_inv w \<Longrightarrow> wait_inv w'"
proof (induction rule: wait_step.induct)
  case (look w)
  then show ?case
    by (cases "try_recv (ws_ring w) (ws_sub w)")
       (auto simp: wait_inv_def look_def split: option.splits dest: try_recv_None_idle)
qed (auto simp: wait_inv_def mark_seen_def)

lemma wait_inv_steps: "(wait_step p cfg)\<^sup>*\<^sup>* w w' \<Longrightarrow> wait_inv w \<Longrightarrow> wait_inv w'"
  by (induction rule: rtranclp_induct) (auto intro: wait_inv_step)

text \<open>
  Claim C7. No wake-up is lost: in every interleaving, a viewer that sleeps although an event is
  ready for it can wake now, or a writer still has its notification to send.
\<close>

theorem no_lost_wakeup:
  assumes "(wait_step p cfg)\<^sup>*\<^sup>* (wait_init r s) w" and "ws_pc w = Sleeping"
    and "fst (try_recv (ws_ring w) (ws_sub w)) \<noteq> None"
  shows "may_wake w \<or> 0 < ws_pending w"
proof -
  have "wait_inv w"
    by (rule wait_inv_steps [OF assms(1)]) (simp add: wait_inv_def wait_init_def)
  with assms(2,3) show ?thesis
    by (auto simp: wait_inv_def may_wake_def)
qed

theorem no_lost_wakeup_witness:
  "\<exists>w. ws_pc w = Sleeping \<and> fst (try_recv (ws_ring w) (ws_sub w)) = Some End \<and> (may_wake w \<or> 0 < ws_pending w)"
proof -
  let ?c = buffer_config_default and ?s = "reader ring_new LiveEdge True"
  let ?w0 = "wait_init ring_new ?s"
  let ?w2 = "snd (look (mark_seen ?w0))"
  let ?w3 = "?w2\<lparr>ws_ring := ring_end ring_new, ws_pending := 1\<rparr>"
  have recv: "try_recv ring_new ?s = (None, ?s)"
    by (simp add: try_recv_def reader_def resolve_next_def ring_new_def)
  have w2: "ws_ring ?w2 = ring_new" "ws_sub ?w2 = ?s" "ws_pc ?w2 = Sleeping" "ws_pending ?w2 = 0"
    by (simp_all add: look_def mark_seen_def wait_init_def recv)
  have "wait_step Release ?c ?w0 (mark_seen ?w0)"
    by (rule wait_step.mark) (simp add: wait_init_def)
  moreover have "wait_step Release ?c (mark_seen ?w0) ?w2"
    by (rule wait_step.look) (simp add: mark_seen_def)
  moreover have "wait_step Release ?c ?w2 ?w3"
    using wait_step.change [OF ring_write.write_end, of Release ?c ?w2] w2
    by (simp add: ring_end_def ring_new_def)
  ultimately have run: "(wait_step Release ?c)\<^sup>*\<^sup>* ?w0 ?w3"
    by (meson converse_rtranclp_into_rtranclp rtranclp.rtrancl_refl)
  have ev: "fst (try_recv (ws_ring ?w3) (ws_sub ?w3)) = Some End"
    using w2 by (simp add: try_recv_def reader_def resolve_next_def ring_new_def ring_end_def)
  have "may_wake ?w3 \<or> 0 < ws_pending ?w3"
    by (rule no_lost_wakeup [OF run]) (use ev w2 in simp_all)
  with ev w2 show ?thesis
    by (intro exI [of _ ?w3]) simp
qed

end
