(* ===== verification/Registry.thy ===== *)
theory Registry
  imports Net Viewers "HOL-Library.AList" "HOL-Library.Multiset" "HOL-Library.Char_ord" "HOL-Library.List_Lexorder"
begin

text \<open>
  \<open>crates/caudal-core/src/registry.rs\<close> and \<open>gate.rs\<close>: stream names to live streams, with one
  publisher per name. An \<open>Arc<Stream>\<close> is an address (\<open>nat\<close>) of the heap \<open>rs_heap\<close>, so
  \<open>Arc::ptr_eq\<close> is equality of addresses; the hash map is an association list with distinct keys;
  each broadcast channel is the list of what was sent on it. The \<open>Gate\<close> and the \<open>Demand\<close>
  implementations are trait objects the server installs: a gate is a function of its arguments,
  a demand source a function that also gives the registry as it finds it when it resolves.
\<close>

subsection \<open>The access gate\<close>

datatype access = Publish | Play

datatype denied = Missing | Refused string

type_synonym gate = "access \<Rightarrow> string \<Rightarrow> string option \<Rightarrow> ip_addr option \<Rightarrow> denied + unit"

subsection \<open>The registry\<close>

datatype publish_error = InvalidName | Busy string

record registry =
  rs_streams :: "(string \<times> nat) list"
  rs_heap :: "nat \<Rightarrow> stream option"
  rs_fresh :: nat
  rs_published :: "nat list"
  rs_ended :: "string list"
  rs_gate :: "gate option"

definition registry_new :: registry where
  "registry_new = \<lparr>rs_streams = [], rs_heap = (\<lambda>_. None), rs_fresh = 0, rs_published = [],
     rs_ended = [], rs_gate = None\<rparr>"

definition set_gate :: "gate \<Rightarrow> registry \<Rightarrow> registry" where
  "set_gate g reg = reg\<lparr>rs_gate := Some g\<rparr>"

definition clear_gate :: "registry \<Rightarrow> registry" where
  "clear_gate reg = reg\<lparr>rs_gate := None\<rparr>"

definition authorize ::
    "registry \<Rightarrow> access \<Rightarrow> string \<Rightarrow> string option \<Rightarrow> ip_addr option \<Rightarrow> denied + unit" where
  "authorize reg access stream token ip =
     (case rs_gate reg of Some g \<Rightarrow> g access stream token ip | None \<Rightarrow> Inr ())"

definition publish :: "registry \<Rightarrow> string \<Rightarrow> buffer_config \<Rightarrow> (publish_error + nat) \<times> registry" where
  "publish reg name cfg =
     (if \<not> valid_stream_name name then (Inl InvalidName, reg)
      else if map_of (rs_streams reg) name \<noteq> None then (Inl (Busy name), reg)
      else (Inr (rs_fresh reg),
            reg\<lparr>rs_streams := AList.update name (rs_fresh reg) (rs_streams reg),
                rs_heap := (rs_heap reg)(rs_fresh reg \<mapsto> stream_new name cfg),
                rs_fresh := rs_fresh reg + 1,
                rs_published := rs_published reg @ [rs_fresh reg]\<rparr>))"

definition registry_get :: "registry \<Rightarrow> string \<Rightarrow> nat option" where
  "registry_get reg name = map_of (rs_streams reg) name"

definition stream_at :: "registry \<Rightarrow> nat \<Rightarrow> stream" where
  "stream_at reg a = the (rs_heap reg a)"

definition put_stream :: "nat \<Rightarrow> stream \<Rightarrow> registry \<Rightarrow> registry" where
  "put_stream a st reg = reg\<lparr>rs_heap := (rs_heap reg)(a \<mapsto> st)\<rparr>"

text \<open>
  What the demand future resolves to: nothing within \<open>DEMAND_TIMEOUT\<close>, or its own answer. The
  registry may have changed in between, by the source or by anybody else.
\<close>

datatype demand_outcome = Timeout | Resolved "nat option"

type_synonym demand = "registry \<Rightarrow> string \<Rightarrow> demand_outcome \<times> registry"

definition demand_timeout :: duration where
  "demand_timeout = 15 * 10 ^ 9"

definition get_or_demand :: "demand option \<Rightarrow> registry \<Rightarrow> string \<Rightarrow> nat option \<times> registry" where
  "get_or_demand demand reg name =
     (case registry_get reg name of
        Some s \<Rightarrow> (Some s, reg)
      | None \<Rightarrow>
          if \<not> valid_stream_name name then (None, reg)
          else case demand of
            None \<Rightarrow> (None, reg)
          | Some d \<Rightarrow>
             (case d reg name of
                (Resolved (Some s), reg') \<Rightarrow>
                  if \<not> is_ended (stream_at reg' s) then (Some s, reg')
                  else (registry_get reg' name, reg')
              | (_, reg') \<Rightarrow> (registry_get reg' name, reg')))"

definition registry_subscribe :: "registry \<Rightarrow> string \<Rightarrow> start_at \<Rightarrow> subscriber option \<times> registry" where
  "registry_subscribe reg name start =
     (case registry_get reg name of
        None \<Rightarrow> (None, reg)
      | Some a \<Rightarrow> (let (s, st) = subscribe (stream_at reg a) start in (Some s, put_stream a st reg)))"

definition registry_list :: "registry \<Rightarrow> nat list" where
  "registry_list reg = sort_key (\<lambda>a. st_name (stream_at reg a)) (map snd (rs_streams reg))"

subsection \<open>Publishers\<close>

text \<open>A \<open>Publisher\<close> is the address of its stream. Its operations are those of the stream.\<close>

definition publisher_set_tracks :: "nat \<Rightarrow> registry \<Rightarrow> track_info list \<Rightarrow> push_error + registry" where
  "publisher_set_tracks a reg ts =
     map_sum id (\<lambda>st. put_stream a st reg) (stream_set_tracks (stream_at reg a) ts)"

definition publisher_push :: "profile \<Rightarrow> nat \<Rightarrow> registry \<Rightarrow> frame \<Rightarrow> (push_error + registry) option" where
  "publisher_push p a reg f =
     map_option (map_sum id (\<lambda>st. put_stream a st reg)) (stream_push p (stream_at reg a) f)"

definition publisher_push_cue :: "profile \<Rightarrow> nat \<Rightarrow> registry \<Rightarrow> cue \<Rightarrow> (push_error + registry) option" where
  "publisher_push_cue p a reg c =
     map_option (map_sum id (\<lambda>st. put_stream a st reg)) (stream_inject_cue p (stream_at reg a) c)"

text \<open>Dropping a publisher ends the stream first and takes the registry lock only then.\<close>

definition drop_end :: "nat \<Rightarrow> registry \<Rightarrow> registry" where
  "drop_end a reg = put_stream a (stream_end (stream_at reg a)) reg"

definition drop_remove :: "nat \<Rightarrow> registry \<Rightarrow> registry" where
  "drop_remove a reg =
     (let name = st_name (stream_at reg a) in
      reg\<lparr>rs_streams := (if map_of (rs_streams reg) name = Some a
                         then AList.delete name (rs_streams reg) else rs_streams reg),
          rs_ended := rs_ended reg @ [name]\<rparr>)"

definition drop_publisher :: "nat \<Rightarrow> registry \<Rightarrow> registry" where
  "drop_publisher a reg = drop_remove a (drop_end a reg)"

lemmas publisher_defs = publisher_set_tracks_def publisher_push_def publisher_push_cue_def

subsection \<open>The registry in use\<close>

text \<open>
  Every publisher that exists is \<open>Publishing\<close> or, between the two halves of its drop, \<open>Ending\<close>.
  Each operation is one step, except the drop, which is two, so that other tasks run in between.
\<close>

datatype pub_phase = Publishing | Ending

record office =
  of_reg :: registry
  of_pubs :: "nat \<Rightarrow> pub_phase option"

definition office_new :: office where
  "office_new = \<lparr>of_reg = registry_new, of_pubs = (\<lambda>_. None)\<rparr>"

inductive office_step :: "profile \<Rightarrow> office \<Rightarrow> office \<Rightarrow> bool" for p where
  claim: "publish (of_reg w) name cfg = (Inr a, reg') \<Longrightarrow>
     office_step p w (w\<lparr>of_reg := reg', of_pubs := (of_pubs w)(a \<mapsto> Publishing)\<rparr>)"
| announce: "of_pubs w a = Some Publishing \<Longrightarrow> publisher_set_tracks a (of_reg w) ts = Inr reg' \<Longrightarrow>
     office_step p w (w\<lparr>of_reg := reg'\<rparr>)"
| feed: "of_pubs w a = Some Publishing \<Longrightarrow> publisher_push p a (of_reg w) f = Some (Inr reg') \<Longrightarrow>
     office_step p w (w\<lparr>of_reg := reg'\<rparr>)"
| inject: "rs_heap (of_reg w) a \<noteq> None \<Longrightarrow> publisher_push_cue p a (of_reg w) c = Some (Inr reg') \<Longrightarrow>
     office_step p w (w\<lparr>of_reg := reg'\<rparr>)"
| watch: "registry_subscribe (of_reg w) name start = (s, reg') \<Longrightarrow>
     office_step p w (w\<lparr>of_reg := reg'\<rparr>)"
| finish: "of_pubs w a = Some Publishing \<Longrightarrow>
     office_step p w (w\<lparr>of_reg := drop_end a (of_reg w), of_pubs := (of_pubs w)(a \<mapsto> Ending)\<rparr>)"
| release: "of_pubs w a = Some Ending \<Longrightarrow>
     office_step p w (w\<lparr>of_reg := drop_remove a (of_reg w), of_pubs := (of_pubs w)(a := None)\<rparr>)"
| policy: "office_step p w (w\<lparr>of_reg := set_gate g (of_reg w)\<rparr>)"
| no_policy: "office_step p w (w\<lparr>of_reg := clear_gate (of_reg w)\<rparr>)"

definition office_inv :: "office \<Rightarrow> bool" where
  "office_inv w \<longleftrightarrow> distinct (map fst (rs_streams (of_reg w))) \<and>
     (\<forall>n a. map_of (rs_streams (of_reg w)) n = Some a \<longleftrightarrow>
        of_pubs w a \<noteq> None \<and> st_name (stream_at (of_reg w) a) = n) \<and>
     (\<forall>a. of_pubs w a \<noteq> None \<longrightarrow> rs_heap (of_reg w) a \<noteq> None \<and>
        valid_stream_name (st_name (stream_at (of_reg w) a))) \<and>
     (\<forall>a. rs_heap (of_reg w) a \<noteq> None \<longrightarrow> a < rs_fresh (of_reg w) \<and>
        ring_inv (st_ring (stream_at (of_reg w) a)) \<and>
        (is_ended (stream_at (of_reg w) a) \<longleftrightarrow> of_pubs w a \<noteq> Some Publishing))"

lemma office_invI:
  assumes "distinct (map fst (rs_streams (of_reg w)))"
    and "\<And>n a. map_of (rs_streams (of_reg w)) n = Some a \<longleftrightarrow>
        of_pubs w a \<noteq> None \<and> st_name (stream_at (of_reg w) a) = n"
    and "\<And>a. of_pubs w a \<noteq> None \<Longrightarrow> rs_heap (of_reg w) a \<noteq> None \<and>
        valid_stream_name (st_name (stream_at (of_reg w) a))"
    and "\<And>a. rs_heap (of_reg w) a \<noteq> None \<Longrightarrow> a < rs_fresh (of_reg w) \<and>
        ring_inv (st_ring (stream_at (of_reg w) a)) \<and>
        (is_ended (stream_at (of_reg w) a) \<longleftrightarrow> of_pubs w a \<noteq> Some Publishing)"
  shows "office_inv w"
  unfolding office_inv_def using assms by blast

text \<open>Stream operations other than \<open>end\<close> keep the name and the end mark.\<close>

definition same_identity :: "stream \<Rightarrow> stream \<Rightarrow> bool" where
  "same_identity st st' \<longleftrightarrow> st_name st' = st_name st \<and> is_ended st' = is_ended st \<and> ring_inv (st_ring st')"

lemma same_identity_set_tracks:
  assumes "ring_inv (st_ring st)" and "stream_set_tracks st ts = Inr st'"
  shows "same_identity st st'"
proof -
  from assms(2) obtain r where r: "ring_set_tracks (st_ring st) ts = Inr r"
      "st' = st \<or> st' = wake (st\<lparr>st_ring := r\<rparr>)"
    by (auto simp: stream_set_tracks_def split: sum.splits if_splits)
  have "ring_inv r"
    by (rule ring_write_inv [OF ring_write.write_tracks [OF r(1), where p = Release] assms(1)])
  with r ring_set_tracks_InrD [OF r(1)] assms(1) show ?thesis
    by (auto simp: same_identity_def is_ended_def wake_def)
qed

lemma case_sum_InrE:
  assumes "(case z of Inl e \<Rightarrow> Inl (g e) | Inr r \<Rightarrow> Inr (h r)) = Inr y"
  obtains r where "z = Inr r" "y = h r"
  using assms by (cases z) auto

lemma same_identity_push:
  assumes "ring_inv (st_ring st)" and "stream_push p st f = Some (Inr st')"
  shows "same_identity st st'"
proof -
  from assms(2) obtain r where r: "ring_push p (st_cfg st) (st_ring st) f = Some (Inr r)"
      "st_ring st' = r" "st_name st' = st_name st"
    unfolding stream_push_def by (auto simp: wake_def elim: case_sum_InrE)
  from ring_push_InrD [OF assms(1) r(1)] obtain t n where
    "\<not> rg_ended (st_ring st)" "r = ring_drop n (append_frame (st_ring st) t f)" "ring_inv r"
    by blast
  with r show ?thesis by (simp add: same_identity_def is_ended_def)
qed

lemma same_identity_cue:
  assumes "ring_inv (st_ring st)" and "stream_inject_cue p st c = Some (Inr st')"
  shows "same_identity st st'"
proof -
  from assms(2) obtain r where r: "ring_inject_cue p (st_cfg st) (st_ring st) c = Some (Inr r)"
      "st_ring st' = r" "st_name st' = st_name st"
    unfolding stream_inject_cue_def by (auto simp: wake_def elim: case_sum_InrE)
  from ring_inject_cue_InrD [OF assms(1) r(1)] obtain n where
    "\<not> rg_ended (st_ring st)" "r = ring_drop n (append_cue (st_ring st) c)" "ring_inv r"
    by blast
  with r show ?thesis by (simp add: same_identity_def is_ended_def)
qed

lemma put_stream_simps [simp]:
  "rs_streams (put_stream a st reg) = rs_streams reg"
  "rs_fresh (put_stream a st reg) = rs_fresh reg"
  "rs_heap (put_stream a st reg) = (rs_heap reg)(a \<mapsto> st)"
  "stream_at (put_stream a st reg) b = (if b = a then st else stream_at reg b)"
  by (simp_all add: put_stream_def stream_at_def)

lemma office_inv_put:
  assumes "office_inv w" and "rs_heap (of_reg w) a \<noteq> None"
    and "same_identity (stream_at (of_reg w) a) st"
  shows "office_inv (w\<lparr>of_reg := put_stream a st (of_reg w)\<rparr>)"
  using assms by (simp add: office_inv_def same_identity_def)

lemma office_inv_published: "office_inv w \<Longrightarrow> of_pubs w a = Some ph \<Longrightarrow> rs_heap (of_reg w) a \<noteq> None"
  by (auto simp: office_inv_def)

lemma office_inv_ring: "office_inv w \<Longrightarrow> rs_heap (of_reg w) a \<noteq> None \<Longrightarrow> ring_inv (st_ring (stream_at (of_reg w) a))"
  by (auto simp: office_inv_def)

lemma publish_InrD:
  assumes "publish reg name cfg = (Inr a, reg')"
  shows "valid_stream_name name \<and> map_of (rs_streams reg) name = None \<and> a = rs_fresh reg \<and>
     reg' = reg\<lparr>rs_streams := AList.update name a (rs_streams reg),
       rs_heap := (rs_heap reg)(a \<mapsto> stream_new name cfg), rs_fresh := a + 1,
       rs_published := rs_published reg @ [a]\<rparr>"
  using assms by (auto simp: publish_def split: if_splits)

lemma office_inv_claim:
  assumes inv: "office_inv w" and pub: "publish (of_reg w) name cfg = (Inr a, reg')"
  shows "office_inv (w\<lparr>of_reg := reg', of_pubs := (of_pubs w)(a \<mapsto> Publishing)\<rparr>)"
proof -
  have name: "valid_stream_name name" "map_of (rs_streams (of_reg w)) name = None"
      "a = rs_fresh (of_reg w)"
    and reg': "rs_streams reg' = AList.update name a (rs_streams (of_reg w))" "rs_fresh reg' = Suc a"
      "rs_heap reg' = (rs_heap (of_reg w))(a \<mapsto> stream_new name cfg)"
    using publish_InrD [OF pub] by simp_all
  have at: "stream_at reg' b = (if b = a then stream_new name cfg else stream_at (of_reg w) b)" for b
    by (simp add: stream_at_def reg')
  have "rs_heap (of_reg w) a = None"
    using inv name(3) unfolding office_inv_def by blast
  then have free: "of_pubs w a = None"
    using inv unfolding office_inv_def by blast
  have new: "st_name (stream_new name cfg) = name" "ring_inv (st_ring (stream_new name cfg))"
      "\<not> is_ended (stream_new name cfg)"
    using ring_inv_new by (simp_all add: stream_new_def is_ended_def) (simp add: ring_new_def)
  have names: "map_of (rs_streams (of_reg w)) n = Some b \<longleftrightarrow>
      of_pubs w b \<noteq> None \<and> st_name (stream_at (of_reg w) b) = n" for n b
    using inv unfolding office_inv_def by blast
  have names: "map_of (rs_streams reg') n = Some b \<longleftrightarrow>
      ((of_pubs w)(a \<mapsto> Publishing)) b \<noteq> None \<and> st_name (stream_at reg' b) = n" for n b
    using names [of n b] names [of name b] name(2) free new(1) by (auto simp: at reg' update_conv')
  have keys: "distinct (map fst (rs_streams reg'))"
    using inv by (simp add: office_inv_def distinct_update reg')
  have live: "b < rs_fresh reg' \<and> ring_inv (st_ring (stream_at reg' b)) \<and>
      (is_ended (stream_at reg' b) \<longleftrightarrow> ((of_pubs w)(a \<mapsto> Publishing)) b \<noteq> Some Publishing)"
    if "rs_heap reg' b \<noteq> None" for b
  proof (cases "b = a")
    case True
    with new show ?thesis by (simp add: at reg')
  next
    case False
    with that have "rs_heap (of_reg w) b \<noteq> None" by (simp add: reg')
    then have "b < rs_fresh (of_reg w) \<and> ring_inv (st_ring (stream_at (of_reg w) b)) \<and>
        (is_ended (stream_at (of_reg w) b) \<longleftrightarrow> of_pubs w b \<noteq> Some Publishing)"
      using inv unfolding office_inv_def by blast
    with False name(3) show ?thesis by (simp add: at reg')
  qed
  have held: "rs_heap reg' b \<noteq> None \<and> valid_stream_name (st_name (stream_at reg' b))"
    if "((of_pubs w)(a \<mapsto> Publishing)) b \<noteq> None" for b
    using inv name new that by (auto simp: office_inv_def at reg')
  show ?thesis
  proof (rule office_invI, goal_cases)
    case 1
    from keys show ?case by simp
  next
    case (2 n b)
    from names [of n b] show ?case by simp
  next
    case (3 b)
    with held [of b] show ?case by simp
  next
    case (4 b)
    with live [of b] show ?case by simp
  qed
qed

lemma office_inv_finish:
  assumes inv: "office_inv w" and a: "of_pubs w a = Some Publishing"
  shows "office_inv (w\<lparr>of_reg := drop_end a (of_reg w), of_pubs := (of_pubs w)(a \<mapsto> Ending)\<rparr>)"
proof -
  have heap: "rs_heap (of_reg w) a \<noteq> None"
    using inv a by (rule office_inv_published)
  have "ring_inv (ring_end (st_ring (stream_at (of_reg w) a)))"
    by (rule ring_write_inv [OF ring_write.write_end [where p = Release] office_inv_ring [OF inv heap]])
  then have st: "st_name (stream_end (stream_at (of_reg w) a)) = st_name (stream_at (of_reg w) a)"
      "is_ended (stream_end (stream_at (of_reg w) a))" "ring_inv (st_ring (stream_end (stream_at (of_reg w) a)))"
    by (simp_all add: stream_end_def wake_def is_ended_def ring_end_def)
  show ?thesis
    using inv a heap st by (simp add: office_inv_def drop_end_def)
qed

lemma office_inv_holds_name:
  assumes "office_inv w" and "of_pubs w a = Some ph"
  shows "map_of (rs_streams (of_reg w)) (st_name (stream_at (of_reg w) a)) = Some a"
  using assms by (simp add: office_inv_def)

lemma office_inv_release:
  assumes inv: "office_inv w" and a: "of_pubs w a = Some Ending"
  shows "office_inv (w\<lparr>of_reg := drop_remove a (of_reg w), of_pubs := (of_pubs w)(a := None)\<rparr>)"
proof -
  let ?reg = "of_reg w"
  let ?n = "st_name (stream_at ?reg a)"
  have held: "map_of (rs_streams ?reg) ?n = Some a"
    by (rule office_inv_holds_name [OF inv a])
  have reg': "rs_streams (drop_remove a ?reg) = AList.delete ?n (rs_streams ?reg)"
      "rs_heap (drop_remove a ?reg) = rs_heap ?reg" "rs_fresh (drop_remove a ?reg) = rs_fresh ?reg"
      "\<And>b. stream_at (drop_remove a ?reg) b = stream_at ?reg b"
    using held by (simp_all add: drop_remove_def Let_def stream_at_def)
  have names: "map_of (rs_streams ?reg) n = Some b \<longleftrightarrow> of_pubs w b \<noteq> None \<and> st_name (stream_at ?reg b) = n" for n b
    using inv unfolding office_inv_def by blast
  have "map_of (AList.delete ?n (rs_streams ?reg)) n = Some b \<longleftrightarrow>
      ((of_pubs w)(a := None)) b \<noteq> None \<and> st_name (stream_at ?reg b) = n" for n b
    using names [of n b] names [of ?n b] names [of ?n a] held by (auto simp: delete_conv')
  moreover have "distinct (map fst (AList.delete ?n (rs_streams ?reg)))"
    using inv by (simp add: office_inv_def distinct_delete)
  ultimately show ?thesis
    using inv a by (simp add: office_inv_def reg')
qed

lemma office_inv_step:
  assumes "office_step p w w'" and inv: "office_inv w"
  shows "office_inv w'"
  using assms(1)
proof cases
  case (claim name cfg a reg')
  with inv show ?thesis by (simp add: office_inv_claim)
next
  case (announce a ts reg')
  note heap = office_inv_published [OF inv announce(2)]
  from announce(3) obtain st where "stream_set_tracks (stream_at (of_reg w) a) ts = Inr st"
      "reg' = put_stream a st (of_reg w)"
    by (cases "stream_set_tracks (stream_at (of_reg w) a) ts") (auto simp: publisher_defs)
  with announce(1) office_inv_put [OF inv heap same_identity_set_tracks [OF office_inv_ring [OF inv heap]]]
  show ?thesis by simp
next
  case (feed a f reg')
  note heap = office_inv_published [OF inv feed(2)]
  from feed(3) obtain r where "stream_push p (stream_at (of_reg w) a) f = Some r"
      "map_sum id (\<lambda>st. put_stream a st (of_reg w)) r = Inr reg'"
    by (auto simp: publisher_defs)
  then obtain st where "stream_push p (stream_at (of_reg w) a) f = Some (Inr st)"
      "reg' = put_stream a st (of_reg w)"
    by (cases r) auto
  with feed(1) office_inv_put [OF inv heap same_identity_push [OF office_inv_ring [OF inv heap]]]
  show ?thesis by simp
next
  case (inject a c reg')
  from inject(3) obtain r where "stream_inject_cue p (stream_at (of_reg w) a) c = Some r"
      "map_sum id (\<lambda>st. put_stream a st (of_reg w)) r = Inr reg'"
    by (auto simp: publisher_defs)
  then obtain st where "stream_inject_cue p (stream_at (of_reg w) a) c = Some (Inr st)"
      "reg' = put_stream a st (of_reg w)"
    by (cases r) auto
  with inject(1) office_inv_put [OF inv inject(2) same_identity_cue [OF office_inv_ring [OF inv inject(2)]]]
  show ?thesis by simp
next
  case (watch name start s reg')
  show ?thesis
  proof (cases "map_of (rs_streams (of_reg w)) name")
    case None
    then have "reg' = of_reg w"
      using watch(2) by (simp add: registry_subscribe_def registry_get_def)
    with watch inv show ?thesis by simp
  next
    case (Some a)
    have heap: "rs_heap (of_reg w) a \<noteq> None"
      using inv Some unfolding office_inv_def by blast
    let ?st = "stream_at (of_reg w) a"
    have "same_identity ?st (?st\<lparr>st_viewers := st_viewers ?st + 1\<rparr>)"
      using office_inv_ring [OF inv heap] by (simp add: same_identity_def is_ended_def)
    from office_inv_put [OF inv heap this] watch Some show ?thesis
      by (auto simp: registry_subscribe_def registry_get_def subscribe_def)
  qed
next
  case (finish a)
  with inv show ?thesis by (simp add: office_inv_finish)
next
  case (release a)
  with inv show ?thesis by (simp add: office_inv_release)
next
  case (policy g)
  with inv show ?thesis by (simp add: office_inv_def set_gate_def stream_at_def)
next
  case no_policy
  with inv show ?thesis by (simp add: office_inv_def clear_gate_def stream_at_def)
qed

inductive office_reachable :: "profile \<Rightarrow> office \<Rightarrow> bool" for p where
  opened: "office_reachable p office_new"
| used: "office_reachable p w \<Longrightarrow> office_step p w w' \<Longrightarrow> office_reachable p w'"

lemma office_reachable_inv: "office_reachable p w \<Longrightarrow> office_inv w"
proof (induction rule: office_reachable.induct)
  case opened
  show ?case by (simp add: office_inv_def office_new_def registry_new_def)
next
  case (used w w')
  then show ?case by (simp add: office_inv_step)
qed

subsection \<open>Properties\<close>

definition demo_office :: office where
  "demo_office = \<lparr>of_reg = snd (publish registry_new ''cam'' buffer_config_default),
     of_pubs = [0 \<mapsto> Publishing]\<rparr>"

lemma valid_cam: "valid_stream_name ''cam''"
  by code_simp

lemma demo_office_reachable: "office_reachable Release demo_office"
proof -
  have "publish (of_reg office_new) ''cam'' buffer_config_default =
      (Inr 0, snd (publish registry_new ''cam'' buffer_config_default))"
    using valid_cam by (simp add: publish_def office_new_def registry_new_def)
  from office_step.claim [OF this] have "office_step Release office_new demo_office"
    by (simp add: demo_office_def office_new_def)
  with office_reachable.opened show ?thesis by (rule office_reachable.used)
qed

lemma demo_office_simps:
  "of_pubs demo_office = [0 \<mapsto> Publishing]" "rs_streams (of_reg demo_office) = [(''cam'', 0)]"
  "st_name (stream_at (of_reg demo_office) 0) = ''cam''"
  using valid_cam by (simp_all add: demo_office_def publish_def registry_new_def stream_at_def stream_new_def)

text \<open>
  Claim C5. In every interleaving of publishers, viewers and drops: a name has at most one
  publisher; the registry finds exactly the streams that have one, under valid names; publishing a
  valid name is refused exactly while somebody holds it; and a stream counts as ended exactly when
  its publisher is being or has been dropped.
\<close>

theorem one_publisher_per_name:
  assumes "office_reachable p w"
  shows "(of_pubs w a \<noteq> None \<and> of_pubs w b \<noteq> None \<and>
      st_name (stream_at (of_reg w) a) = st_name (stream_at (of_reg w) b) \<longrightarrow> a = b) \<and>
    (registry_get (of_reg w) name = Some a \<longleftrightarrow>
      of_pubs w a \<noteq> None \<and> st_name (stream_at (of_reg w) a) = name) \<and>
    (fst (publish (of_reg w) name cfg) = Inl (Busy name) \<longleftrightarrow>
      (\<exists>c. of_pubs w c \<noteq> None \<and> st_name (stream_at (of_reg w) c) = name)) \<and>
    (fst (publish (of_reg w) name cfg) = Inl InvalidName \<longleftrightarrow> \<not> valid_stream_name name) \<and>
    (rs_heap (of_reg w) a \<noteq> None \<longrightarrow>
      (is_ended (stream_at (of_reg w) a) \<longleftrightarrow> of_pubs w a \<noteq> Some Publishing))"
proof -
  have inv: "office_inv w" using assms by (rule office_reachable_inv)
  then have names: "map_of (rs_streams (of_reg w)) n = Some c \<longleftrightarrow>
      of_pubs w c \<noteq> None \<and> st_name (stream_at (of_reg w) c) = n" for n c
    unfolding office_inv_def by blast
  have valid: "valid_stream_name (st_name (stream_at (of_reg w) c))" if "of_pubs w c \<noteq> None" for c
    using inv that unfolding office_inv_def by blast
  have "fst (publish (of_reg w) name cfg) = Inl (Busy name) \<longleftrightarrow>
      (\<exists>c. of_pubs w c \<noteq> None \<and> st_name (stream_at (of_reg w) c) = name)"
    using names [of name] valid by (auto simp: publish_def)
  moreover have "a = b" if "of_pubs w a \<noteq> None" "of_pubs w b \<noteq> None"
      "st_name (stream_at (of_reg w) a) = st_name (stream_at (of_reg w) b)"
    using names [of "st_name (stream_at (of_reg w) a)" a] names [of "st_name (stream_at (of_reg w) a)" b] that
    by simp
  moreover have "rs_heap (of_reg w) a \<noteq> None \<longrightarrow>
      (is_ended (stream_at (of_reg w) a) \<longleftrightarrow> of_pubs w a \<noteq> Some Publishing)"
    using inv unfolding office_inv_def by blast
  ultimately show ?thesis
    using names [of name a] by (auto simp: publish_def registry_get_def)
qed

theorem one_publisher_per_name_witness:
  "fst (publish (of_reg demo_office) ''cam'' buffer_config_default) = Inl (Busy ''cam'') \<and>
   registry_get (of_reg demo_office) ''cam'' = Some 0"
  using one_publisher_per_name [OF demo_office_reachable, of 0 0 "''cam''" buffer_config_default]
  by (simp add: demo_office_simps)

text \<open>
  Claim C6. A viewer's request for a stream that may have to be pulled: a live name is answered at
  once without asking the demand source, a name that cannot be published is never asked for, and
  whatever the source does, the stream returned is either the one the registry holds under that name
  or one that has not ended.
\<close>

theorem get_or_demand_safe:
  "(registry_get reg name = Some s \<longrightarrow> get_or_demand d reg name = (Some s, reg)) \<and>
   (registry_get reg name = None \<and> \<not> valid_stream_name name \<longrightarrow> get_or_demand d reg name = (None, reg)) \<and>
   (get_or_demand d reg name = (Some s', reg') \<longrightarrow>
      registry_get reg' name = Some s' \<or> \<not> is_ended (stream_at reg' s')) \<and>
   (get_or_demand d reg name = (None, reg') \<longrightarrow> registry_get reg' name = None)"
  by (auto simp: get_or_demand_def split: option.splits if_splits prod.splits demand_outcome.splits)

theorem get_or_demand_safe_witness:
  "get_or_demand (Some (\<lambda>reg name. (Timeout, reg))) (of_reg demo_office) ''cam'' = (Some 0, of_reg demo_office)"
  using get_or_demand_safe [of "of_reg demo_office" "''cam''" 0]
  by (simp add: registry_get_def demo_office_simps)

text \<open>
  The list of live streams is in strictly ascending order of their names and holds
  exactly the streams that have a publisher.
\<close>

theorem registry_list_sorted:
  assumes "office_reachable p w"
  shows "sorted_wrt (<) (map (\<lambda>a. st_name (stream_at (of_reg w) a)) (registry_list (of_reg w))) \<and>
     set (registry_list (of_reg w)) = {a. of_pubs w a \<noteq> None}"
proof -
  let ?key = "\<lambda>a. st_name (stream_at (of_reg w) a)" and ?al = "rs_streams (of_reg w)"
  have inv: "office_inv w" using assms by (rule office_reachable_inv)
  then have dist: "distinct (map fst ?al)" and
    names: "\<And>n c. map_of ?al n = Some c \<longleftrightarrow> of_pubs w c \<noteq> None \<and> ?key c = n"
    unfolding office_inv_def by blast+
  have keys: "map ?key (map snd ?al) = map fst ?al"
    using dist names by (auto simp: dest: map_of_is_SomeI)
  have "mset (map ?key (registry_list (of_reg w))) = mset (map fst ?al)"
    by (simp only: registry_list_def mset_map mset_sort keys [symmetric])
  then have "distinct (map ?key (registry_list (of_reg w)))"
    using dist mset_eq_imp_distinct_iff by blast
  moreover have "sorted (map ?key (registry_list (of_reg w)))"
    by (simp add: registry_list_def)
  ultimately have "sorted_wrt (<) (map ?key (registry_list (of_reg w)))"
    by (simp add: strict_sorted_iff)
  moreover have "set (registry_list (of_reg w)) = {a. of_pubs w a \<noteq> None}"
  proof (intro set_eqI)
    fix a
    have "a \<in> set (registry_list (of_reg w)) \<longleftrightarrow> (\<exists>n. (n, a) \<in> set ?al)"
      by (force simp: registry_list_def)
    also have "\<dots> \<longleftrightarrow> (\<exists>n. map_of ?al n = Some a)"
      using dist by (simp add: map_of_eq_Some_iff)
    finally show "a \<in> set (registry_list (of_reg w)) \<longleftrightarrow> a \<in> {a. of_pubs w a \<noteq> None}"
      using names by simp
  qed
  ultimately show ?thesis by blast
qed

theorem registry_list_sorted_witness:
  "set (registry_list (of_reg demo_office)) = {0}"
  using registry_list_sorted [OF demo_office_reachable] by (auto simp: demo_office_simps)

end
