(* ===== verification/Stampers.thy ===== *)
theory Stampers
  imports Prelude
begin

text \<open>
  What the clocks of this program promise their consumers. Several components restamp media onto
  a timeline that must never go back: the failover stitcher, the pulled-stream clock of a cluster
  edge. Each is a state machine whose \<open>stamp\<close> takes one input and gives a timestamp, or nothing
  (the input is dropped), or panics (\<open>None\<close>, an \<open>i64\<close> overflow of a debug build). The contract
  is about one step; what a consumer relies on, a run of any length, follows once for all of them.
\<close>

fun stamp_all :: "('s \<Rightarrow> 'i \<Rightarrow> ('t option \<times> 's) option) \<Rightarrow> 's \<Rightarrow> 'i list \<Rightarrow> ('t list \<times> 's) option" where
  "stamp_all stamp s [] = Some ([], s)"
| "stamp_all stamp s (x # xs) =
     (case stamp s x of
        None \<Rightarrow> None
      | Some (out, s') \<Rightarrow>
         map_option (\<lambda>(ts, s''). ((case out of None \<Rightarrow> ts | Some t \<Rightarrow> t # ts), s''))
           (stamp_all stamp s' xs))"

lemma successively_butlast: "x \<notin> set (butlast ts) \<Longrightarrow> successively (\<lambda>l t. l \<noteq> x) ts"
  by (induction ts) (auto simp: successively_Cons split: if_splits)

text \<open>
  Each timestamp is \<open>before\<close> the next one given, if there is \<open>room\<close> for the next: a clock at the largest \<open>i64\<close> can only wrap
  in a release build. A timestamp may carry its timescale.
\<close>

locale stamper =
  fixes stamp :: "'s \<Rightarrow> 'i \<Rightarrow> ('t option \<times> 's) option"
    and newest :: "'s \<Rightarrow> 't option"
    and inv :: "'s \<Rightarrow> bool"
    and before :: "'t \<Rightarrow> 't \<Rightarrow> bool"
    and room :: "'t \<Rightarrow> 't \<Rightarrow> bool"
  assumes inv_stamp: "inv s \<Longrightarrow> stamp s x = Some (out, s') \<Longrightarrow> inv s'"
    and newest_given: "inv s \<Longrightarrow> stamp s x = Some (Some t, s') \<Longrightarrow> newest s' = Some t"
    and newest_dropped: "inv s \<Longrightarrow> stamp s x = Some (None, s') \<Longrightarrow> newest s' = newest s"
    and later: "inv s \<Longrightarrow> stamp s x = Some (Some t, s') \<Longrightarrow> newest s = Some l \<Longrightarrow> room l t \<Longrightarrow> before l t"
    and before_trans: "before a b \<Longrightarrow> before b c \<Longrightarrow> before a c"
begin

definition so_far :: "'s \<Rightarrow> 't list" where
  "so_far s = (case newest s of None \<Rightarrow> [] | Some l \<Rightarrow> [l])"

lemma run_increasing:
  assumes "inv s" and "stamp_all stamp s xs = Some (ts, s')" and "successively room (so_far s @ ts)"
  shows "sorted_wrt before (so_far s @ ts)"
  using assms
proof (induction xs arbitrary: s ts)
  case Nil
  then show ?case by (simp add: so_far_def split: option.split)
next
  case (Cons x xs)
  from Cons.prems(2) obtain out s1 ts1 where x: "stamp s x = Some (out, s1)"
      and rest: "stamp_all stamp s1 xs = Some (ts1, s')"
      and ts: "ts = (case out of None \<Rightarrow> ts1 | Some t \<Rightarrow> t # ts1)"
    by (auto split: option.splits)
  have inv1: "inv s1" by (rule inv_stamp [OF Cons.prems(1) x])
  show ?case
  proof (cases out)
    case None
    then have "so_far s1 = so_far s"
      using newest_dropped [OF Cons.prems(1)] x by (simp add: so_far_def)
    with Cons.IH [OF inv1 rest] Cons.prems(3) ts None show ?thesis by simp
  next
    case (Some t)
    then have s1: "so_far s1 = [t]"
      using newest_given [OF Cons.prems(1)] x by (simp add: so_far_def)
    have "successively room (t # ts1)"
      using Cons.prems(3) ts Some by (simp add: successively_append_iff)
    then have sorted: "sorted_wrt before (t # ts1)"
      using Cons.IH [OF inv1 rest] s1 by simp
    show ?thesis
    proof (cases "newest s")
      case None
      with sorted ts Some show ?thesis by (simp add: so_far_def)
    next
      case l: (Some l)
      then have "before l t"
        using later [OF Cons.prems(1), of x t s1 l] x Some Cons.prems(3) ts by (simp add: so_far_def)
      with sorted ts Some l show ?thesis by (auto simp: so_far_def intro: before_trans)
    qed
  qed
qed

lemma run_inv: "inv s \<Longrightarrow> stamp_all stamp s xs = Some (ts, s') \<Longrightarrow> inv s'"
  by (induction xs arbitrary: s ts) (auto split: option.splits intro: inv_stamp)

end

end
