(* ===== verification/Stitcher.thy ===== *)
theory Stitcher
  imports Complex_Main Media Stampers "HOL-Library.AList" "HOL-Library.Monad_Syntax"
begin

text \<open>
  \<open>crates/caudal-failover/src/stitch.rs\<close>: one output timeline across source switches. The hash map
  of the last frame per track is an association list; every \<open>i64\<close> operation is \<open>checked64\<close>, so
  \<open>stamp\<close> gives \<open>None\<close> where a debug build would panic, and \<open>Some (None, s)\<close> where the code
  drops the frame.
\<close>

subsection \<open>State\<close>

record last_mark =
  lm_video :: bool
  lm_dts :: int
  lm_delta :: int
  lm_timescale :: int

record segment =
  sg_t0 :: int
  sg_shift :: int
  sg_exact :: "track_id \<times> int"

record stitcher =
  sc_tracks :: "track_info list"
  sc_last :: "(track_id \<times> last_mark) list"
  sc_seg :: "segment option"

definition stitcher_default :: stitcher where
  "stitcher_default = \<lparr>sc_tracks = [], sc_last = [], sc_seg = None\<rparr>"

subsection \<open>Operations\<close>

text \<open>The products are \<open>i128\<close>; the cast back wraps. Timescales are \<open>u32\<close> values.\<close>

definition scale_ceil :: "int \<Rightarrow> int \<Rightarrow> int \<Rightarrow> int" where
  "scale_ceil v num den =
     (let n = v * max num 1; d = max den 1 in wrap64 (n div d + (if n mod d \<noteq> 0 then 1 else 0)))"

definition stitch_set_tracks :: "track_info list \<Rightarrow> stitcher \<Rightarrow> stitcher" where
  "stitch_set_tracks ts s = s\<lparr>sc_tracks := ts\<rparr>"

definition stitch_begin :: "stitcher \<Rightarrow> stitcher" where
  "stitch_begin s = s\<lparr>sc_seg := None\<rparr>"

definition mark_end :: "profile \<Rightarrow> last_mark \<Rightarrow> int option" where
  "mark_end p l = do { e \<leftarrow> checked64 p (lm_dts l + lm_delta l); Some (scale_ceil e 1000000 (lm_timescale l)) }"

definition max_opt :: "int list \<Rightarrow> int option" where
  "max_opt xs = (if xs = [] then None else Some (Max (set xs)))"

definition end_micros :: "profile \<Rightarrow> stitcher \<Rightarrow> int option option" where
  "end_micros p s = do {
     let ls = map snd (sc_last s);
     vs \<leftarrow> those (map (mark_end p) (filter lm_video ls));
     if vs \<noteq> [] then Some (max_opt vs)
     else do { es \<leftarrow> those (map (mark_end p) ls); Some (max_opt es) } }"

definition timescale_of :: "track_info \<Rightarrow> int" where
  "timescale_of t = max (uint (ti_timescale t)) 1"

definition open_segment :: "profile \<Rightarrow> stitcher \<Rightarrow> frame \<Rightarrow> int \<Rightarrow> int \<Rightarrow> segment option" where
  "open_segment p s f ts src = do {
     e \<leftarrow> end_micros p s;
     let base = (case e of Some b \<Rightarrow> b | None \<Rightarrow> src);
     shift \<leftarrow> checked64 p (base - src);
     continued \<leftarrow> (case map_of (sc_last s) (fr_track f) of
         Some l \<Rightarrow>
           if lm_timescale l = ts
           then do { e \<leftarrow> checked64 p (lm_dts l + lm_delta l);
                     if scale_ceil e 1000000 ts = base
                     then do { x \<leftarrow> checked64 p (e - fr_dts f); Some (Some x) }
                     else Some None }
           else Some None
       | None \<Rightarrow> Some None);
     Some \<lparr>sg_t0 = src, sg_shift = shift,
       sg_exact = (fr_track f, case continued of Some x \<Rightarrow> x | None \<Rightarrow> scale_ceil shift ts 1000000)\<rparr> }"

definition bump_after :: "profile \<Rightarrow> int \<Rightarrow> int \<Rightarrow> int \<Rightarrow> (int \<times> int) option" where
  "bump_after p prev dts pts = do {
     next \<leftarrow> checked64 p (prev + 1);
     bump \<leftarrow> checked64 p (next - dts);
     d \<leftarrow> checked64 p (dts + bump);
     q \<leftarrow> checked64 p (pts + bump);
     Some (d, q) }"

definition place :: "profile \<Rightarrow> stitcher \<Rightarrow> segment \<Rightarrow> frame \<Rightarrow> bool \<Rightarrow> int \<Rightarrow> (frame option \<times> stitcher) option" where
  "place p s sg f video ts = do {
     let shift = (if fst (sg_exact sg) = fr_track f then snd (sg_exact sg) else scale_ceil (sg_shift sg) ts 1000000);
     dts \<leftarrow> checked64 p (fr_dts f + shift);
     pts \<leftarrow> checked64 p (fr_pts f + shift);
     case map_of (sc_last s) (fr_track f) of
       Some l \<Rightarrow> do {
         let prev = (if lm_timescale l = ts then lm_dts l else scale_ceil (lm_dts l) ts (lm_timescale l));
         if dts \<le> prev \<and> \<not> video then Some (None, s)
         else do {
           (dts, pts) \<leftarrow> (if dts \<le> prev then bump_after p prev dts pts else Some (dts, pts));
           delta \<leftarrow> (if lm_timescale l = ts then checked64 p (dts - prev) else Some 0);
           let delta = (if delta > 0 then delta else lm_delta l);
           Some (Some (f\<lparr>fr_dts := dts, fr_pts := pts\<rparr>),
             s\<lparr>sc_last := AList.update (fr_track f)
                 \<lparr>lm_video = video, lm_dts = dts, lm_delta = delta, lm_timescale = ts\<rparr> (sc_last s)\<rparr>) } }
     | None \<Rightarrow>
         Some (Some (f\<lparr>fr_dts := dts, fr_pts := pts\<rparr>),
           s\<lparr>sc_last := AList.update (fr_track f)
               \<lparr>lm_video = video, lm_dts = dts, lm_delta = 0, lm_timescale = ts\<rparr> (sc_last s)\<rparr>) }"

definition stitch_stamp :: "profile \<Rightarrow> stitcher \<Rightarrow> frame \<Rightarrow> (frame option \<times> stitcher) option" where
  "stitch_stamp p s f =
     (case find (\<lambda>t. ti_id t = fr_track f) (sc_tracks s) of
        None \<Rightarrow> Some (None, s)
      | Some info \<Rightarrow>
         (let video = (track_kind_of info = Video); ts = timescale_of info; src = to_micros info (fr_dts f);
              has_video = list_ex (\<lambda>t. track_kind_of t = Video) (sc_tracks s)
          in if sc_seg s = None \<and> has_video \<and> \<not> (video \<and> fr_keyframe f) then Some (None, s)
             else do {
               sg \<leftarrow> (case sc_seg s of Some g \<Rightarrow> Some g | None \<Rightarrow> open_segment p s f ts src);
               let s = s\<lparr>sc_seg := Some sg\<rparr>;
               if \<not> video \<and> src < sg_t0 sg then Some (None, s) else place p s sg f video ts }))"

definition cue_time :: "profile \<Rightarrow> stitcher \<Rightarrow> int \<Rightarrow> int option option" where
  "cue_time p s at_us =
     (case sc_seg s of None \<Rightarrow> Some None | Some g \<Rightarrow> map_option Some (checked64 p (at_us + sg_shift g)))"

text \<open>The tests of the source, on the model.\<close>

definition demo_video :: "u32 \<Rightarrow> u32 \<Rightarrow> track_info" where
  "demo_video i scale = \<lparr>ti_id = TrackId i, ti_codec = H264, ti_timescale = scale, ti_init = [], ti_lang = None,
     ti_video = None, ti_audio = None\<rparr>"

definition demo_frame :: "u32 \<Rightarrow> int \<Rightarrow> bool \<Rightarrow> frame" where
  "demo_frame i ts key = \<lparr>fr_track = TrackId i, fr_dts = ts, fr_pts = ts, fr_keyframe = key, fr_data = [120]\<rparr>"

subsection \<open>Builds\<close>

text \<open>A release build never panics, and a debug build that does not panic computes the same.\<close>

lemma agrees_mark_end [builds]: "agrees (mark_end p l) (mark_end Release l)"
  unfolding mark_end_def by (intro builds)

lemma returns_mark_end [returns]: "\<exists>r. mark_end Release l = Some r"
  unfolding mark_end_def by (intro returns)

lemma agrees_end_micros [builds]: "agrees (end_micros p s) (end_micros Release s)"
  unfolding end_micros_def by (intro builds)

lemma returns_end_micros [returns]: "\<exists>r. end_micros Release s = Some r"
  unfolding end_micros_def by (intro returns)

lemma agrees_open_segment [builds]: "agrees (open_segment p s f ts src) (open_segment Release s f ts src)"
  unfolding open_segment_def by (intro builds)

lemma returns_open_segment [returns]: "\<exists>r. open_segment Release s f ts src = Some r"
  unfolding open_segment_def by (intro returns)

lemma agrees_bump [builds]: "agrees (bump_after p prev dts pts) (bump_after Release prev dts pts)"
  unfolding bump_after_def by (intro builds)

lemma returns_bump [returns]: "\<exists>r. bump_after Release prev dts pts = Some r"
  unfolding bump_after_def by (intro returns)

lemma agrees_place [builds]: "agrees (place p s g f v ts) (place Release s g f v ts)"
  unfolding place_def by (intro builds)

lemma returns_place [returns]: "\<exists>r. place Release s g f v ts = Some r"
  unfolding place_def by (intro returns)

lemma agrees_stitch_stamp [builds]: "agrees (stitch_stamp p s f) (stitch_stamp Release s f)"
  unfolding stitch_stamp_def by (intro builds)

lemma returns_stitch_stamp [returns]: "\<exists>r. stitch_stamp Release s f = Some r"
  unfolding stitch_stamp_def by (intro returns)

subsection \<open>One frame\<close>

definition prev_dts :: "last_mark \<Rightarrow> int \<Rightarrow> int" where
  "prev_dts l ts = (if lm_timescale l = ts then lm_dts l else scale_ceil (lm_dts l) ts (lm_timescale l))"

lemma in_i64_scale_ceil [simp]: "in_i64 (scale_ceil v n d)"
  by (simp add: scale_ceil_def Let_def)

text \<open>The bump lands right after the previous frame, whatever wrapped on the way.\<close>

lemma bump_release:
  "bump_after Release prev dts pts = Some (wrap64 (prev + 1), wrap64 (pts + (prev + 1 - dts)))"
  by (simp add: bump_after_def checked64_release)

definition sent_mark :: "last_mark option \<Rightarrow> bool \<Rightarrow> int \<Rightarrow> int \<Rightarrow> last_mark" where
  "sent_mark l v dts ts =
     \<lparr>lm_video = v, lm_dts = dts,
      lm_delta = (case l of None \<Rightarrow> 0
        | Some l \<Rightarrow>
            if lm_timescale l = ts \<and> wrap64 (dts - lm_dts l) > 0 then wrap64 (dts - lm_dts l) else lm_delta l),
      lm_timescale = ts\<rparr>"

definition segment_shift :: "segment \<Rightarrow> track_id \<Rightarrow> int \<Rightarrow> int" where
  "segment_shift g k ts = (if fst (sg_exact g) = k then snd (sg_exact g) else scale_ceil (sg_shift g) ts 1000000)"

text \<open>What a release build does with a frame of a running segment, in closed form.\<close>

definition placed_dts :: "stitcher \<Rightarrow> segment \<Rightarrow> frame \<Rightarrow> int \<Rightarrow> int" where
  "placed_dts s g f ts =
     (let dts = wrap64 (fr_dts f + segment_shift g (fr_track f) ts) in
      case map_of (sc_last s) (fr_track f) of
        Some l \<Rightarrow> if dts \<le> prev_dts l ts then wrap64 (prev_dts l ts + 1) else dts
      | None \<Rightarrow> dts)"

definition late_audio :: "stitcher \<Rightarrow> segment \<Rightarrow> frame \<Rightarrow> bool \<Rightarrow> int \<Rightarrow> bool" where
  "late_audio s g f v ts \<longleftrightarrow> \<not> v \<and>
     (\<exists>l. map_of (sc_last s) (fr_track f) = Some l \<and>
        wrap64 (fr_dts f + segment_shift g (fr_track f) ts) \<le> prev_dts l ts)"

lemma place_late: "late_audio s g f v ts \<Longrightarrow> place Release s g f v ts = Some (None, s)"
  by (auto simp: late_audio_def place_def Let_def checked64_release prev_dts_def segment_shift_def)

lemma place_sent:
  assumes "\<not> late_audio s g f v ts"
  shows "place Release s g f v ts =
     Some (Some (f\<lparr>fr_dts := placed_dts s g f ts,
                   fr_pts := wrap64 (fr_pts f + (placed_dts s g f ts - fr_dts f))\<rparr>),
       s\<lparr>sc_last := AList.update (fr_track f)
           (sent_mark (map_of (sc_last s) (fr_track f)) v (placed_dts s g f ts) ts) (sc_last s)\<rparr>)"
proof -
  let ?sh = "segment_shift g (fr_track f) ts"
  let ?d = "wrap64 (fr_dts f + ?sh)"
  show ?thesis
  proof (cases "map_of (sc_last s) (fr_track f)")
    case None
    then show ?thesis
      by (simp add: place_def Let_def checked64_release placed_dts_def segment_shift_def sent_mark_def)
  next
    case (Some l)
    then show ?thesis
      using assms
      by (simp add: place_def Let_def checked64_release placed_dts_def sent_mark_def flip: prev_dts_def segment_shift_def)
        (auto simp: bump_release late_audio_def prev_dts_def, simp_all add: algebra_simps)
  qed
qed

lemma placed_dts_later:
  "map_of (sc_last s) (fr_track f) = Some l \<Longrightarrow>
   prev_dts l ts < placed_dts s g f ts \<or> placed_dts s g f ts = wrap64 (prev_dts l ts + 1)"
  by (simp add: placed_dts_def Let_def)

lemma in_i64_placed_dts: "in_i64 (placed_dts s g f ts)"
  by (simp add: placed_dts_def Let_def split: option.splits)

subsection \<open>The timeline of one track\<close>

text \<open>
  What the failover runner feeds the stitcher, and what comes out for the track \<open>k\<close>: decode times, each with the timescale
  it counts in, which may change whenever the track list does. Two of them compare as times, and \<open>times_fit\<close> says that the
  earlier one, counted in the later one's timescale, is an \<open>i64\<close> below the largest.
\<close>

datatype stitch_input = NewTracks "track_info list" | NewSegment | In frame

definition scale_of :: "stitcher \<Rightarrow> track_id \<Rightarrow> int" where
  "scale_of s k = (case find (\<lambda>t. ti_id t = k) (sc_tracks s) of Some info \<Rightarrow> timescale_of info | None \<Rightarrow> 1)"

fun stitch_on :: "profile \<Rightarrow> track_id \<Rightarrow> stitcher \<Rightarrow> stitch_input \<Rightarrow> ((int \<times> int) option \<times> stitcher) option" where
  "stitch_on p k s (NewTracks ts) = Some (None, stitch_set_tracks ts s)"
| "stitch_on p k s NewSegment = Some (None, stitch_begin s)"
| "stitch_on p k s (In f) =
     map_option (\<lambda>(out, s'). ((case out of
           Some f' \<Rightarrow> if fr_track f' = k then Some (fr_dts f', scale_of s k) else None
         | None \<Rightarrow> None), s'))
       (stitch_stamp p s f)"

definition seconds :: "int \<times> int \<Rightarrow> rat" where
  "seconds t = of_int (fst t) / of_int (snd t)"

definition earlier :: "int \<times> int \<Rightarrow> int \<times> int \<Rightarrow> bool" where
  "earlier a b \<longleftrightarrow> 0 < snd b \<and> seconds a < seconds b"

definition times_fit :: "int \<times> int \<Rightarrow> int \<times> int \<Rightarrow> bool" where
  "times_fit a b \<longleftrightarrow> i64_min \<le> \<lceil>seconds a * of_int (snd b)\<rceil> \<and> \<lceil>seconds a * of_int (snd b)\<rceil> < i64_max"

definition stitch_newest :: "track_id \<Rightarrow> stitcher \<Rightarrow> (int \<times> int) option" where
  "stitch_newest k s = map_option (\<lambda>l. (lm_dts l, lm_timescale l)) (map_of (sc_last s) k)"

definition stitch_inv :: "track_id \<Rightarrow> stitcher \<Rightarrow> bool" where
  "stitch_inv k s \<longleftrightarrow> (\<forall>l. map_of (sc_last s) k = Some l \<longrightarrow> in_i64 (lm_dts l) \<and> 0 < lm_timescale l)"

lemma timescale_pos: "0 < timescale_of info"
  by (simp add: timescale_of_def)

lemma scale_ceil_ceiling:
  assumes "0 < c" "0 < c'"
  shows "scale_ceil d c' c = wrap64 \<lceil>seconds (d, c) * of_int c'\<rceil>"
proof -
  have "seconds (d, c) * of_int c' = of_int (d * c') / of_int c" by (simp add: seconds_def)
  then have "\<lceil>seconds (d, c) * of_int c'\<rceil> = - (- (d * c') div c)" by (simp only: ceiling_divide_eq_div)
  also have "\<dots> = d * c' div c + (if d * c' mod c \<noteq> 0 then 1 else 0)"
    using assms(1) by (simp add: zdiv_zminus1_eq_if)
  finally show ?thesis using assms by (simp add: scale_ceil_def Let_def)
qed

text \<open>The last time on the new clock: exact where it fits.\<close>

lemma prev_dts_ceiling:
  assumes "in_i64 (lm_dts l)" "0 < lm_timescale l" "0 < c"
  shows "prev_dts l c = wrap64 \<lceil>seconds (lm_dts l, lm_timescale l) * of_int c\<rceil>"
proof (cases "lm_timescale l = c")
  case True
  then show ?thesis using assms by (simp add: prev_dts_def seconds_def wrap64_id)
next
  case False
  then show ?thesis using scale_ceil_ceiling [OF assms(2,3)] by (simp add: prev_dts_def)
qed

lemma after_prev_earlier:
  assumes "in_i64 (lm_dts l)" "0 < lm_timescale l" "0 < c" and "times_fit (lm_dts l, lm_timescale l) (d, c)"
    and "prev_dts l c < d \<or> d = wrap64 (prev_dts l c + 1)"
  shows "earlier (lm_dts l, lm_timescale l) (d, c)"
proof -
  let ?t = "seconds (lm_dts l, lm_timescale l)"
  have "in_i64 \<lceil>?t * of_int c\<rceil>" "\<lceil>?t * of_int c\<rceil> \<noteq> i64_max"
    using assms(4) by (auto simp: times_fit_def in_i64_def)
  then have "\<lceil>?t * of_int c\<rceil> < d"
    using assms(5) prev_dts_ceiling [OF assms(1-3)] by (auto simp: wrap64_id wrap64_Suc)
  then have "?t * of_int c < of_int d" by (simp add: ceiling_less_iff less_le_trans)
  then show ?thesis using assms(3) by (simp add: earlier_def seconds_def [of "(d, c)"] pos_less_divide_eq)
qed

text \<open>A frame is dropped and leaves the last frames alone, or it is placed.\<close>

lemma stitch_stamp_cases:
  assumes "stitch_stamp Release s f = Some (out, s')"
  obtains (dropped) "out = None" "sc_last s' = sc_last s" "sc_tracks s' = sc_tracks s"
  | (sent) info g v where "find (\<lambda>t. ti_id t = fr_track f) (sc_tracks s) = Some info"
      "sc_seg s' = Some g" "sc_tracks s' = sc_tracks s" "v = (track_kind_of info = Video)"
      "out = Some (f\<lparr>fr_dts := placed_dts s g f (timescale_of info),
         fr_pts := wrap64 (fr_pts f + (placed_dts s g f (timescale_of info) - fr_dts f))\<rparr>)"
      "sc_last s' = AList.update (fr_track f) (sent_mark (map_of (sc_last s) (fr_track f)) v
         (placed_dts s g f (timescale_of info)) (timescale_of info)) (sc_last s)"
proof (cases "find (\<lambda>t. ti_id t = fr_track f) (sc_tracks s)")
  case None
  with assms show ?thesis by (auto simp: stitch_stamp_def intro: dropped)
next
  case (Some info)
  let ?v = "track_kind_of info = Video" and ?ts = "timescale_of info"
  let ?src = "to_micros info (fr_dts f)"
  show ?thesis
  proof (cases "sc_seg s = None \<and> list_ex (\<lambda>t. track_kind_of t = Video) (sc_tracks s) \<and> \<not> (?v \<and> fr_keyframe f)")
    case True
    with assms Some show ?thesis by (auto simp: stitch_stamp_def intro: dropped)
  next
    case False
    from returns_open_segment [of s f ?ts ?src] obtain g where
      g: "(case sc_seg s of Some g \<Rightarrow> Some g | None \<Rightarrow> open_segment Release s f ?ts ?src) = Some g"
      by (cases "sc_seg s") auto
    let ?s = "s\<lparr>sc_seg := Some g\<rparr>"
    have step: "(if \<not> ?v \<and> ?src < sg_t0 g then Some (None, ?s) else place Release ?s g f ?v ?ts) = Some (out, s')"
      using assms False by (simp only: stitch_stamp_def Some option.case Let_def g if_False Option.bind.simps simp_thms)
    have placed: "placed_dts ?s g f ?ts = placed_dts s g f ?ts"
      by (simp add: placed_dts_def)
    show ?thesis
    proof (cases "(\<not> ?v \<and> ?src < sg_t0 g) \<or> late_audio ?s g f ?v ?ts")
      case True
      with step place_late [of ?s g f ?v ?ts] have "out = None" "s' = ?s"
        by (auto split: if_splits)
      then show ?thesis by (intro dropped) simp_all
    next
      case False
      with step have "place Release ?s g f ?v ?ts = Some (out, s')" and "\<not> late_audio ?s g f ?v ?ts"
        by auto
      from this(1) [unfolded place_sent [OF this(2)] placed] show ?thesis
        by (intro sent [OF Some, of g]) auto
    qed
  qed
qed

lemma stitch_on_frame:
  assumes inv: "stitch_inv k s" and out: "stitch_on p k s (In f) = Some (t, s')"
  shows "stitch_inv k s' \<and>
    (case t of
       None \<Rightarrow> stitch_newest k s' = stitch_newest k s
     | Some t \<Rightarrow> stitch_newest k s' = Some t \<and>
         (\<forall>l. stitch_newest k s = Some l \<longrightarrow> times_fit l t \<longrightarrow> earlier l t))"
proof -
  from out obtain out where "stitch_stamp p s f = Some (out, s')" and
    t: "t = (case out of Some f' \<Rightarrow> if fr_track f' = k then Some (fr_dts f', scale_of s k) else None | None \<Rightarrow> None)"
    by auto
  from agreesD [OF agrees_stitch_stamp this(1)] have "stitch_stamp Release s f = Some (out, s')" .
  then show ?thesis
  proof (cases rule: stitch_stamp_cases)
    case dropped
    with inv t show ?thesis by (simp add: stitch_inv_def stitch_newest_def)
  next
    case (sent info g v)
    let ?c = "timescale_of info" and ?d = "placed_dts s g f (timescale_of info)"
    show ?thesis
    proof (cases "fr_track f = k")
      case False
      with sent inv t show ?thesis by (simp add: stitch_inv_def stitch_newest_def update_conv')
    next
      case True
      then have c: "scale_of s k = ?c" using sent(1) by (simp add: scale_of_def)
      have "earlier l (?d, ?c)" if "stitch_newest k s = Some l" "times_fit l (?d, ?c)" for l
      proof -
        from that(1) obtain m where m: "map_of (sc_last s) k = Some m" "l = (lm_dts m, lm_timescale m)"
          by (auto simp: stitch_newest_def)
        with inv have "in_i64 (lm_dts m)" "0 < lm_timescale m" by (simp_all add: stitch_inv_def)
        from after_prev_earlier [OF this timescale_pos] that(2) placed_dts_later [of s f m ?c g] True m
        show ?thesis by simp
      qed
      moreover have "stitch_inv k s'"
        using inv sent True in_i64_placed_dts timescale_pos by (simp add: stitch_inv_def update_conv' sent_mark_def)
      moreover have "t = Some (?d, ?c)" "stitch_newest k s' = Some (?d, ?c)"
        using t sent True c by (simp_all add: stitch_newest_def update_conv' sent_mark_def)
      ultimately show ?thesis by simp
    qed
  qed
qed

interpretation stitch: stamper "stitch_on p k" "stitch_newest k" "stitch_inv k" earlier times_fit
proof
  fix s x out s' t l
  assume inv: "stitch_inv k s"
  show "stitch_inv k s'" if "stitch_on p k s x = Some (out, s')"
    using that inv stitch_on_frame [OF inv]
    by (cases x) (auto simp: stitch_inv_def stitch_set_tracks_def stitch_begin_def)
  show "stitch_newest k s' = Some t" if "stitch_on p k s x = Some (Some t, s')"
    using that stitch_on_frame [OF inv, of p _ "Some t" s'] by (cases x) auto
  show "stitch_newest k s' = stitch_newest k s" if "stitch_on p k s x = Some (None, s')"
    using that stitch_on_frame [OF inv, of p _ None s']
    by (cases x) (auto simp: stitch_newest_def stitch_set_tracks_def stitch_begin_def)
  show "earlier l t" if "stitch_on p k s x = Some (Some t, s')" "stitch_newest k s = Some l" "times_fit l t"
    using that stitch_on_frame [OF inv, of p _ "Some t" s'] by (cases x) auto
qed (auto simp: earlier_def)

lemma open_segment_continues:
  assumes "map_of (sc_last s) (fr_track f) = Some l" and "lm_timescale l = ts" and "in_i64 (lm_dts l + lm_delta l)"
    and "filter lm_video (map snd (sc_last s)) = [l]"
  shows "\<exists>g. open_segment Release s f ts src = Some g \<and> sg_t0 g = src \<and>
     sg_exact g = (fr_track f, wrap64 (lm_dts l + lm_delta l - fr_dts f))"
  using assms
  by (simp add: open_segment_def end_micros_def mark_end_def max_opt_def Let_def checked64_release wrap64_id)

text \<open>A video frame of a running segment whose shifted time is later than the last one is only shifted.\<close>

lemma stitch_stamp_shifts:
  assumes "find (\<lambda>t. ti_id t = fr_track f) (sc_tracks s) = Some info" and "track_kind_of info = Video"
    and "sc_seg s = Some g" and "sg_exact g = (fr_track f, e)" and "map_of (sc_last s) (fr_track f) = Some l"
    and "lm_timescale l = timescale_of info" and "lm_dts l < wrap64 (fr_dts f + e)"
  shows "\<exists>s'. stitch_stamp Release s f =
     Some (Some (f\<lparr>fr_dts := wrap64 (fr_dts f + e), fr_pts := wrap64 (fr_pts f + e)\<rparr>), s')"
proof -
  let ?s = "s\<lparr>sc_seg := Some g\<rparr>" and ?ts = "timescale_of info"
  have on_time: "\<not> late_audio ?s g f True ?ts"
    by (simp add: late_audio_def)
  have d: "placed_dts ?s g f ?ts = wrap64 (fr_dts f + e)"
    using assms by (simp add: placed_dts_def segment_shift_def prev_dts_def)
  have pts: "wrap64 (fr_pts f + (wrap64 (fr_dts f + e) - fr_dts f)) = wrap64 (fr_pts f + e)"
    by simp
  have "stitch_stamp Release s f = place Release ?s g f True ?ts"
    using assms(1-3) by (simp add: stitch_stamp_def)
  then show ?thesis
    unfolding place_sent [OF on_time] d pts by blast
qed

subsection \<open>Properties\<close>

text \<open>
  Claim C9. Across any number of switches, track list changes and dropped frames, the decode times
  sent on a track increase strictly in time, also when the timescale of the track changes; in both builds, and as long as
  the last time sent, counted in the timescale of the next, is below the largest \<open>i64\<close>.
\<close>

theorem stitched_timeline_increasing:
  assumes "stamp_all (stitch_on p k) stitcher_default xs = Some (ts, s)" and "successively times_fit ts"
  shows "sorted_wrt (\<lambda>(d, c) (d', c'). of_int d / of_int c < (of_int d' / of_int c' :: rat)) ts"
proof -
  have init: "stitch_inv k stitcher_default" "stitch_newest k stitcher_default = None"
    by (simp_all add: stitch_inv_def stitch_newest_def stitcher_default_def)
  then have "sorted_wrt earlier ts"
    using stitch.run_increasing [OF init(1) assms(1)] assms(2) by (simp add: stitch.so_far_def)
  then show ?thesis by (rule sorted_wrt_mono_rel [rotated]) (auto simp: earlier_def seconds_def)
qed

text \<open>A switch, and then one to a source whose track counts milliseconds.\<close>

definition demo_switch :: "stitch_input list" where
  "demo_switch = [NewTracks [demo_video 0 90000], NewSegment, In (demo_frame 0 900000 True),
     In (demo_frame 0 903000 False), NewSegment, In (demo_frame 0 100 False), In (demo_frame 0 3100 True),
     NewTracks [demo_video 0 1000], NewSegment, In (demo_frame 0 5 True), In (demo_frame 0 38 False)]"

theorem stitched_timeline_increasing_witness:
  "sorted_wrt (\<lambda>(d, c) (d', c'). of_int d / of_int c < (of_int d' / of_int c' :: rat))
     [(900000, 90000), (903000, 90000), (906000, 90000), (10100, 1000), (10133, 1000)]"
proof -
  have "map_option fst (stamp_all (stitch_on Debug (TrackId 0)) stitcher_default demo_switch) =
      Some [(900000, 90000), (903000, 90000), (906000, 90000), (10100, 1000), (10133, 1000)]"
    by code_simp
  then obtain s where run: "stamp_all (stitch_on Debug (TrackId 0)) stitcher_default demo_switch =
      Some ([(900000, 90000), (903000, 90000), (906000, 90000), (10100, 1000), (10133, 1000)], s)"
    by auto
  show ?thesis
    by (rule stitched_timeline_increasing [OF run]) (simp add: times_fit_def seconds_def i64_max_def i64_min_def)
qed

text \<open>
  A switch continues the video frame for frame: the first keyframe of the new source goes
  out one frame duration after the last frame of the old one, whatever either clock reads, with its
  presentation time shifted by the same amount; and the frames of the new source that follow are
  shifted by that amount too, so the spacing of the source is kept.
\<close>

theorem switch_continues_video:
  assumes "find (\<lambda>t. ti_id t = fr_track f) (sc_tracks s) = Some info" and "track_kind_of info = Video"
    and "fr_keyframe f" and "map_of (sc_last s) (fr_track f) = Some l"
    and "filter lm_video (map snd (sc_last s)) = [l]" and "lm_timescale l = timescale_of info"
    and "0 < lm_delta l" and "in_i64 (lm_dts l + lm_delta l)"
    and "shift = lm_dts l + lm_delta l - fr_dts f"
    and "fr_track h = fr_track f" and "lm_dts l + lm_delta l < wrap64 (fr_dts h + shift)"
  shows "\<exists>s' s''. stitch_stamp Release (stitch_begin s) f =
       Some (Some (f\<lparr>fr_dts := lm_dts l + lm_delta l, fr_pts := wrap64 (fr_pts f + shift)\<rparr>), s') \<and>
     stitch_stamp Release s' h =
       Some (Some (h\<lparr>fr_dts := wrap64 (fr_dts h + shift), fr_pts := wrap64 (fr_pts h + shift)\<rparr>), s'')"
proof -
  let ?ts = "timescale_of info" and ?s = "stitch_begin s" and ?e = "lm_dts l + lm_delta l"
  from open_segment_continues [of ?s f l ?ts "to_micros info (fr_dts f)"] assms obtain g where
    g: "open_segment Release ?s f ?ts (to_micros info (fr_dts f)) = Some g"
      "sg_exact g = (fr_track f, wrap64 shift)"
    by (auto simp: stitch_begin_def)
  let ?g = "?s\<lparr>sc_seg := Some g\<rparr>"
  have on_time: "\<not> late_audio ?g g f True ?ts"
    by (simp add: late_audio_def)
  have first: "wrap64 (fr_dts f + wrap64 shift) = ?e"
    using assms(8,9) by (simp add: wrap64_id)
  then have d: "placed_dts ?g g f ?ts = ?e"
    using assms(4,6,7) g(2) by (simp add: placed_dts_def segment_shift_def prev_dts_def stitch_begin_def)
  have pts: "wrap64 (fr_pts f + (?e - fr_dts f)) = wrap64 (fr_pts f + shift)"
    using assms(9) by simp
  have "stitch_stamp Release ?s f = place Release ?g g f True ?ts"
    using assms(1-3) g(1) by (simp add: stitch_stamp_def stitch_begin_def)
  then obtain s' where s': "stitch_stamp Release ?s f =
      Some (Some (f\<lparr>fr_dts := ?e, fr_pts := wrap64 (fr_pts f + shift)\<rparr>), s')"
      "sc_tracks s' = sc_tracks s" "sc_seg s' = Some g"
      "map_of (sc_last s') (fr_track f) = Some (sent_mark (Some l) True ?e ?ts)"
    unfolding place_sent [OF on_time] d pts using assms(4)
    by (simp add: stitch_begin_def update_conv')
  have "\<exists>s''. stitch_stamp Release s' h = Some (Some (h\<lparr>fr_dts := wrap64 (fr_dts h + wrap64 shift),
      fr_pts := wrap64 (fr_pts h + wrap64 shift)\<rparr>), s'')"
    by (rule stitch_stamp_shifts [where info = info and g = g and l = "sent_mark (Some l) True ?e ?ts"])
      (use assms(1,2,10,11) s' g(2) in \<open>simp_all add: sent_mark_def\<close>)
  with s'(1) show ?thesis by auto
qed

definition demo_stitched :: stitcher where
  "demo_stitched = \<lparr>sc_tracks = [demo_video 0 90000], sc_last =
     [(TrackId 0, \<lparr>lm_video = True, lm_dts = 903000, lm_delta = 3000, lm_timescale = 90000\<rparr>)], sc_seg = None\<rparr>"

theorem switch_continues_video_witness:
  "\<exists>s' s''. stitch_stamp Release (stitch_begin demo_stitched) (demo_frame 0 100 True) =
       Some (Some (demo_frame 0 906000 True), s') \<and>
     stitch_stamp Release s' (demo_frame 0 3100 False) = Some (Some (demo_frame 0 909000 False), s'')"
proof -
  have find: "find (\<lambda>t. ti_id t = fr_track (demo_frame 0 100 True)) (sc_tracks demo_stitched) =
      Some (demo_video 0 90000)"
    by (simp add: demo_stitched_def demo_video_def demo_frame_def)
  have w: "wrap64 906000 = 906000" "wrap64 909000 = 909000"
    by (simp_all add: wrap64_def)
  let ?l = "\<lparr>lm_video = True, lm_dts = 903000, lm_delta = 3000, lm_timescale = 90000\<rparr>"
  let ?f = "demo_frame 0 100 True" and ?h = "demo_frame 0 3100 False"
  have "\<exists>s' s''. stitch_stamp Release (stitch_begin demo_stitched) ?f =
       Some (Some (?f\<lparr>fr_dts := lm_dts ?l + lm_delta ?l, fr_pts := wrap64 (fr_pts ?f + 905900)\<rparr>), s') \<and>
     stitch_stamp Release s' ?h =
       Some (Some (?h\<lparr>fr_dts := wrap64 (fr_dts ?h + 905900), fr_pts := wrap64 (fr_pts ?h + 905900)\<rparr>), s'')"
    by (rule switch_continues_video [OF find])
      (simp_all add: timescale_of_def demo_stitched_def demo_frame_def track_kind_of_def demo_video_def in_i64_bounds w)
  then show ?thesis
    by (simp add: demo_frame_def w)
qed

text \<open>
  Restamping a frame always returns in a release build, and a debug build either panics on
  an \<open>i64\<close> overflow or computes exactly the same frame and state.
\<close>

theorem stitch_stamp_builds:
  "\<exists>r. stitch_stamp Release s f = Some r \<and> (stitch_stamp Debug s f = None \<or> stitch_stamp Debug s f = Some r)"
proof -
  from returns_stitch_stamp obtain r where r: "stitch_stamp Release s f = Some r" ..
  with agrees_stitch_stamp [of Debug s f] show ?thesis
    by (auto simp: agrees_def)
qed

end
