(* ===== verification/Switching.thy ===== *)
theory Switching
  imports Prelude
begin

text \<open>
  \<open>crates/caudal-failover/src/switcher.rs\<close>: which source should be on air. An \<open>Instant\<close> is the
  number of nanoseconds on the monotonic clock, so \<open>saturating_duration_since\<close> is subtraction on
  \<open>nat\<close>.
\<close>

type_synonym instant = nat

datatype reason = Start | Silent | Recovered | Manual

fun reason_as_str :: "reason \<Rightarrow> string" where
  "reason_as_str Start = ''start''"
| "reason_as_str Silent = ''silent''"
| "reason_as_str Recovered = ''recovered''"
| "reason_as_str Manual = ''manual''"

record switcher =
  sw_switch_back_after :: duration
  sw_healthy_since :: "instant option list"
  sw_active :: "nat option"
  sw_preferred :: "nat option"

definition switcher_new :: "nat \<Rightarrow> duration \<Rightarrow> switcher" where
  "switcher_new sources hold =
     \<lparr>sw_switch_back_after = hold, sw_healthy_since = replicate sources None, sw_active = None, sw_preferred = None\<rparr>"

definition rank :: "switcher \<Rightarrow> nat \<Rightarrow> nat" where
  "rank sw i = (if sw_preferred sw = Some i then 0 else i + 1)"

fun observe_sources :: "instant \<Rightarrow> instant option list \<Rightarrow> bool list \<Rightarrow> instant option list" where
  "observe_sources now (since # sinces) (ok # oks) =
     (case (ok, since) of
        (True, None) \<Rightarrow> Some now
      | (False, _) \<Rightarrow> None
      | _ \<Rightarrow> since) # observe_sources now sinces oks"
| "observe_sources now sinces _ = sinces"

definition observe :: "instant \<Rightarrow> bool list \<Rightarrow> switcher \<Rightarrow> switcher" where
  "observe now healthy sw = sw\<lparr>sw_healthy_since := observe_sources now (sw_healthy_since sw) healthy\<rparr>"

definition healthy_for :: "switcher \<Rightarrow> instant \<Rightarrow> nat \<Rightarrow> duration option" where
  "healthy_for sw now i =
     (if i < length (sw_healthy_since sw) then map_option (\<lambda>s. now - s) (sw_healthy_since sw ! i) else None)"

definition held :: "switcher \<Rightarrow> instant \<Rightarrow> nat \<Rightarrow> bool" where
  "held sw now i = (case healthy_for sw now i of Some d \<Rightarrow> d \<ge> sw_switch_back_after sw | None \<Rightarrow> False)"

definition is_healthy :: "bool list \<Rightarrow> nat \<Rightarrow> bool" where
  "is_healthy healthy i \<longleftrightarrow> i < length healthy \<and> healthy ! i"

definition decide :: "switcher \<Rightarrow> instant \<Rightarrow> bool list \<Rightarrow> (nat \<times> reason) option" where
  "decide sw now healthy =
     (let by_rank = sort_key (rank sw) (filter (\<lambda>i. healthy ! i) [0..<length healthy]) in
      case sw_active sw of
        None \<Rightarrow> (case by_rank of [] \<Rightarrow> None | i # _ \<Rightarrow> Some (i, Start))
      | Some a \<Rightarrow>
          if \<not> is_healthy healthy a
          then map_option (\<lambda>i. (i, Silent)) (find (\<lambda>i. i \<noteq> a) by_rank)
          else map_option (\<lambda>i. (i, Recovered))
                 (find (held sw now) (takeWhile (\<lambda>i. rank sw i < rank sw a) by_rank)))"

text \<open>
  The specification: the candidates of each situation, of which the best-ranked one is taken.
\<close>

definition candidates :: "switcher \<Rightarrow> instant \<Rightarrow> bool list \<Rightarrow> nat set" where
  "candidates sw now healthy =
     {i. is_healthy healthy i \<and>
         (case sw_active sw of
            None \<Rightarrow> True
          | Some a \<Rightarrow> is_healthy healthy a \<longrightarrow> rank sw i < rank sw a \<and> held sw now i)}"

definition situation :: "switcher \<Rightarrow> bool list \<Rightarrow> reason" where
  "situation sw healthy =
     (case sw_active sw of None \<Rightarrow> Start | Some a \<Rightarrow> if is_healthy healthy a then Recovered else Silent)"

lemma rank_inj: "rank sw i = rank sw j \<Longrightarrow> i = j"
  by (auto simp: rank_def split: if_splits)

lemma find_first_sorted:
  assumes "sorted (map f xs)" and "find p xs = Some x"
  shows "x \<in> set xs \<and> p x \<and> (\<forall>y \<in> set xs. p y \<longrightarrow> f x \<le> f y)"
  using assms by (induction xs) (auto split: if_splits)

lemma find_None: "find p xs = None \<longleftrightarrow> (\<forall>x \<in> set xs. \<not> p x)"
  by (induction xs) auto

lemma takeWhile_sorted:
  assumes "sorted (map f xs)"
  shows "set (takeWhile (\<lambda>i. f i < b) xs) = {i \<in> set xs. f i < b}"
  using assms by (induction xs) fastforce+

lemma sorted_takeWhile: "sorted (map f xs) \<Longrightarrow> sorted (map f (takeWhile p xs))"
  by (metis sorted_append map_append takeWhile_dropWhile_id)

lemma find_eq_hd: "(case xs of [] \<Rightarrow> None | x # _ \<Rightarrow> Some (x, r)) = map_option (\<lambda>x. (x, r)) (find (\<lambda>_. True) xs)"
  by (cases xs) simp_all

definition best_of :: "(nat \<Rightarrow> nat) \<Rightarrow> reason \<Rightarrow> nat set \<Rightarrow> (nat \<times> reason) option \<Rightarrow> bool" where
  "best_of f r S d \<longleftrightarrow>
     (case d of None \<Rightarrow> S = {} | Some (i, r') \<Rightarrow> r' = r \<and> i \<in> S \<and> (\<forall>j \<in> S. f i \<le> f j))"

lemma best_of_find:
  assumes "sorted (map f xs)"
  shows "best_of f r {i \<in> set xs. p i} (map_option (\<lambda>i. (i, r)) (find p xs))"
proof (cases "find p xs")
  case None
  moreover from None have "{i \<in> set xs. p i} = {}" by (simp add: find_None)
  ultimately show ?thesis by (simp add: best_of_def)
next
  case (Some x)
  with find_first_sorted [OF assms Some] show ?thesis by (simp add: best_of_def)
qed

lemma decide_spec: "best_of (rank sw) (situation sw healthy) (candidates sw now healthy) (decide sw now healthy)"
proof -
  define hs where "hs = sort_key (rank sw) (filter (\<lambda>i. healthy ! i) [0..<length healthy])"
  have sorted: "sorted (map (rank sw) hs)"
    by (simp add: hs_def)
  have set_hs: "set hs = {i. is_healthy healthy i}"
    by (auto simp: hs_def is_healthy_def)
  show ?thesis
  proof (cases "sw_active sw")
    case None
    then have "candidates sw now healthy = {i \<in> set hs. True}" "situation sw healthy = Start"
      by (simp_all add: candidates_def set_hs situation_def)
    moreover have "decide sw now healthy = map_option (\<lambda>i. (i, Start)) (find (\<lambda>_. True) hs)"
      using None by (simp add: decide_def find_eq_hd flip: hs_def)
    ultimately show ?thesis by (simp only: best_of_find [OF sorted])
  next
    case (Some a)
    show ?thesis
    proof (cases "is_healthy healthy a")
      case True
      let ?better = "takeWhile (\<lambda>i. rank sw i < rank sw a) hs"
      have "candidates sw now healthy = {i \<in> set ?better. held sw now i}" "situation sw healthy = Recovered"
        using Some True by (auto simp: candidates_def takeWhile_sorted [OF sorted] set_hs situation_def)
      moreover have "decide sw now healthy = map_option (\<lambda>i. (i, Recovered)) (find (held sw now) ?better)"
        using Some True by (simp add: decide_def flip: hs_def)
      ultimately show ?thesis by (simp only: best_of_find [OF sorted_takeWhile [OF sorted]])
    next
      case False
      have "candidates sw now healthy = {i \<in> set hs. i \<noteq> a}" "situation sw healthy = Silent"
        using Some False by (auto simp: candidates_def set_hs situation_def)
      moreover have "decide sw now healthy = map_option (\<lambda>i. (i, Silent)) (find (\<lambda>i. i \<noteq> a) hs)"
        using Some False by (simp add: decide_def flip: hs_def)
      ultimately show ?thesis by (simp only: best_of_find [OF sorted])
    qed
  qed
qed

text \<open>What \<open>healthy_since\<close> means: the observations recorded so far, in order.\<close>

definition observed :: "nat \<Rightarrow> duration \<Rightarrow> (instant \<times> bool list) list \<Rightarrow> switcher" where
  "observed n hold obs = fold (\<lambda>(t, h) sw. observe t h sw) obs (switcher_new n hold)"

lemma observe_sources_length [simp]: "length (observe_sources now s h) = length s"
  by (induction now s h rule: observe_sources.induct) auto

lemma observe_sources_nth:
  "i < length s \<Longrightarrow> i < length h \<Longrightarrow>
   observe_sources now s h ! i = (if h ! i then (case s ! i of None \<Rightarrow> Some now | Some t \<Rightarrow> Some t) else None)"
  by (induction now s h arbitrary: i rule: observe_sources.induct)
    (auto simp: nth_Cons split: nat.splits option.splits bool.splits)

lemma observed_length [simp]: "length (sw_healthy_since (observed n hold obs)) = n"
  by (induction obs rule: rev_induct) (auto simp: observed_def switcher_new_def observe_def)

lemma observed_snoc: "observed n hold (obs @ [(t, h)]) = observe t h (observed n hold obs)"
  by (simp add: observed_def)

lemma observed_fields [simp]:
  "sw_switch_back_after (observed n hold obs) = hold"
  by (induction obs rule: rev_induct) (auto simp: observed_def switcher_new_def observe_def)

lemma observed_since:
  assumes "i < n" and "list_all (\<lambda>(t, h). length h = n) obs" and "sorted (map fst obs)"
    and "sw_healthy_since (observed n hold obs) ! i = Some s"
  shows "s \<in> set (map fst obs) \<and> (\<forall>(t, h) \<in> set obs. s < t \<longrightarrow> h ! i)"
  using assms(2-4)
proof (induction obs rule: rev_induct)
  case Nil
  with assms(1) show ?case by (simp add: observed_def switcher_new_def)
next
  case (snoc x obs)
  obtain t h where x: "x = (t, h)" by force
  with snoc.prems have h: "length h = n" and later: "\<forall>(u, g) \<in> set obs. u \<le> t"
    by (auto simp: sorted_append)
  have since: "sw_healthy_since (observed n hold (obs @ [x])) ! i =
      (if h ! i then (case sw_healthy_since (observed n hold obs) ! i of None \<Rightarrow> Some t | Some u \<Rightarrow> Some u) else None)"
    using assms(1) h by (simp add: x observed_snoc observe_def observe_sources_nth)
  with snoc.prems have up: "h ! i" by (auto split: if_splits)
  show ?case
  proof (cases "sw_healthy_since (observed n hold obs) ! i")
    case None
    with since up snoc.prems(3) have "s = t" by simp
    with later show ?thesis by (auto simp: x)
  next
    case (Some u)
    with since up snoc.prems(3) have "u = s" by simp
    with snoc Some up show ?thesis by (auto simp: x sorted_append)
  qed
qed

subsection \<open>Properties\<close>

text \<open>
  Claim C10. The switch decision takes exactly the best-ranked candidate, and makes none exactly when
  there is none: any healthy source when nothing is on air or the active source is unhealthy, and
  otherwise only a healthy source that outranks the active one and has been healthy for the hold
  time. It never decides for the source already on air.
\<close>

theorem decide_takes_best_candidate:
  "(decide sw now healthy = None \<longleftrightarrow> candidates sw now healthy = {}) \<and>
   (decide sw now healthy = Some (i, r) \<longleftrightarrow>
      r = situation sw healthy \<and> i \<in> candidates sw now healthy \<and>
      (\<forall>j \<in> candidates sw now healthy. i \<noteq> j \<longrightarrow> rank sw i < rank sw j)) \<and>
   (decide sw now healthy = Some (i, r) \<longrightarrow> sw_active sw \<noteq> Some i)"
proof -
  have active: "sw_active sw \<noteq> Some i" if "i \<in> candidates sw now healthy"
    using that by (auto simp: candidates_def split: option.splits)
  have strict: "(\<forall>j \<in> S. rank sw k \<le> rank sw j) \<longleftrightarrow> (\<forall>j \<in> S. k \<noteq> j \<longrightarrow> rank sw k < rank sw j)" for S k
    by (metis order_le_imp_less_or_eq rank_inj order_less_imp_le order_refl)
  show ?thesis
  proof (cases "decide sw now healthy")
    case None
    with decide_spec [of sw healthy now] show ?thesis by (auto simp: best_of_def)
  next
    case (Some d)
    obtain k q where d: "d = (k, q)" by force
    have spec: "q = situation sw healthy" "k \<in> candidates sw now healthy"
        "\<forall>j \<in> candidates sw now healthy. k \<noteq> j \<longrightarrow> rank sw k < rank sw j"
      using decide_spec [of sw healthy now] Some d strict by (auto simp: best_of_def)
    have "i = k" if "i \<in> candidates sw now healthy"
        "\<forall>j \<in> candidates sw now healthy. i \<noteq> j \<longrightarrow> rank sw i < rank sw j"
      using that spec(2,3) by fastforce
    with Some d spec active show ?thesis by auto
  qed
qed

definition demo_switcher :: switcher where
  "demo_switcher = \<lparr>sw_switch_back_after = 10, sw_healthy_since = [Some 5, Some 0], sw_active = Some 1,
     sw_preferred = None\<rparr>"

theorem decide_takes_best_candidate_witness:
  "candidates demo_switcher 14 [True, True] = {} \<and> decide demo_switcher 15 [True, True] = Some (0, Recovered)"
proof
  have h: "is_healthy [True, True] 1" "is_healthy [True, True] 0" "held demo_switcher 15 0"
    "\<not> held demo_switcher 14 0"
    by (simp_all add: is_healthy_def held_def healthy_for_def demo_switcher_def)
  have ranks: "rank demo_switcher i < rank demo_switcher (Suc 0) \<longleftrightarrow> i = 0" for i
    by (auto simp: demo_switcher_def rank_def)
  show "candidates demo_switcher 14 [True, True] = {}"
    using h ranks by (auto simp: candidates_def demo_switcher_def)
  have "candidates demo_switcher 15 [True, True] = {0}"
    using h ranks by (auto simp: candidates_def demo_switcher_def)
  moreover have "situation demo_switcher [True, True] = Recovered"
    using h by (simp add: situation_def demo_switcher_def)
  ultimately show "decide demo_switcher 15 [True, True] = Some (0, Recovered)"
    using decide_takes_best_candidate [of demo_switcher 15 "[True, True]" 0 Recovered] by simp
qed

text \<open>
  Claim C11. A flapping source cannot bounce viewers: whenever the switcher leaves a healthy source
  for a better-ranked one, that one was healthy at every observation made within the last
  \<open>switch_back_after\<close>, and was first observed healthy at least that long ago.
\<close>

theorem switch_back_held:
  assumes "list_all (\<lambda>(t, h). length h = n) obs" and "sorted (map fst obs)"
    and "sw_healthy_since sw = sw_healthy_since (observed n hold obs)" and "sw_switch_back_after sw = hold"
    and "decide sw now healthy = Some (i, Recovered)"
  shows "\<exists>s \<in> set (map fst obs). hold \<le> now - s \<and> (\<forall>(t, h) \<in> set obs. s < t \<longrightarrow> h ! i)"
proof -
  have "r = Recovered \<and> i \<in> candidates sw now healthy" if "situation sw healthy = r" for r
    using decide_spec [of sw healthy now] assms(5) that by (simp add: best_of_def)
  then have "held sw now i"
    by (auto simp: candidates_def situation_def split: option.splits if_splits)
  then obtain s where s: "i < n" "sw_healthy_since (observed n hold obs) ! i = Some s" "hold \<le> now - s"
    using assms(3,4) by (auto simp: held_def healthy_for_def split: if_splits option.splits)
  with observed_since [OF s(1) assms(1,2) s(2)] show ?thesis by blast
qed

definition demo_observations :: "(instant \<times> bool list) list" where
  "demo_observations = [(0, [False, True]), (5, [True, True]), (12, [True, True])]"

theorem switch_back_held_witness:
  "\<exists>s \<in> {0, 5, 12}. 10 \<le> 15 - s \<and> (\<forall>(t, h) \<in> set demo_observations. s < t \<longrightarrow> h ! 0)"
proof -
  have wf: "list_all (\<lambda>(t, h). length h = 2) demo_observations" "sorted (map fst demo_observations)"
    by (simp_all add: demo_observations_def)
  have since: "sw_healthy_since demo_switcher = sw_healthy_since (observed 2 10 demo_observations)"
    by (simp add: demo_switcher_def observed_def demo_observations_def switcher_new_def observe_def numeral_2_eq_2)
  have hold: "sw_switch_back_after demo_switcher = 10"
    by (simp add: demo_switcher_def)
  have "decide demo_switcher 15 [True, True] = Some (0, Recovered)"
    by (simp add: decide_def demo_switcher_def is_healthy_def held_def healthy_for_def rank_def)
  from switch_back_held [OF wf since hold this] show ?thesis
    by (simp add: demo_observations_def)
qed

end
