(* ===== verification/Failover_Runner.thy ===== *)
theory Failover_Runner
  imports Registry Stitcher Switching
begin

text \<open>
  \<open>crates/caudal-failover/src/lib.rs\<close>: backup sources. A runner owns one public stream and an
  ordered list of sources; on each tick it samples their health, asks the switcher and joins the
  chosen source; every event of the joined source goes through the stitcher to the public stream.
  The clock (\<open>now\<close>, and \<open>at_ms\<close> for the wall clock), the file system (\<open>is_file\<close>) and the build
  are arguments. A file source's player is a task of its own (\<open>caudal-channel\<close>): the runner keeps
  whether it runs, what it publishes shows in the registry. Paths are strings.
\<close>

subsection \<open>Configuration\<close>

datatype source = StreamSrc string | FileSrc string

datatype source_error = FileNeedsPath | NeitherNameNorFile string

definition source_parse :: "string \<Rightarrow> source_error + source" where
  "source_parse s =
     (case strip_prefix ''file:'' s of
        Some p \<Rightarrow> if p = [] then Inl FileNeedsPath else Inr (FileSrc p)
      | None \<Rightarrow> if valid_stream_name s then Inr (StreamSrc s) else Inl (NeitherNameNorFile s))"

fun source_label :: "source \<Rightarrow> string" where
  "source_label (StreamSrc n) = n"
| "source_label (FileSrc p) = ''file:'' @ p"

definition file_stream_name :: "string \<Rightarrow> nat \<Rightarrow> string" where
  "file_stream_name stream index = ''failover.'' @ stream @ ''.'' @ decimal index"

record failover =
  fo_stream :: string
  fo_sources :: "source list"
  fo_switch_after :: duration
  fo_switch_back_after :: duration

datatype failover_error =
    InvalidStream string | NoSources | ZeroSwitchAfter | ListsItself | NameTooLong string
  | ListedTwice string

fun validate_sources :: "string \<Rightarrow> source list \<Rightarrow> source list \<Rightarrow> failover_error + unit" where
  "validate_sources stream before [] = Inr ()"
| "validate_sources stream before (s # ss) =
     (let check = (case s of
          StreamSrc n \<Rightarrow> if n = stream then Inl ListsItself else Inr ()
        | FileSrc _ \<Rightarrow>
            if \<not> valid_stream_name (file_stream_name stream (length before)) then Inl (NameTooLong stream)
            else Inr ())
      in case check of
           Inl e \<Rightarrow> Inl e
         | Inr _ \<Rightarrow>
            if s \<in> set before then Inl (ListedTwice (source_label s))
            else validate_sources stream (before @ [s]) ss)"

definition failover_validate :: "failover \<Rightarrow> failover_error + unit" where
  "failover_validate fo =
     (if \<not> valid_stream_name (fo_stream fo) then Inl (InvalidStream (fo_stream fo))
      else if fo_sources fo = [] then Inl NoSources
      else if fo_switch_after fo = 0 then Inl ZeroSwitchAfter
      else validate_sources (fo_stream fo) [] (fo_sources fo))"

lemma source_label_roundtrip:
  "source_parse s = Inr src \<Longrightarrow> source_label src = s"
  by (auto simp: source_parse_def strip_prefix_Some split: option.splits if_splits)

subsection \<open>State\<close>

record switch_event =
  se_stream :: string
  se_from :: "string option"
  se_to :: string
  se_reason :: string
  se_at_ms :: nat

record source_status =
  ss_name :: string
  ss_kind :: string
  ss_live :: bool
  ss_healthy :: bool
  ss_silent_ms :: "nat option"
  ss_healthy_for_ms :: "nat option"

record failover_status =
  fs_stream :: string
  fs_active :: "string option"
  fs_preferred :: "string option"
  fs_on_air :: bool
  fs_sources :: "source_status list"
  fs_last_switch :: "switch_event option"
  fs_switches :: nat
  fs_history :: "switch_event list"

definition tick_interval :: duration where
  "tick_interval = 100 * 10 ^ 6"

definition history_limit :: nat where
  "history_limit = 20"

fun source_kind :: "source \<Rightarrow> string" where
  "source_kind (StreamSrc _) = ''stream''"
| "source_kind (FileSrc _) = ''file''"

definition initial_status :: "failover \<Rightarrow> failover_status" where
  "initial_status fo = \<lparr>fs_stream = fo_stream fo, fs_active = None, fs_preferred = None, fs_on_air = False,
     fs_sources = map (\<lambda>s. \<lparr>ss_name = source_label s, ss_kind = source_kind s, ss_live = False,
       ss_healthy = False, ss_silent_ms = None, ss_healthy_for_ms = None\<rparr>) (fo_sources fo),
     fs_last_switch = None, fs_switches = 0, fs_history = []\<rparr>"

record probe =
  pb_stream :: "nat option"
  pb_frames_in :: u64
  pb_last_progress :: "instant option"

definition probe_default :: probe where
  "probe_default = \<lparr>pb_stream = None, pb_frames_in = 0, pb_last_progress = None\<rparr>"

record runner =
  rn_cfg :: failover
  rn_buffer :: buffer_config
  rn_status :: failover_status
  rn_sw :: switcher
  rn_probes :: "probe list"
  rn_healthy :: "bool list"
  rn_files :: "bool list"
  rn_out :: "nat option"
  rn_busy_logged :: bool
  rn_sub :: "(nat \<times> subscriber) option"
  rn_stitch :: stitcher

definition runner_new :: "failover \<Rightarrow> buffer_config \<Rightarrow> runner" where
  "runner_new fo buffer =
     (let n = length (fo_sources fo) in
      \<lparr>rn_cfg = fo, rn_buffer = buffer, rn_status = initial_status fo,
       rn_sw = switcher_new n (fo_switch_back_after fo), rn_probes = replicate n probe_default,
       rn_healthy = replicate n False, rn_files = replicate n False, rn_out = None,
       rn_busy_logged = False, rn_sub = None, rn_stitch = stitcher_default\<rparr>)"

subsection \<open>Joining and switching\<close>

definition source_stream :: "failover \<Rightarrow> nat \<Rightarrow> string" where
  "source_stream fo i =
     (case fo_sources fo ! i of StreamSrc n \<Rightarrow> n | FileSrc _ \<Rightarrow> file_stream_name (fo_stream fo) i)"

definition live_stream_of :: "registry \<Rightarrow> string \<Rightarrow> nat option" where
  "live_stream_of reg name =
     (case registry_get reg name of
        Some a \<Rightarrow> if is_ended (stream_at reg a) then None else Some a
      | None \<Rightarrow> None)"

definition is_file_source :: "source \<Rightarrow> bool" where
  "is_file_source s = (case s of FileSrc _ \<Rightarrow> True | StreamSrc _ \<Rightarrow> False)"

definition attach :: "registry \<Rightarrow> nat \<Rightarrow> runner \<Rightarrow> bool \<times> runner" where
  "attach reg i rn =
     (let rn = (if is_file_source (fo_sources (rn_cfg rn) ! i) \<and> \<not> rn_files rn ! i
                then rn\<lparr>rn_files := (rn_files rn)[i := True]\<rparr> else rn)
      in case live_stream_of reg (source_stream (rn_cfg rn) i) of
           None \<Rightarrow> (False, rn)
         | Some a \<Rightarrow>
             (True, rn\<lparr>rn_sub := Some (a, fst (subscribe_internal (stream_at reg a) LiveEdge)),
                       rn_stitch := stitch_begin (rn_stitch rn)\<rparr>))"

definition push_history :: "switch_event \<Rightarrow> failover_status \<Rightarrow> failover_status" where
  "push_history ev st =
     (let h = fs_history st @ [ev] in
      st\<lparr>fs_switches := fs_switches st + 1, fs_last_switch := Some ev,
         fs_history := (if length h > history_limit then tl h else h)\<rparr>)"

definition switch_to :: "registry \<Rightarrow> nat \<Rightarrow> nat \<Rightarrow> reason \<Rightarrow> runner \<Rightarrow> runner \<times> switch_event" where
  "switch_to reg at_ms i reason rn =
     (let label = (\<lambda>j. source_label (fo_sources (rn_cfg rn) ! j));
          from = map_option label (sw_active (rn_sw rn));
          ev = \<lparr>se_stream = fo_stream (rn_cfg rn), se_from = from, se_to = label i,
                se_reason = reason_as_str reason, se_at_ms = at_ms\<rparr>;
          rn = rn\<lparr>rn_sw := (rn_sw rn)\<lparr>sw_active := Some i\<rparr>, rn_sub := None,
                  rn_files := map (\<lambda>j. if j \<noteq> i then False else rn_files rn ! j) [0..<length (rn_files rn)]\<rparr>;
          rn = snd (attach reg i rn)
      in (rn\<lparr>rn_status := push_history ev (rn_status rn)\<rparr>, ev))"

datatype switch_error = UnknownStream | UnknownSource | NotHealthy

definition manual :: "registry \<Rightarrow> nat \<Rightarrow> string option \<Rightarrow> runner \<Rightarrow> (switch_error + unit) \<times> runner" where
  "manual reg at_ms source rn =
     (case source of
        None \<Rightarrow> (Inr (), rn\<lparr>rn_sw := (rn_sw rn)\<lparr>sw_preferred := None\<rparr>\<rparr>)
      | Some label \<Rightarrow>
         (case position (\<lambda>s. source_label s = label) (fo_sources (rn_cfg rn)) of
            None \<Rightarrow> (Inl UnknownSource, rn)
          | Some i \<Rightarrow>
              if \<not> rn_healthy rn ! i then (Inl NotHealthy, rn)
              else (let rn = rn\<lparr>rn_sw := (rn_sw rn)\<lparr>sw_preferred := Some i\<rparr>\<rparr> in
                    (Inr (), if sw_active (rn_sw rn) \<noteq> Some i then fst (switch_to reg at_ms i Manual rn) else rn))))"

subsection \<open>The tick\<close>

definition probe_source :: "registry \<Rightarrow> instant \<Rightarrow> string \<Rightarrow> probe \<Rightarrow> probe" where
  "probe_source reg now name p =
     (case live_stream_of reg name of
        Some s \<Rightarrow>
         (let frames = st_frames_in (stream_at reg s); fresh = (pb_stream p \<noteq> Some s) in
          \<lparr>pb_stream = Some s, pb_frames_in = frames,
           pb_last_progress =
             (if (fresh \<and> frames > 0) \<or> frames > pb_frames_in p then Some now else pb_last_progress p)\<rparr>)
      | None \<Rightarrow> p\<lparr>pb_stream := None, pb_frames_in := 0\<rparr>)"

definition source_health :: "(string \<Rightarrow> bool) \<Rightarrow> instant \<Rightarrow> failover \<Rightarrow> source \<Rightarrow> probe \<Rightarrow> bool" where
  "source_health is_file now fo s p =
     (case s of
        StreamSrc _ \<Rightarrow>
          (case pb_last_progress p of Some t \<Rightarrow> now - t < fo_switch_after fo | None \<Rightarrow> False)
      | FileSrc path \<Rightarrow> is_file path)"

definition as_millis :: "duration \<Rightarrow> nat" where
  "as_millis d = (d div 10 ^ 6) mod 2 ^ 64"

definition publish_status :: "instant \<Rightarrow> runner \<Rightarrow> runner" where
  "publish_status now rn =
     (let label = (\<lambda>j. source_label (fo_sources (rn_cfg rn) ! j)) in
      rn\<lparr>rn_status := (rn_status rn)
         \<lparr>fs_active := map_option label (sw_active (rn_sw rn)),
          fs_preferred := map_option label (sw_preferred (rn_sw rn)),
          fs_on_air := rn_out rn \<noteq> None,
          fs_sources := map (\<lambda>i. (fs_sources (rn_status rn) ! i)
             \<lparr>ss_live := pb_stream (rn_probes rn ! i) \<noteq> None,
              ss_healthy := rn_healthy rn ! i,
              ss_silent_ms := (case fo_sources (rn_cfg rn) ! i of
                  StreamSrc _ \<Rightarrow> map_option (\<lambda>t. as_millis (now - t)) (pb_last_progress (rn_probes rn ! i))
                | FileSrc _ \<Rightarrow> None),
              ss_healthy_for_ms := map_option as_millis (healthy_for (rn_sw rn) now i)\<rparr>)
            [0..<length (fs_sources (rn_status rn))]\<rparr>\<rparr>)"

definition tick :: "(string \<Rightarrow> bool) \<Rightarrow> instant \<Rightarrow> nat \<Rightarrow> registry \<Rightarrow> runner \<Rightarrow> runner" where
  "tick is_file now at_ms reg rn =
     (let fo = rn_cfg rn; is = [0..<length (fo_sources fo)];
          probes = map (\<lambda>i. probe_source reg now (source_stream fo i) (rn_probes rn ! i)) is;
          healthy = map (\<lambda>i. source_health is_file now fo (fo_sources fo ! i) (probes ! i)) is;
          rn = rn\<lparr>rn_probes := probes, rn_healthy := healthy, rn_sw := observe now healthy (rn_sw rn)\<rparr>
      in publish_status now
          (case decide (rn_sw rn) now healthy of
             Some (i, reason) \<Rightarrow> fst (switch_to reg at_ms i reason rn)
           | None \<Rightarrow>
              (case (sw_active (rn_sw rn), rn_sub rn) of
                 (Some a, None) \<Rightarrow> snd (attach reg a rn)
               | _ \<Rightarrow> rn)))"

subsection \<open>Events of the source on air\<close>

definition ensure_output :: "registry \<Rightarrow> runner \<Rightarrow> nat option \<times> registry \<times> runner" where
  "ensure_output reg rn =
     (case rn_out rn of
        Some a \<Rightarrow> (Some a, reg, rn)
      | None \<Rightarrow>
         (case publish reg (fo_stream (rn_cfg rn)) (rn_buffer rn) of
            (Inr a, reg') \<Rightarrow> (Some a, reg', rn\<lparr>rn_busy_logged := False, rn_out := Some a\<rparr>)
          | (Inl (Busy _), reg') \<Rightarrow> (None, reg', rn\<lparr>rn_busy_logged := True\<rparr>)
          | (Inl InvalidName, reg') \<Rightarrow> (None, reg', rn)))"

definition keep_on_error :: "registry \<Rightarrow> push_error + registry \<Rightarrow> registry" where
  "keep_on_error reg r = (case r of Inl _ \<Rightarrow> reg | Inr reg' \<Rightarrow> reg')"

definition sub_tracks :: "registry \<Rightarrow> runner \<Rightarrow> track_info list option" where
  "sub_tracks reg rn = map_option (\<lambda>(a, _). stream_tracks (stream_at reg a)) (rn_sub rn)"

fun on_event :: "profile \<Rightarrow> event \<Rightarrow> registry \<Rightarrow> runner \<Rightarrow> (registry \<times> runner) option" where
  "on_event p TracksChanged reg rn =
     (let tracks = (case sub_tracks reg rn of Some ts \<Rightarrow> ts | None \<Rightarrow> []);
          rn = rn\<lparr>rn_stitch := stitch_set_tracks tracks (rn_stitch rn)\<rparr>;
          (out, reg, rn) = ensure_output reg rn
      in Some (case out of
          Some a \<Rightarrow> keep_on_error reg (publisher_set_tracks a reg tracks)
        | None \<Rightarrow> reg, rn))"
| "on_event p (FrameEv f) reg rn = do {
     (out, stitch) \<leftarrow> stitch_stamp p (rn_stitch rn) f;
     let rn = rn\<lparr>rn_stitch := stitch\<rparr>;
     (case out of
        None \<Rightarrow> Some (reg, rn)
      | Some frame \<Rightarrow>
         (let tracks = sub_tracks reg rn; fresh = (rn_out rn = None);
              (out, reg, rn) = ensure_output reg rn
          in case out of
               None \<Rightarrow> Some (reg, rn)
             | Some a \<Rightarrow>
                (let reg = (case (fresh, tracks) of
                       (True, Some ts) \<Rightarrow> keep_on_error reg (publisher_set_tracks a reg ts)
                     | _ \<Rightarrow> reg)
                 in do { r \<leftarrow> publisher_push p a reg frame; Some (keep_on_error reg r, rn) }))) }"
| "on_event p (Lagged skipped) reg rn = Some (reg, rn\<lparr>rn_stitch := stitch_begin (rn_stitch rn)\<rparr>)"
| "on_event p (CueEv c) reg rn = do {
     at_us \<leftarrow> cue_time p (rn_stitch rn) (cue_at_us c);
     (case (at_us, rn_out rn) of
        (Some at_us, Some a) \<Rightarrow> do {
          r \<leftarrow> publisher_push_cue p a reg (c\<lparr>cue_at_us := at_us\<rparr>);
          Some (keep_on_error reg r, rn) }
      | _ \<Rightarrow> Some (reg, rn)) }"
| "on_event p End reg rn = Some (reg, rn\<lparr>rn_sub := None\<rparr>)"

definition on_command :: "registry \<Rightarrow> instant \<Rightarrow> nat \<Rightarrow> string option \<Rightarrow> runner \<Rightarrow> (switch_error + unit) \<times> runner" where
  "on_command reg now at_ms source rn =
     (let (res, rn) = manual reg at_ms source rn in (res, publish_status now rn))"

subsection \<open>What validation establishes\<close>

lemma validate_sources_ok:
  "validate_sources stream before ss = Inr () \<longleftrightarrow>
     StreamSrc stream \<notin> set ss \<and> distinct ss \<and> set before \<inter> set ss = {} \<and>
     (\<forall>i < length ss. is_file_source (ss ! i) \<longrightarrow> valid_stream_name (file_stream_name stream (length before + i)))"
proof (induction stream before ss rule: validate_sources.induct)
  case (1 stream before)
  then show ?case by simp
next
  case (2 stream before s ss)
  have all: "(\<forall>i < Suc n. P i) \<longleftrightarrow> P 0 \<and> (\<forall>i < n. P (Suc i))" for P n
    by (metis Suc_less_eq gr0_conv_Suc less_Suc_eq_0_disj)
  show ?case
  proof (cases s)
    case (StreamSrc n)
    with 2 show ?thesis
      by (auto simp: all is_file_source_def Let_def)
  next
    case (FileSrc path)
    with 2 show ?thesis
      by (auto simp: all is_file_source_def Let_def)
  qed
qed

subsection \<open>Invariant of the runner\<close>

definition sizes_ok :: "runner \<Rightarrow> bool" where
  "sizes_ok rn \<longleftrightarrow>
     (let n = length (fo_sources (rn_cfg rn)) in
      length (sw_healthy_since (rn_sw rn)) = n \<and> length (rn_probes rn) = n \<and> length (rn_healthy rn) = n \<and>
      length (rn_files rn) = n \<and> length (fs_sources (rn_status rn)) = n)"

definition choice_ok :: "nat \<Rightarrow> nat option \<Rightarrow> bool" where
  "choice_ok n c \<longleftrightarrow> (case c of Some i \<Rightarrow> i < n | None \<Rightarrow> True)"

definition files_ok :: "runner \<Rightarrow> bool" where
  "files_ok rn \<longleftrightarrow> (\<forall>j < length (rn_files rn). rn_files rn ! j \<longrightarrow>
     sw_active (rn_sw rn) = Some j \<and> is_file_source (fo_sources (rn_cfg rn) ! j))"

definition history_ok :: "failover_status \<Rightarrow> bool" where
  "history_ok st \<longleftrightarrow> length (fs_history st) \<le> history_limit \<and>
     fs_last_switch st = (if fs_history st = [] then None else Some (last (fs_history st)))"

definition runner_wf :: "runner \<Rightarrow> bool" where
  "runner_wf rn \<longleftrightarrow> sizes_ok rn \<and> choice_ok (length (rn_files rn)) (sw_active (rn_sw rn)) \<and>
     choice_ok (length (rn_files rn)) (sw_preferred (rn_sw rn)) \<and> files_ok rn \<and>
     (rn_sub rn \<noteq> None \<longrightarrow> sw_active (rn_sw rn) \<noteq> None) \<and> history_ok (rn_status rn)"

lemmas runner_wf_defs = runner_wf_def sizes_ok_def choice_ok_def files_ok_def history_ok_def Let_def

lemma runner_wf_new: "runner_wf (runner_new fo buffer)"
  by (simp add: runner_wf_defs runner_new_def switcher_new_def initial_status_def)

text \<open>What each operation does to each field.\<close>

lemma attach_simps [simp]:
  "rn_cfg (snd (attach reg i rn)) = rn_cfg rn" "rn_sw (snd (attach reg i rn)) = rn_sw rn"
  "rn_status (snd (attach reg i rn)) = rn_status rn" "rn_probes (snd (attach reg i rn)) = rn_probes rn"
  "rn_healthy (snd (attach reg i rn)) = rn_healthy rn" "rn_out (snd (attach reg i rn)) = rn_out rn"
  "rn_sub (snd (attach reg i rn)) =
     (case live_stream_of reg (source_stream (rn_cfg rn) i) of
        Some a \<Rightarrow> Some (a, reader (st_ring (stream_at reg a)) LiveEdge False) | None \<Rightarrow> rn_sub rn)"
  "rn_stitch (snd (attach reg i rn)) =
     (case live_stream_of reg (source_stream (rn_cfg rn) i) of
        Some a \<Rightarrow> stitch_begin (rn_stitch rn) | None \<Rightarrow> rn_stitch rn)"
  by (simp_all add: attach_def Let_def subscribe_internal_def split: option.splits)

lemma attach_files [simp]:
  "rn_files (snd (attach reg i rn)) =
     (if is_file_source (fo_sources (rn_cfg rn) ! i) \<and> \<not> rn_files rn ! i then (rn_files rn)[i := True] else rn_files rn)"
  by (auto simp: attach_def Let_def split: option.splits)

lemma switch_to_simps [simp]:
  "rn_cfg (fst (switch_to reg at_ms i reason rn)) = rn_cfg rn"
  "rn_sw (fst (switch_to reg at_ms i reason rn)) = (rn_sw rn)\<lparr>sw_active := Some i\<rparr>"
  "rn_healthy (fst (switch_to reg at_ms i reason rn)) = rn_healthy rn"
  "rn_probes (fst (switch_to reg at_ms i reason rn)) = rn_probes rn"
  "rn_out (fst (switch_to reg at_ms i reason rn)) = rn_out rn"
  "rn_sub (fst (switch_to reg at_ms i reason rn)) =
     (case live_stream_of reg (source_stream (rn_cfg rn) i) of
        Some a \<Rightarrow> Some (a, reader (st_ring (stream_at reg a)) LiveEdge False) | None \<Rightarrow> None)"
  "rn_stitch (fst (switch_to reg at_ms i reason rn)) =
     (case live_stream_of reg (source_stream (rn_cfg rn) i) of
        Some a \<Rightarrow> stitch_begin (rn_stitch rn) | None \<Rightarrow> rn_stitch rn)"
  "rn_status (fst (switch_to reg at_ms i reason rn)) = push_history (snd (switch_to reg at_ms i reason rn)) (rn_status rn)"
  "se_reason (snd (switch_to reg at_ms i reason rn)) = reason_as_str reason"
  by (simp_all add: switch_to_def Let_def split: option.splits)

lemma switch_to_files:
  "i < length (rn_files rn) \<Longrightarrow>
   rn_files (fst (switch_to reg at_ms i reason rn)) =
     map (\<lambda>j. j = i \<and> (rn_files rn ! i \<or> is_file_source (fo_sources (rn_cfg rn) ! i))) [0..<length (rn_files rn)]"
  by (rule nth_equalityI) (auto simp: switch_to_def Let_def nth_list_update)

lemma history_ok_push: "history_ok st \<Longrightarrow> history_ok (push_history ev st)"
  by (cases "fs_history st") (auto simp: history_ok_def push_history_def Let_def history_limit_def)

lemma push_history_simps [simp]:
  "fs_last_switch (push_history ev st) = Some ev" "fs_sources (push_history ev st) = fs_sources st"
  by (simp_all add: push_history_def Let_def)

lemma sizes_ok_files: "sizes_ok rn \<Longrightarrow> length (rn_files rn) = length (fo_sources (rn_cfg rn))"
  by (simp add: sizes_ok_def Let_def)

lemma runner_wf_attach:
  assumes "runner_wf rn" and "sw_active (rn_sw rn) = Some i"
  shows "runner_wf (snd (attach reg i rn))"
proof -
  have "(rn_files rn)[i := True] ! j \<longleftrightarrow> j = i \<or> rn_files rn ! j" if "j < length (rn_files rn)" for j
    using that by (cases "j = i") auto
  then have "files_ok (snd (attach reg i rn))"
    using assms by (auto simp: runner_wf_def files_ok_def split: if_splits)
  moreover have "sizes_ok (snd (attach reg i rn))"
    using assms by (simp add: runner_wf_def sizes_ok_def Let_def)
  ultimately show ?thesis
    using assms by (simp add: runner_wf_def)
qed

lemma runner_wf_switch_to:
  assumes "runner_wf rn" and i: "i < length (rn_files rn)"
  shows "runner_wf (fst (switch_to reg at_ms i reason rn))"
proof -
  let ?rn = "fst (switch_to reg at_ms i reason rn)"
  note files = switch_to_files [OF i, of reg at_ms reason]
  have "files_ok ?rn"
    using assms by (auto simp: runner_wf_def files_ok_def files)
  moreover have "sizes_ok ?rn"
    using assms by (simp add: runner_wf_def sizes_ok_def Let_def files)
  moreover have "history_ok (rn_status ?rn)"
    using assms by (simp add: runner_wf_def history_ok_push)
  ultimately show ?thesis
    using assms by (simp add: runner_wf_def choice_ok_def files)
qed

lemma runner_wf_prefer:
  "runner_wf rn \<Longrightarrow> choice_ok (length (rn_files rn)) c \<Longrightarrow> runner_wf (rn\<lparr>rn_sw := (rn_sw rn)\<lparr>sw_preferred := c\<rparr>\<rparr>)"
  by (simp add: runner_wf_def sizes_ok_def files_ok_def)

lemma runner_wf_manual:
  assumes "runner_wf rn"
  shows "runner_wf (snd (manual reg at_ms source rn))"
proof (cases source)
  case None
  with assms show ?thesis by (simp add: manual_def runner_wf_prefer choice_ok_def)
next
  case (Some label)
  show ?thesis
  proof (cases "position (\<lambda>s. source_label s = label) (fo_sources (rn_cfg rn))")
    case None
    with assms Some show ?thesis by (simp add: manual_def)
  next
    case pos: (Some i)
    then have "i < length (fo_sources (rn_cfg rn))"
      by (rule position_Some [THEN conjunct1])
    then have i: "i < length (rn_files rn)"
      using assms by (simp add: runner_wf_def sizes_ok_files)
    then have "runner_wf (rn\<lparr>rn_sw := (rn_sw rn)\<lparr>sw_preferred := Some i\<rparr>\<rparr>)"
      using assms by (intro runner_wf_prefer) (simp_all add: choice_ok_def)
    with i assms show ?thesis
      by (simp add: manual_def Some pos Let_def runner_wf_switch_to)
  qed
qed

lemma publish_status_simps [simp]:
  "rn_cfg (publish_status now rn) = rn_cfg rn" "rn_sw (publish_status now rn) = rn_sw rn"
  "rn_probes (publish_status now rn) = rn_probes rn" "rn_healthy (publish_status now rn) = rn_healthy rn"
  "rn_files (publish_status now rn) = rn_files rn" "rn_sub (publish_status now rn) = rn_sub rn"
  "rn_out (publish_status now rn) = rn_out rn" "rn_stitch (publish_status now rn) = rn_stitch rn"
  "length (fs_sources (rn_status (publish_status now rn))) = length (fs_sources (rn_status rn))"
  "fs_history (rn_status (publish_status now rn)) = fs_history (rn_status rn)"
  "fs_last_switch (rn_status (publish_status now rn)) = fs_last_switch (rn_status rn)"
  by (simp_all add: publish_status_def Let_def)

lemma runner_wf_publish_status: "runner_wf rn \<Longrightarrow> runner_wf (publish_status now rn)"
  unfolding runner_wf_def sizes_ok_def files_ok_def history_ok_def by simp

definition sampled :: "(string \<Rightarrow> bool) \<Rightarrow> instant \<Rightarrow> registry \<Rightarrow> runner \<Rightarrow> runner" where
  "sampled is_file now reg rn =
     (let fo = rn_cfg rn; is = [0..<length (fo_sources fo)];
          probes = map (\<lambda>i. probe_source reg now (source_stream fo i) (rn_probes rn ! i)) is;
          healthy = map (\<lambda>i. source_health is_file now fo (fo_sources fo ! i) (probes ! i)) is
      in rn\<lparr>rn_probes := probes, rn_healthy := healthy, rn_sw := observe now healthy (rn_sw rn)\<rparr>)"

lemma tick_sampled:
  "tick is_file now at_ms reg rn =
     (let rn = sampled is_file now reg rn in
      publish_status now
       (case decide (rn_sw rn) now (rn_healthy rn) of
          Some (i, reason) \<Rightarrow> fst (switch_to reg at_ms i reason rn)
        | None \<Rightarrow> (case (sw_active (rn_sw rn), rn_sub rn) of (Some a, None) \<Rightarrow> snd (attach reg a rn) | _ \<Rightarrow> rn)))"
  by (simp add: tick_def sampled_def Let_def)

lemma sampled_simps [simp]:
  "rn_cfg (sampled is_file now reg rn) = rn_cfg rn"
  "sw_active (rn_sw (sampled is_file now reg rn)) = sw_active (rn_sw rn)"
  "sw_preferred (rn_sw (sampled is_file now reg rn)) = sw_preferred (rn_sw rn)"
  "length (rn_healthy (sampled is_file now reg rn)) = length (fo_sources (rn_cfg rn))"
  "rn_files (sampled is_file now reg rn) = rn_files rn"
  by (simp_all add: sampled_def Let_def observe_def)

lemma runner_wf_sampled: "runner_wf rn \<Longrightarrow> runner_wf (sampled is_file now reg rn)"
  by (auto simp: runner_wf_def sizes_ok_def files_ok_def sampled_def Let_def observe_def)

lemma tick_healthy: "rn_healthy (tick is_file now at_ms reg rn) = rn_healthy (sampled is_file now reg rn)"
  unfolding tick_sampled Let_def
  by (cases "decide (rn_sw (sampled is_file now reg rn)) now (rn_healthy (sampled is_file now reg rn))")
    (auto split: option.splits)

lemma decide_in_range: "decide sw now healthy = Some (i, r) \<Longrightarrow> i < length healthy"
  using decide_spec [of sw healthy now] by (simp add: best_of_def candidates_def is_healthy_def)

lemma runner_wf_tick:
  assumes "runner_wf rn"
  shows "runner_wf (tick is_file now at_ms reg rn)"
proof -
  let ?rn = "sampled is_file now reg rn"
  note wf = runner_wf_sampled [OF assms, of is_file now reg]
  show ?thesis
  proof (cases "decide (rn_sw ?rn) now (rn_healthy ?rn)")
    case None
    with wf runner_wf_attach [OF wf] show ?thesis
      by (auto simp: tick_sampled Let_def intro: runner_wf_publish_status split: option.splits)
  next
    case (Some d)
    obtain i r where d: "d = (i, r)" by force
    with Some have "i < length (rn_files ?rn)"
      using decide_in_range assms by (fastforce simp: runner_wf_def sizes_ok_files)
    from runner_wf_switch_to [OF wf this] show ?thesis
      by (simp add: tick_sampled Let_def Some d runner_wf_publish_status)
  qed
qed

text \<open>Events change the output, the subscription and the stitcher, nothing that is decided by ticks.\<close>

definition same_control :: "runner \<Rightarrow> runner \<Rightarrow> bool" where
  "same_control rn rn' \<longleftrightarrow> rn_cfg rn' = rn_cfg rn \<and> rn_status rn' = rn_status rn \<and> rn_sw rn' = rn_sw rn \<and>
     rn_probes rn' = rn_probes rn \<and> rn_healthy rn' = rn_healthy rn \<and> rn_files rn' = rn_files rn \<and>
     (rn_sub rn' = rn_sub rn \<or> rn_sub rn' = None)"

lemma same_control_refl [simp]:
  "same_control rn rn" "same_control rn (rn\<lparr>rn_stitch := st\<rparr>)" "same_control rn (rn\<lparr>rn_sub := None\<rparr>)"
  by (simp_all add: same_control_def)

lemma same_control_ensure_output:
  "same_control rn (snd (snd (ensure_output reg (rn\<lparr>rn_stitch := st\<rparr>))))"
  by (auto simp: ensure_output_def same_control_def split: option.splits prod.splits sum.splits publish_error.splits)

lemma on_event_keeps:
  assumes "on_event p ev reg rn = Some (reg', rn')"
  shows "same_control rn rn'"
proof (cases ev)
  case TracksChanged
  with assms same_control_ensure_output [of rn reg] show ?thesis
    by (auto simp: Let_def split: prod.splits) (metis snd_conv)+
next
  case (FrameEv f)
  with assms obtain out st where st: "stitch_stamp p (rn_stitch rn) f = Some (out, st)"
    by (auto simp: bind_eq_Some_conv)
  show ?thesis
  proof (cases out)
    case None
    with assms FrameEv st show ?thesis by auto
  next
    case (Some frame)
    obtain o1 r1 rn1 where e: "ensure_output reg (rn\<lparr>rn_stitch := st\<rparr>) = (o1, r1, rn1)"
      by (metis prod_cases3)
    with assms FrameEv st Some have "rn' = rn1"
      by (cases o1) (auto simp: bind_eq_Some_conv Let_def)
    with e same_control_ensure_output [of rn reg st] show ?thesis by simp
  qed
next
  case (CueEv c)
  with assms obtain shifted where shifted: "cue_time p (rn_stitch rn) (cue_at_us c) = Some shifted"
    by (auto simp: bind_eq_Some_conv)
  have "rn' = rn"
    using assms CueEv shifted by (cases shifted; cases "rn_out rn") (auto simp: bind_eq_Some_conv)
  then show ?thesis by simp
qed (use assms in auto)

lemma runner_wf_same_control:
  assumes "same_control rn rn'" and "runner_wf rn"
  shows "runner_wf rn'"
proof -
  have "rn_sub rn' \<noteq> None \<longrightarrow> sw_active (rn_sw rn') \<noteq> None"
    using assms unfolding same_control_def runner_wf_def by metis
  then show ?thesis
    using assms by (simp add: same_control_def runner_wf_def sizes_ok_def files_ok_def)
qed

lemma runner_wf_on_event: "on_event p ev reg rn = Some (reg', rn') \<Longrightarrow> runner_wf rn \<Longrightarrow> runner_wf rn'"
  by (rule runner_wf_same_control [OF on_event_keeps])

lemma on_event_cfg: "on_event p ev reg rn = Some (reg', rn') \<Longrightarrow> rn_cfg rn' = rn_cfg rn"
  by (drule on_event_keeps) (simp add: same_control_def)

text \<open>A run of the runner. The registry is whatever the rest of the program made of it in between.\<close>

inductive runner_reach :: "profile \<Rightarrow> failover \<Rightarrow> buffer_config \<Rightarrow> runner \<Rightarrow> bool" for p fo buffer where
  spawned: "runner_reach p fo buffer (runner_new fo buffer)"
| ticked: "runner_reach p fo buffer rn \<Longrightarrow> runner_reach p fo buffer (tick is_file now at_ms reg rn)"
| commanded: "runner_reach p fo buffer rn \<Longrightarrow>
     runner_reach p fo buffer (snd (on_command reg now at_ms source rn))"
| received: "runner_reach p fo buffer rn \<Longrightarrow> on_event p ev reg rn = Some (reg', rn') \<Longrightarrow>
     runner_reach p fo buffer rn'"

lemma tick_cfg [simp]: "rn_cfg (tick is_file now at_ms reg rn) = rn_cfg rn"
  unfolding tick_sampled Let_def publish_status_simps
  by (cases "decide (rn_sw (sampled is_file now reg rn)) now (rn_healthy (sampled is_file now reg rn))")
    (auto split: option.splits)

lemma manual_cfg [simp]: "rn_cfg (snd (manual reg at_ms source rn)) = rn_cfg rn"
  by (auto simp: manual_def Let_def split: option.splits)

lemma on_command_snd: "snd (on_command reg now at_ms source rn) = publish_status now (snd (manual reg at_ms source rn))"
  by (simp add: on_command_def split: prod.splits)

lemma runner_reach_wf: "runner_reach p fo buffer rn \<Longrightarrow> runner_wf rn \<and> rn_cfg rn = fo"
proof (induction rule: runner_reach.induct)
  case spawned
  show ?case using runner_wf_new by (simp add: runner_new_def Let_def)
next
  case (ticked rn is_file now at_ms reg)
  then show ?case by (simp add: runner_wf_tick)
next
  case (commanded rn reg now at_ms source)
  then show ?case
    by (simp add: on_command_snd runner_wf_manual runner_wf_publish_status)
next
  case (received rn ev reg reg' rn')
  then show ?case by (auto dest: runner_wf_on_event on_event_cfg)
qed

subsection \<open>Reload\<close>

text \<open>A running entry is its configuration and the task that runs it.\<close>

type_synonym fo_entry = "failover \<times> nat"

definition stop_stream :: "failover \<Rightarrow> fo_entry list \<Rightarrow> nat list \<times> fo_entry list" where
  "stop_stream f remaining =
     (case position (\<lambda>e. fo_stream (fst e) = fo_stream f) remaining of
        Some pos \<Rightarrow> ([snd (remaining ! pos)], take pos remaining @ drop (Suc pos) remaining)
      | None \<Rightarrow> ([], remaining))"

fun reload_entries :: "fo_entry list \<Rightarrow> nat \<Rightarrow> failover list \<Rightarrow> fo_entry list \<times> nat list \<times> fo_entry list" where
  "reload_entries remaining fresh [] = ([], [], remaining)"
| "reload_entries remaining fresh (f # fs) =
     (case position (\<lambda>e. fst e = f) remaining of
        Some pos \<Rightarrow>
         (let (next, aborted, gone) = reload_entries (take pos remaining @ drop (Suc pos) remaining) fresh fs
          in (remaining ! pos # next, aborted, gone))
      | None \<Rightarrow>
         (let (stopped, remaining) = stop_stream f remaining;
              (next, aborted, gone) = reload_entries remaining (Suc fresh) fs
          in ((f, fresh) # next, stopped @ aborted, gone)))"

text \<open>The new entries, and the tasks aborted.\<close>

definition reload :: "fo_entry list \<Rightarrow> nat \<Rightarrow> failover list \<Rightarrow> fo_entry list \<times> nat list" where
  "reload entries fresh fs =
     (let (next, aborted, gone) = reload_entries entries fresh fs in (next, aborted @ map snd gone))"

definition find_entry :: "fo_entry list \<Rightarrow> string \<Rightarrow> fo_entry option" where
  "find_entry entries stream = find (\<lambda>e. fo_stream (fst e) = stream) entries"

lemma mset_remove_nth: "i < length xs \<Longrightarrow> mset xs = add_mset (xs ! i) (mset (take i xs @ drop (Suc i) xs))"
  by (metis id_take_nth_drop mset_append mset.simps(2) union_mset_add_mset_right)

lemma reload_entries_tasks:
  assumes "reload_entries remaining fresh fs = (next, aborted, gone)"
  shows "\<exists>new. mset (map snd next) + mset aborted + mset (map snd gone) = mset (map snd remaining) + mset new \<and>
     distinct new \<and> (\<forall>t \<in> set new. fresh \<le> t) \<and> map fst next = fs"
  using assms
proof (induction remaining fresh fs arbitrary: "next" aborted gone rule: reload_entries.induct)
  case (1 remaining fresh)
  then show ?case by (intro exI [of _ "[]"]) simp
next
  case (2 remaining fresh f fs)
  show ?case
  proof (cases "position (\<lambda>e. fst e = f) remaining")
    case (Some pos)
    let ?rest = "take pos remaining @ drop (Suc pos) remaining"
    from position_Some [OF Some] have pos: "pos < length remaining" "fst (remaining ! pos) = f" by auto
    obtain n1 a1 g1 where r: "reload_entries ?rest fresh fs = (n1, a1, g1)" by (metis prod_cases3)
    from 2(2) [OF Some r] obtain new where
      "mset (map snd n1) + mset a1 + mset (map snd g1) = mset (map snd ?rest) + mset new"
      "distinct new" "\<forall>t \<in> set new. fresh \<le> t" "map fst n1 = fs" by blast
    moreover have "mset (map snd remaining) = add_mset (snd (remaining ! pos)) (mset (map snd ?rest))"
      using arg_cong [OF mset_remove_nth [OF pos(1)], of "image_mset snd"] by simp
    ultimately show ?thesis
      using 2(3) Some r pos(2) by (intro exI [of _ new]) (auto simp: Let_def)
  next
    case None
    obtain stopped rest where sr: "stop_stream f remaining = (stopped, rest)"
      by (cases "stop_stream f remaining")
    have split: "mset (map snd remaining) = mset stopped + mset (map snd rest)"
    proof (cases "position (\<lambda>e. fo_stream (fst e) = fo_stream f) remaining")
      case None
      with sr show ?thesis by (auto simp: stop_stream_def)
    next
      case (Some pos)
      from position_Some [OF Some] have "pos < length remaining" by auto
      from arg_cong [OF mset_remove_nth [OF this], of "image_mset snd"] Some sr show ?thesis by (auto simp: stop_stream_def)
    qed
    obtain n1 a1 g1 where r: "reload_entries rest (Suc fresh) fs = (n1, a1, g1)" by (metis prod_cases3)
    from 2(1) [OF None sr [symmetric] refl r] obtain new where new:
      "mset (map snd n1) + mset a1 + mset (map snd g1) = mset (map snd rest) + mset new"
      "distinct new" "\<forall>t \<in> set new. Suc fresh \<le> t" "map fst n1 = fs" by blast
    have res: "next = (f, fresh) # n1" "aborted = stopped @ a1" "gone = g1"
      using 2(3) None sr r by (simp_all add: Let_def)
    show ?thesis
      by (rule exI [of _ "fresh # new"]) (use new res split in \<open>auto simp: union_assoc\<close>)
  qed
qed

lemma set_remove_nth:
  "i < length xs \<Longrightarrow> x \<in> set xs \<Longrightarrow> x \<noteq> xs ! i \<Longrightarrow> x \<in> set (take i xs @ drop (Suc i) xs)"
  using mset_remove_nth [of i xs] by (metis insert_iff set_mset_add_mset_insert set_mset_mset)

lemma distinct_remove_nth: "distinct xs \<Longrightarrow> distinct (take i xs @ drop (Suc i) xs)"
proof (cases "i < length xs")
  case True
  assume "distinct xs"
  then have "distinct (take i xs @ xs ! i # drop (Suc i) xs)"
    using id_take_nth_drop [OF True] by simp
  then show ?thesis by auto
qed simp

lemma distinct_map_remove_nth:
  "distinct (map f xs) \<Longrightarrow> distinct (map f (take i xs @ drop (Suc i) xs))"
  using distinct_remove_nth [of "map f xs" i] by (simp only: map_append take_map drop_map)

lemma reload_entries_keeps:
  assumes "reload_entries remaining fresh fs = (next, aborted, gone)" and "(f, t) \<in> set remaining"
    and "distinct (map (fo_stream \<circ> fst) remaining)" and "f \<in> set fs" and "distinct (map fo_stream fs)"
  shows "(f, t) \<in> set next"
  using assms
proof (induction remaining fresh fs arbitrary: "next" aborted gone rule: reload_entries.induct)
  case (1 remaining fresh)
  then show ?case by simp
next
  case (2 remaining fresh g fs)
  have same: "e = e'" if "e \<in> set remaining" "e' \<in> set remaining" "fo_stream (fst e) = fo_stream (fst e')" for e e'
    using 2(5) that by (auto simp: distinct_map inj_on_def)
  show ?case
  proof (cases "position (\<lambda>e. fst e = g) remaining")
    case (Some pos)
    let ?rest = "take pos remaining @ drop (Suc pos) remaining"
    from position_Some [OF Some] have pos: "pos < length remaining" "fst (remaining ! pos) = g" by auto
    obtain n1 a1 g1 where r: "reload_entries ?rest fresh fs = (n1, a1, g1)" by (metis prod_cases3)
    have "next": "next = remaining ! pos # n1"
      using 2(3) Some r by (simp add: Let_def)
    show ?thesis
    proof (cases "f = g")
      case True
      then show ?thesis using same [OF 2(4), of "remaining ! pos"] pos "next" by auto
    next
      case False
      with pos(2) have "(f, t) \<noteq> remaining ! pos" by (metis fst_conv)
      from set_remove_nth [OF pos(1) 2(4) this] have "(f, t) \<in> set ?rest" .
      moreover have "distinct (map (fo_stream \<circ> fst) ?rest)"
        using distinct_map_remove_nth [OF 2(5)] .
      moreover have fs: "f \<in> set fs" "distinct (map fo_stream fs)" using 2(6,7) False by auto
      ultimately have "(f, t) \<in> set n1"
        using 2(2) [OF Some r _ _ fs] by blast
      with "next" show ?thesis by simp
    qed
  next
    case None
    then have "f \<noteq> g" using 2(4) by (auto simp: position_None)
    then have "f \<in> set fs" using 2(6) by auto
    then have "fo_stream f \<in> fo_stream ` set fs" by (rule imageI)
    moreover have "fo_stream g \<notin> fo_stream ` set fs" using 2(7) by simp
    ultimately have streams: "fo_stream f \<noteq> fo_stream g" "f \<in> set fs"
      using \<open>f \<in> set fs\<close> by metis+
    obtain stopped rest where sr: "stop_stream g remaining = (stopped, rest)"
      by (cases "stop_stream g remaining")
    have rest: "(f, t) \<in> set rest \<and> distinct (map (fo_stream \<circ> fst) rest)"
    proof (cases "position (\<lambda>e. fo_stream (fst e) = fo_stream g) remaining")
      case None
      with sr 2(4,5) show ?thesis by (simp add: stop_stream_def comp_def)
    next
      case (Some pos)
      from position_Some [OF Some] have pos: "pos < length remaining" "fo_stream (fst (remaining ! pos)) = fo_stream g"
        by auto
      with streams(1) have "(f, t) \<noteq> remaining ! pos" by (metis fst_conv)
      from set_remove_nth [OF pos(1) 2(4) this]
      have "(f, t) \<in> set (take pos remaining @ drop (Suc pos) remaining)" .
      with Some sr distinct_map_remove_nth [OF 2(5), of pos] show ?thesis by (simp add: stop_stream_def comp_def)
    qed
    obtain n1 a1 g1 where r: "reload_entries rest (Suc fresh) fs = (n1, a1, g1)" by (metis prod_cases3)
    have fs: "distinct (map fo_stream fs)" using 2(7) by simp
    have "(f, t) \<in> set n1"
      using 2(1) [OF None sr [symmetric] refl r _ _ streams(2) fs] rest by blast
    then show ?thesis
      using 2(3) None sr r by (auto simp: Let_def)
  qed
qed

subsection \<open>Properties\<close>

definition demo_shared :: failover where
  "demo_shared = \<lparr>fo_stream = ''main'', fo_sources = [FileSrc ''/slate.mp4'', StreamSrc ''failover.main.0''],
     fo_switch_after = 2000000000, fo_switch_back_after = 10000000000\<rparr>"

definition demo_files :: failover where
  "demo_files = \<lparr>fo_stream = ''main'', fo_sources = [FileSrc ''/a'', FileSrc ''/b''],
     fo_switch_after = 3, fo_switch_back_after = 9\<rparr>"

text \<open>
  Validation accepts exactly the entries with a valid public name, at least one source, a
  positive \<open>switch_after\<close>, no source listed twice, the public name not among its own sources, and
  room for the internal name of every file source.
\<close>

theorem failover_validate_spec:
  "failover_validate fo = Inr () \<longleftrightarrow>
     valid_stream_name (fo_stream fo) \<and> fo_sources fo \<noteq> [] \<and> 0 < fo_switch_after fo \<and>
     distinct (fo_sources fo) \<and> StreamSrc (fo_stream fo) \<notin> set (fo_sources fo) \<and>
     (\<forall>i < length (fo_sources fo). \<not> is_file_source (fo_sources fo ! i) \<or>
        valid_stream_name (file_stream_name (fo_stream fo) i))"
  by (auto simp: failover_validate_def validate_sources_ok)

theorem failover_validate_spec_witness: "failover_validate demo_files = Inr ()"
proof -
  have names: "valid_stream_name (file_stream_name ''main'' 0)" "valid_stream_name (file_stream_name ''main'' 1)"
      "valid_stream_name ''main''"
    by code_simp+
  have "valid_stream_name (file_stream_name ''main'' i)" if "i < 2" for i
    using that names by (auto simp: less_2_cases_iff)
  then show ?thesis
    unfolding failover_validate_spec using names(3) by (simp add: demo_files_def numeral_2_eq_2)
qed

text \<open>
  Two sources of one validated entry can still be the same stream: nothing reserves the
  internal names, so a stream source may be named like the internal stream of a file source. File
  sources among themselves never share a name.
\<close>

theorem internal_name_not_reserved:
  "failover_validate demo_shared = Inr () \<and>
   source_stream demo_shared 0 = source_stream demo_shared 1 \<and>
   (file_stream_name stream i = file_stream_name stream j \<longleftrightarrow> i = j)"
proof -
  have "decimal 0 = ''0''"
    by code_simp
  moreover have "failover_validate demo_shared = Inr ()"
    by (simp add: failover_validate_def demo_shared_def file_stream_name_def calculation
        valid_stream_name_def stream_name_byte_def ascii_defs)
  ultimately show ?thesis
    using decimal_inj by (auto simp: source_stream_def demo_shared_def file_stream_name_def)
qed

text \<open>
  Claim C13. In every run of a failover, whatever ticks, commands and events come and whatever the
  registry holds: the choices name existing sources, a player runs only for the file source that is
  on air, a subscription exists only while a source is chosen, the history keeps the last switches
  (at most 20) and the configuration never changes.
\<close>

theorem runner_invariant:
  assumes "runner_reach p fo buffer rn"
  shows "rn_cfg rn = fo \<and> choice_ok (length (fo_sources fo)) (sw_active (rn_sw rn)) \<and>
     choice_ok (length (fo_sources fo)) (sw_preferred (rn_sw rn)) \<and>
     (\<forall>j < length (fo_sources fo). rn_files rn ! j \<longrightarrow>
        sw_active (rn_sw rn) = Some j \<and> is_file_source (fo_sources fo ! j)) \<and>
     (rn_sub rn \<noteq> None \<longrightarrow> sw_active (rn_sw rn) \<noteq> None) \<and>
     length (fs_history (rn_status rn)) \<le> 20 \<and>
     (fs_history (rn_status rn) \<noteq> [] \<longrightarrow>
        fs_last_switch (rn_status rn) = Some (last (fs_history (rn_status rn))))"
proof -
  from runner_reach_wf [OF assms] have wf: "runner_wf rn" and cfg: "rn_cfg rn = fo"
    by auto
  then have "length (rn_files rn) = length (fo_sources fo)"
    by (simp add: runner_wf_def sizes_ok_files)
  with wf cfg show ?thesis
    by (simp add: runner_wf_def files_ok_def history_ok_def history_limit_def)
qed

definition demo_runner :: runner where
  "demo_runner = tick (\<lambda>_. True) 5 0 registry_new (runner_new demo_shared buffer_config_default)"

theorem runner_invariant_witness:
  "sw_active (rn_sw demo_runner) = Some 0 \<and> rn_files demo_runner ! 0 \<and> rn_cfg demo_runner = demo_shared \<and>
   is_file_source (fo_sources demo_shared ! 0)"
proof -
  have reach: "runner_reach Release demo_shared buffer_config_default demo_runner"
    unfolding demo_runner_def by (intro runner_reach.intros)
  have files: "rn_files demo_runner = [True, False]"
    by (simp add: demo_runner_def runner_new_def demo_shared_def tick_def Let_def source_health_def probe_source_def
        live_stream_of_def registry_get_def registry_new_def probe_default_def observe_def switcher_new_def
        decide_def rank_def publish_status_def switch_to_def attach_def is_file_source_def source_stream_def
        numeral_2_eq_2)
  have "length (fo_sources demo_shared) = 2"
    by (simp add: demo_shared_def)
  with runner_invariant [OF reach] files show ?thesis by auto
qed

text \<open>
  Claim C12. A source that falls silent is replaced on the next tick: if the source on air is
  unhealthy and some other one is healthy, the best-ranked healthy source goes on air, the switch is
  recorded with reason \<open>silent\<close>, and when the source is live the runner reads it from its newest join
  point with a fresh stitcher segment.
\<close>

theorem tick_fails_over:
  assumes "runner_reach p fo buffer rn" and "rn' = tick is_file now at_ms reg rn"
    and "sw_active (rn_sw rn) = Some a" and "\<not> rn_healthy rn' ! a"
    and "k < length (fo_sources fo)" and "rn_healthy rn' ! k"
  shows "\<exists>i ev. sw_active (rn_sw rn') = Some i \<and> i < length (fo_sources fo) \<and> rn_healthy rn' ! i \<and>
     (\<forall>j < length (fo_sources fo). rn_healthy rn' ! j \<longrightarrow> rank (rn_sw rn) i \<le> rank (rn_sw rn) j) \<and>
     fs_last_switch (rn_status rn') = Some ev \<and> se_reason ev = ''silent'' \<and>
     (\<forall>st. live_stream_of reg (source_stream fo i) = Some st \<longrightarrow>
        rn_sub rn' = Some (st, reader (st_ring (stream_at reg st)) LiveEdge False) \<and> sc_seg (rn_stitch rn') = None)"
proof -
  let ?rn = "sampled is_file now reg rn"
  let ?d = "decide (rn_sw ?rn) now (rn_healthy ?rn)"
  from runner_reach_wf [OF assms(1)] have wf: "runner_wf rn" and cfg: "rn_cfg rn = fo" by auto
  have healthy: "rn_healthy rn' = rn_healthy ?rn"
    unfolding assms(2) by (rule tick_healthy)
  have len: "length (rn_healthy ?rn) = length (fo_sources fo)"
    by (simp add: cfg)
  have a: "\<not> is_healthy (rn_healthy ?rn) a" and k: "is_healthy (rn_healthy ?rn) k"
    using assms(4-6) healthy len by (simp_all add: is_healthy_def)
  have cand: "candidates (rn_sw ?rn) now (rn_healthy ?rn) = {i. is_healthy (rn_healthy ?rn) i}"
    using a assms(3) by (simp add: candidates_def)
  have "situation (rn_sw ?rn) (rn_healthy ?rn) = Silent"
    using a assms(3) by (simp add: situation_def)
  with decide_spec [of "rn_sw ?rn" "rn_healthy ?rn" now] k cand obtain i where d: "?d = Some (i, Silent)"
      "is_healthy (rn_healthy ?rn) i"
      "\<forall>j. is_healthy (rn_healthy ?rn) j \<longrightarrow> rank (rn_sw ?rn) i \<le> rank (rn_sw ?rn) j"
    by (cases ?d) (auto simp: best_of_def)
  have rn': "rn' = publish_status now (fst (switch_to reg at_ms i Silent ?rn))"
    unfolding assms(2) tick_sampled Let_def by (simp add: d(1))
  have ranks: "rank (rn_sw ?rn) j = rank (rn_sw rn) j" for j
    by (simp add: rank_def)
  have "rn_sub rn' = Some (st, reader (st_ring (stream_at reg st)) LiveEdge False) \<and> sc_seg (rn_stitch rn') = None"
    if "live_stream_of reg (source_stream fo i) = Some st" for st
    using that cfg by (simp add: rn' stitch_begin_def)
  moreover have "se_reason (snd (switch_to reg at_ms i Silent ?rn)) = ''silent''"
    by simp
  moreover have "fs_last_switch (rn_status rn') = Some (snd (switch_to reg at_ms i Silent ?rn))"
      "sw_active (rn_sw rn') = Some i"
    by (simp_all add: rn')
  moreover have "i < length (fo_sources fo) \<and> rn_healthy rn' ! i"
    using d(2) by (simp add: is_healthy_def healthy cfg)
  moreover have "\<forall>j < length (fo_sources fo). rn_healthy rn' ! j \<longrightarrow> rank (rn_sw rn) i \<le> rank (rn_sw rn) j"
    using d(3) by (simp add: is_healthy_def healthy cfg ranks)
  ultimately show ?thesis by blast
qed

theorem tick_fails_over_witness:
  "\<exists>rn rn'. rn' = tick (\<lambda>s. s = ''/b'') 9 0 registry_new rn \<and> sw_active (rn_sw rn) = Some 0 \<and>
     sw_active (rn_sw rn') = Some 1"
proof -
  define rn where "rn = tick (\<lambda>_. True) 5 0 registry_new (runner_new demo_files buffer_config_default)"
  define rn' where "rn' = tick (\<lambda>s. s = ''/b'') 9 0 registry_new rn"
  have reach: "runner_reach Release demo_files buffer_config_default rn"
    unfolding rn_def by (intro runner_reach.intros)
  have active: "sw_active (rn_sw rn) = Some 0"
    by (simp add: rn_def demo_files_def tick_def Let_def runner_new_def source_health_def probe_source_def
        live_stream_of_def registry_get_def registry_new_def probe_default_def observe_def switcher_new_def
        decide_def rank_def numeral_2_eq_2)
  have health: "rn_healthy rn' = [False, True]"
    unfolding rn'_def tick_healthy using runner_reach_wf [OF reach]
    by (simp add: sampled_def Let_def source_health_def numeral_2_eq_2 demo_files_def)
  have sources: "length (fo_sources demo_files) = 2"
    by (simp add: demo_files_def)
  have h: "\<not> rn_healthy rn' ! 0" "1 < length (fo_sources demo_files)" "rn_healthy rn' ! 1"
    using health sources by simp_all
  from tick_fails_over [OF reach rn'_def active h] obtain i where
    i: "sw_active (rn_sw rn') = Some i" "i < length (fo_sources demo_files)" "rn_healthy rn' ! i"
    by blast
  from i(3) health have "i \<noteq> 0" by (metis nth_Cons_0)
  with i(2) sources have "i = 1" by simp
  with i(1) active rn'_def show ?thesis by blast
qed

text \<open>
  A reload never touches an unchanged failover and leaks no task: with one entry per public
  stream, an entry present before and after keeps its running task, the new list runs exactly the
  configured entries in order, and every task that ran before is either kept or aborted, once.
\<close>

theorem reload_keeps_unchanged:
  assumes "reload entries fresh fs = (next, aborted)"
    and "distinct (map (fo_stream \<circ> fst) entries)" and "distinct (map fo_stream fs)"
  shows "map fst next = fs \<and> set entries \<inter> {e. fst e \<in> set fs} \<subseteq> set next \<and>
     (\<exists>started. mset (map snd next) + mset aborted = mset (map snd entries) + mset started \<and>
        distinct started \<and> set started \<subseteq> {fresh..})"
proof -
  obtain stopped gone where r: "reload_entries entries fresh fs = (next, stopped, gone)"
      "aborted = stopped @ map snd gone"
    using assms(1) by (auto simp: reload_def split: prod.splits)
  from reload_entries_tasks [OF r(1)] obtain new where new:
    "mset (map snd next) + mset stopped + mset (map snd gone) = mset (map snd entries) + mset new"
    "distinct new" "\<forall>t \<in> set new. fresh \<le> t" "map fst next = fs"
    by blast
  have "(f, t) \<in> set next" if "(f, t) \<in> set entries" "f \<in> set fs" for f t
    by (rule reload_entries_keeps [OF r(1) that(1) assms(2) that(2) assms(3)])
  then have "set entries \<inter> {e. fst e \<in> set fs} \<subseteq> set next"
    by auto
  moreover have "mset (map snd next) + mset aborted = mset (map snd entries) + mset new"
    using new(1) r(2) by (simp add: union_assoc)
  moreover have "set new \<subseteq> {fresh..}"
    using new(3) by auto
  ultimately show ?thesis
    using new(2,4) by blast
qed

theorem reload_keeps_unchanged_witness:
  "(demo_files, 0) \<in> set (fst (reload [(demo_files, 0), (demo_shared\<lparr>fo_stream := ''old''\<rparr>, 1)] 2 [demo_files]))"
proof -
  let ?es = "[(demo_files, 0), (demo_shared\<lparr>fo_stream := ''old''\<rparr>, 1 :: nat)]"
  obtain "next" aborted where r: "reload ?es 2 [demo_files] = (next, aborted)" by force
  have "distinct (map (fo_stream \<circ> fst) ?es)" "distinct (map fo_stream [demo_files])"
    by (simp_all add: demo_files_def)
  from reload_keeps_unchanged [OF r this] have "set ?es \<inter> {e. fst e \<in> set [demo_files]} \<subseteq> set next"
    by blast
  then show ?thesis unfolding r fst_conv by auto
qed

end
