(* ===== verification/Pull_Clock.thy ===== *)
theory Pull_Clock
  imports Stampers "HOL-Library.Monad_Syntax"
begin

text \<open>
  \<open>crates/caudal-cluster/src/timing.rs\<close>: timestamps of a stream pulled from another server, which
  come as one presentation time per frame. \<open>TrackClock\<close> authors decode times, \<open>Rebase\<close> keeps the
  timeline going across a failover. Every \<open>i64\<close> operation is \<open>checked64\<close>.
\<close>

subsection \<open>The clock of one track\<close>

record track_clock =
  tc_timescale :: int
  tc_video :: bool
  tc_reserve :: int
  tc_last_dts :: "int option"
  tc_max_pts :: "int option"

definition track_clock_new :: "u32 \<Rightarrow> bool \<Rightarrow> track_clock" where
  "track_clock_new timescale video =
     \<lparr>tc_timescale = max (uint timescale) 1, tc_video = video, tc_reserve = 0, tc_last_dts = None, tc_max_pts = None\<rparr>"

definition ticks :: "track_clock \<Rightarrow> int \<Rightarrow> int" where
  "ticks c micros = wrap64 ((micros * tc_timescale c + 500000) div 1000000)"

definition learn_reserve :: "profile \<Rightarrow> track_clock \<Rightarrow> int \<Rightarrow> int option" where
  "learn_reserve p c pts =
     (case tc_max_pts c of
        Some m \<Rightarrow>
          if m > pts then do { d \<leftarrow> checked64 p (m - pts); d \<leftarrow> checked64 p (d + 1); Some (max (tc_reserve c) d) }
          else Some (tc_reserve c)
      | None \<Rightarrow> Some (tc_reserve c))"

definition clock_stamp :: "profile \<Rightarrow> track_clock \<Rightarrow> int \<Rightarrow> ((int \<times> int) \<times> track_clock) option" where
  "clock_stamp p c pts_us = do {
     let pts = ticks c pts_us;
     (dts, c) \<leftarrow> (if tc_video c
        then do {
          reserve \<leftarrow> learn_reserve p c pts;
          let c = c\<lparr>tc_reserve := reserve,
            tc_max_pts := Some (case tc_max_pts c of None \<Rightarrow> pts | Some m \<Rightarrow> max m pts)\<rparr>;
          dts \<leftarrow> checked64 p (pts - tc_reserve c);
          Some (dts, c) }
        else Some (pts, c));
     (dts, pts, c) \<leftarrow> (case tc_last_dts c of
         Some l \<Rightarrow>
           if dts \<le> l
           then do {
             dts \<leftarrow> checked64 p (l + 1);
             if \<not> tc_video c then Some (dts, dts, c)
             else if dts > pts
             then do { x \<leftarrow> checked64 p (dts - pts); r \<leftarrow> checked64 p (tc_reserve c + x);
                       Some (dts, pts, c\<lparr>tc_reserve := r\<rparr>) }
             else Some (dts, pts, c) }
           else Some (dts, pts, c)
       | None \<Rightarrow> Some (dts, pts, c));
     Some ((dts, pts), c\<lparr>tc_last_dts := Some dts\<rparr>) }"

subsection \<open>Rebase\<close>

record rebase =
  rb_offset_us :: int
  rb_high_us :: "int option"
  rb_pending :: bool

definition rebase_default :: rebase where
  "rebase_default = \<lparr>rb_offset_us = 0, rb_high_us = None, rb_pending = False\<rparr>"

definition gap_us :: int where
  "gap_us = 50000"

definition new_source :: "rebase \<Rightarrow> rebase" where
  "new_source r = r\<lparr>rb_pending := True\<rparr>"

definition rebase_map :: "profile \<Rightarrow> rebase \<Rightarrow> int \<Rightarrow> (int \<times> rebase) option" where
  "rebase_map p r raw_us = do {
     r \<leftarrow> (if rb_pending r
        then (let r = r\<lparr>rb_pending := False\<rparr> in
          case rb_high_us r of
            Some h \<Rightarrow> do { x \<leftarrow> checked64 p (h + gap_us); offset \<leftarrow> checked64 p (x - raw_us); Some (r\<lparr>rb_offset_us := offset\<rparr>) }
          | None \<Rightarrow> Some r)
        else Some r);
     t \<leftarrow> checked64 p (raw_us + rb_offset_us r);
     Some (t, r\<lparr>rb_high_us := Some (case rb_high_us r of None \<Rightarrow> t | Some h \<Rightarrow> max h t)\<rparr>) }"

subsection \<open>Decode times increase\<close>

lemma agrees_clock_stamp [builds]: "agrees (clock_stamp p c x) (clock_stamp Release c x)"
  unfolding clock_stamp_def learn_reserve_def by (intro builds)

lemma returns_clock_stamp [returns]: "\<exists>r. clock_stamp Release c x = Some r"
  unfolding clock_stamp_def learn_reserve_def by (intro returns)

lemma in_i64_ticks [simp]: "in_i64 (ticks c x)"
  by (simp add: ticks_def)

definition clock_inv :: "track_clock \<Rightarrow> bool" where
  "clock_inv c \<longleftrightarrow> (\<forall>l. tc_last_dts c = Some l \<longrightarrow> in_i64 l)"

lemma clock_stamp_later:
  assumes "clock_stamp Release c x = Some ((dts, pts), c')" and "clock_inv c"
  shows "tc_last_dts c' = Some dts \<and> in_i64 dts \<and>
     (\<forall>l. tc_last_dts c = Some l \<longrightarrow> l < dts \<or> l = i64_max)"
proof -
  have "wrap64 (l + 1) = l + 1" if "tc_last_dts c = Some l" "l \<noteq> i64_max" for l
    using assms(2) that by (intro wrap64_Suc) (simp_all add: clock_inv_def)
  moreover from assms(1) have "tc_last_dts c' = Some dts \<and> in_i64 dts \<and>
     (\<forall>l. tc_last_dts c = Some l \<longrightarrow> l < dts \<or> dts = wrap64 (l + 1))"
    by (auto simp: clock_stamp_def learn_reserve_def checked64_release Let_def split: if_splits option.splits)
  ultimately show ?thesis by (metis less_add_one)
qed

definition clock_on :: "profile \<Rightarrow> track_clock \<Rightarrow> int \<Rightarrow> (int option \<times> track_clock) option" where
  "clock_on p c x = map_option (\<lambda>((dts, _), c'). (Some dts, c')) (clock_stamp p c x)"

lemma clock_on_SomeD:
  "clock_on p c x = Some (out, c') \<Longrightarrow> \<exists>dts pts. out = Some dts \<and> clock_stamp Release c x = Some ((dts, pts), c')"
  using agrees_clock_stamp [of p c x] by (auto simp: clock_on_def agrees_def)

interpretation pull_clock: stamper "clock_on p" tc_last_dts clock_inv "(<)" "\<lambda>l t. l \<noteq> i64_max"
proof
  fix c x out c'
  assume inv: "clock_inv c"
  show "clock_inv c'" if "clock_on p c x = Some (out, c')"
    using clock_on_SomeD [OF that] clock_stamp_later inv by (auto simp: clock_inv_def)
  show "tc_last_dts c' = Some t" if "clock_on p c x = Some (Some t, c')" for t
    using clock_on_SomeD [OF that] clock_stamp_later inv by blast
  show "tc_last_dts c' = tc_last_dts c" if "clock_on p c x = Some (None, c')"
    using clock_on_SomeD [OF that] by blast
  show "l < t" if "clock_on p c x = Some (Some t, c')" "tc_last_dts c = Some l" "l \<noteq> i64_max" for t l
    using clock_on_SomeD [OF that(1)] clock_stamp_later inv that(2,3) by blast
qed simp

text \<open>Without reordering the reserve stays zero and decode times are the presentation times.\<close>

definition in_order_state :: "track_clock \<Rightarrow> bool" where
  "in_order_state c \<longleftrightarrow> tc_reserve c = 0 \<and> tc_max_pts c = (if tc_video c then tc_last_dts c else None)"

lemma clock_stamp_in_order:
  assumes "clock_stamp Release c x = Some ((dts, pts), c')" and "in_order_state c"
    and "\<forall>l. tc_last_dts c = Some l \<longrightarrow> l < ticks c x"
  shows "dts = ticks c x \<and> pts = ticks c x \<and> in_order_state c' \<and> tc_last_dts c' = Some (ticks c x) \<and>
     tc_timescale c' = tc_timescale c"
  using assms
  by (cases "tc_last_dts c")
    (auto simp: clock_stamp_def learn_reserve_def checked64_release in_order_state_def wrap64_id Let_def split: if_splits)

lemma ticks_cong: "tc_timescale c' = tc_timescale c \<Longrightarrow> ticks c' x = ticks c x"
  by (simp add: ticks_def)

lemma run_in_order:
  assumes "stamp_all (clock_on p) c xs = Some (ts, c')" and "in_order_state c"
    and "sorted_wrt (<) (map (ticks c) xs)" and "\<forall>l. tc_last_dts c = Some l \<longrightarrow> (\<forall>x \<in> set xs. l < ticks c x)"
  shows "ts = map (ticks c) xs"
  using assms
proof (induction xs arbitrary: c ts)
  case Nil
  then show ?case by simp
next
  case (Cons x xs)
  from Cons.prems(1) obtain out c1 ts1 where x: "clock_on p c x = Some (out, c1)"
      and rest: "stamp_all (clock_on p) c1 xs = Some (ts1, c')"
      and ts: "ts = (case out of None \<Rightarrow> ts1 | Some t \<Rightarrow> t # ts1)"
    by (auto split: option.splits)
  from clock_on_SomeD [OF x] obtain dts pts where d: "out = Some dts" "clock_stamp Release c x = Some ((dts, pts), c1)"
    by blast
  from clock_stamp_in_order [OF d(2) Cons.prems(2)] Cons.prems(4)
  have c1: "dts = ticks c x" "in_order_state c1" "tc_last_dts c1 = Some (ticks c x)" "tc_timescale c1 = tc_timescale c"
    by simp_all
  have t: "ticks c1 = ticks c"
    using c1(4) by (intro ext ticks_cong)
  have "ts1 = map (ticks c1) xs"
    by (rule Cons.IH [OF rest c1(2)]) (use Cons.prems(3) c1(3) t in auto)
  with ts d(1) c1(1) t show ?case by simp
qed

subsection \<open>Properties\<close>

text \<open>
  Claim C14. The decode times authored for a pulled track increase strictly until the clock reaches
  the largest \<open>i64\<close>, whatever order the presentation times come in and in both builds; and when they
  come in increasing order (no B-frames) each decode time is the presentation time.
\<close>

theorem pull_clock_increasing:
  assumes "stamp_all (clock_on p) (track_clock_new timescale video) xs = Some (ts, c)"
    and "i64_max \<notin> set (butlast ts)"
  shows "sorted_wrt (<) ts \<and>
     (sorted_wrt (<) (map (ticks (track_clock_new timescale video)) xs) \<longrightarrow>
        ts = map (ticks (track_clock_new timescale video)) xs)"
proof -
  let ?c = "track_clock_new timescale video"
  have c: "clock_inv ?c" "in_order_state ?c" "tc_last_dts ?c = None"
    by (simp_all add: clock_inv_def track_clock_new_def in_order_state_def)
  have "successively (\<lambda>l t. l \<noteq> i64_max) ts" using assms(2) by (rule successively_butlast)
  with pull_clock.run_increasing [OF c(1) assms(1)] run_in_order [OF assms(1) c(2)] c(3) show ?thesis
    by (simp add: pull_clock.so_far_def)
qed

theorem pull_clock_increasing_witness:
  "sorted_wrt (<) [0, 10800, 10801, 10802 :: int]"
proof -
  have "map_option fst (stamp_all (clock_on Debug) (track_clock_new 90000 True) [0, 120000, 40000, 80000]) =
      Some [0, 10800, 10801, 10802]"
    by code_simp
  then obtain c where run: "stamp_all (clock_on Debug) (track_clock_new 90000 True) [0, 120000, 40000, 80000] =
      Some ([0, 10800, 10801, 10802], c)"
    by auto
  show ?thesis
    using pull_clock_increasing [OF run] by (simp add: i64_max_def)
qed

text \<open>
  The first reordered frames can be given decode times above their presentation times: with
  the presentation order 0 3 1 2 at 25 frames a second the frames 1 and 2 are decoded after they are
  shown, and only the frames that follow have decode times below theirs.
\<close>

theorem reordering_overshoots:
  "Option.bind (clock_stamp Debug (track_clock_new 90000 True) 0) (\<lambda>(a, c).
   Option.bind (clock_stamp Debug c 120000) (\<lambda>(b, c).
   Option.bind (clock_stamp Debug c 40000) (\<lambda>(d, c).
   Option.bind (clock_stamp Debug c 80000) (\<lambda>(e, c).
   Option.bind (clock_stamp Debug c 240000) (\<lambda>(f, c). Some [a, b, d, e, f]))))) =
   Some [(0, 0), (10800, 10800), (10801, 3600), (10802, 7200), (10803, 21600)]"
  by code_simp

text \<open>
  Across a failover the pulled timeline goes on: the first timestamp of the new source is
  mapped exactly 50 ms after the newest one handed out, wherever its clock stands, and the timestamp
  after it keeps its distance to it.
\<close>

theorem rebase_continues:
  assumes "rb_high_us r = Some h" and "in_i64 (h + gap_us)"
    and "in_i64 (h + gap_us + (raw' - raw))"
  shows "\<exists>r1 r2. rebase_map Release (new_source r) raw = Some (h + gap_us, r1) \<and>
     rebase_map Release r1 raw' = Some (h + gap_us + (raw' - raw), r2) \<and>
     rb_high_us r2 = Some (max (h + gap_us) (h + gap_us + (raw' - raw)))"
proof -
  let ?o = "wrap64 (h + gap_us - raw)"
  let ?r1 = "\<lparr>rb_offset_us = ?o, rb_high_us = Some (h + gap_us), rb_pending = False\<rparr>"
  have t: "wrap64 (raw + ?o) = h + gap_us" and t': "wrap64 (raw' + ?o) = h + gap_us + (raw' - raw)"
    using assms(2,3) by (simp_all add: wrap64_id algebra_simps)
  have "rebase_map Release (new_source r) raw = Some (h + gap_us, ?r1)"
    using assms(1,2) t
    by (simp add: rebase_map_def new_source_def Let_def checked64_release wrap64_id gap_us_def)
  moreover have "\<exists>r2. rebase_map Release ?r1 raw' = Some (h + gap_us + (raw' - raw), r2) \<and>
     rb_high_us r2 = Some (max (h + gap_us) (h + gap_us + (raw' - raw)))"
    using t' by (simp add: rebase_map_def Let_def checked64_release)
  ultimately show ?thesis by blast
qed

theorem rebase_continues_witness:
  "\<exists>r1. rebase_map Release (new_source \<lparr>rb_offset_us = 0, rb_high_us = Some 1040000, rb_pending = False\<rparr>) 5000 =
     Some (1090000, r1)"
proof -
  let ?r = "\<lparr>rb_offset_us = 0, rb_high_us = Some 1040000, rb_pending = False\<rparr>"
  have "rb_high_us ?r = Some 1040000" by simp
  from rebase_continues [OF this, of 45000 5000] show ?thesis
    by (auto simp: gap_us_def in_i64_bounds)
qed

end
