(* ===== verification/Access_Rules.thy ===== *)
theory Access_Rules
  imports Net Registry "HOL-Library.AList"
begin

text \<open>
  \<open>crates/caudal-access\<close> (\<open>rule.rs\<close> and \<open>lib.rs\<close>) and the gate that combines it with token auth
  (\<open>crates/caudal/src/subsystems.rs\<close>): which addresses may play or publish which streams. The
  GeoIP database is a third-party reader: a lookup function and a function that opens it. Token
  auth and the verification of cluster tokens are arguments of the combined gate.
\<close>

subsection \<open>Rules\<close>

datatype access_entry = CidrEntry cidr | CountryEntry string

datatype entry_error = BadCountry string | BadCidr cidr_error

definition entry_parse :: "string \<Rightarrow> entry_error + access_entry" where
  "entry_parse s =
     (case strip_prefix ''country:'' s of
        Some code \<Rightarrow>
         (let code = trim code in
          if length code \<noteq> 2 \<or> \<not> list_all is_ascii_alphabetic code then Inl (BadCountry s)
          else Inr (CountryEntry (map to_ascii_uppercase code)))
      | None \<Rightarrow> (case cidr_parse s of Inl e \<Rightarrow> Inl (BadCidr e) | Inr c \<Rightarrow> Inr (CidrEntry c)))"

fun is_country :: "access_entry \<Rightarrow> bool" where
  "is_country (CountryEntry _) = True"
| "is_country (CidrEntry _) = False"

fun entry_matches :: "access_entry \<Rightarrow> ip_addr \<Rightarrow> string option \<Rightarrow> bool" where
  "entry_matches (CidrEntry c) ip country = cidr_contains c ip"
| "entry_matches (CountryEntry code) ip country = (country = Some code)"

record access_rule =
  ar_streams :: "string list"
  ar_play_allow :: "access_entry list"
  ar_play_deny :: "access_entry list"
  ar_publish_allow :: "access_entry list"
  ar_publish_deny :: "access_entry list"

definition glob_matches :: "string \<Rightarrow> string \<Rightarrow> bool" where
  "glob_matches pattern name =
     (case strip_suffix_char CHR ''*'' pattern of
        Some pre \<Rightarrow> strip_prefix pre name \<noteq> None
      | None \<Rightarrow> pattern = name)"

definition matches_stream :: "access_rule \<Rightarrow> string \<Rightarrow> bool" where
  "matches_stream r name = list_ex (\<lambda>p. glob_matches p name) (ar_streams r)"

definition rule_needs_geo :: "access_rule \<Rightarrow> bool" where
  "rule_needs_geo r = list_ex (list_ex is_country) [ar_play_allow r, ar_play_deny r, ar_publish_allow r, ar_publish_deny r]"

datatype denial = NoAddress | MatchedDeny ip_addr access_entry | MatchedNoAllow ip_addr

record access_denied =
  ad_reason :: string
  ad_detail :: denial

type_synonym geo_db = "ip_addr \<Rightarrow> string option"

definition rule_country :: "access_entry list \<Rightarrow> access_entry list \<Rightarrow> ip_addr \<Rightarrow> geo_db option \<Rightarrow> string option" where
  "rule_country allow deny ip geo =
     (let needs_geo = list_ex is_country (allow @ deny) in
      if needs_geo then Option.bind geo (\<lambda>g. g ip) else None)"

definition evaluate ::
    "access_entry list \<Rightarrow> access_entry list \<Rightarrow> ip_addr option \<Rightarrow> geo_db option \<Rightarrow> access_denied + unit" where
  "evaluate allow deny ip geo =
     (if allow = [] \<and> deny = [] then Inr ()
      else case ip of
        None \<Rightarrow> Inl \<lparr>ad_reason = ''no_ip'', ad_detail = NoAddress\<rparr>
      | Some ip \<Rightarrow>
         (let country = rule_country allow deny ip geo
          in case find (\<lambda>e. entry_matches e ip country) deny of
               Some e \<Rightarrow> Inl \<lparr>ad_reason = (if is_country e then ''country_denied'' else ''ip_denied''),
                             ad_detail = MatchedDeny ip e\<rparr>
             | None \<Rightarrow>
                 if allow = [] \<or> list_ex (\<lambda>e. entry_matches e ip country) allow then Inr ()
                 else Inl \<lparr>ad_reason = ''not_allowlisted'', ad_detail = MatchedNoAllow ip\<rparr>))"

subsection \<open>The checker\<close>

record access_config =
  ac_rules :: "access_rule list"
  ac_geoip_db :: "string option"

datatype access_config_error = GeoOpen string | GeoMissing

record checker =
  ck_rules :: "access_rule list"
  ck_geo :: "geo_db option"
  ck_denied :: "((string \<times> string) \<times> u64) list"

definition access_build ::
    "(string \<Rightarrow> string + geo_db) \<Rightarrow> access_config \<Rightarrow> access_config_error + (access_rule list \<times> geo_db option)" where
  "access_build open_geo cfg =
     (let needs_geo = list_ex rule_needs_geo (ac_rules cfg) in
      case ac_geoip_db cfg of
        Some path \<Rightarrow>
         (case open_geo path of Inl e \<Rightarrow> Inl (GeoOpen e) | Inr g \<Rightarrow> Inr (ac_rules cfg, Some g))
      | None \<Rightarrow> if needs_geo then Inl GeoMissing else Inr (ac_rules cfg, None))"

definition access_validate :: "(string \<Rightarrow> string + geo_db) \<Rightarrow> access_config \<Rightarrow> access_config_error + unit" where
  "access_validate open_geo cfg = map_sum id (\<lambda>_. ()) (access_build open_geo cfg)"

definition access_checker :: "(string \<Rightarrow> string + geo_db) \<Rightarrow> access_config \<Rightarrow> access_config_error + checker" where
  "access_checker open_geo cfg =
     map_sum id (\<lambda>(rules, geo). \<lparr>ck_rules = rules, ck_geo = geo, ck_denied = []\<rparr>) (access_build open_geo cfg)"

definition checker_reload ::
    "(string \<Rightarrow> string + geo_db) \<Rightarrow> access_config \<Rightarrow> checker \<Rightarrow> (access_config_error + unit) \<times> checker" where
  "checker_reload open_geo cfg ck =
     (case access_build open_geo cfg of
        Inl e \<Rightarrow> (Inl e, ck)
      | Inr (rules, geo) \<Rightarrow> (Inr (), ck\<lparr>ck_rules := rules, ck_geo := geo\<rparr>))"

definition bump :: "string \<Rightarrow> string \<Rightarrow> checker \<Rightarrow> checker" where
  "bump stream reason ck =
     (let n = (case map_of (ck_denied ck) (stream, reason) of Some n \<Rightarrow> n | None \<Rightarrow> 0) in
      ck\<lparr>ck_denied := AList.update (stream, reason) (n + 1) (ck_denied ck)\<rparr>)"

definition access_lists :: "access \<Rightarrow> access_rule \<Rightarrow> access_entry list \<times> access_entry list" where
  "access_lists access rule =
     (case access of Play \<Rightarrow> (ar_play_allow rule, ar_play_deny rule)
      | Publish \<Rightarrow> (ar_publish_allow rule, ar_publish_deny rule))"

definition access_check :: "access \<Rightarrow> string \<Rightarrow> ip_addr option \<Rightarrow> checker \<Rightarrow> (access_denied + unit) \<times> checker" where
  "access_check access stream ip ck =
     (case find (\<lambda>r. matches_stream r stream) (ck_rules ck) of
        None \<Rightarrow> (Inr (), ck)
      | Some rule \<Rightarrow>
         (let (allow, deny) = access_lists access rule; result = evaluate allow deny ip (ck_geo ck)
          in (result, case result of Inl d \<Rightarrow> bump stream (ad_reason d) ck | Inr _ \<Rightarrow> ck)))"

definition checker_metrics :: "checker \<Rightarrow> (string \<times> string \<times> u64) list" where
  "checker_metrics ck = map (\<lambda>((stream, reason), n). (stream, reason, n)) (ck_denied ck)"

subsection \<open>The combined gate\<close>

text \<open>
  \<open>verify\<close> is the cluster secret's check of a token, \<open>auth\<close> the token authorizer. The denial text is
  what \<open>AccessDenied\<close> displays, a function of its detail.
\<close>

datatype auth_error = AuthMissing | AuthOther string

definition combined_gate ::
    "(string \<Rightarrow> string option) option \<Rightarrow> (access \<Rightarrow> string \<Rightarrow> string option \<Rightarrow> auth_error + unit) \<Rightarrow>
     (denial \<Rightarrow> string) \<Rightarrow> checker \<Rightarrow> access \<Rightarrow> string \<Rightarrow> string option \<Rightarrow> ip_addr option \<Rightarrow> (denied + unit) \<times> checker" where
  "combined_gate cluster auth show_denial ck access stream token ip =
     (if access = Play \<and> (case (cluster, token) of (Some verify, Some t) \<Rightarrow> verify t \<noteq> None | _ \<Rightarrow> False)
      then (Inr (), ck)
      else case access_check access stream ip ck of
        (Inl d, ck') \<Rightarrow> (Inl (Refused (show_denial (ad_detail d))), ck')
      | (Inr _, ck') \<Rightarrow>
         (case auth access stream token of
            Inr _ \<Rightarrow> (Inr (), ck')
          | Inl AuthMissing \<Rightarrow> (Inl Missing, ck')
          | Inl (AuthOther e) \<Rightarrow> (Inl (Refused e), ck')))"

subsection \<open>Specification\<close>

text \<open>
  What the rules promise, without the short cuts of the code: the country is always looked up, the
  lists are sets.
\<close>

definition entry_covers :: "geo_db option \<Rightarrow> ip_addr \<Rightarrow> access_entry \<Rightarrow> bool" where
  "entry_covers geo ip e \<longleftrightarrow> entry_matches e ip (Option.bind geo (\<lambda>g. g ip))"

definition permitted :: "geo_db option \<Rightarrow> access_entry set \<Rightarrow> access_entry set \<Rightarrow> ip_addr option \<Rightarrow> bool" where
  "permitted geo allow deny ip \<longleftrightarrow>
     allow = {} \<and> deny = {} \<or>
     (\<exists>a. ip = Some a \<and> (\<forall>e \<in> deny. \<not> entry_covers geo a e) \<and>
        (allow = {} \<or> (\<exists>e \<in> allow. entry_covers geo a e)))"

lemma entry_matches_no_country: "\<not> is_country e \<Longrightarrow> entry_matches e ip c = entry_matches e ip c'"
  by (cases e) simp_all

lemma evaluate_country_shortcut:
  assumes "e \<in> set allow \<or> e \<in> set deny"
  shows "entry_matches e ip (rule_country allow deny ip geo) = entry_covers geo ip e"
proof (cases "list_ex is_country (allow @ deny)")
  case False
  with assms have "\<not> is_country e" by (auto simp: list_ex_iff)
  from entry_matches_no_country [OF this] show ?thesis by (simp add: entry_covers_def)
qed (simp only: rule_country_def Let_def if_True entry_covers_def)

lemma evaluate_spec: "evaluate allow deny ip geo = Inr () \<longleftrightarrow> permitted geo (set allow) (set deny) ip"
proof (cases ip)
  case None
  then show ?thesis by (auto simp: evaluate_def permitted_def)
next
  case (Some a)
  let ?p = "\<lambda>e. entry_matches e a (rule_country allow deny a geo)"
  have "find ?p deny = None \<longleftrightarrow> (\<forall>e \<in> set deny. \<not> entry_covers geo a e)"
    using evaluate_country_shortcut [of _ allow deny] by (auto simp: find_None_iff)
  moreover have "list_ex ?p allow \<longleftrightarrow> (\<exists>e \<in> set allow. entry_covers geo a e)"
    using evaluate_country_shortcut [of _ allow deny] by (simp add: list_ex_iff)
  moreover have "evaluate allow deny (Some a) geo = Inr () \<longleftrightarrow>
      allow = [] \<and> deny = [] \<or> find ?p deny = None \<and> (allow = [] \<or> list_ex ?p allow)"
    by (auto simp: evaluate_def Let_def split: option.splits)
  ultimately show ?thesis
    by (simp add: Some permitted_def)
qed

text \<open>Only the counters change in a check.\<close>

lemma access_check_keeps:
  "access_check access stream ip ck = (res, ck') \<Longrightarrow> ck_rules ck' = ck_rules ck \<and> ck_geo ck' = ck_geo ck"
  by (auto simp: access_check_def bump_def Let_def split: option.splits sum.splits prod.splits)

definition denied_count :: "checker \<Rightarrow> string \<Rightarrow> string \<Rightarrow> u64" where
  "denied_count ck stream reason = (case map_of (ck_denied ck) (stream, reason) of Some n \<Rightarrow> n | None \<Rightarrow> 0)"

lemma denied_count_bump:
  "denied_count (bump s r ck) s' r' = (if s' = s \<and> r' = r then denied_count ck s' r' + 1 else denied_count ck s' r')"
  by (simp add: denied_count_def bump_def Let_def update_conv')

definition mapped :: "32 word \<Rightarrow> ip_addr" where
  "mapped a = V6 (0xFFFF00000000 + ucast a)"

subsection \<open>Properties\<close>

text \<open>
  Claim C15. A request is allowed exactly if no rule covers the stream, or the first rule that does
  permits the address: no deny entry covers it and the allow list is empty or covers it, an unknown
  address being refused as soon as the rule restricts the action at all. The result does not depend on
  the order of the entries or on when the country is looked up, later rules are never consulted, and
  each refusal is counted once, under its stream and reason, and changes nothing else.
\<close>

theorem access_check_spec:
  assumes "access_check access stream ip ck = (res, ck')"
  shows "(res = Inr () \<longleftrightarrow>
      (case find (\<lambda>r. matches_stream r stream) (ck_rules ck) of
         None \<Rightarrow> True
       | Some r \<Rightarrow> permitted (ck_geo ck) (set (fst (access_lists access r))) (set (snd (access_lists access r))) ip)) \<and>
    denied_count ck' s r =
      (case res of
         Inl d \<Rightarrow> denied_count ck s r + (if s = stream \<and> r = ad_reason d then 1 else 0)
       | Inr _ \<Rightarrow> denied_count ck s r) \<and>
    ck_rules ck' = ck_rules ck \<and> ck_geo ck' = ck_geo ck"
proof (cases "find (\<lambda>r. matches_stream r stream) (ck_rules ck)")
  case None
  with assms show ?thesis by (auto simp: access_check_def)
next
  case (Some rule)
  obtain allow deny where lists: "access_lists access rule = (allow, deny)" by force
  have res: "res = evaluate allow deny ip (ck_geo ck)"
      "ck' = (case res of Inl d \<Rightarrow> bump stream (ad_reason d) ck | Inr _ \<Rightarrow> ck)"
    using assms by (auto simp: access_check_def Some lists Let_def)
  have "denied_count ck' s r = (case res of
         Inl d \<Rightarrow> denied_count ck s r + (if s = stream \<and> r = ad_reason d then 1 else 0)
       | Inr _ \<Rightarrow> denied_count ck s r)"
    unfolding res(2) by (cases res) (simp_all add: denied_count_bump)
  with access_check_keeps [OF assms] show ?thesis
    by (simp add: Some lists evaluate_spec res(1))
qed

definition demo_checker :: checker where
  "demo_checker = \<lparr>ck_rules = [\<lparr>ar_streams = [''live-*''], ar_play_allow = [], ar_play_deny = [],
     ar_publish_allow = [CidrEntry \<lparr>cidr_addr = V4 0x01020300, cidr_prefix = 24\<rparr>],
     ar_publish_deny = [CidrEntry \<lparr>cidr_addr = V4 0x01020304, cidr_prefix = 32\<rparr>]\<rparr>],
     ck_geo = None, ck_denied = []\<rparr>"

theorem access_check_spec_witness:
  "denied_count (snd (access_check Publish ''live-main'' (Some (V4 0x01020304)) demo_checker)) ''live-main'' ''ip_denied'' = 1"
proof -
  obtain res ck' where c: "access_check Publish ''live-main'' (Some (V4 0x01020304)) demo_checker = (res, ck')"
    by force
  have "map_sum ad_reason id (fst (access_check Publish ''live-main'' (Some (V4 0x01020304)) demo_checker)) = Inl ''ip_denied''"
    by code_simp
  with c obtain d where "res = Inl d" "ad_reason d = ''ip_denied''"
    by (cases res) auto
  moreover have "denied_count demo_checker ''live-main'' ''ip_denied'' = 0"
    by (simp add: denied_count_def demo_checker_def)
  ultimately show ?thesis
    using access_check_spec [OF c, of "''live-main''" "''ip_denied''"] by (simp add: c)
qed

text \<open>
  An IPv4 deny rule does not see the IPv4-mapped form of the same address: whatever address
  a single-host deny entry names, it refuses that address and lets its \<open>::ffff:a.b.c.d\<close> form play,
  which is how the address of an IPv4 client appears on a dual-stack socket.
\<close>

theorem mapped_address_passes_deny:
  "cidr_contains \<lparr>cidr_addr = V4 a, cidr_prefix = 32\<rparr> (V4 a) \<and>
   evaluate [] [CidrEntry \<lparr>cidr_addr = V4 a, cidr_prefix = 32\<rparr>] (Some (V4 a)) geo \<noteq> Inr () \<and>
   evaluate [] [CidrEntry \<lparr>cidr_addr = V4 a, cidr_prefix = 32\<rparr>] (Some (mapped a)) geo = Inr ()"
  by (simp add: evaluate_def cidr_contains_def mapped_def)

text \<open>
  The combined gate opens exactly if the rules permit the address and token auth agrees,
  with one exception: a valid cluster token may play, and only play, any stream without either. A
  request the rules refuse never reaches token auth, so its answer is the same for every authorizer.
\<close>

theorem combined_gate_spec:
  assumes "bypass = (access = Play \<and> (\<exists>verify t. cluster = Some verify \<and> token = Some t \<and> verify t \<noteq> None))"
  shows "(fst (combined_gate cluster auth show_denial ck access stream token ip) = Inr () \<longleftrightarrow>
      bypass \<or> fst (access_check access stream ip ck) = Inr () \<and> auth access stream token = Inr ()) \<and>
    (\<not> bypass \<and> fst (access_check access stream ip ck) \<noteq> Inr () \<longrightarrow>
      combined_gate cluster auth show_denial ck access stream token ip =
      combined_gate cluster auth' show_denial ck access stream token ip) \<and>
    (bypass \<longrightarrow> snd (combined_gate cluster auth show_denial ck access stream token ip) = ck)"
proof -
  have b: "(access = Play \<and> (case (cluster, token) of (Some verify, Some t) \<Rightarrow> verify t \<noteq> None | _ \<Rightarrow> False)) = bypass"
    unfolding assms by (cases cluster; cases token) auto
  obtain r ck' where c: "access_check access stream ip ck = (r, ck')" by force
  show ?thesis
    unfolding combined_gate_def b c
    by (cases r) (auto split: sum.splits auth_error.splits)
qed

theorem combined_gate_spec_witness:
  "fst (combined_gate None (\<lambda>_ _ _. Inr ()) (\<lambda>_. ''denied'') demo_checker Publish ''other'' None None) = Inr () \<and>
   fst (combined_gate None (\<lambda>_ _ _. Inr ()) (\<lambda>_. ''denied'') demo_checker Publish ''live-main'' None None) \<noteq> Inr ()"
proof -
  have "fst (access_check Publish ''other'' None demo_checker) = Inr ()"
    by code_simp
  moreover have "map_sum ad_reason id (fst (access_check Publish ''live-main'' None demo_checker)) = Inl ''no_ip''"
    by code_simp
  then have "fst (access_check Publish ''live-main'' None demo_checker) \<noteq> Inr ()"
    by auto
  ultimately show ?thesis
    using combined_gate_spec [of False Publish None] by simp
qed

end
