(* ===== verification/Rate_Limit.thy ===== *)
theory Rate_Limit
  imports Net "HOL-Library.AList"
begin

text \<open>
  \<open>crates/caudal-admin/src/ratelimit.rs\<close>: the limit on login attempts, a fixed window per client
  address. An \<open>Instant\<close> is a number of nanoseconds; \<open>duration_since\<close> saturates, like subtraction on
  \<open>nat\<close>. The hash map is an association list.
\<close>

definition sweep_at :: nat where
  "sweep_at = 10000"

record rate_limiter =
  rl_max :: nat
  rl_window :: nat
  rl_map :: "(ip_addr \<times> (nat \<times> nat)) list"

definition rate_limiter_new :: "nat \<Rightarrow> nat \<Rightarrow> rate_limiter" where
  "rate_limiter_new mx window = \<lparr>rl_max = mx, rl_window = window, rl_map = []\<rparr>"

unbundle bit_operations_syntax

text \<open>\<open>Ipv6Addr::to_ipv4_mapped\<close>: the addresses \<open>::ffff:a.b.c.d\<close>.\<close>

definition to_ipv4_mapped :: "128 word \<Rightarrow> 32 word option" where
  "to_ipv4_mapped w = (if drop_bit 32 w = 0xFFFF then Some (ucast w) else None)"

definition bucket :: "ip_addr \<Rightarrow> ip_addr" where
  "bucket ip =
     (case ip of
        V4 _ \<Rightarrow> ip
      | V6 v6 \<Rightarrow> (case to_ipv4_mapped v6 of Some v4 \<Rightarrow> V4 v4 | None \<Rightarrow> V6 (v6 AND v6_mask 64)))"

definition sweep :: "nat \<Rightarrow> rate_limiter \<Rightarrow> rate_limiter" where
  "sweep now rl =
     (if length (rl_map rl) \<ge> sweep_at
      then rl\<lparr>rl_map := filter (\<lambda>(_, (start, _)). now - start < rl_window rl) (rl_map rl)\<rparr> else rl)"

definition hit :: "ip_addr \<Rightarrow> nat \<Rightarrow> rate_limiter \<Rightarrow> (nat + unit) \<times> rate_limiter" where
  "hit ip now rl =
     (let key = bucket ip; rl = sweep now rl;
          entry = (case map_of (rl_map rl) key of Some e \<Rightarrow> e | None \<Rightarrow> (now, 0));
          entry = (if now - fst entry \<ge> rl_window rl then (now, 0) else entry)
      in if snd entry \<ge> rl_max rl
         then (Inl (rl_window rl - (now - fst entry)), rl\<lparr>rl_map := AList.update key entry (rl_map rl)\<rparr>)
         else (Inr (), rl\<lparr>rl_map := AList.update key (fst entry, snd entry + 1) (rl_map rl)\<rparr>))"

subsection \<open>A log of attempts\<close>

type_synonym attempt = "nat \<times> ip_addr \<times> (nat + unit)"

fun run_hits :: "rate_limiter \<Rightarrow> (ip_addr \<times> nat) list \<Rightarrow> attempt list" where
  "run_hits rl [] = []"
| "run_hits rl ((ip, now) # xs) = (let (r, rl') = hit ip now rl in (now, bucket ip, r) # run_hits rl' xs)"

definition accepted :: "ip_addr \<Rightarrow> (nat \<Rightarrow> bool) \<Rightarrow> attempt list \<Rightarrow> nat" where
  "accepted b P L = length (filter (\<lambda>(t, k, r). k = b \<and> r = Inr () \<and> P t) L)"

lemma accepted_Nil [simp]: "accepted b P [] = 0"
  by (simp add: accepted_def)

lemma accepted_snoc [simp]:
  "accepted b P (L @ [(t, k, r)]) = accepted b P L + (if k = b \<and> r = Inr () \<and> P t then 1 else 0)"
  by (simp add: accepted_def)

lemma accepted_mono: "(\<And>t. P t \<Longrightarrow> Q t) \<Longrightarrow> accepted b P L \<le> accepted b Q L"
  unfolding accepted_def by (induction L) auto

lemma accepted_split:
  "(\<And>t. P t \<Longrightarrow> Q t \<or> R t) \<Longrightarrow> accepted b P L \<le> accepted b Q L + accepted b R L"
  unfolding accepted_def by (induction L) fastforce+

text \<open>
  What the entry of a bucket says about the log: the window it counts, that nothing was accepted after
  that window, and how much was accepted right before it.
\<close>

definition entry_ok :: "nat \<Rightarrow> nat \<Rightarrow> attempt list \<Rightarrow> nat \<Rightarrow> ip_addr \<Rightarrow> (nat \<times> nat) option \<Rightarrow> bool" where
  "entry_ok w mx L now b e \<longleftrightarrow>
     (case e of
        None \<Rightarrow> accepted b (\<lambda>t. now < t + w) L \<le> mx \<and> accepted b (\<lambda>t. now \<le> t) L = 0
      | Some (s, c) \<Rightarrow> s \<le> now \<and> c \<le> mx \<and> accepted b (\<lambda>t. s \<le> t) L = c \<and>
          accepted b (\<lambda>t. s + w \<le> t) L = 0 \<and> accepted b (\<lambda>t. s < t + w \<and> t < s) L \<le> mx)"

definition windows_ok :: "nat \<Rightarrow> nat \<Rightarrow> attempt list \<Rightarrow> ip_addr \<Rightarrow> bool" where
  "windows_ok w mx L b \<longleftrightarrow> (\<forall>a. accepted b (\<lambda>t. a \<le> t \<and> t < a + w) L \<le> 2 * mx)"

lemma entry_ok_later:
  assumes "entry_ok w mx L now b e" and "now \<le> now'"
  shows "entry_ok w mx L now' b e"
proof (cases e)
  case None
  have "accepted b (\<lambda>t. now' < t + w) L \<le> accepted b (\<lambda>t. now < t + w) L"
      "accepted b (\<lambda>t. now' \<le> t) L \<le> accepted b (\<lambda>t. now \<le> t) L"
    using assms(2) by (auto intro: accepted_mono)
  with assms(1) None show ?thesis by (simp add: entry_ok_def)
qed (use assms in \<open>auto simp: entry_ok_def\<close>)

lemma entry_ok_expired:
  assumes "entry_ok w mx L now b (Some (s, c))" and "s + w \<le> now"
  shows "entry_ok w mx L now b None"
proof -
  have "accepted b (\<lambda>t. now < t + w) L \<le> accepted b (\<lambda>t. s \<le> t) L"
      "accepted b (\<lambda>t. now \<le> t) L \<le> accepted b (\<lambda>t. s + w \<le> t) L"
    using assms(2) by (auto intro: accepted_mono)
  with assms(1) show ?thesis by (simp add: entry_ok_def)
qed

lemma entry_ok_fresh:
  assumes "entry_ok w mx L now b None" and "0 < w"
  shows "entry_ok w mx L now b (Some (now, 0))"
proof -
  have "accepted b (\<lambda>t. now < t + w \<and> t < now) L \<le> accepted b (\<lambda>t. now < t + w) L"
      "accepted b (\<lambda>t. now + w \<le> t) L \<le> accepted b (\<lambda>t. now \<le> t) L"
    by (auto intro: accepted_mono)
  with assms show ?thesis by (simp add: entry_ok_def)
qed

lemma entry_ok_count:
  assumes "entry_ok w mx L now b (Some (s, c))" and "now < s + w" and "c < mx" and "windows_ok w mx L b"
  shows "entry_ok w mx (L @ [(now, b, Inr ())]) now b (Some (s, Suc c)) \<and> windows_ok w mx (L @ [(now, b, Inr ())]) b"
proof
  show "entry_ok w mx (L @ [(now, b, Inr ())]) now b (Some (s, Suc c))"
    using assms by (auto simp: entry_ok_def)
  have s: "s \<le> now" "accepted b (\<lambda>t. s \<le> t) L = c" "accepted b (\<lambda>t. s < t + w \<and> t < s) L \<le> mx"
    using assms(1) by (simp_all add: entry_ok_def)
  have "accepted b (\<lambda>t. a \<le> t \<and> t < a + w) (L @ [(now, b, Inr ())]) \<le> 2 * mx" for a
  proof (cases "a \<le> now \<and> now < a + w")
    case True
    then have "accepted b (\<lambda>t. a \<le> t \<and> t < a + w) L \<le>
        accepted b (\<lambda>t. s \<le> t) L + accepted b (\<lambda>t. s < t + w \<and> t < s) L"
      using s(1) by (intro accepted_split) linarith
    with True s assms(3) show ?thesis by simp
  next
    case False
    then show ?thesis using assms(4) by (auto simp: windows_ok_def)
  qed
  then show "windows_ok w mx (L @ [(now, b, Inr ())]) b"
    by (simp add: windows_ok_def)
qed

lemma entry_ok_other:
  "k \<noteq> b \<or> r \<noteq> Inr () \<Longrightarrow> entry_ok w mx (L @ [(t, k, r)]) now b e = entry_ok w mx L now b e"
  "k \<noteq> b \<or> r \<noteq> Inr () \<Longrightarrow> windows_ok w mx (L @ [(t, k, r)]) b = windows_ok w mx L b"
  by (auto simp: entry_ok_def windows_ok_def split: option.splits)

definition limiter_ok :: "attempt list \<Rightarrow> nat \<Rightarrow> rate_limiter \<Rightarrow> bool" where
  "limiter_ok L now rl \<longleftrightarrow> distinct (map fst (rl_map rl)) \<and>
     (\<forall>b. entry_ok (rl_window rl) (rl_max rl) L now b (map_of (rl_map rl) b) \<and>
        windows_ok (rl_window rl) (rl_max rl) L b)"

lemma limiter_ok_sweep:
  assumes "limiter_ok L now rl"
  shows "limiter_ok L now (sweep now rl)"
proof (cases "length (rl_map rl) \<ge> sweep_at")
  case True
  let ?keep = "\<lambda>(_, (start, _)). now - start < rl_window rl"
  have dist: "distinct (map fst (rl_map rl))"
    using assms by (simp add: limiter_ok_def)
  then have dist': "distinct (map fst (filter ?keep (rl_map rl)))"
    by (rule distinct_map_filter)
  have "entry_ok (rl_window rl) (rl_max rl) L now b (map_of (filter ?keep (rl_map rl)) b)" for b
  proof (cases "map_of (rl_map rl) b")
    case None
    then have "map_of (filter ?keep (rl_map rl)) b = None"
      by (auto simp: map_of_eq_None_iff)
    with None assms show ?thesis by (metis limiter_ok_def)
  next
    case (Some e)
    obtain s c where e: "e = (s, c)" by force
    have ok: "entry_ok (rl_window rl) (rl_max rl) L now b (Some (s, c))"
      using assms Some e by (metis limiter_ok_def)
    show ?thesis
    proof (cases "now - s < rl_window rl")
      case True
      then have "map_of (filter ?keep (rl_map rl)) b = Some (s, c)"
        using Some e dist dist' by (auto simp: map_of_eq_Some_iff)
      with ok show ?thesis by simp
    next
      case False
      then have "map_of (filter ?keep (rl_map rl)) b = None"
        using Some e dist by (auto simp: map_of_eq_None_iff map_of_eq_Some_iff dest: eq_key_imp_eq_value)
      moreover have "s + rl_window rl \<le> now"
        using False ok unfolding entry_ok_def by simp linarith
      ultimately show ?thesis using entry_ok_expired [OF ok] by simp
    qed
  qed
  with True dist' assms show ?thesis by (simp add: limiter_ok_def sweep_def)
qed (use assms in \<open>simp add: sweep_def\<close>)

lemma sweep_simps [simp]: "rl_max (sweep now rl) = rl_max rl" "rl_window (sweep now rl) = rl_window rl"
  by (simp_all add: sweep_def)

definition window_entry :: "rate_limiter \<Rightarrow> nat \<Rightarrow> ip_addr \<Rightarrow> nat \<times> nat" where
  "window_entry rl now k =
     (case map_of (rl_map rl) k of
        Some (s, c) \<Rightarrow> if now - s \<ge> rl_window rl then (now, 0) else (s, c)
      | None \<Rightarrow> (now, 0))"

lemma hit_eq:
  "hit ip now rl =
     (let k = bucket ip; rl' = sweep now rl; (s, c) = window_entry rl' now k in
      if c \<ge> rl_max rl then (Inl (rl_window rl - (now - s)), rl'\<lparr>rl_map := AList.update k (s, c) (rl_map rl')\<rparr>)
      else (Inr (), rl'\<lparr>rl_map := AList.update k (s, c + 1) (rl_map rl')\<rparr>))"
  by (auto simp: hit_def window_entry_def Let_def split: option.splits)

lemma window_entry_ok:
  assumes "limiter_ok L now rl" and "0 < rl_window rl" and "window_entry rl now k = (s, c)"
  shows "entry_ok (rl_window rl) (rl_max rl) L now k (Some (s, c)) \<and> now < s + rl_window rl"
proof -
  have ok: "entry_ok (rl_window rl) (rl_max rl) L now k (map_of (rl_map rl) k)"
    using assms(1) by (simp add: limiter_ok_def)
  show ?thesis
  proof (cases "map_of (rl_map rl) k")
    case None
    with assms(2,3) ok entry_ok_fresh show ?thesis by (simp add: window_entry_def)
  next
    case (Some e)
    obtain s0 c0 where e: "e = (s0, c0)" by force
    with ok Some have ok0: "entry_ok (rl_window rl) (rl_max rl) L now k (Some (s0, c0))" by simp
    then have "s0 \<le> now" by (simp add: entry_ok_def)
    show ?thesis
    proof (cases "now - s0 \<ge> rl_window rl")
      case True
      with \<open>s0 \<le> now\<close> have "s0 + rl_window rl \<le> now" by linarith
      from entry_ok_fresh [OF entry_ok_expired [OF ok0 this] assms(2)] True assms(2,3) Some e
      show ?thesis by (simp add: window_entry_def)
    next
      case False
      with ok0 assms(3) Some e \<open>s0 \<le> now\<close> show ?thesis by (auto simp: window_entry_def)
    qed
  qed
qed

lemma limiter_ok_later: "limiter_ok L now rl \<Longrightarrow> now \<le> now' \<Longrightarrow> limiter_ok L now' rl"
  by (auto simp: limiter_ok_def intro: entry_ok_later)

text \<open>One attempt: the invariant is kept, and a refusal comes with its reason.\<close>

lemma hit_ok:
  assumes "limiter_ok L now rl" and w: "0 < rl_window rl" and h: "hit ip now rl = (r, rl')"
  shows "limiter_ok (L @ [(now, bucket ip, r)]) now rl' \<and> rl_window rl' = rl_window rl \<and> rl_max rl' = rl_max rl \<and>
     (\<forall>d. r = Inl d \<longrightarrow> 0 < d \<and> d \<le> rl_window rl \<and>
        accepted (bucket ip) (\<lambda>t. now + d \<le> t + rl_window rl) L = rl_max rl)"
proof -
  let ?k = "bucket ip" and ?rl = "sweep now rl"
  obtain s c where e: "window_entry ?rl now ?k = (s, c)" by force
  have ok: "limiter_ok L now ?rl"
    using assms(1) by (rule limiter_ok_sweep)
  then have dist: "distinct (map fst (rl_map ?rl))"
    and all: "\<And>b. entry_ok (rl_window rl) (rl_max rl) L now b (map_of (rl_map ?rl) b)"
    and win: "\<And>b. windows_ok (rl_window rl) (rl_max rl) L b"
    by (simp_all add: limiter_ok_def)
  from window_entry_ok [OF ok _ e] w
  have k: "entry_ok (rl_window rl) (rl_max rl) L now ?k (Some (s, c))" "now < s + rl_window rl"
    by simp_all
  have s: "s \<le> now" "c \<le> rl_max rl" "accepted ?k (\<lambda>t. s \<le> t) L = c"
    using k(1) by (simp_all add: entry_ok_def)
  show ?thesis
  proof (cases "c \<ge> rl_max rl")
    case True
    with h e have r: "r = Inl (rl_window rl - (now - s))"
        "rl' = ?rl\<lparr>rl_map := AList.update ?k (s, c) (rl_map ?rl)\<rparr>"
      by (simp_all add: hit_eq Let_def)
    have "limiter_ok (L @ [(now, ?k, r)]) now rl'"
      using dist all win k(1) r
      by (simp add: limiter_ok_def entry_ok_other distinct_update update_conv')
    moreover have "now + (rl_window rl - (now - s)) = s + rl_window rl"
      using k(2) s(1) by linarith
    ultimately show ?thesis
      using r True s k(2) by auto
  next
    case False
    with h e have r: "r = Inr ()" "rl' = ?rl\<lparr>rl_map := AList.update ?k (s, Suc c) (rl_map ?rl)\<rparr>"
      by (simp_all add: hit_eq Let_def)
    have upd: "entry_ok (rl_window rl) (rl_max rl) (L @ [(now, ?k, r)]) now b (map_of (rl_map rl') b) \<and>
        windows_ok (rl_window rl) (rl_max rl) (L @ [(now, ?k, r)]) b" for b
    proof (cases "b = ?k")
      case True
      with entry_ok_count [OF k(1,2) _ win] False r show ?thesis by (simp add: update_conv')
    next
      case False
      then show ?thesis using all win r by (simp add: entry_ok_other update_conv')
    qed
    with dist r show ?thesis by (simp add: limiter_ok_def distinct_update)
  qed
qed

definition refusal_ok :: "nat \<Rightarrow> nat \<Rightarrow> attempt list \<Rightarrow> bool" where
  "refusal_ok w mx L \<longleftrightarrow> (\<forall>i < length L. case L ! i of
     (now, k, Inl d) \<Rightarrow> 0 < d \<and> d \<le> w \<and> accepted k (\<lambda>t. now + d \<le> t + w) (take i L) = mx
   | (_, _, Inr _) \<Rightarrow> True)"

lemma refusal_ok_snoc:
  "refusal_ok w mx L \<Longrightarrow>
   (\<And>d. r = Inl d \<Longrightarrow> 0 < d \<and> d \<le> w \<and> accepted k (\<lambda>t. now + d \<le> t + w) L = mx) \<Longrightarrow>
   refusal_ok w mx (L @ [(now, k, r)])"
  by (auto simp: refusal_ok_def nth_append less_Suc_eq split: sum.splits)

lemma run_hits_ok:
  assumes "limiter_ok L now rl" and "0 < rl_window rl" and "refusal_ok (rl_window rl) (rl_max rl) L"
    and "sorted (now # map snd xs)"
  shows "refusal_ok (rl_window rl) (rl_max rl) (L @ run_hits rl xs) \<and>
     windows_ok (rl_window rl) (rl_max rl) (L @ run_hits rl xs) b"
  using assms
proof (induction rl xs arbitrary: L now rule: run_hits.induct)
  case (1 rl)
  then show ?case by (simp add: limiter_ok_def)
next
  case (2 rl ip t xs)
  obtain r rl' where h: "hit ip t rl = (r, rl')" by force
  have "limiter_ok L t rl"
    using 2(2,5) by (auto intro: limiter_ok_later)
  note step = hit_ok [OF this 2(3) h]
  have "refusal_ok (rl_window rl) (rl_max rl) (L @ [(t, bucket ip, r)])"
    using 2(4) step by (intro refusal_ok_snoc) auto
  with 2(1) [OF h [symmetric] refl, of "L @ [(t, bucket ip, r)]" t] step 2(3,5) h
  show ?case by simp
qed

subsection \<open>Properties\<close>

text \<open>
  Claim C16. Whatever attempts come in, from any addresses, and whether or not stale entries are swept
  in between: no client (an IPv4 address, mapped or not, or an IPv6 /64) gets more than twice the limit
  accepted in any stretch of time as long as the window; a refused attempt means the full limit was
  accepted in the current window, and the retry time given is exactly when that window ends.
\<close>

theorem rate_limit_holds:
  assumes "0 < window" and "sorted (map snd xs)"
  shows "accepted b (\<lambda>t. a \<le> t \<and> t < a + window) (run_hits (rate_limiter_new mx window) xs) \<le> 2 * mx \<and>
     refusal_ok window mx (run_hits (rate_limiter_new mx window) xs)"
proof -
  have "limiter_ok [] 0 (rate_limiter_new mx window)" "refusal_ok window mx []"
    by (simp_all add: limiter_ok_def rate_limiter_new_def entry_ok_def windows_ok_def refusal_ok_def)
  with run_hits_ok [of "[]" 0 "rate_limiter_new mx window" xs b] assms show ?thesis
    by (simp add: rate_limiter_new_def windows_ok_def)
qed

theorem rate_limit_holds_witness:
  "accepted (V4 7) (\<lambda>t. 0 \<le> t \<and> t < 0 + 60)
     (run_hits (rate_limiter_new 1 60) [(V4 7, 0), (V6 0xFFFF00000007, 10), (V4 7, 60)]) \<le> 2 * 1 \<and>
   map (\<lambda>(t, k, r). r) (run_hits (rate_limiter_new 1 60) [(V4 7, 0), (V6 0xFFFF00000007, 10), (V4 7, 60)]) =
     [Inr (), Inl 50, Inr ()]"
proof
  show "accepted (V4 7) (\<lambda>t. 0 \<le> t \<and> t < 0 + 60)
     (run_hits (rate_limiter_new 1 60) [(V4 7, 0), (V6 0xFFFF00000007, 10), (V4 7, 60)]) \<le> 2 * 1"
    by (rule rate_limit_holds [THEN conjunct1]) simp_all
  have "drop_bit 32 (0xFFFF00000007 :: 128 word) = 0xFFFF" "(ucast (0xFFFF00000007 :: 128 word) :: 32 word) = 7"
    by code_simp+
  then have "bucket (V6 0xFFFF00000007) = V4 7" "bucket (V4 7) = V4 7"
    by (simp_all add: bucket_def to_ipv4_mapped_def)
  then show "map (\<lambda>(t, k, r). r) (run_hits (rate_limiter_new 1 60) [(V4 7, 0), (V6 0xFFFF00000007, 10), (V4 7, 60)]) =
     [Inr (), Inl 50, Inr ()]"
    by (simp add: rate_limiter_new_def hit_def sweep_def sweep_at_def Let_def)
qed

end
