(* ===== verification/Ts_Demux.thy ===== *)
theory Ts_Demux
  imports Prelude "HOL-Library.AList" "HOL-Library.Monad_Syntax"
begin

text \<open>
  \<open>crates/caudal-ts/src/ts.rs\<close>: MPEG-TS packets to elementary stream units. The packet parser is the
  \<open>mpeg2ts\<close> crate: the argument \<open>read\<close>, which takes its state and the buffered bytes and gives what
  \<open>read_ts_packet\<close> returns, its new state and the bytes left. Packets of SCTE-35 PIDs are taken out
  before it and reassembled here, byte by byte. PIDs and wire timestamps are \<open>nat\<close>; a
  \<open>StreamType\<close> is its number.
\<close>

unbundle bit_operations_syntax

subsection \<open>Data\<close>

definition ts_packet_size :: nat where
  "ts_packet_size = 188"

datatype es_kind = EsH264 | EsH265 | EsAac | EsScte35

definition stream_type_scte35 :: u8 where
  "stream_type_scte35 = 0x86"

definition es_kind_of :: "u8 \<Rightarrow> es_kind option" where
  "es_kind_of st =
     (if st = 0x1B then Some EsH264
      else if st = 0x24 then Some EsH265
      else if st = 0x0F then Some EsAac
      else if st = stream_type_scte35 then Some EsScte35
      else None)"

record es_unit =
  eu_kind :: es_kind
  eu_pts :: "nat option"
  eu_dts :: "nat option"
  eu_data :: bytes

record pes_header =
  ph_pts :: "nat option"
  ph_dts :: "nat option"
  ph_escr :: "nat option"

definition optional_header_len :: "pes_header \<Rightarrow> nat" where
  "optional_header_len h =
     3 + (case ph_pts h of None \<Rightarrow> 0 | Some _ \<Rightarrow> 5) + (case ph_dts h of None \<Rightarrow> 0 | Some _ \<Rightarrow> 5) +
     (case ph_escr h of None \<Rightarrow> 0 | Some _ \<Rightarrow> 6)"

record pes =
  ps_header :: pes_header
  ps_packet_len :: nat
  ps_data :: bytes

datatype ts_payload =
    TsPmt "(u8 \<times> nat) list" | TsPesStart pes | TsPesContinuation bytes | TsOther

datatype read_result = ReadPacket nat "ts_payload option" | ReadEnd | ReadError

record es_partial =
  pa_kind :: es_kind
  pa_pts :: "nat option"
  pa_dts :: "nat option"
  pa_data :: bytes
  pa_expected_len :: "nat option"

definition finish :: "es_partial \<Rightarrow> es_unit" where
  "finish p = \<lparr>eu_kind = pa_kind p, eu_pts = pa_pts p, eu_dts = pa_dts p, eu_data = pa_data p\<rparr>"

definition is_complete :: "es_partial \<Rightarrow> bool" where
  "is_complete p = (case pa_expected_len p of Some n \<Rightarrow> length (pa_data p) \<ge> n | None \<Rightarrow> False)"

record 'r ts_demux =
  td_queue :: bytes
  td_reader :: 'r
  td_es_pids :: "(nat \<times> es_kind) list"
  td_partial :: "(nat \<times> es_partial) list"
  td_sections :: "(nat \<times> bytes option) list"

definition max_section :: nat where
  "max_section = 3 + 0x0FFF"

definition scte35_table_id :: u8 where
  "scte35_table_id = 0xFC"

definition ts_demux_new :: "'r \<Rightarrow> 'r ts_demux" where
  "ts_demux_new reader =
     \<lparr>td_queue = [], td_reader = reader, td_es_pids = [], td_partial = [], td_sections = []\<rparr>"

subsection \<open>The queue\<close>

definition ts_feed :: "bytes \<Rightarrow> 'r ts_demux \<Rightarrow> 'r ts_demux" where
  "ts_feed data d = d\<lparr>td_queue := td_queue d @ data\<rparr>"

definition front_pid :: "bytes \<Rightarrow> nat option" where
  "front_pid q =
     (if length q \<ge> ts_packet_size \<and> q ! 0 = 0x47
      then Some (unat (be16 (q ! 1) (q ! 2) AND 0x1FFF)) else None)"

definition pop_packet :: "bytes \<Rightarrow> bytes \<times> bytes" where
  "pop_packet q = (take ts_packet_size q, drop ts_packet_size q)"

subsection \<open>Sections\<close>

definition section_total :: "bytes \<Rightarrow> nat" where
  "section_total buf = 3 + (unat ((buf ! 1) AND 0x0F) * 256 + unat (buf ! 2))"

function complete_sections :: "bytes option \<Rightarrow> es_unit list \<times> bytes option" where
  "complete_sections slot =
     (case slot of
        None \<Rightarrow> ([], None)
      | Some buf \<Rightarrow>
          if buf = [] \<or> hd buf = 0xFF then ([], None)
          else if length buf < 3 then ([], Some buf)
          else if length buf < section_total buf
          then ([], if length buf > max_section then None else Some buf)
          else (let (out, slot') = complete_sections (Some (drop (section_total buf) buf)) in
                ((if hd buf = scte35_table_id
                  then [\<lparr>eu_kind = EsScte35, eu_pts = None, eu_dts = None,
                         eu_data = take (section_total buf) buf\<rparr>]
                  else []) @ out, slot')))"
  by pat_completeness auto
termination
  by (relation "measure (\<lambda>slot. case slot of None \<Rightarrow> 0 | Some b \<Rightarrow> length b)") (auto simp: section_total_def)

declare complete_sections.simps [simp del]

definition packet_payload :: "bytes \<Rightarrow> bytes option" where
  "packet_payload pkt =
     (let afc = drop_bit 4 (pkt ! 3) AND 0x3 in
      if afc AND 0x1 = 0 then None
      else (let start = 4 + (if afc AND 0x2 \<noteq> 0 then 1 + unat (pkt ! 4) else 0) in
            if start \<ge> ts_packet_size then None else Some (drop start pkt)))"

definition section_packet :: "bytes \<Rightarrow> bytes option \<Rightarrow> es_unit list \<times> bytes option" where
  "section_packet pkt slot =
     (case packet_payload pkt of
        None \<Rightarrow> ([], slot)
      | Some payload \<Rightarrow>
          if (pkt ! 1) AND 0x40 = 0 then complete_sections (map_option (\<lambda>buf. buf @ payload) slot)
          else (let rest = tl payload; split = min (unat (hd payload)) (length rest);
                    out1 = (case slot of
                        Some buf \<Rightarrow> fst (complete_sections (Some (buf @ take split rest)))
                      | None \<Rightarrow> []);
                    (out2, slot') = complete_sections (Some (drop split rest))
                in (out1 @ out2, slot')))"

definition handle_section_packet :: "nat \<Rightarrow> bytes \<Rightarrow> 'r ts_demux \<Rightarrow> es_unit list \<times> 'r ts_demux" where
  "handle_section_packet pid pkt d =
     (let slot = (case map_of (td_sections d) pid of Some s \<Rightarrow> s | None \<Rightarrow> None);
          (out, slot') = section_packet pkt slot
      in (out, d\<lparr>td_sections := AList.update pid slot' (td_sections d)\<rparr>))"

subsection \<open>PES packets\<close>

definition handle_pmt_entry :: "u8 \<times> nat \<Rightarrow> 'r ts_demux \<Rightarrow> 'r ts_demux" where
  "handle_pmt_entry es d =
     (case es_kind_of (fst es) of
        Some EsScte35 \<Rightarrow>
          if map_of (td_sections d) (snd es) = None
          then d\<lparr>td_sections := AList.update (snd es) None (td_sections d)\<rparr> else d
      | Some kind \<Rightarrow> d\<lparr>td_es_pids := AList.update (snd es) kind (td_es_pids d)\<rparr>
      | None \<Rightarrow> d)"

definition handle_pmt :: "(u8 \<times> nat) list \<Rightarrow> 'r ts_demux \<Rightarrow> 'r ts_demux" where
  "handle_pmt es_info d = fold handle_pmt_entry es_info d"

definition handle_pes_start :: "nat \<Rightarrow> pes \<Rightarrow> 'r ts_demux \<Rightarrow> es_unit list \<times> 'r ts_demux" where
  "handle_pes_start pid p d =
     (case map_of (td_es_pids d) pid of
        None \<Rightarrow> ([], d)
      | Some kind \<Rightarrow>
         (let (out, parts) = (case map_of (td_partial d) pid of
                Some prev \<Rightarrow> ([finish prev], AList.delete pid (td_partial d))
              | None \<Rightarrow> ([], td_partial d));
              expected = (if ps_packet_len p \<noteq> 0
                then Some (ps_packet_len p - optional_header_len (ps_header p)) else None);
              new = \<lparr>pa_kind = kind, pa_pts = ph_pts (ps_header p), pa_dts = ph_dts (ps_header p),
                     pa_data = ps_data p, pa_expected_len = expected\<rparr>
          in if is_complete new then (out @ [finish new], d\<lparr>td_partial := parts\<rparr>)
             else (out, d\<lparr>td_partial := AList.update pid new parts\<rparr>)))"

definition handle_pes_continuation :: "nat \<Rightarrow> bytes \<Rightarrow> 'r ts_demux \<Rightarrow> es_unit list \<times> 'r ts_demux" where
  "handle_pes_continuation pid data d =
     (case map_of (td_partial d) pid of
        None \<Rightarrow> ([], d)
      | Some p \<Rightarrow>
         (let p = p\<lparr>pa_data := pa_data p @ data\<rparr> in
          if is_complete p then ([finish p], d\<lparr>td_partial := AList.delete pid (td_partial d)\<rparr>)
          else ([], d\<lparr>td_partial := AList.update pid p (td_partial d)\<rparr>)))"

definition ts_flush :: "'r ts_demux \<Rightarrow> es_unit list \<times> 'r ts_demux" where
  "ts_flush d =
     (let pids = sort (map fst (td_partial d)) in
      (concat (map (\<lambda>pid. case map_of (td_partial d) pid of Some p \<Rightarrow> [finish p] | None \<Rightarrow> []) pids),
       d\<lparr>td_partial := []\<rparr>))"

subsection \<open>The loop\<close>

definition handle_payload :: "nat \<Rightarrow> ts_payload option \<Rightarrow> 'r ts_demux \<Rightarrow> es_unit list \<times> 'r ts_demux" where
  "handle_payload pid payload d =
     (case payload of
        Some (TsPmt pmt) \<Rightarrow> ([], handle_pmt pmt d)
      | Some (TsPesStart p) \<Rightarrow> handle_pes_start pid p d
      | Some (TsPesContinuation data) \<Rightarrow> handle_pes_continuation pid data d
      | _ \<Rightarrow> ([], d))"

text \<open>One packet from the parser: \<open>None\<close> when it says the input is over.\<close>

definition read_step ::
    "('r \<Rightarrow> bytes \<Rightarrow> read_result \<times> 'r \<times> bytes) \<Rightarrow> 'r ts_demux \<Rightarrow> (es_unit list \<times> 'r ts_demux) option" where
  "read_step read d =
     (let (res, reader, q) = read (td_reader d) (td_queue d); d = d\<lparr>td_reader := reader, td_queue := q\<rparr> in
      case res of
        ReadPacket pid payload \<Rightarrow> Some (handle_payload pid payload d)
      | ReadEnd \<Rightarrow> None
      | ReadError \<Rightarrow> Some ([], d))"

definition drain_step ::
    "('r \<Rightarrow> bytes \<Rightarrow> read_result \<times> 'r \<times> bytes) \<Rightarrow> 'r ts_demux \<Rightarrow> (es_unit list \<times> 'r ts_demux) option" where
  "drain_step read d =
     (case front_pid (td_queue d) of
        Some pid \<Rightarrow>
          if map_of (td_sections d) pid \<noteq> None
          then (let (pkt, q) = pop_packet (td_queue d) in
                Some (handle_section_packet pid pkt (d\<lparr>td_queue := q\<rparr>)))
          else read_step read d
      | None \<Rightarrow> read_step read d)"

text \<open>The loop may run forever with a parser that makes no progress, so it is a partial function.\<close>

partial_function (option) ts_drain ::
    "('r \<Rightarrow> bytes \<Rightarrow> read_result \<times> 'r \<times> bytes) \<Rightarrow> 'r ts_demux \<Rightarrow> (es_unit list \<times> 'r ts_demux) option" where
  "ts_drain read d =
     (if length (td_queue d) < ts_packet_size then Some ([], d)
      else case drain_step read d of
        None \<Rightarrow> Some ([], d\<lparr>td_reader := fst (snd (read (td_reader d) (td_queue d))),
                           td_queue := snd (snd (read (td_reader d) (td_queue d)))\<rparr>)
      | Some (out, d') \<Rightarrow> do { (out', d'') \<leftarrow> ts_drain read d'; Some (out @ out', d'') })"

text \<open>
  What the loop needs of the parser: given a packet's worth of bytes or more it takes at least one, and
  does not report the end of the input.
\<close>

definition makes_progress :: "('r \<Rightarrow> bytes \<Rightarrow> read_result \<times> 'r \<times> bytes) \<Rightarrow> bool" where
  "makes_progress read \<longleftrightarrow>
     (\<forall>r q. ts_packet_size \<le> length q \<longrightarrow> length (snd (snd (read r q))) < length q \<and> fst (read r q) \<noteq> ReadEnd)"

lemma handle_payload_queue [simp]: "td_queue (snd (handle_payload pid payload d)) = td_queue d"
proof -
  have entry: "td_queue (handle_pmt_entry e d) = td_queue d" for e and d :: "'a ts_demux"
    by (simp add: handle_pmt_entry_def split: option.splits es_kind.splits)
  have "td_queue (fold handle_pmt_entry es d) = td_queue d" for es and d :: "'a ts_demux"
    by (induction es arbitrary: d) (simp_all add: entry)
  then show ?thesis
    by (auto simp: handle_payload_def handle_pmt_def handle_pes_start_def handle_pes_continuation_def Let_def
        split: option.splits ts_payload.splits prod.splits)
qed

lemma drain_step_shrinks:
  assumes "makes_progress read" and "ts_packet_size \<le> length (td_queue d)" and "drain_step read d = Some (out, d')"
  shows "length (td_queue d') < length (td_queue d)"
proof -
  have popped: "length (drop ts_packet_size (td_queue d)) < length (td_queue d)"
    using assms(2) by (simp add: ts_packet_size_def)
  have "length (snd (snd (read (td_reader d) (td_queue d)))) < length (td_queue d)"
    using assms(1,2) by (simp add: makes_progress_def)
  moreover have "td_queue d' = snd (snd (read (td_reader d) (td_queue d)))" if "read_step read d = Some (out, d')"
  proof -
    obtain res r q where rd: "read (td_reader d) (td_queue d) = (res, r, q)" by (metis prod_cases3)
    show ?thesis
    proof (cases res)
      case (ReadPacket pid payload)
      with that rd have "handle_payload pid payload (d\<lparr>td_reader := r, td_queue := q\<rparr>) = (out, d')"
        by (simp add: read_step_def)
      then show ?thesis
        using handle_payload_queue [of pid payload "d\<lparr>td_reader := r, td_queue := q\<rparr>"] rd by simp
    qed (use that rd in \<open>auto simp: read_step_def\<close>)
  qed
  ultimately show ?thesis
    using assms(3) popped
    by (auto simp: drain_step_def pop_packet_def handle_section_packet_def Let_def split: option.splits if_splits prod.splits)
qed

lemma drain_step_goes_on:
  assumes "makes_progress read" and "ts_packet_size \<le> length (td_queue d)"
  shows "drain_step read d \<noteq> None"
proof -
  have "fst (read (td_reader d) (td_queue d)) \<noteq> ReadEnd"
    using assms by (simp add: makes_progress_def)
  then have "read_step read d \<noteq> None"
    by (auto simp: read_step_def Let_def case_prod_unfold split: read_result.splits)
  then show ?thesis
    by (auto simp: drain_step_def Let_def case_prod_unfold split: option.splits)
qed

text \<open>
  Claim C21. Draining the input always returns, with less than one packet left, whatever bytes were fed:
  a parser that takes at least one byte of a full buffer is enough, packets of cue PIDs are taken whole.
\<close>

theorem ts_drain_returns:
  assumes "makes_progress read"
  shows "\<exists>out d'. ts_drain read d = Some (out, d') \<and> length (td_queue d') < ts_packet_size"
proof (induction "length (td_queue d)" arbitrary: d rule: less_induct)
  case less
  show ?case
  proof (cases "length (td_queue d) < ts_packet_size")
    case True
    then show ?thesis by (simp add: ts_drain.simps [of read d])
  next
    case False
    then obtain out d' where step: "drain_step read d = Some (out, d')"
      using drain_step_goes_on [OF assms, of d] by fastforce
    with False have "length (td_queue d') < length (td_queue d)"
      using drain_step_shrinks [OF assms] by simp
    from less [OF this] step False show ?thesis
      by (force simp: ts_drain.simps [of read d])
  qed
qed

text \<open>A parser that skips a packet without an error of its own, or loses sync byte by byte.\<close>

definition demo_read :: "unit \<Rightarrow> bytes \<Rightarrow> read_result \<times> unit \<times> bytes" where
  "demo_read r q = (if q \<noteq> [] \<and> hd q = 0x47 then (ReadPacket 0 None, (), drop ts_packet_size q) else (ReadError, (), tl q))"

theorem ts_drain_returns_witness:
  "\<exists>out d'. ts_drain demo_read (ts_feed (replicate 400 0x47) (ts_demux_new ())) = Some (out, d') \<and>
     length (td_queue d') < ts_packet_size"
  by (rule ts_drain_returns) (auto simp: makes_progress_def demo_read_def ts_packet_size_def)

end
