(* ===== verification/Ts_Mux.thy ===== *)
theory Ts_Mux
  imports Media Ts_Demux
begin

text \<open>
  \<open>crates/caudal-ts/src/mux.rs\<close>: frames to MPEG-TS. The packets handed to the writer of the \<open>mpeg2ts\<close>
  crate are values (\<open>mux_packet\<close>); how it serialises them, and which it refuses (\<open>accepts\<close>), is
  outside. SCTE-35 packets are built here byte by byte. Decoding of the \<open>avcC\<close> and \<open>hvcC\<close> records
  (\<open>mp4-atom\<close>) and the retiming of a section (\<open>caudal-scte35\<close>) are arguments. A \<open>u16\<close> length is a
  \<open>nat\<close> below \<open>2 ^ 16\<close>; PIDs are \<open>nat\<close>; the clock read in an operation is its argument \<open>now\<close>.
\<close>

unbundle bit_operations_syntax

subsection \<open>Constants\<close>

definition pat_pid :: nat where "pat_pid = 0"
definition pmt_pid :: nat where "pmt_pid = 0x1000"
definition video_pid :: nat where "video_pid = 0x101"
definition audio_pid :: nat where "audio_pid = 0x102"
definition scte35_pid :: nat where "scte35_pid = 0x103"
definition registration_descriptor :: u8 where "registration_descriptor = 0x05"
definition psi_interval :: nat where "psi_interval = 100 * 10 ^ 6"
definition pcr_interval :: nat where "pcr_interval = 40 * 10 ^ 6"
definition psi_interval_90k :: int where "psi_interval_90k = 9000"
definition media_clock_delay_90k :: int where "media_clock_delay_90k = 63000"
definition aud_h264 :: bytes where "aud_h264 = [0, 0, 0, 1, 0x09, 0xF0]"
definition aud_h265 :: bytes where "aud_h265 = [0, 0, 0, 1, 0x46, 0x01, 0x50]"

subsection \<open>Clocks\<close>

definition to_90k :: "int \<Rightarrow> u32 \<Rightarrow> int" where
  "to_90k ts timescale = wrap64 ((ts * 90000) sdiv max (uint timescale) 1) mod 2 ^ 33"

definition media_interval_due :: "int option \<Rightarrow> int option \<Rightarrow> int \<Rightarrow> bool" where
  "media_interval_due last_at now_at interval =
     (case (last_at, now_at) of
        (Some l, Some n) \<Rightarrow>
         (let delta = (n - l) mod 2 ^ 33 in
          if delta > (2 ^ 33 - 1) div 2 then 2 ^ 33 - delta > 90000 else delta \<ge> interval)
      | _ \<Rightarrow> True)"

subsection \<open>Elementary streams\<close>

record video_track =
  vt_h265 :: bool
  vt_vps :: bytes
  vt_sps :: bytes
  vt_pps :: bytes

definition from_avcc :: "(bytes \<Rightarrow> (bytes list \<times> bytes list) option) \<Rightarrow> bytes \<Rightarrow> video_track option" where
  "from_avcc decode init =
     (case decode init of
        Some (sps # _, pps # _) \<Rightarrow> Some \<lparr>vt_h265 = False, vt_vps = [], vt_sps = sps, vt_pps = pps\<rparr>
      | _ \<Rightarrow> None)"

definition hvcc_nal :: "(u8 \<times> bytes list) list \<Rightarrow> u8 \<Rightarrow> bytes option" where
  "hvcc_nal arrays nal_type =
     (case find (\<lambda>a. fst a = nal_type) arrays of Some (_, n # _) \<Rightarrow> Some n | _ \<Rightarrow> None)"

definition from_hvcc :: "(bytes \<Rightarrow> (u8 \<times> bytes list) list option) \<Rightarrow> bytes \<Rightarrow> video_track option" where
  "from_hvcc decode init = do {
     arrays \<leftarrow> decode init;
     vps \<leftarrow> hvcc_nal arrays 32;
     sps \<leftarrow> hvcc_nal arrays 33;
     pps \<leftarrow> hvcc_nal arrays 34;
     Some \<lparr>vt_h265 = True, vt_vps = vps, vt_sps = sps, vt_pps = pps\<rparr> }"

record audio_track =
  at_profile :: u8
  at_sampling_freq_idx :: u8
  at_channel_config :: u8

definition from_asc :: "bytes \<Rightarrow> audio_track option" where
  "from_asc init =
     (if length init < 2 then None
      else (let n = be16 (init ! 0) (init ! 1);
                audio_object_type = drop_bit 11 n AND 0x1F;
                sampling_freq_idx = ucast (drop_bit 7 n AND 0x0F);
                channel_config = ucast (drop_bit 3 n AND 0x0F)
            in if audio_object_type = 0 then None
               else Some \<lparr>at_profile = ucast (min (audio_object_type - 1) 3),
                          at_sampling_freq_idx = sampling_freq_idx, at_channel_config = channel_config\<rparr>))"

definition write_annexb :: "bytes \<Rightarrow> bytes" where
  "write_annexb nal = [0, 0, 0, 1] @ nal"

definition adts_header :: "nat \<Rightarrow> u8 \<Rightarrow> u8 \<Rightarrow> u8 \<Rightarrow> bytes" where
  "adts_header payload_len profile sampling_freq_idx channel_config =
     (let frame_len = (7 + payload_len) mod 2 ^ 16 in
      [0xFF, 0xF1,
       push_bit 6 profile OR push_bit 2 (sampling_freq_idx AND 0x0F) OR (drop_bit 2 channel_config AND 0x01),
       push_bit 6 (channel_config AND 0x03) OR of_nat (frame_len div 2048 mod 4),
       of_nat (frame_len div 8 mod 256),
       push_bit 5 (of_nat (frame_len mod 8)) OR 0x1F,
       0xFC])"

text \<open>AVCC to Annex B: the length prefix is a big-endian \<open>u32\<close>; a length past the end stops the loop.\<close>

function avcc_to_annexb :: "bytes \<Rightarrow> bytes" where
  "avcc_to_annexb data =
     (if length data < 4 then []
      else (let n = be32 data; rest = drop 4 data in
            if n > length rest then [] else write_annexb (take n rest) @ avcc_to_annexb (drop n rest)))"
  by pat_completeness auto
termination
  by (relation "measure length") auto

declare avcc_to_annexb.simps [simp del]

definition video_payload :: "video_track \<Rightarrow> frame \<Rightarrow> bytes" where
  "video_payload v f =
     (if vt_h265 v then aud_h265 else aud_h264) @
     (if fr_keyframe f
      then (if vt_h265 v then write_annexb (vt_vps v) else []) @ write_annexb (vt_sps v) @ write_annexb (vt_pps v)
      else []) @
     avcc_to_annexb (fr_data f)"

subsection \<open>The muxer\<close>

record adaptation =
  af_random_access :: bool
  af_pcr :: "int option"

datatype mux_psi = PatPsi nat nat | PmtPsi nat nat "(u8 \<times> bytes) list" "(u8 \<times> nat) list"

datatype mux_packet =
    PsiPacket nat nat mux_psi
  | PesPacket nat nat "adaptation option" ts_payload
  | RawPacket bytes

record ts_mux =
  tm_out :: "mux_packet list"
  tm_cc :: "(nat \<times> nat) list"
  tm_video :: "video_track option"
  tm_audio :: "audio_track option"
  tm_psi_written :: bool
  tm_last_psi :: "nat option"
  tm_last_pcr :: "nat option"
  tm_warned_opus :: bool
  tm_cues :: bool
  tm_pmt_version :: nat
  tm_media_clock :: bool
  tm_now_90k :: "int option"
  tm_last_psi_90k :: "int option"

definition ts_mux_new :: ts_mux where
  "ts_mux_new = \<lparr>tm_out = [], tm_cc = [], tm_video = None, tm_audio = None, tm_psi_written = False,
     tm_last_psi = None, tm_last_pcr = None, tm_warned_opus = False, tm_cues = False, tm_pmt_version = 0,
     tm_media_clock = False, tm_now_90k = None, tm_last_psi_90k = None\<rparr>"

definition with_media_clock :: ts_mux where
  "with_media_clock = ts_mux_new\<lparr>tm_media_clock := True\<rparr>"

definition cc_of :: "nat \<Rightarrow> ts_mux \<Rightarrow> nat" where
  "cc_of pid m = (case map_of (tm_cc m) pid of Some c \<Rightarrow> c | None \<Rightarrow> 0)"

definition next_cc :: "nat \<Rightarrow> ts_mux \<Rightarrow> nat \<times> ts_mux" where
  "next_cc pid m = (cc_of pid m, m\<lparr>tm_cc := AList.update pid ((cc_of pid m + 1) mod 16) (tm_cc m)\<rparr>)"

definition take_output :: "ts_mux \<Rightarrow> mux_packet list \<times> ts_mux" where
  "take_output m = (tm_out m, m\<lparr>tm_out := []\<rparr>)"

text \<open>A packet the writer refuses is lost; the answer says whether it was written.\<close>

definition write_packet :: "(mux_packet \<Rightarrow> bool) \<Rightarrow> mux_packet \<Rightarrow> ts_mux \<Rightarrow> bool \<times> ts_mux" where
  "write_packet accepts p m = (if accepts p then (True, m\<lparr>tm_out := tm_out m @ [p]\<rparr>) else (False, m))"

definition write_psi_packet :: "(mux_packet \<Rightarrow> bool) \<Rightarrow> nat \<Rightarrow> mux_psi \<Rightarrow> ts_mux \<Rightarrow> ts_mux" where
  "write_psi_packet accepts pid psi m =
     (let (cc, m) = next_cc pid m in snd (write_packet accepts (PsiPacket pid cc psi) m))"

definition write_pat :: "(mux_packet \<Rightarrow> bool) \<Rightarrow> ts_mux \<Rightarrow> ts_mux" where
  "write_pat accepts m = write_psi_packet accepts pat_pid (PatPsi 1 pmt_pid) m"

definition pmt_es_info :: "ts_mux \<Rightarrow> (u8 \<times> nat) list" where
  "pmt_es_info m =
     (case tm_video m of Some v \<Rightarrow> [(if vt_h265 v then 0x24 else 0x1B, video_pid)] | None \<Rightarrow> []) @
     (if tm_audio m \<noteq> None then [(0x0F, audio_pid)] else []) @
     (if tm_cues m then [(0x86, scte35_pid)] else [])"

definition cuei :: bytes where
  "cuei = [0x43, 0x55, 0x45, 0x49]"

definition write_pmt :: "(mux_packet \<Rightarrow> bool) \<Rightarrow> ts_mux \<Rightarrow> ts_mux" where
  "write_pmt accepts m =
     (if tm_video m = None \<and> tm_audio m = None then m
      else write_psi_packet accepts pmt_pid
        (PmtPsi (if tm_video m \<noteq> None then video_pid else audio_pid) (tm_pmt_version m)
          (if tm_cues m then [(registration_descriptor, cuei)] else []) (pmt_es_info m)) m)"

definition psi_due :: "nat \<Rightarrow> ts_mux \<Rightarrow> bool" where
  "psi_due now m =
     (if tm_media_clock m then media_interval_due (tm_last_psi_90k m) (tm_now_90k m) psi_interval_90k
      else (case tm_last_psi m of None \<Rightarrow> True | Some t \<Rightarrow> now - t \<ge> psi_interval))"

definition maybe_write_psi :: "(mux_packet \<Rightarrow> bool) \<Rightarrow> nat \<Rightarrow> bool \<Rightarrow> ts_mux \<Rightarrow> ts_mux" where
  "maybe_write_psi accepts now force m =
     (if tm_video m = None \<and> tm_audio m = None then m
      else if \<not> (\<not> tm_psi_written m \<or> force \<or> psi_due now m) then m
      else (write_pmt accepts (write_pat accepts m))
        \<lparr>tm_psi_written := True, tm_last_psi := Some now, tm_last_psi_90k := tm_now_90k m\<rparr>)"

text \<open>Sections, in packets of their own.\<close>

function section_packets :: "nat \<Rightarrow> nat \<Rightarrow> bool \<Rightarrow> bytes \<Rightarrow> bytes list" where
  "section_packets pid cc first rest =
     (if \<not> first \<and> rest = [] then []
      else (let start = (if first then 5 else 4);
                n = min (length rest) (188 - start);
                pkt = [0x47, (if first then 0x40 else 0) OR (of_nat (pid div 256) AND 0x1F), of_nat pid, 0x10 OR of_nat cc] @
                  (if first then [0] else []) @ take n rest @ replicate (188 - start - n) 0xFF
            in pkt # section_packets pid ((cc + 1) mod 16) False (drop n rest)))"
  by pat_completeness auto
termination
  by (relation "measures [\<lambda>(pid, cc, first, rest). length rest, \<lambda>(pid, cc, first, rest). if first then 1 else 0]")
    (auto split: if_splits)

declare section_packets.simps [simp del]

definition write_section :: "nat \<Rightarrow> bytes \<Rightarrow> ts_mux \<Rightarrow> ts_mux" where
  "write_section pid sec m =
     (let pkts = section_packets pid (cc_of pid m) True sec in
      m\<lparr>tm_out := tm_out m @ map RawPacket pkts,
        tm_cc := AList.update pid ((cc_of pid m + length pkts) mod 16) (tm_cc m)\<rparr>)"

definition pts_offset :: "ts_mux \<Rightarrow> int" where
  "pts_offset m = (if tm_media_clock m then media_clock_delay_90k else 0)"

definition pes_ts :: "ts_mux \<Rightarrow> int \<Rightarrow> u32 \<Rightarrow> int" where
  "pes_ts m ts timescale = (to_90k ts timescale + pts_offset m) mod 2 ^ 33"

text \<open>\<open>us_to_ticks\<close> and \<open>retime\<close> are \<open>caudal_scte35\<close>'s; a section that cannot be retimed goes out as it is.\<close>

definition mux_push_cue ::
    "(int \<Rightarrow> int) \<Rightarrow> (bytes \<Rightarrow> int \<Rightarrow> bytes option) \<Rightarrow> (mux_packet \<Rightarrow> bool) \<Rightarrow> nat \<Rightarrow> cue \<Rightarrow> ts_mux \<Rightarrow> ts_mux" where
  "mux_push_cue us_to_ticks retime accepts now c m =
     (if tm_video m = None \<and> tm_audio m = None then m
      else (let m = (if \<not> tm_cues m
                then m\<lparr>tm_cues := True, tm_pmt_version := (tm_pmt_version m + 1) mod 32, tm_psi_written := False\<rparr>
                else m);
                m = maybe_write_psi accepts now False m;
                target = (us_to_ticks (cue_at_us c) + pts_offset m) mod 2 ^ 33;
                sec = (case retime (cue_section c) target of Some s \<Rightarrow> s | None \<Rightarrow> cue_section c)
            in write_section scte35_pid sec m))"

definition set_track ::
    "(bytes \<Rightarrow> (bytes list \<times> bytes list) option) \<Rightarrow> (bytes \<Rightarrow> (u8 \<times> bytes list) list option) \<Rightarrow> track_info \<Rightarrow>
     video_track option \<times> audio_track option \<times> bool \<Rightarrow> video_track option \<times> audio_track option \<times> bool" where
  "set_track avcc hvcc t st =
     (let (video, audio, warned) = st in
      case ti_codec t of
        H264 \<Rightarrow> (case from_avcc avcc (ti_init t) of Some v \<Rightarrow> (Some v, audio, warned) | None \<Rightarrow> st)
      | H265 \<Rightarrow> (case from_hvcc hvcc (ti_init t) of Some v \<Rightarrow> (Some v, audio, warned) | None \<Rightarrow> st)
      | Aac \<Rightarrow> (case from_asc (ti_init t) of Some a \<Rightarrow> (video, Some a, warned) | None \<Rightarrow> st)
      | Opus \<Rightarrow> (video, audio, True)
      | _ \<Rightarrow> st)"

definition mux_set_tracks ::
    "(bytes \<Rightarrow> (bytes list \<times> bytes list) option) \<Rightarrow> (bytes \<Rightarrow> (u8 \<times> bytes list) list option) \<Rightarrow> track_info list \<Rightarrow>
     ts_mux \<Rightarrow> ts_mux" where
  "mux_set_tracks avcc hvcc tracks m =
     (let (video, audio, warned) = fold (set_track avcc hvcc) tracks (None, None, tm_warned_opus m) in
      m\<lparr>tm_video := video, tm_audio := audio, tm_warned_opus := warned, tm_psi_written := False\<rparr>)"

subsection \<open>Packetizing a PES\<close>

definition adaptation_field_size :: "bool \<Rightarrow> nat" where
  "adaptation_field_size has_pcr = 2 + (if has_pcr then 6 else 0)"

definition first_avail :: "pes_header \<Rightarrow> bool \<Rightarrow> int option \<Rightarrow> nat" where
  "first_avail h random_access pcr =
     188 - 4 - (if random_access \<or> pcr \<noteq> None then adaptation_field_size (pcr \<noteq> None) else 0) -
     (6 + optional_header_len h)"

text \<open>The continuation packets; \<open>data\<close> is what is left.\<close>

function write_rest :: "(mux_packet \<Rightarrow> bool) \<Rightarrow> nat \<Rightarrow> bytes \<Rightarrow> ts_mux \<Rightarrow> ts_mux" where
  "write_rest accepts pid data m =
     (if data = [] then m
      else (let n = min 184 (length data); (cc, m) = next_cc pid m;
                (ok, m) = write_packet accepts (PesPacket pid cc None (TsPesContinuation (take n data))) m
            in if ok then write_rest accepts pid (drop n data) m else m))"
  by pat_completeness auto
termination
  by (relation "measure (\<lambda>(accepts, pid, data, m). length data)") auto

declare write_rest.simps [simp del]

definition write_pes ::
    "(mux_packet \<Rightarrow> bool) \<Rightarrow> nat \<Rightarrow> pes_header \<Rightarrow> nat \<Rightarrow> bytes \<Rightarrow> bool \<Rightarrow> int option \<Rightarrow> ts_mux \<Rightarrow> ts_mux" where
  "write_pes accepts pid h packet_len data random_access pcr m =
     (let n = min (first_avail h random_access pcr) (length data);
          af = (if random_access \<or> pcr \<noteq> None then Some \<lparr>af_random_access = random_access, af_pcr = pcr\<rparr> else None);
          (cc, m) = next_cc pid m;
          p = \<lparr>ps_header = h, ps_packet_len = packet_len, ps_data = take n data\<rparr>;
          (ok, m) = write_packet accepts (PesPacket pid cc af (TsPesStart p)) m
      in if ok then write_rest accepts pid (drop n data) m else m)"

definition write_video :: "(mux_packet \<Rightarrow> bool) \<Rightarrow> track_info \<Rightarrow> frame \<Rightarrow> int option \<Rightarrow> ts_mux \<Rightarrow> ts_mux" where
  "write_video accepts info f pcr m =
     (case tm_video m of
        None \<Rightarrow> m
      | Some v \<Rightarrow>
         (let payload = video_payload v f;
              pts90 = nat (pes_ts m (fr_pts f) (ti_timescale info));
              dts90 = nat (pes_ts m (fr_dts f) (ti_timescale info));
              h = \<lparr>ph_pts = Some pts90, ph_dts = (if dts90 \<noteq> pts90 then Some dts90 else None), ph_escr = None\<rparr>;
              total = optional_header_len h + length payload
          in write_pes accepts video_pid h (if total < 2 ^ 16 then total else 0) payload (fr_keyframe f) pcr m))"

text \<open>The sum of the audio packet length is a \<open>u16\<close>: it panics or wraps.\<close>

definition checked_u16 :: "profile \<Rightarrow> nat \<Rightarrow> nat option" where
  "checked_u16 p n = (if n < 2 ^ 16 then Some n else (case p of Debug \<Rightarrow> None | Release \<Rightarrow> Some (n mod 2 ^ 16)))"

definition write_audio ::
    "profile \<Rightarrow> (mux_packet \<Rightarrow> bool) \<Rightarrow> track_info \<Rightarrow> frame \<Rightarrow> int option \<Rightarrow> ts_mux \<Rightarrow> ts_mux option" where
  "write_audio p accepts info f pcr m =
     (case tm_audio m of
        None \<Rightarrow> Some m
      | Some a \<Rightarrow> do {
          let payload = adts_header (length (fr_data f)) (at_profile a) (at_sampling_freq_idx a) (at_channel_config a) @ fr_data f;
          let h = \<lparr>ph_pts = Some (nat (pes_ts m (fr_pts f) (ti_timescale info))), ph_dts = None, ph_escr = None\<rparr>;
          packet_len \<leftarrow> checked_u16 p (optional_header_len h + length payload mod 2 ^ 16);
          Some (write_pes accepts audio_pid h packet_len payload False pcr m) })"

definition is_pcr_track :: "track_kind \<Rightarrow> ts_mux \<Rightarrow> bool" where
  "is_pcr_track kind m = (case kind of Video \<Rightarrow> True | Audio \<Rightarrow> tm_video m = None | _ \<Rightarrow> False)"

definition due_pcr :: "nat \<Rightarrow> int \<Rightarrow> ts_mux \<Rightarrow> int option \<times> ts_mux" where
  "due_pcr now media_90k m =
     (if tm_media_clock m then (Some (media_90k * 300), m)
      else if (case tm_last_pcr m of None \<Rightarrow> True | Some t \<Rightarrow> now - t \<ge> pcr_interval)
      then (Some (media_90k * 300), m\<lparr>tm_last_pcr := Some now\<rparr>)
      else (None, m))"

definition mux_push_frame ::
    "profile \<Rightarrow> (mux_packet \<Rightarrow> bool) \<Rightarrow> nat \<Rightarrow> track_info \<Rightarrow> frame \<Rightarrow> ts_mux \<Rightarrow> ts_mux option" where
  "mux_push_frame p accepts now info f m =
     (let kind = track_kind_of info; at = to_90k (fr_dts f) (ti_timescale info);
          m = (if tm_media_clock m then m\<lparr>tm_now_90k := Some at\<rparr> else m);
          m = maybe_write_psi accepts now (fr_keyframe f \<and> kind = Video) m;
          (pcr, m) = (if is_pcr_track kind m then due_pcr now at m else (None, m))
      in case kind of
           Video \<Rightarrow> Some (write_video accepts info f pcr m)
         | Audio \<Rightarrow> if ti_codec info = Aac then write_audio p accepts info f pcr m else Some m
         | _ \<Rightarrow> Some m)"

end
