(* ===== verification/Scte35.thy ===== *)
theory Scte35
  imports Media Net "HOL-Library.Monad_Syntax"
begin

text \<open>
  \<open>crates/caudal-scte35/src/lib.rs\<close>: what a \<open>splice_info_section\<close> says, in the terms of this program.
  The byte format is the \<open>scte35-splice\<close> crate's: \<open>decode\<close> and \<open>encode\<close> are arguments, a section is
  its fields (\<open>splice_section\<close>). A \<open>u64\<close> tick count is a \<open>nat\<close>; the cast \<open>as i64\<close> wraps.
\<close>

subsection \<open>Data\<close>

datatype scte_error = InvalidSection string | NotHex

record splice =
  sp_kind :: cue_kind
  sp_pts_90k :: "nat option"

datatype scte_command = CmdTimeSignal | CmdSpliceInsert

record splice_insert =
  si_event_id :: nat
  si_cancel :: bool
  si_out_of_network :: bool
  si_immediate :: bool
  si_splice_time :: "nat option option"
  si_break_duration :: "nat option"

datatype splice_command = SpliceInsert splice_insert | TimeSignal "nat option" | OtherCommand

record segmentation =
  sd_event_id :: nat
  sd_cancel :: bool
  sd_type :: nat
  sd_duration :: "nat option"

record splice_section =
  ses_pts_adjustment :: nat
  ses_clear :: "splice_command option"
  ses_descriptors :: "segmentation option list"

text \<open>A descriptor that is no segmentation descriptor, or does not parse, is \<open>None\<close>.\<close>

definition pts_mask :: nat where "pts_mask = 2 ^ 33 - 1"

definition out_types :: "nat list" where "out_types = [0x22, 0x30, 0x32, 0x34, 0x36, 0x44, 0x46]"

definition in_types :: "nat list" where "in_types = [0x23, 0x31, 0x33, 0x35, 0x37, 0x45, 0x47]"

subsection \<open>Ticks\<close>

definition ticks_to_us :: "int \<Rightarrow> int" where
  "ticks_to_us t = wrap64 ((t * 1000000) div 90000)"

definition us_to_ticks :: "int \<Rightarrow> int" where
  "us_to_ticks us = wrap64 ((us * 90000 + 999999) div 1000000)"

subsection \<open>Parsing\<close>

fun segmentation_kind :: "segmentation option list \<Rightarrow> cue_kind" where
  "segmentation_kind [] = CueOther"
| "segmentation_kind (None # ds) = segmentation_kind ds"
| "segmentation_kind (Some seg # ds) =
     (if sd_cancel seg then segmentation_kind ds
      else if sd_type seg \<in> set out_types then CueOut (map_option (\<lambda>d. ticks_to_us (wrap64 (int d))) (sd_duration seg))
      else if sd_type seg \<in> set in_types then CueIn
      else segmentation_kind ds)"

definition adjust_pts :: "splice_section \<Rightarrow> nat option \<Rightarrow> nat option" where
  "adjust_pts s t = map_option (\<lambda>p. (p + ses_pts_adjustment s) mod 2 ^ 33) t"

definition splice_of :: "splice_section \<Rightarrow> splice" where
  "splice_of s =
     (case ses_clear s of
        None \<Rightarrow> \<lparr>sp_kind = CueOther, sp_pts_90k = None\<rparr>
      | Some (SpliceInsert i) \<Rightarrow>
          \<lparr>sp_kind = (if si_cancel i then CueOther
             else if si_out_of_network i
             then CueOut (map_option (\<lambda>d. ticks_to_us (wrap64 (int d))) (si_break_duration i))
             else CueIn),
           sp_pts_90k = adjust_pts s (if si_immediate i then None else Option.bind (si_splice_time i) id)\<rparr>
      | Some (TimeSignal t) \<Rightarrow> \<lparr>sp_kind = segmentation_kind (ses_descriptors s), sp_pts_90k = adjust_pts s t\<rparr>
      | Some OtherCommand \<Rightarrow> \<lparr>sp_kind = CueOther, sp_pts_90k = None\<rparr>)"

definition scte_parse :: "(bytes \<Rightarrow> string + splice_section) \<Rightarrow> bytes \<Rightarrow> scte_error + splice" where
  "scte_parse decode b = (case decode b of Inl e \<Rightarrow> Inl (InvalidSection e) | Inr s \<Rightarrow> Inr (splice_of s))"

subsection \<open>Building\<close>

text \<open>\<open>u64::try_from\<close> refuses a negative duration.\<close>

definition cue_ticks :: "int option \<Rightarrow> scte_error + nat option" where
  "cue_ticks us =
     (case us of
        None \<Rightarrow> Inr None
      | Some us \<Rightarrow> if us_to_ticks us < 0 then Inl (InvalidSection ''out of range'') else Inr (Some (nat (us_to_ticks us))))"

definition build_section :: "cue_kind \<Rightarrow> nat option \<Rightarrow> nat \<Rightarrow> scte_command \<Rightarrow> scte_error + splice_section" where
  "build_section kind pts_90k event_id command =
     (let time = map_option (\<lambda>p. p mod 2 ^ 33) pts_90k in
      case kind of
        CueOther \<Rightarrow> Inr \<lparr>ses_pts_adjustment = 0, ses_clear = Some (TimeSignal time), ses_descriptors = []\<rparr>
      | _ \<Rightarrow>
         (case cue_ticks (case kind of CueOut us \<Rightarrow> us | _ \<Rightarrow> None) of
            Inl e \<Rightarrow> Inl e
          | Inr duration \<Rightarrow>
             (case command of
                CmdSpliceInsert \<Rightarrow>
                  Inr \<lparr>ses_pts_adjustment = 0, ses_clear = Some (SpliceInsert
                        \<lparr>si_event_id = event_id, si_cancel = False, si_out_of_network = (kind \<noteq> CueIn),
                         si_immediate = (pts_90k = None), si_splice_time = map_option (\<lambda>_. time) pts_90k,
                         si_break_duration = duration\<rparr>),
                      ses_descriptors = []\<rparr>
              | CmdTimeSignal \<Rightarrow>
                  Inr \<lparr>ses_pts_adjustment = 0, ses_clear = Some (TimeSignal time),
                      ses_descriptors = [Some \<lparr>sd_event_id = event_id, sd_cancel = False,
                        sd_type = (if kind \<noteq> CueIn then 0x34 else 0x35), sd_duration = duration\<rparr>]\<rparr>)))"

definition scte_build ::
    "(splice_section \<Rightarrow> string + bytes) \<Rightarrow> cue_kind \<Rightarrow> nat option \<Rightarrow> nat \<Rightarrow> scte_command \<Rightarrow> scte_error + bytes" where
  "scte_build encode kind pts_90k event_id command =
     (case build_section kind pts_90k event_id command of
        Inl e \<Rightarrow> Inl e
      | Inr s \<Rightarrow> (case encode s of Inl e \<Rightarrow> Inl (InvalidSection e) | Inr b \<Rightarrow> Inr b))"

definition section_pts :: "splice_section \<Rightarrow> nat option" where
  "section_pts s =
     (case ses_clear s of
        Some (SpliceInsert i) \<Rightarrow> if si_immediate i then None else Option.bind (si_splice_time i) id
      | Some (TimeSignal t) \<Rightarrow> t
      | _ \<Rightarrow> None)"

definition scte_retime ::
    "(bytes \<Rightarrow> string + splice_section) \<Rightarrow> (splice_section \<Rightarrow> string + bytes) \<Rightarrow> bytes \<Rightarrow> nat \<Rightarrow> scte_error + bytes" where
  "scte_retime decode encode b target =
     (case decode b of
        Inl e \<Rightarrow> Inl (InvalidSection e)
      | Inr s \<Rightarrow>
         (case section_pts s of
            None \<Rightarrow> Inr b
          | Some pts \<Rightarrow>
             (case encode (s\<lparr>ses_pts_adjustment := nat ((int target - int pts) mod 2 ^ 33)\<rparr>) of
                Inl e \<Rightarrow> Inl (InvalidSection e)
              | Inr b' \<Rightarrow> Inr b')))"

subsection \<open>Text forms\<close>

definition hex_upper :: "int \<Rightarrow> char" where
  "hex_upper d = (if d < 10 then char_of (48 + d) else char_of (55 + d))"

definition to_hex :: "bytes \<Rightarrow> string" where
  "to_hex b = ''0x'' @ concat (map (\<lambda>w. [hex_upper (uint w div 16), hex_upper (uint w mod 16)]) b)"

fun hex_decode :: "string \<Rightarrow> bytes option" where
  "hex_decode [] = Some []"
| "hex_decode [c] = None"
| "hex_decode (c # d # s) = do {
     h \<leftarrow> hex_digit c;
     l \<leftarrow> hex_digit d;
     rest \<leftarrow> hex_decode s;
     Some (word_of_int (h * 16 + l) # rest) }"

definition from_hex :: "string \<Rightarrow> scte_error + bytes" where
  "from_hex s =
     (let s = trim s;
          s = (case strip_prefix ''0x'' s of Some r \<Rightarrow> r
            | None \<Rightarrow> (case strip_prefix ''0X'' s of Some r \<Rightarrow> r | None \<Rightarrow> s))
      in case hex_decode s of Some b \<Rightarrow> Inr b | None \<Rightarrow> Inl NotHex)"

definition decode_text ::
    "(string \<Rightarrow> bytes option) \<Rightarrow> (bytes \<Rightarrow> string + splice_section) \<Rightarrow> string \<Rightarrow> (bytes \<times> splice) option" where
  "decode_text base64 decode s = do {
     let s = trim s;
     b \<leftarrow> (case from_hex s of Inr b \<Rightarrow> Some b | Inl _ \<Rightarrow> base64 s);
     splice \<leftarrow> (case scte_parse decode b of Inr x \<Rightarrow> Some x | Inl _ \<Rightarrow> None);
     Some (b, splice) }"

subsection \<open>Lemmas\<close>

lemma us_ticks_roundtrip:
  assumes "in_i64 ((t * 1000000) div 90000)" and "in_i64 t"
  shows "us_to_ticks (ticks_to_us t) = t"
proof -
  let ?us = "(t * 1000000) div 90000"
  let ?r = "(t * 1000000) mod 90000"
  have "?us * 90000 + 999999 = t * 1000000 + (999999 - ?r)"
    using div_mult_mod_eq [of "t * 1000000" 90000] by linarith
  moreover have "(999999 - ?r) div 1000000 = 0"
    by (rule div_pos_pos_trivial) (use pos_mod_bound [of 90000 "t * 1000000"] in auto)
  ultimately have "(?us * 90000 + 999999) div 1000000 = t"
    by simp
  with assms show ?thesis by (simp add: us_to_ticks_def ticks_to_us_def wrap64_id)
qed

lemma hex_digit_upper: "0 \<le> d \<Longrightarrow> d < 16 \<Longrightarrow> hex_digit (hex_upper d) = Some d"
  by (auto simp: hex_digit_def hex_upper_def byte_of_def Let_def)

lemma hex_decode_encode:
  "hex_decode (concat (map (\<lambda>w. [hex_upper (uint w div 16), hex_upper (uint w mod 16)]) b)) = Some b"
proof (induction b)
  case (Cons w b)
  have "uint w < 256"
    using uint_bounded [of w] by simp
  then have "hex_digit (hex_upper (uint w div 16)) = Some (uint w div 16)"
      "hex_digit (hex_upper (uint w mod 16)) = Some (uint w mod 16)"
    by (auto intro!: hex_digit_upper simp: pos_imp_zdiv_nonneg_iff)
  moreover have "(word_of_int (uint w div 16) * 16 + word_of_int (uint w mod 16) :: 8 word) = w"
    by (metis (no_types) div_mult_mod_eq of_int_add of_int_mult of_int_numeral word_of_int_uint)
  ultimately show ?case using Cons by simp
qed simp

lemma from_hex_to_hex: "hex_decode (drop 2 (to_hex b)) = Some b"
  by (simp add: to_hex_def hex_decode_encode)

definition codec_law :: "(splice_section \<Rightarrow> string + bytes) \<Rightarrow> (bytes \<Rightarrow> string + splice_section) \<Rightarrow> bool" where
  "codec_law encode decode \<longleftrightarrow> (\<forall>s b. encode s = Inr b \<longrightarrow> decode b = Inr s)"

lemma cue_ticks_duration:
  assumes "cue_ticks us = Inr d"
  shows "map_option (\<lambda>d. ticks_to_us (wrap64 (int d))) d = map_option (\<lambda>u. ticks_to_us (us_to_ticks u)) us"
  using assms by (auto simp: cue_ticks_def us_to_ticks_def split: option.splits if_splits)

fun carried_kind :: "cue_kind \<Rightarrow> cue_kind" where
  "carried_kind (CueOut us) = CueOut (map_option (\<lambda>u. ticks_to_us (us_to_ticks u)) us)"
| "carried_kind CueIn = CueIn"
| "carried_kind CueOther = CueOther"

lemma build_section_splice:
  assumes "build_section kind pts event_id command = Inr s"
  shows "splice_of s = \<lparr>sp_kind = carried_kind kind, sp_pts_90k = map_option (\<lambda>p. p mod 2 ^ 33) pts\<rparr>"
proof (cases kind)
  case CueOther
  with assms show ?thesis by (auto simp: build_section_def splice_of_def adjust_pts_def option.map_comp comp_def)
next
  case CueIn
  with assms show ?thesis
    by (cases command; cases pts)
      (auto simp: build_section_def splice_of_def adjust_pts_def cue_ticks_def out_types_def in_types_def)
next
  case (CueOut us)
  with assms obtain d where d: "cue_ticks us = Inr d"
    by (auto simp: build_section_def Let_def split: sum.splits)
  with assms CueOut cue_ticks_duration [OF d] show ?thesis
    by (cases command; cases pts) (auto simp: build_section_def splice_of_def adjust_pts_def out_types_def)
qed

lemma splice_of_retimed:
  assumes "section_pts s = Some pts" and "target < 2 ^ 33"
  shows "splice_of (s\<lparr>ses_pts_adjustment := nat ((int target - int pts) mod 2 ^ 33)\<rparr>) = (splice_of s)\<lparr>sp_pts_90k := Some target\<rparr>"
proof -
  have "int ((pts + nat ((int target - int pts) mod 2 ^ 33)) mod 2 ^ 33) = (int pts + (int target - int pts)) mod 2 ^ 33"
    unfolding zmod_int by (simp add: mod_add_right_eq)
  also have "\<dots> = int target"
    using assms(2) by simp
  finally have "(pts + nat ((int target - int pts) mod 2 ^ 33)) mod 2 ^ 33 = target"
    by linarith
  with assms(1) show ?thesis
    by (auto simp: section_pts_def splice_of_def adjust_pts_def split: option.splits splice_command.splits if_splits)
qed

subsection \<open>Properties\<close>

text \<open>
  Claim C17. A section this program builds says what it was built from: parsed again, whichever of the
  two commands carries it, it has the same kind of cue and the same splice time on the 33-bit clock (or
  none, for an immediate cue), and its break duration rounded up to a tick.
\<close>

theorem scte_build_parses:
  assumes "codec_law encode decode" and "scte_build encode kind pts event_id command = Inr b"
  shows "scte_parse decode b = Inr \<lparr>sp_kind = carried_kind kind, sp_pts_90k = map_option (\<lambda>p. p mod 2 ^ 33) pts\<rparr>"
proof -
  from assms(2) obtain s where s: "build_section kind pts event_id command = Inr s" "encode s = Inr b"
    by (auto simp: scte_build_def split: sum.splits)
  with assms(1) have "decode b = Inr s" by (simp add: codec_law_def)
  with build_section_splice [OF s(1)] show ?thesis by (simp add: scte_parse_def)
qed

definition demo_section :: splice_section where
  "demo_section = \<lparr>ses_pts_adjustment = 0, ses_clear = Some (TimeSignal (Some 90000)),
     ses_descriptors = [Some \<lparr>sd_event_id = 7, sd_cancel = False, sd_type = 0x34, sd_duration = Some 2700000\<rparr>]\<rparr>"

definition demo_retimed :: splice_section where
  "demo_retimed = demo_section\<lparr>ses_pts_adjustment := 2 ^ 33 - 80000\<rparr>"

definition demo_encode :: "splice_section \<Rightarrow> string + bytes" where
  "demo_encode s = (if s = demo_section then Inr [0xFC] else if s = demo_retimed then Inr [0xFC, 0] else Inl ''no'')"

definition demo_decode :: "bytes \<Rightarrow> string + splice_section" where
  "demo_decode b = (if b = [0xFC] then Inr demo_section else if b = [0xFC, 0] then Inr demo_retimed else Inl ''no'')"

lemma demo_codec: "codec_law demo_encode demo_decode"
  by (auto simp: codec_law_def demo_encode_def demo_decode_def split: if_splits)

theorem scte_build_parses_witness:
  "scte_parse demo_decode [0xFC] = Inr \<lparr>sp_kind = carried_kind (CueOut (Some 30000000)), sp_pts_90k = Some 90000\<rparr>"
proof -
  have "us_to_ticks 30000000 = 2700000"
    by (simp add: us_to_ticks_def wrap64_def)
  then have "build_section (CueOut (Some 30000000)) (Some 90000) 7 CmdTimeSignal = Inr demo_section"
    by (simp add: build_section_def cue_ticks_def demo_section_def)
  then have "scte_build demo_encode (CueOut (Some 30000000)) (Some 90000) 7 CmdTimeSignal = Inr [0xFC]"
    by (simp add: scte_build_def demo_encode_def)
  from scte_build_parses [OF demo_codec this] show ?thesis by simp
qed

text \<open>
  Retiming a section for another clock moves its splice time exactly to the target and
  changes nothing else it says, across the wrap of the 33-bit clock; a section without a splice time
  comes back byte for byte.
\<close>

theorem scte_retime_lands:
  assumes "codec_law encode decode" and "decode b = Inr s" and "target < 2 ^ 33"
    and "scte_retime decode encode b target = Inr b'"
  shows "case section_pts s of
      None \<Rightarrow> b' = b
    | Some _ \<Rightarrow> scte_parse decode b' = Inr ((splice_of s)\<lparr>sp_pts_90k := Some target\<rparr>)"
proof (cases "section_pts s")
  case None
  with assms show ?thesis by (simp add: scte_retime_def)
next
  case (Some pts)
  let ?s = "s\<lparr>ses_pts_adjustment := nat ((int target - int pts) mod 2 ^ 33)\<rparr>"
  from assms(2,4) Some have "encode ?s = Inr b'"
    by (auto simp: scte_retime_def split: sum.splits)
  with assms(1) have "decode b' = Inr ?s" by (simp add: codec_law_def)
  then show ?thesis
    using splice_of_retimed [OF Some assms(3)] by (simp add: scte_parse_def Some)
qed

theorem scte_retime_lands_witness:
  "map_sum (\<lambda>_. ()) sp_pts_90k (scte_parse demo_decode [0xFC, 0]) = Inr (Some 10000)"
proof -
  have pts: "section_pts demo_section = Some 90000"
    by (simp add: section_pts_def demo_section_def)
  have "demo_retimed \<noteq> demo_section"
    by (simp add: demo_retimed_def demo_section_def)
  then have "demo_encode (demo_section\<lparr>ses_pts_adjustment := nat ((int 10000 - int 90000) mod 2 ^ 33)\<rparr>) = Inr [0xFC, 0]"
    by (simp add: demo_encode_def demo_retimed_def)
  then have "scte_retime demo_decode demo_encode [0xFC] 10000 = Inr [0xFC, 0]"
    by (simp add: scte_retime_def demo_decode_def pts)
  from scte_retime_lands [OF demo_codec _ _ this, of demo_section] pts show ?thesis
    by (simp add: demo_decode_def)
qed

end
