(* ===== verification/Ts_Timeline.thy ===== *)
theory Ts_Timeline
  imports Ts_Mux Scte35
begin

text \<open>
  \<open>crates/caudal-ts/src/demux.rs\<close>: elementary stream units to frames. Wire timestamps are \<open>nat\<close>, the
  extended clocks \<open>int\<close> (a sum of one 33-bit difference per unit stays far inside \<open>i64\<close>). What other
  crates do is an argument (\<open>es_codecs\<close>): encoding the \<open>avcC\<close> and \<open>hvcC\<close> records (\<open>mp4-atom\<close>) and
  reading the picture size from a parameter set (\<open>scuffle\<close>); \<open>scte_decode\<close> is the section decoder
  behind \<open>caudal_scte35::parse\<close>.
\<close>

unbundle bit_operations_syntax

subsection \<open>The 33-bit clock\<close>

definition video_track_id :: track_id where "video_track_id = TrackId 0"
definition audio_track_id :: track_id where "audio_track_id = TrackId 1"

definition wrapped_diff :: "nat \<Rightarrow> nat \<Rightarrow> int" where
  "wrapped_diff a b =
     (let diff = int (a mod 2 ^ 33) - int (b mod 2 ^ 33) in
      if diff < - (2 ^ 32) then diff + 2 ^ 33 else if diff > 2 ^ 32 then diff - 2 ^ 33 else diff)"

record ts_clock =
  tc_last_raw :: "nat option"
  tc_absolute :: int

definition ts_clock_default :: ts_clock where
  "ts_clock_default = \<lparr>tc_last_raw = None, tc_absolute = 0\<rparr>"

definition clock_extend :: "nat \<Rightarrow> ts_clock \<Rightarrow> int \<times> ts_clock" where
  "clock_extend raw c =
     (let abs = (case tc_last_raw c of
            None \<Rightarrow> wrap64 (int raw)
          | Some l \<Rightarrow> tc_absolute c + wrapped_diff raw l)
      in (abs, \<lparr>tc_last_raw = Some raw, tc_absolute = abs\<rparr>))"

subsection \<open>Annex B and AVCC\<close>

text \<open>The scan for start codes; a mark is where a code begins.\<close>

function annexb_marks :: "bytes \<Rightarrow> nat \<Rightarrow> nat list" where
  "annexb_marks data i =
     (if i + 2 < length data
      then if data ! i = 0 \<and> data ! (i + 1) = 0 \<and> data ! (i + 2) = 1
        then i # annexb_marks data (i + 3) else annexb_marks data (i + 1)
      else [])"
  by pat_completeness auto
termination
  by (relation "measure (\<lambda>(data, i). length data - i)") auto

declare annexb_marks.simps [simp del]

fun cut_nals :: "bytes \<Rightarrow> nat list \<Rightarrow> bytes list" where
  "cut_nals data [] = []"
| "cut_nals data (m # ms) =
     (let payload_begin = m + 3; end = (case ms of [] \<Rightarrow> length data | m' # _ \<Rightarrow> m') in
      (if payload_begin < end then [take (end - payload_begin) (drop payload_begin data)] else []) @ cut_nals data ms)"

definition split_annexb :: "bytes \<Rightarrow> bytes list" where
  "split_annexb data = cut_nals data (annexb_marks data 0)"

definition push_avcc_nal :: "bytes \<Rightarrow> bytes \<Rightarrow> bytes" where
  "push_avcc_nal out nal = out @ to_be32 (length nal mod 2 ^ 32) @ nal"

subsection \<open>ADTS\<close>

record adts =
  ad_header_len :: nat
  ad_frame_len :: nat
  ad_profile :: u8
  ad_sampling_frequency_index :: u8
  ad_channel_configuration :: u8
  ad_sample_rate :: u32
  ad_channels :: u8

definition adts_sample_rates :: "u32 list" where
  "adts_sample_rates =
     [96000, 88200, 64000, 48000, 44100, 32000, 24000, 22050, 16000, 12000, 11025, 8000, 7350]"

definition adts_parse :: "bytes \<Rightarrow> adts option" where
  "adts_parse data =
     (if length data < 7 \<or> data ! 0 \<noteq> 0xFF \<or> (data ! 1) AND 0xF0 \<noteq> 0xF0 then None
      else (let protection_absent = ((data ! 1) AND 0x01 \<noteq> 0);
                sfi = drop_bit 2 ((data ! 2) AND 0x3C);
                channel = push_bit 2 ((data ! 2) AND 0x01) OR drop_bit 6 ((data ! 3) AND 0xC0);
                frame_len = unat ((data ! 3) AND 0x03) * 2048 + unat (data ! 4) * 8 + unat (data ! 5) div 32
            in if unat sfi \<ge> length adts_sample_rates then None
               else if channel = 0 then None
               else Some \<lparr>ad_header_len = (if protection_absent then 7 else 9), ad_frame_len = frame_len,
                  ad_profile = drop_bit 6 ((data ! 2) AND 0xC0), ad_sampling_frequency_index = sfi,
                  ad_channel_configuration = channel, ad_sample_rate = adts_sample_rates ! unat sfi,
                  ad_channels = (if channel = 7 then 8 else channel)\<rparr>))"

definition audio_specific_config :: "adts \<Rightarrow> bytes" where
  "audio_specific_config a =
     (let n = push_bit 11 ((ucast (ad_profile a) + 1 :: u16) AND 0x1F) OR
              push_bit 7 (ucast (ad_sampling_frequency_index a AND 0x0F)) OR
              push_bit 3 (ucast (ad_channel_configuration a AND 0x0F))
      in [ucast (drop_bit 8 n), ucast n])"

subsection \<open>The demuxer\<close>

record es_video_state =
  vs_sps :: "bytes option"
  vs_pps :: "bytes option"
  vs_vps :: "bytes option"
  vs_init :: "bytes option"

record es_audio_state =
  as_sample_rate :: u32
  as_asc :: "bytes option"

record demuxer =
  dm_zero_point :: "int option"
  dm_video_clock :: ts_clock
  dm_audio_clock :: ts_clock
  dm_video :: "es_video_state option"
  dm_audio :: "es_audio_state option"

datatype demux_event =
    DeVideoInit track_info | DeVideoFrame frame | DeAudioInit track_info | DeAudioFrame frame | DeCue cue

text \<open>The fields of \<open>mp4_atom::Hvcc\<close> the code sets; its arrays are (completeness, NAL type, NALs).\<close>

record hvcc =
  hv_general_profile_space :: u8
  hv_general_tier_flag :: bool
  hv_general_profile_idc :: u8
  hv_general_profile_compatibility_flags :: bytes
  hv_general_constraint_indicator_flags :: bytes
  hv_general_level_idc :: u8
  hv_length_size_minus_one :: u8
  hv_num_temporal_layers :: u8
  hv_temporal_id_nested :: bool
  hv_arrays :: "(bool \<times> u8 \<times> bytes list) list"

record es_codecs =
  ec_avcc :: "bytes \<Rightarrow> bytes \<Rightarrow> bytes option"
  ec_hvcc :: "hvcc \<Rightarrow> bytes option"
  ec_h264_dimensions :: "bytes \<Rightarrow> (u32 \<times> u32) option"
  ec_h265_dimensions :: "bytes \<Rightarrow> (u32 \<times> u32) option"

definition demuxer_new :: demuxer where
  "demuxer_new = \<lparr>dm_zero_point = None, dm_video_clock = ts_clock_default, dm_audio_clock = ts_clock_default,
     dm_video = None, dm_audio = None\<rparr>"

text \<open>\<open>Option::get_or_insert\<close> on the zero point.\<close>

definition zero_or :: "int \<Rightarrow> demuxer \<Rightarrow> int \<times> demuxer" where
  "zero_or t d = (case dm_zero_point d of Some z \<Rightarrow> (z, d) | None \<Rightarrow> (t, d\<lparr>dm_zero_point := Some t\<rparr>))"

definition consume_cue ::
    "(bytes \<Rightarrow> string + splice_section) \<Rightarrow> es_unit \<Rightarrow> demuxer \<Rightarrow> demux_event list \<times> demuxer" where
  "consume_cue scte_decode unit d =
     (case scte_parse scte_decode (eu_data unit) of
        Inl e \<Rightarrow> ([], d)
      | Inr sp \<Rightarrow>
         (let clock = find (\<lambda>c. tc_last_raw c \<noteq> None) [dm_video_clock d, dm_audio_clock d];
              ticks = (case (sp_pts_90k sp, clock) of
                  (Some p, Some c) \<Rightarrow> tc_absolute c + wrapped_diff p (case tc_last_raw c of Some r \<Rightarrow> r | None \<Rightarrow> 0)
                | (None, Some c) \<Rightarrow> tc_absolute c
                | (Some p, None) \<Rightarrow> wrap64 (int p)
                | (None, None) \<Rightarrow> (case dm_zero_point d of Some z \<Rightarrow> z | None \<Rightarrow> 0));
              (zero, d) = zero_or ticks d
          in ([DeCue \<lparr>cue_at_us = ticks_to_us (ticks - zero), cue_section = eu_data unit, cue_kind_of = sp_kind sp\<rparr>], d)))"

definition video_timestamps :: "es_unit \<Rightarrow> demuxer \<Rightarrow> (int \<times> int) \<times> demuxer" where
  "video_timestamps unit d =
     (let raw_dts = (case eu_dts unit of Some t \<Rightarrow> t | None \<Rightarrow> (case eu_pts unit of Some t \<Rightarrow> t | None \<Rightarrow> 0));
          raw_pts = (case eu_pts unit of Some t \<Rightarrow> t | None \<Rightarrow> raw_dts);
          (dts_abs, clock) = clock_extend raw_dts (dm_video_clock d);
          pts_abs = dts_abs + wrapped_diff raw_pts raw_dts;
          (zero, d) = zero_or dts_abs (d\<lparr>dm_video_clock := clock\<rparr>)
      in ((dts_abs - zero, pts_abs - zero), d))"

definition audio_timestamp_90k :: "es_unit \<Rightarrow> demuxer \<Rightarrow> int \<times> demuxer" where
  "audio_timestamp_90k unit d =
     (let raw = (case eu_pts unit of Some t \<Rightarrow> t | None \<Rightarrow> (case eu_dts unit of Some t \<Rightarrow> t | None \<Rightarrow> 0));
          (abs, clock) = clock_extend raw (dm_audio_clock d);
          (zero, d) = zero_or abs (d\<lparr>dm_audio_clock := clock\<rparr>)
      in (abs - zero, d))"

text \<open>One NAL of an access unit: parameter sets are kept, delimiters dropped, the rest is data.\<close>

definition h265_nal :: "bytes \<Rightarrow> es_video_state \<times> bytes \<times> bool \<Rightarrow> es_video_state \<times> bytes \<times> bool" where
  "h265_nal nal st =
     (let (s, data, keyframe) = st; ty = drop_bit 1 (hd nal) AND 0x3F in
      if length nal < 2 then st
      else if ty = 32 then (s\<lparr>vs_vps := Some nal\<rparr>, data, keyframe)
      else if ty = 33 then (s\<lparr>vs_sps := Some nal\<rparr>, data, keyframe)
      else if ty = 34 then (s\<lparr>vs_pps := Some nal\<rparr>, data, keyframe)
      else if ty = 35 then st
      else if 16 \<le> ty \<and> ty \<le> 21 then (s, push_avcc_nal data nal, True)
      else (s, push_avcc_nal data nal, keyframe))"

definition h264_nal :: "bytes \<Rightarrow> es_video_state \<times> bytes \<times> bool \<Rightarrow> es_video_state \<times> bytes \<times> bool" where
  "h264_nal nal st =
     (let (s, data, keyframe) = st; ty = hd nal AND 0x1F in
      if ty = 7 then (s\<lparr>vs_sps := Some nal\<rparr>, data, keyframe)
      else if ty = 8 then (s\<lparr>vs_pps := Some nal\<rparr>, data, keyframe)
      else if ty = 9 then st
      else if ty = 5 then (s, push_avcc_nal data nal, True)
      else (s, push_avcc_nal data nal, keyframe))"

definition consume_nal :: "bool \<Rightarrow> bytes \<Rightarrow> es_video_state \<times> bytes \<times> bool \<Rightarrow> es_video_state \<times> bytes \<times> bool" where
  "consume_nal h265 nal st = (if nal = [] then st else if h265 then h265_nal nal st else h264_nal nal st)"

definition build_hvcc :: "es_codecs \<Rightarrow> bytes \<Rightarrow> bytes \<Rightarrow> bytes \<Rightarrow> bytes option" where
  "build_hvcc ec vps sps pps =
     (if length sps < 15 then None
      else ec_hvcc ec
        \<lparr>hv_general_profile_space = drop_bit 6 ((sps ! 3) AND 0xC0),
         hv_general_tier_flag = ((sps ! 3) AND 0x20 \<noteq> 0),
         hv_general_profile_idc = (sps ! 3) AND 0x1F,
         hv_general_profile_compatibility_flags = take 4 (drop 4 sps),
         hv_general_constraint_indicator_flags = take 6 (drop 8 sps),
         hv_general_level_idc = sps ! 14,
         hv_length_size_minus_one = 3,
         hv_num_temporal_layers = 1,
         hv_temporal_id_nested = True,
         hv_arrays = [(True, 32, [vps]), (True, 33, [sps]), (True, 34, [pps])]\<rparr>)"

definition video_init :: "es_codecs \<Rightarrow> bool \<Rightarrow> es_video_state \<Rightarrow> bytes option" where
  "video_init ec h265 s = do {
     sps \<leftarrow> vs_sps s;
     pps \<leftarrow> vs_pps s;
     (if h265 then do { vps \<leftarrow> vs_vps s; build_hvcc ec vps sps pps } else ec_avcc ec sps pps) }"

definition video_track_info :: "es_codecs \<Rightarrow> bool \<Rightarrow> es_video_state \<Rightarrow> bytes \<Rightarrow> track_info" where
  "video_track_info ec h265 s init =
     (let dims = (case vs_sps s of Some sps \<Rightarrow> if h265 then ec_h265_dimensions ec sps else ec_h264_dimensions ec sps
              | None \<Rightarrow> None);
          (width, height) = (case dims of Some wh \<Rightarrow> wh | None \<Rightarrow> (0, 0))
      in \<lparr>ti_id = video_track_id, ti_codec = (if h265 then H265 else H264), ti_timescale = 90000, ti_init = init,
          ti_lang = None, ti_video = Some \<lparr>vp_width = width, vp_height = height, vp_fps = None\<rparr>, ti_audio = None\<rparr>)"

definition consume_video :: "es_codecs \<Rightarrow> es_unit \<Rightarrow> demuxer \<Rightarrow> demux_event list \<times> demuxer" where
  "consume_video ec unit d =
     (let h265 = (eu_kind unit = EsH265);
          ((dts, pts), d) = video_timestamps unit d;
          s = (case dm_video d of Some s \<Rightarrow> s
             | None \<Rightarrow> \<lparr>vs_sps = None, vs_pps = None, vs_vps = None, vs_init = None\<rparr>);
          (s, data, keyframe) = fold (consume_nal h265) (split_annexb (eu_data unit)) (s, [], False);
          (evs, s) = (case video_init ec h265 s of
              Some init \<Rightarrow> if vs_init s \<noteq> Some init
                then ([DeVideoInit (video_track_info ec h265 s init)], s\<lparr>vs_init := Some init\<rparr>) else ([], s)
            | None \<Rightarrow> ([], s));
          d = d\<lparr>dm_video := Some s\<rparr>
      in if data = [] then (evs, d)
         else (evs @ [DeVideoFrame \<lparr>fr_track = video_track_id, fr_dts = dts, fr_pts = pts, fr_keyframe = keyframe,
                 fr_data = data\<rparr>], d))"

text \<open>The loop over the ADTS frames of one PES.\<close>

definition audio_ts :: "int \<Rightarrow> int \<Rightarrow> u32 \<Rightarrow> int" where
  "audio_ts base idx sample_rate =
     wrap64 (((base + idx * (90000 * 1024 sdiv uint sample_rate)) * uint sample_rate) sdiv 90000)"

definition audio_frame :: "int \<Rightarrow> int \<Rightarrow> bytes \<Rightarrow> nat \<Rightarrow> adts \<Rightarrow> es_audio_state option \<Rightarrow> demux_event list \<times> es_audio_state" where
  "audio_frame base idx data offset a st =
     (let s = (case st of Some s \<Rightarrow> s | None \<Rightarrow> \<lparr>as_sample_rate = ad_sample_rate a, as_asc = None\<rparr>);
          asc = audio_specific_config a;
          (evs, s) = (if as_asc s \<noteq> Some asc
            then ([DeAudioInit \<lparr>ti_id = audio_track_id, ti_codec = Aac, ti_timescale = as_sample_rate s, ti_init = asc,
                     ti_lang = None, ti_video = None,
                     ti_audio = Some \<lparr>ap_sample_rate = as_sample_rate s, ap_channels = ad_channels a\<rparr>\<rparr>],
                  s\<lparr>as_asc := Some asc\<rparr>)
            else ([], s));
          ts = audio_ts base idx (as_sample_rate s);
          au = take (ad_frame_len a - ad_header_len a) (drop (offset + ad_header_len a) data)
      in (evs @ [DeAudioFrame \<lparr>fr_track = audio_track_id, fr_dts = ts, fr_pts = ts, fr_keyframe = True, fr_data = au\<rparr>], s))"

function audio_loop ::
    "int \<Rightarrow> bytes \<Rightarrow> nat \<Rightarrow> int \<Rightarrow> es_audio_state option \<Rightarrow> demux_event list \<times> es_audio_state option" where
  "audio_loop base data offset idx st =
     (if \<not> offset < length data then ([], st)
      else case adts_parse (drop offset data) of
        None \<Rightarrow> ([], st)
      | Some a \<Rightarrow>
          if offset + ad_frame_len a > length data \<or> ad_frame_len a \<le> ad_header_len a then ([], st)
          else (let (evs, s) = audio_frame base idx data offset a st;
                    (rest, st') = audio_loop base data (offset + ad_frame_len a) (idx + 1) (Some s)
                in (evs @ rest, st')))"
  by pat_completeness auto
termination
  by (relation "measure (\<lambda>(base, data, offset, idx, st). length data - offset)") auto

declare audio_loop.simps [simp del]

definition consume_audio :: "es_unit \<Rightarrow> demuxer \<Rightarrow> demux_event list \<times> demuxer" where
  "consume_audio unit d =
     (let (base, d) = audio_timestamp_90k unit d;
          (evs, st) = audio_loop base (eu_data unit) 0 0 (dm_audio d)
      in (evs, d\<lparr>dm_audio := st\<rparr>))"

definition consume ::
    "es_codecs \<Rightarrow> (bytes \<Rightarrow> string + splice_section) \<Rightarrow> es_unit \<Rightarrow> demuxer \<Rightarrow> demux_event list \<times> demuxer" where
  "consume ec scte_decode unit d =
     (case eu_kind unit of
        EsH264 \<Rightarrow> consume_video ec unit d
      | EsH265 \<Rightarrow> consume_video ec unit d
      | EsAac \<Rightarrow> consume_audio unit d
      | EsScte35 \<Rightarrow> consume_cue scte_decode unit d)"

end
