(* ===== verification/Ts_Roundtrip.thy ===== *)
theory Ts_Roundtrip
  imports Ts_Timeline
begin

text \<open>
  What the muxer writes, the demuxer reads back: SCTE-35 sections over their packets, PES packets,
  Annex B access units, ADTS frames, the 33-bit clock.
\<close>

unbundle bit_operations_syntax

subsection \<open>Sections\<close>

fun section_run :: "bytes list \<Rightarrow> bytes option \<Rightarrow> es_unit list \<times> bytes option" where
  "section_run [] slot = ([], slot)"
| "section_run (p # ps) slot =
     (let (out, slot) = section_packet p slot; (out', slot) = section_run ps slot in (out @ out', slot))"

definition section_unit :: "bytes \<Rightarrow> es_unit" where
  "section_unit sec = \<lparr>eu_kind = EsScte35, eu_pts = None, eu_dts = None, eu_data = sec\<rparr>"

definition cue_section_ok :: "bytes \<Rightarrow> bool" where
  "cue_section_ok sec \<longleftrightarrow> 3 \<le> length sec \<and> hd sec = scte35_table_id \<and> section_total sec = length sec"

lemma section_total_append [simp]: "3 \<le> length a \<Longrightarrow> section_total (a @ b) = section_total a"
  by (simp add: section_total_def nth_append)

lemma section_total_le: "section_total a \<le> max_section"
proof -
  have "unat ((a ! 1) AND 0x0F) \<le> unat (0x0F :: u8)"
    by (simp only: word_le_nat_alt [symmetric] word_and_le1)
  moreover have "unat (a ! 2) < 2 ^ LENGTH(8)"
    by (rule unsigned_less)
  ultimately show ?thesis by (simp add: section_total_def max_section_def)
qed

lemma complete_padding: "complete_sections (Some (replicate k 0xFF)) = ([], None)"
  by (cases k) (simp_all add: complete_sections.simps)

lemma complete_whole:
  assumes "cue_section_ok sec"
  shows "complete_sections (Some (sec @ replicate k 0xFF)) = ([section_unit sec], None)"
proof -
  from assms have "3 \<le> length sec" "hd sec = scte35_table_id" "section_total sec = length sec" "sec \<noteq> []"
    by (auto simp: cue_section_ok_def)
  then show ?thesis
    by (subst complete_sections.simps)
      (simp add: section_unit_def complete_padding scte35_table_id_def)
qed

lemma complete_prefix:
  assumes "cue_section_ok (a @ b)" and "b \<noteq> []" and "3 \<le> length a"
  shows "complete_sections (Some a) = ([], Some a)"
proof -
  from assms have "a \<noteq> []" "hd a = scte35_table_id" "length a < section_total a" "length a \<le> max_section"
    using section_total_le [of a] by (auto simp: cue_section_ok_def hd_append split: if_splits)
  with assms(3) show ?thesis
    by (subst complete_sections.simps) (simp add: scte35_table_id_def)
qed

lemma section_packet_header:
  fixes c :: nat and x :: u8
  assumes "c < 16"
  shows "drop_bit 4 ((0x10::u8) OR of_nat c) AND 0x3 = 1"
    and "((0x40::u8) OR (x AND 0x1F)) AND 0x40 = 0x40"
    and "((0::u8) OR (x AND 0x1F)) AND 0x40 = 0"
proof -
  have "list_all (\<lambda>c. drop_bit 4 ((0x10::u8) OR of_nat c) AND 0x3 = 1) [0..<16]" by code_simp
  with assms show "drop_bit 4 ((0x10::u8) OR of_nat c) AND 0x3 = 1" by (simp add: list_all_iff)
  show "((0x40::u8) OR (x AND 0x1F)) AND 0x40 = 0x40"
    by (rule bit_word_eqI) (auto simp: bit_simps bit_numeral_rec)
  show "((0::u8) OR (x AND 0x1F)) AND 0x40 = 0"
    by (simp add: and.assoc)
qed

text \<open>One packet of a section, written by \<open>section_packets\<close>.\<close>

definition section_pkt :: "nat \<Rightarrow> nat \<Rightarrow> bool \<Rightarrow> bytes \<Rightarrow> bytes" where
  "section_pkt pid cc first chunk =
     [0x47, (if first then 0x40 else 0) OR (of_nat (pid div 256) AND 0x1F), of_nat pid, 0x10 OR of_nat cc] @
     (if first then [0] else []) @ chunk @ replicate (188 - (if first then 5 else 4) - length chunk) 0xFF"

lemma section_packets_step:
  "section_packets pid cc first rest =
     (if \<not> first \<and> rest = [] then []
      else (let room = 188 - (if first then 5 else 4) in
        section_pkt pid cc first (take room rest) # section_packets pid ((cc + 1) mod 16) False (drop room rest)))"
  by (subst section_packets.simps) (simp add: section_pkt_def Let_def min_def)

lemma section_pkt_payload:
  assumes "cc < 16"
  shows "packet_payload (section_pkt pid cc first chunk) =
    Some ((if first then [0] else []) @ chunk @ replicate (188 - (if first then 5 else 4) - length chunk) 0xFF)"
  using section_packet_header [OF assms]
  by (auto simp: packet_payload_def section_pkt_def Let_def ts_packet_size_def)

lemma section_pkt_start:
  "cc < 16 \<Longrightarrow> (section_pkt pid cc first chunk ! 1) AND 0x40 = 0 \<longleftrightarrow> \<not> first"
  using section_packet_header [of cc] by (simp add: section_pkt_def)

lemma section_packet_first:
  assumes "cc < 16"
  shows "section_packet (section_pkt pid cc True chunk) slot =
    (fst (complete_sections slot) @ fst (complete_sections (Some (chunk @ replicate (183 - length chunk) 0xFF))),
     snd (complete_sections (Some (chunk @ replicate (183 - length chunk) 0xFF))))"
  using section_pkt_payload [OF assms] section_pkt_start [OF assms]
  by (cases slot)
    (simp_all add: section_packet_def Let_def complete_sections.simps [of None] case_prod_unfold)

lemma section_packet_more:
  assumes "cc < 16"
  shows "section_packet (section_pkt pid cc False chunk) slot =
    complete_sections (map_option (\<lambda>buf. buf @ chunk @ replicate (184 - length chunk) 0xFF) slot)"
  using section_pkt_payload [OF assms] section_pkt_start [OF assms]
  by (simp add: section_packet_def)

lemma section_run_rest:
  assumes "cue_section_ok (a @ b)" and "b \<noteq> []" and "3 \<le> length a" and "cc < 16"
  shows "section_run (section_packets pid cc False b) (Some a) = ([section_unit (a @ b)], None)"
  using assms
proof (induction "length b" arbitrary: a b cc rule: less_induct)
  case less
  have step: "section_packets pid cc False b =
      section_pkt pid cc False (take 184 b) # section_packets pid ((cc + 1) mod 16) False (drop 184 b)"
    using less.prems by (subst section_packets_step) (simp add: Let_def)
  show ?case
  proof (cases "length b \<le> 184")
    case True
    then show ?thesis
      using less.prems complete_whole [OF less.prems(1), of "184 - length b"]
      by (simp add: step section_packet_more section_packets_step [of _ _ False "[]"])
  next
    case False
    have split: "(a @ take 184 b) @ drop 184 b = a @ b" by simp
    have "complete_sections (Some (a @ take 184 b)) = ([], Some (a @ take 184 b))"
      using less.prems False by (intro complete_prefix [of _ "drop 184 b"]) (simp_all only: split, auto)
    moreover have "section_run (section_packets pid ((cc + 1) mod 16) False (drop 184 b)) (Some (a @ take 184 b)) =
        ([section_unit ((a @ take 184 b) @ drop 184 b)], None)"
      using less.prems False by (intro less.hyps) (simp_all only: split, auto)
    ultimately show ?thesis
      using less.prems False by (simp add: step section_packet_more)
  qed
qed

text \<open>
  Claim C18. A cue section of any length the wire allows, split over TS packets by the muxer, is given
  back by the demuxer as one unit with exactly the section's bytes, whatever was in the reassembly
  buffer before (its complete sections come first), and leaves no partial section behind.
\<close>

theorem section_roundtrip:
  assumes "cue_section_ok sec" and "cc < 16"
  shows "section_run (section_packets pid cc True sec) slot =
    (fst (complete_sections slot) @ [section_unit sec], None)"
proof -
  have step: "section_packets pid cc True sec =
      section_pkt pid cc True (take 183 sec) # section_packets pid ((cc + 1) mod 16) False (drop 183 sec)"
    by (subst section_packets_step) (simp add: Let_def)
  show ?thesis
  proof (cases "length sec \<le> 183")
    case True
    then show ?thesis
      using complete_whole [OF assms(1), of "183 - length sec"] assms(2)
      by (simp add: step section_packet_first section_packets_step [of _ _ False "[]"])
  next
    case False
    have split: "take 183 sec @ drop 183 sec = sec" by simp
    have "complete_sections (Some (take 183 sec)) = ([], Some (take 183 sec))"
      using assms False by (intro complete_prefix [of _ "drop 183 sec"]) (simp_all only: split, auto)
    moreover have "section_run (section_packets pid ((cc + 1) mod 16) False (drop 183 sec)) (Some (take 183 sec)) =
        ([section_unit (take 183 sec @ drop 183 sec)], None)"
      using assms False by (intro section_run_rest) (simp_all only: split, auto)
    ultimately show ?thesis
      using assms(2) False by (simp add: step section_packet_first)
  qed
qed

theorem section_roundtrip_witness:
  "section_run (section_packets 259 15 True (0xFC # 0x30 # 0xC8 # replicate 200 7)) (Some [0xFC, 0]) =
     ([section_unit (0xFC # 0x30 # 0xC8 # replicate 200 7)], None)"
proof -
  have "cue_section_ok (0xFC # 0x30 # 0xC8 # replicate 200 7)" by code_simp
  then have "section_run (section_packets 259 15 True (0xFC # 0x30 # 0xC8 # replicate 200 7)) (Some [0xFC, 0]) =
      (fst (complete_sections (Some [0xFC, 0])) @ [section_unit (0xFC # 0x30 # 0xC8 # replicate 200 7)], None)"
    by (rule section_roundtrip) simp
  then show ?thesis by (simp add: complete_sections.simps)
qed


subsection \<open>PES packets\<close>

text \<open>
  What the demuxer does with a packet the muxer wrote, when the packet parser reads back what the
  packet writer was given.
\<close>

fun demux_packet :: "mux_packet \<Rightarrow> 'r ts_demux \<Rightarrow> es_unit list \<times> 'r ts_demux" where
  "demux_packet (PsiPacket pid _ (PatPsi _ _)) d = handle_payload pid (Some TsOther) d"
| "demux_packet (PsiPacket pid _ (PmtPsi _ _ _ es)) d = handle_payload pid (Some (TsPmt es)) d"
| "demux_packet (PesPacket pid _ _ p) d = handle_payload pid (Some p) d"
| "demux_packet (RawPacket b) d =
     (case front_pid b of
        Some pid \<Rightarrow> if map_of (td_sections d) pid \<noteq> None then handle_section_packet pid b d else ([], d)
      | None \<Rightarrow> ([], d))"

fun demux_packets :: "mux_packet list \<Rightarrow> 'r ts_demux \<Rightarrow> es_unit list \<times> 'r ts_demux" where
  "demux_packets [] d = ([], d)"
| "demux_packets (p # ps) d =
     (let (out, d) = demux_packet p d; (out', d) = demux_packets ps d in (out @ out', d))"

lemma demux_packets_append:
  "demux_packets (ps @ qs) d =
     (let (out, d) = demux_packets ps d; (out', d) = demux_packets qs d in (out @ out', d))"
  by (induction ps arbitrary: d) (simp_all add: case_prod_unfold Let_def)

definition pending :: "nat \<Rightarrow> 'r ts_demux \<Rightarrow> es_unit list" where
  "pending pid d = (case map_of (td_partial d) pid of Some p \<Rightarrow> [finish p] | None \<Rightarrow> [])"

text \<open>The continuation packets of a PES, whatever their continuity counters.\<close>

inductive continues :: "nat \<Rightarrow> bytes list \<Rightarrow> mux_packet list \<Rightarrow> bool" for pid where
  continues_Nil: "continues pid [] []"
| continues_Cons: "continues pid cs ps \<Longrightarrow> continues pid (c # cs) (PesPacket pid cc None (TsPesContinuation c) # ps)"

inductive_cases continues_NilE: "continues pid [] ps"
inductive_cases continues_ConsE: "continues pid (c # cs) ps"

lemma write_rest_continues:
  "\<exists>ps. tm_out (write_rest (\<lambda>_. True) pid data m) = tm_out m @ ps \<and> continues pid (chunks 184 data) ps"
proof (induction "length data" arbitrary: data m rule: less_induct)
  case less
  show ?case
  proof (cases "data = []")
    case True
    then show ?thesis
      using continues_Nil [of pid] by (simp add: write_rest.simps [of _ _ "[]"])
  next
    case False
    define m' where "m' = snd (write_packet (\<lambda>_. True)
      (PesPacket pid (cc_of pid m) None (TsPesContinuation (take 184 data))) (snd (next_cc pid m)))"
    have step: "write_rest (\<lambda>_. True) pid data m = write_rest (\<lambda>_. True) pid (drop 184 data) m'"
      using False
      by (subst write_rest.simps) (simp add: m'_def next_cc_def write_packet_def Let_def min_def)
    have out: "tm_out m' = tm_out m @ [PesPacket pid (cc_of pid m) None (TsPesContinuation (take 184 data))]"
      by (simp add: m'_def next_cc_def write_packet_def)
    obtain ps where "tm_out (write_rest (\<lambda>_. True) pid (drop 184 data) m') = tm_out m' @ ps"
        and "continues pid (chunks 184 (drop 184 data)) ps"
      using less [of "drop 184 data" m'] False by auto
    then show ?thesis
      using False by (auto simp: step out chunks_step intro: continues_Cons)
  qed
qed

text \<open>Continuations into an open PES of known or unknown length.\<close>

lemma continuations_run:
  assumes "continues pid cs ps" and "\<forall>c \<in> set cs. c \<noteq> []"
    and "map_of (td_partial d) pid = Some p" and "\<not> is_complete p"
    and "pa_expected_len p = None \<or> pa_expected_len p = Some (length (pa_data p @ concat cs))"
  shows "\<exists>out d'. demux_packets ps d = (out, d') \<and>
    out @ pending pid d' = [finish (p\<lparr>pa_data := pa_data p @ concat cs\<rparr>)] \<and>
    (pa_expected_len p \<noteq> None \<longrightarrow> pending pid d' = [])"
  using assms
proof (induction cs arbitrary: ps d p)
  case Nil
  then show ?case
    by (auto simp: pending_def is_complete_def elim!: continues_NilE)
next
  case (Cons c cs)
  from Cons.prems(1) obtain cc ps' where ps: "ps = PesPacket pid cc None (TsPesContinuation c) # ps'"
      and rest: "continues pid cs ps'"
    by (auto elim: continues_ConsE)
  define p' where "p' = p\<lparr>pa_data := pa_data p @ c\<rparr>"
  show ?case
  proof (cases "is_complete p'")
    case True
    then have "pa_expected_len p = Some (length (pa_data p @ c @ concat cs))" and "concat cs = []"
      using Cons.prems(5) by (auto simp: is_complete_def p'_def)
    moreover from this Cons.prems(2) have "cs = []" by (cases cs) auto
    ultimately show ?thesis
      using rest True Cons.prems(3)
      by (auto simp: ps p'_def handle_payload_def handle_pes_continuation_def pending_def delete_conv'
          elim!: continues_NilE)
  next
    case False
    define d1 where "d1 = d\<lparr>td_partial := AList.update pid p' (td_partial d)\<rparr>"
    have head: "demux_packet (PesPacket pid cc None (TsPesContinuation c)) d = ([], d1)"
      using False Cons.prems(3) by (simp add: handle_payload_def handle_pes_continuation_def p'_def d1_def)
    have "map_of (td_partial d1) pid = Some p'" by (simp add: d1_def update_conv')
    with Cons.IH [OF rest, of d1 p'] False Cons.prems obtain out d' where
      "demux_packets ps' d1 = (out, d')"
      "out @ pending pid d' = [finish (p'\<lparr>pa_data := pa_data p' @ concat cs\<rparr>)]"
      "pa_expected_len p' \<noteq> None \<longrightarrow> pending pid d' = []"
      by (auto simp: p'_def)
    then show ?thesis
      using head by (auto simp: ps p'_def simp del: demux_packet.simps)
  qed
qed

definition pes_unit :: "es_kind \<Rightarrow> pes_header \<Rightarrow> bytes \<Rightarrow> es_unit" where
  "pes_unit kind h data = \<lparr>eu_kind = kind, eu_pts = ph_pts h, eu_dts = ph_dts h, eu_data = data\<rparr>"

lemma write_pes_out:
  "\<exists>cc af n ps. tm_out (write_pes (\<lambda>_. True) pid h packet_len data ra pcr m) =
     tm_out m @ PesPacket pid cc af (TsPesStart \<lparr>ps_header = h, ps_packet_len = packet_len, ps_data = take n data\<rparr>) # ps \<and>
     continues pid (chunks 184 (drop n data)) ps"
proof -
  define n where "n = min (first_avail h ra pcr) (length data)"
  define af where "af = (if ra \<or> pcr \<noteq> None then Some \<lparr>af_random_access = ra, af_pcr = pcr\<rparr> else None)"
  define p where "p = PesPacket pid (cc_of pid m) af
    (TsPesStart \<lparr>ps_header = h, ps_packet_len = packet_len, ps_data = take n data\<rparr>)"
  define m1 where "m1 = snd (write_packet (\<lambda>_. True) p (snd (next_cc pid m)))"
  have "write_pes (\<lambda>_. True) pid h packet_len data ra pcr m = write_rest (\<lambda>_. True) pid (drop n data) m1"
    by (simp add: write_pes_def n_def af_def p_def m1_def next_cc_def write_packet_def Let_def)
  moreover have "tm_out m1 = tm_out m @ [p]"
    by (simp add: m1_def write_packet_def next_cc_def)
  ultimately show ?thesis
    using write_rest_continues [of pid "drop n data" m1] by (auto simp: p_def)
qed

lemma pes_start_run:
  assumes "map_of (td_es_pids d) pid = Some kind"
    and "packet_len = 0 \<or> packet_len = optional_header_len h + length (a @ b)"
  shows "\<exists>d1. handle_pes_start pid \<lparr>ps_header = h, ps_packet_len = packet_len, ps_data = a\<rparr> d =
    (if packet_len \<noteq> 0 \<and> b = [] then (pending pid d @ [pes_unit kind h a], d1) else (pending pid d, d1)) \<and>
    map_of (td_partial d1) pid =
      (if packet_len \<noteq> 0 \<and> b = [] then None
       else Some \<lparr>pa_kind = kind, pa_pts = ph_pts h, pa_dts = ph_dts h, pa_data = a,
              pa_expected_len = (if packet_len = 0 then None else Some (length (a @ b)))\<rparr>)"
  using assms
  by (auto simp: handle_pes_start_def pending_def is_complete_def finish_def pes_unit_def delete_conv' update_conv'
      split: option.splits)

lemma pes_resumes:
  assumes "map_of (td_es_pids d) pid = Some kind"
    and "packet_len = 0 \<or> packet_len = optional_header_len h + length data"
    and "tm_out (write_pes (\<lambda>_. True) pid h packet_len data ra pcr m) = tm_out m @ ps"
    and "demux_packets ps d = (out, d')"
  shows "out @ pending pid d' = pending pid d @ [pes_unit kind h data] \<and> (packet_len = 0 \<or> pending pid d' = [])"
proof -
  obtain cc af n qs where ps: "ps = PesPacket pid cc af
        (TsPesStart \<lparr>ps_header = h, ps_packet_len = packet_len, ps_data = take n data\<rparr>) # qs"
      and cont: "continues pid (chunks 184 (drop n data)) qs"
    using write_pes_out [of pid h packet_len data ra pcr m] assms(3) by auto
  obtain d1 where start: "handle_pes_start pid \<lparr>ps_header = h, ps_packet_len = packet_len, ps_data = take n data\<rparr> d =
        (if packet_len \<noteq> 0 \<and> drop n data = [] then (pending pid d @ [pes_unit kind h (take n data)], d1) else (pending pid d, d1))"
      and open_pes: "map_of (td_partial d1) pid =
        (if packet_len \<noteq> 0 \<and> drop n data = [] then None
         else Some \<lparr>pa_kind = kind, pa_pts = ph_pts h, pa_dts = ph_dts h, pa_data = take n data,
              pa_expected_len = (if packet_len = 0 then None else Some (length (take n data @ drop n data)))\<rparr>)"
    using pes_start_run [OF assms(1), of packet_len h "take n data" "drop n data"] assms(2) by auto
  show ?thesis
  proof (cases "packet_len \<noteq> 0 \<and> drop n data = []")
    case True
    with cont have "qs = []" by (auto elim: continues_NilE)
    with True start open_pes assms(4) show ?thesis
      by (auto simp: ps handle_payload_def pending_def)
  next
    case False
    define p where "p = \<lparr>pa_kind = kind, pa_pts = ph_pts h, pa_dts = ph_dts h, pa_data = take n data,
              pa_expected_len = (if packet_len = 0 then None else Some (length (take n data @ drop n data)))\<rparr>"
    have "map_of (td_partial d1) pid = Some p" and "\<not> is_complete p"
        and "pa_expected_len p = None \<or> pa_expected_len p = Some (length (pa_data p @ concat (chunks 184 (drop n data))))"
      using open_pes False by (auto simp: p_def is_complete_def)
    with continuations_run [OF cont, of d1 p] obtain out' where
        "demux_packets qs d1 = (out', d')" "out = pending pid d @ out'"
        "out' @ pending pid d' = [finish (p\<lparr>pa_data := pa_data p @ concat (chunks 184 (drop n data))\<rparr>)]"
        "pa_expected_len p \<noteq> None \<longrightarrow> pending pid d' = []"
      using assms(4) start False by (auto simp: ps handle_payload_def dest: chunks_bounds split: prod.splits if_splits)
    then show ?thesis
      by (auto simp: p_def finish_def pes_unit_def)
  qed
qed

text \<open>
  A PES packet the muxer writes for a known PID, split over transport packets of at most 184
  payload bytes, is given back by the demuxer as one unit with the same payload and timestamps, after
  whatever was open on that PID: at once when the packet carries its length, else when the next one
  starts or the input ends.
\<close>

theorem pes_roundtrip:
  assumes "map_of (td_es_pids d) pid = Some kind"
    and "packet_len = 0 \<or> packet_len = optional_header_len h + length data"
    and "tm_out (write_pes (\<lambda>_. True) pid h packet_len data ra pcr m) = tm_out m @ ps"
    and "demux_packets ps d = (out, d')"
  shows "out @ pending pid d' = pending pid d @ [pes_unit kind h data] \<and> (packet_len = 0 \<or> pending pid d' = [])"
  using assms by (rule pes_resumes)

definition demo_demux :: "unit ts_demux" where
  "demo_demux = (ts_demux_new ())\<lparr>td_es_pids := [(257, EsH264)]\<rparr>"

definition demo_header :: pes_header where
  "demo_header = \<lparr>ph_pts = Some 9000, ph_dts = None, ph_escr = None\<rparr>"

theorem pes_roundtrip_witness:
  "map_of (td_es_pids demo_demux) 257 = Some EsH264 \<and>
   (let ps = tm_out (write_pes (\<lambda>_. True) 257 demo_header 308 (replicate 300 7) True (Some 0) ts_mux_new) in
    fst (demux_packets ps demo_demux) @ pending 257 (snd (demux_packets ps demo_demux)) =
      [pes_unit EsH264 demo_header (replicate 300 7)])"
proof -
  have "map_of (td_es_pids demo_demux) 257 = Some EsH264"
    by (simp add: demo_demux_def)
  then show ?thesis
    using pes_roundtrip [of demo_demux 257 EsH264 308 demo_header "replicate 300 7" True "Some 0" ts_mux_new]
    by (simp add: ts_mux_new_def demo_header_def optional_header_len_def Let_def pending_def demo_demux_def ts_demux_new_def)
qed

subsection \<open>The 33-bit clock\<close>

fun clock_run :: "nat list \<Rightarrow> ts_clock \<Rightarrow> int list" where
  "clock_run [] c = []"
| "clock_run (r # rs) c = (let (t, c) = clock_extend r c in t # clock_run rs c)"

definition wire :: "int \<Rightarrow> nat" where
  "wire t = nat (t mod 2 ^ 33)"

text \<open>Times on the line that the receiver can follow: no step as large as half the clock.\<close>

fun close_steps :: "int list \<Rightarrow> bool" where
  "close_steps (t # u # ts) \<longleftrightarrow> \<bar>u - t\<bar> < 2 ^ 32 \<and> close_steps (u # ts)"
| "close_steps _ \<longleftrightarrow> True"

lemma wrapped_diff_wire:
  assumes "\<bar>a - b\<bar> < 2 ^ 32"
  shows "wrapped_diff (wire a) (wire b) = a - b"
proof -
  define x y where "x = a mod 2 ^ 33" and "y = b mod 2 ^ 33"
  have bounds: "0 \<le> x" "x < 2 ^ 33" "0 \<le> y" "y < 2 ^ 33"
    by (simp_all add: x_def y_def)
  have "int (wire a mod 2 ^ 33) = x" "int (wire b mod 2 ^ 33) = y"
    by (simp_all add: wire_def x_def y_def nat_mod_distrib)
  then have d: "wrapped_diff (wire a) (wire b) =
      (if x - y < - (2 ^ 32) then x - y + 2 ^ 33 else if x - y > 2 ^ 32 then x - y - 2 ^ 33 else x - y)"
    by (simp add: wrapped_diff_def Let_def)
  have "a - b = (x - y) + 2 ^ 33 * (a div 2 ^ 33 - b div 2 ^ 33)"
    by (simp add: x_def y_def minus_div_mult_eq_mod [symmetric] algebra_simps)
  then obtain k where k: "a - b = (x - y) + 2 ^ 33 * k" by blast
  have "k < 2" "- 2 < k"
    using k assms bounds by auto
  then have "k \<in> {-1, 0, 1}" by auto
  then show ?thesis
    using k assms bounds by (auto simp: d)
qed

lemma clock_run_tracks:
  "close_steps (t # ts) \<Longrightarrow>
    clock_run (map wire ts) \<lparr>tc_last_raw = Some (wire t), tc_absolute = t + off\<rparr> = map (\<lambda>u. u + off) ts"
proof (induction ts arbitrary: t)
  case (Cons u ts)
  then have "\<bar>u - t\<bar> < 2 ^ 32" and rest: "close_steps (u # ts)" by simp_all
  then have "clock_extend (wire u) \<lparr>tc_last_raw = Some (wire t), tc_absolute = t + off\<rparr> =
      (u + off, \<lparr>tc_last_raw = Some (wire u), tc_absolute = u + off\<rparr>)"
    by (simp add: clock_extend_def wrapped_diff_wire Let_def)
  with Cons.IH [OF rest] show ?case by simp
qed simp

text \<open>
  Claim C20. The 33-bit clock of a track is unwrapped without error over any number of wraps: from its
  timestamps modulo \<open>2 ^ 33\<close> the receiver gets back the sender's series, up to the multiple of
  \<open>2 ^ 33\<close> the first one was cut by, as long as no step, forward or back, is as large as half the clock.
\<close>

theorem clock_unwraps:
  assumes "close_steps (t # ts)"
  shows "clock_run (map wire (t # ts)) ts_clock_default = map (\<lambda>u. u - t + t mod 2 ^ 33) (t # ts)"
proof -
  have start: "clock_extend (wire t) ts_clock_default =
      (t + (t mod 2 ^ 33 - t), \<lparr>tc_last_raw = Some (wire t), tc_absolute = t + (t mod 2 ^ 33 - t)\<rparr>)"
  proof -
    have "0 \<le> t mod 8589934592" "t mod 8589934592 < 8589934592" by simp_all
    then have "in_i64 (t mod 8589934592)"
      unfolding in_i64_bounds by linarith
    then have "in_i64 (t mod 2 ^ 33)" and "int (wire t) = t mod 2 ^ 33"
      by (simp_all add: wire_def)
    then have "wrap64 (int (wire t)) = t mod 2 ^ 33"
      by (simp only: wrap64_id)
    then show ?thesis by (simp add: clock_extend_def ts_clock_default_def Let_def)
  qed
  have "clock_run (map wire (t # ts)) ts_clock_default = map (\<lambda>u. u + (t mod 2 ^ 33 - t)) (t # ts)"
    using clock_run_tracks [OF assms, of "t mod 2 ^ 33 - t"] start by simp
  then show ?thesis by (simp add: algebra_simps)
qed

theorem clock_unwraps_witness:
  "clock_run (map wire [2 ^ 33 - 3000, 2 ^ 33 - 6000, 2 ^ 33 + 3000, 2 ^ 33 + 4 * 10 ^ 9]) ts_clock_default =
     [2 ^ 33 - 3000, 2 ^ 33 - 6000, 2 ^ 33 + 3000, 2 ^ 33 + 4 * 10 ^ 9]"
  using clock_unwraps [of "2 ^ 33 - 3000" "[2 ^ 33 - 6000, 2 ^ 33 + 3000, 2 ^ 33 + 4 * 10 ^ 9]"]
  by simp

text \<open>A step of exactly half the clock is taken as a step back when the wire value fell.\<close>

lemma wrapped_diff_half: "wrapped_diff 0 (2 ^ 32) = - (2 ^ 32)"
  by (simp add: wrapped_diff_def)

subsection \<open>Access units\<close>

text \<open>A NAL with no start code inside, as emulation prevention makes it.\<close>

definition no_code_at :: "bytes \<Rightarrow> nat \<Rightarrow> bool" where
  "no_code_at b i \<longleftrightarrow> \<not> (b ! i = 0 \<and> b ! (i + 1) = 0 \<and> b ! (i + 2) = 1)"

definition clean_nal :: "bytes \<Rightarrow> bool" where
  "clean_nal nal \<longleftrightarrow> nal \<noteq> [] \<and> list_all (no_code_at nal) [0..<length nal - 2]"

lemma avcc_to_annexb_nals:
  "\<forall>nal \<in> set nals. length nal < 2 ^ 32 \<Longrightarrow>
    avcc_to_annexb (concat (map (push_avcc_nal []) nals)) = concat (map write_annexb nals)"
proof (induction nals)
  case (Cons nal nals)
  then have "length nal < 2 ^ 32" by simp
  moreover from Cons have "avcc_to_annexb (concat (map (push_avcc_nal []) nals)) = concat (map write_annexb nals)"
    by simp
  ultimately show ?case
    by (subst avcc_to_annexb.simps) (simp add: push_avcc_nal_def [of _ nal] be32_to_be32 Let_def)
qed (simp add: avcc_to_annexb.simps)

text \<open>The scan over a part of the data with no start code.\<close>

lemma scan_clean:
  assumes "\<And>j. i \<le> j \<Longrightarrow> j < k \<Longrightarrow> no_code_at data j" and "k + 2 \<le> length data" and "i \<le> k"
  shows "annexb_marks data i = annexb_marks data k"
  using assms
proof (induction "k - i" arbitrary: i)
  case (Suc n)
  then have "no_code_at data i" and "i + 2 < length data" by simp_all
  then have "annexb_marks data i = annexb_marks data (i + 1)"
    by (subst annexb_marks.simps) (auto simp: no_code_at_def)
  also have "\<dots> = annexb_marks data k"
    using Suc by simp
  finally show ?case .
qed simp

lemma annexb_marks_shift:
  "annexb_marks (pre @ data) (length pre + i) = map ((+) (length pre)) (annexb_marks data i)"
proof (induction data i rule: annexb_marks.induct)
  case (1 data i)
  have nth: "(pre @ data) ! (length pre + k) = data ! k" for k by simp
  show ?case
  proof (cases "i + 2 < length data")
    case False
    then show ?thesis by (simp add: annexb_marks.simps [of data i] annexb_marks.simps [of "pre @ data"])
  next
    case True
    then have len: "length pre + i + 2 < length (pre @ data)" by simp
    show ?thesis
      using 1 True len nth [of i] nth [of "i + 1"] nth [of "i + 2"]
      by (simp add: annexb_marks.simps [of data i] annexb_marks.simps [of "pre @ data" "length pre + i"] add.assoc)
  qed
qed

lemma cut_nals_shift:
  "cut_nals (pre @ data) (map ((+) (length pre)) ms) = cut_nals data ms"
proof (induction ms)
  case (Cons m ms)
  then show ?case
    by (cases ms) (auto simp: Let_def add.assoc)
qed simp

lemma annexb_first_mark: "annexb_marks (write_annexb nal @ rest) 0 = 1 # map ((+) 4) (annexb_marks (nal @ rest) 0)"
proof -
  have "annexb_marks (write_annexb nal @ rest) 0 = annexb_marks (write_annexb nal @ rest) 1"
    by (subst annexb_marks.simps) (simp add: write_annexb_def)
  also have "\<dots> = 1 # annexb_marks (write_annexb nal @ rest) 4"
    by (subst annexb_marks.simps) (simp add: write_annexb_def)
  finally show ?thesis
    using annexb_marks_shift [of "[0, 0, 0, 1]" "nal @ rest" 0] by (simp add: write_annexb_def numeral_eq_Suc)
qed

lemma annexb_skip_nal:
  assumes "clean_nal nal" and "rest = [] \<or> (\<exists>more. rest = [0, 0, 0, 1] @ more)"
  shows "annexb_marks (nal @ rest) 0 = map ((+) (length nal)) (annexb_marks rest 0)"
proof (cases "rest = []")
  case True
  have "annexb_marks nal 0 = annexb_marks nal (length nal - 2)" if "2 \<le> length nal"
    using that assms(1) by (intro scan_clean) (auto simp: clean_nal_def list_all_iff)
  moreover have "annexb_marks nal 0 = []" if "\<not> 2 \<le> length nal"
    using that by (simp add: annexb_marks.simps)
  moreover have "annexb_marks nal (length nal - 2) = []"
    by (simp add: annexb_marks.simps [of nal "length nal - 2"])
  ultimately show ?thesis
    using True by (cases "2 \<le> length nal") (simp_all add: annexb_marks.simps [of "[]"])
next
  case False
  with assms(2) obtain more where rest: "rest = [0, 0, 0, 1] @ more" by auto
  have "no_code_at (nal @ rest) j" if "j < length nal" for j
  proof -
    consider "j + 2 < length nal" | "j + 2 = length nal" | "j + 1 = length nal"
      using \<open>j < length nal\<close> by linarith
    then show ?thesis
    proof cases
      case 1
      then show ?thesis using assms(1) by (auto simp: clean_nal_def list_all_iff no_code_at_def nth_append)
    next
      case 2
      then have "(nal @ rest) ! (j + 2) = 0" by (simp add: nth_append rest)
      then show ?thesis by (simp add: no_code_at_def)
    next
      case 3
      then have "(nal @ rest) ! (j + 2) = 0" by (auto simp: nth_append rest)
      then show ?thesis by (simp add: no_code_at_def)
    qed
  qed
  then have "annexb_marks (nal @ rest) 0 = annexb_marks (nal @ rest) (length nal + 0)"
    by (simp only: add_0_right) (rule scan_clean, auto simp: rest)
  then show ?thesis by (simp only: annexb_marks_shift)
qed

text \<open>What a NAL becomes: all but the last gain the first zero of the next start code.\<close>

fun padded_nals :: "bytes list \<Rightarrow> bytes list" where
  "padded_nals [] = []"
| "padded_nals [nal] = [nal]"
| "padded_nals (nal # nals) = (nal @ [0]) # padded_nals nals"

text \<open>
  An access unit stored as length-prefixed NALs, converted to Annex B by the muxer and split
  again by the demuxer, gives back the same NALs in order, every one but the last with one zero byte
  appended (the first byte of the four-byte start code that follows it).
\<close>

theorem access_unit_roundtrip:
  assumes "list_all clean_nal nals" and "list_all (\<lambda>nal. length nal < 2 ^ 32) nals"
  shows "split_annexb (avcc_to_annexb (concat (map (push_avcc_nal []) nals))) = padded_nals nals"
proof -
  have "split_annexb (concat (map write_annexb nals)) = padded_nals nals"
    using assms(1)
  proof (induction nals rule: padded_nals.induct)
    case 1
    then show ?case by (simp add: split_annexb_def annexb_marks.simps)
  next
    case (2 nal)
    then have "nal \<noteq> []" by (simp add: clean_nal_def)
    moreover have "annexb_marks (write_annexb nal) 0 = [1]"
      using 2 annexb_first_mark [of nal "[]"] annexb_skip_nal [of nal "[]"] by (simp add: annexb_marks.simps [of "[]"])
    ultimately show ?case
      by (simp add: split_annexb_def Let_def write_annexb_def)
  next
    case (3 nal nal' nals)
    define rest where "rest = concat (map write_annexb (nal' # nals))"
    define pre where "pre = [0, 0, 0, 1] @ nal"
    have start: "\<exists>more. rest = [0, 0, 0, 1] @ more"
      by (simp add: rest_def write_annexb_def)
    obtain ms where ms: "annexb_marks rest 0 = 1 # ms"
      using annexb_first_mark [of nal' "concat (map write_annexb nals)"] by (auto simp: rest_def)
    have "annexb_marks (write_annexb nal @ rest) 0 = 1 # map ((+) (length pre)) (annexb_marks rest 0)"
      using 3 start by (simp add: annexb_first_mark annexb_skip_nal pre_def comp_def add.assoc)
    then have "split_annexb (write_annexb nal @ rest) =
        cut_nals (pre @ rest) (1 # map ((+) (length pre)) (annexb_marks rest 0))"
      by (simp add: split_annexb_def write_annexb_def pre_def)
    also have "\<dots> = take (length nal + 1) (nal @ rest) # cut_nals (pre @ rest) (map ((+) (length pre)) (annexb_marks rest 0))"
      by (simp add: ms pre_def)
    also have "\<dots> = (nal @ [0]) # split_annexb rest"
      using start by (auto simp: cut_nals_shift split_annexb_def)
    finally show ?case
      using 3 by (simp add: rest_def)
  qed
  then show ?thesis
    using assms(2) by (simp add: avcc_to_annexb_nals list_all_iff)
qed

theorem access_unit_roundtrip_witness:
  "split_annexb (avcc_to_annexb (concat (map (push_avcc_nal []) [[0x65, 0, 0, 3, 1], [0x06, 5], [0x41, 9]]))) =
     [[0x65, 0, 0, 3, 1, 0], [0x06, 5, 0], [0x41, 9]]"
proof -
  have "list_all clean_nal [[0x65, 0, 0, 3, 1], [0x06, 5], [0x41, 9]]" by code_simp
  then show ?thesis
    using access_unit_roundtrip [of "[[0x65, 0, 0, 3, 1], [0x06, 5], [0x41, 9]]"] by simp
qed

subsection \<open>AAC\<close>

lemma field_masks: "(0x1F::16 word) = mask 5" "(0x0F::16 word) = mask 4" "(0x0F::8 word) = mask 4" "(0x07::8 word) = mask 3" "(0x07::16 word) = mask 3"
  by (simp_all add: mask_eq_exp_minus_1)

lemma asc_fields:
  fixes n :: u16
  assumes "n AND 7 = 0"
  shows "push_bit 11 (drop_bit 11 n AND 0x1F) OR
    push_bit 7 (ucast ((ucast (drop_bit 7 n AND 0x0F) :: u8) AND 0x0F)) OR
    push_bit 3 (ucast ((ucast (drop_bit 3 n AND 0x0F) :: u8) AND 0x0F)) = n"
proof -
  have low: "\<not> bit n k" if "k < 3" for k
  proof -
    have "\<not> bit (n AND 7) k" by (simp add: assms)
    with that show ?thesis unfolding field_masks by (simp add: bit_simps)
  qed
  show ?thesis
    unfolding field_masks
  proof (rule bit_word_eqI)
    fix k assume "k < LENGTH(16)"
    then consider "k < 3" | "3 \<le> k" "k < 7" | "7 \<le> k" "k < 11" | "11 \<le> k" "k < 16" by fastforce
    then show "bit (push_bit 11 (drop_bit 11 n AND mask 5) OR
         push_bit 7 (ucast ((ucast (drop_bit 7 n AND mask 4) :: u8) AND mask 4)) OR
         push_bit 3 (ucast ((ucast (drop_bit 3 n AND mask 4) :: u8) AND mask 4))) k = bit n k"
      by cases (simp_all add: bit_simps low, auto)
  qed
qed
lemma asc_bytes: "(ucast (drop_bit 8 (be16 x y)) :: u8) = x" "(ucast (be16 x y) :: u8) = y"
  by (rule bit_word_eqI, auto simp: be16_def bit_simps dest: bit_imp_le_length)+

lemma adts_byte_2:
  assumes "unat p < 4" and "unat s < 13" and "1 \<le> unat c" and "unat c < 8"
  defines "b \<equiv> push_bit 6 (p :: u8) OR push_bit 2 (s AND 0x0F) OR (drop_bit 2 c AND 0x01)"
  shows "drop_bit 6 (b AND 0xC0) = p" and "drop_bit 2 (b AND 0x3C) = s" and "b AND 1 = drop_bit 2 c AND 1"
proof -
  have "list_all (\<lambda>p. list_all (\<lambda>s. list_all (\<lambda>c.
     let b = push_bit 6 (of_nat p :: u8) OR push_bit 2 (of_nat s AND 0x0F) OR (drop_bit 2 (of_nat c) AND 0x01) in
      drop_bit 6 (b AND 0xC0) = of_nat p \<and> drop_bit 2 (b AND 0x3C) = of_nat s \<and> b AND 1 = drop_bit 2 (of_nat c) AND 1)
      [1..<8]) [0..<13]) [0..<4]"
    by code_simp
  moreover have "unat p \<in> set [0..<4]" "unat s \<in> set [0..<13]" "unat c \<in> set [1..<8]"
    using assms by auto
  ultimately have "(let b = push_bit 6 (of_nat (unat p) :: u8) OR push_bit 2 (of_nat (unat s) AND 0x0F) OR
       (drop_bit 2 (of_nat (unat c)) AND 0x01) in
      drop_bit 6 (b AND 0xC0) = of_nat (unat p) \<and> drop_bit 2 (b AND 0x3C) = of_nat (unat s) \<and>
      b AND 1 = drop_bit 2 (of_nat (unat c)) AND 1)"
    unfolding list_all_iff by blast
  then show "drop_bit 6 (b AND 0xC0) = p" and "drop_bit 2 (b AND 0x3C) = s" and "b AND 1 = drop_bit 2 c AND 1"
    by (simp_all add: b_def Let_def)
qed

lemma adts_byte_3:
  assumes "l < 4" and "1 \<le> unat c" and "unat c < 8"
  defines "b \<equiv> push_bit 6 ((c :: u8) AND 0x03) OR of_nat l"
  shows "push_bit 2 (drop_bit 2 c AND 1) OR drop_bit 6 (b AND 0xC0) = c" and "unat (b AND 0x03) = l"
proof -
  have "list_all (\<lambda>l. list_all (\<lambda>c.
     let b = push_bit 6 ((of_nat c :: u8) AND 0x03) OR of_nat l in
      push_bit 2 (drop_bit 2 (of_nat c) AND 1) OR drop_bit 6 (b AND 0xC0) = of_nat c \<and> unat (b AND 0x03) = l)
      [1..<8]) [0..<4]"
    by code_simp
  moreover have "l \<in> set [0..<4]" "unat c \<in> set [1..<8]"
    using assms by auto
  ultimately have "(let b = push_bit 6 ((of_nat (unat c) :: u8) AND 0x03) OR of_nat l in
      push_bit 2 (drop_bit 2 (of_nat (unat c)) AND 1) OR drop_bit 6 (b AND 0xC0) = of_nat (unat c) \<and> unat (b AND 0x03) = l)"
    unfolding list_all_iff by blast
  then show "push_bit 2 (drop_bit 2 c AND 1) OR drop_bit 6 (b AND 0xC0) = c" and "unat (b AND 0x03) = l"
    by (simp_all add: b_def Let_def)
qed

lemma adts_byte_5:
  assumes "l < 8"
  shows "unat (push_bit 5 (of_nat l :: u8) OR 0x1F) div 32 = l"
proof -
  have "list_all (\<lambda>l. unat (push_bit 5 (of_nat l :: u8) OR 0x1F) div 32 = l) [0..<8]" by code_simp
  with assms show ?thesis by (simp only: list_all_iff) simp
qed

definition coded_adts :: "nat \<Rightarrow> audio_track \<Rightarrow> adts" where
  "coded_adts n a =
     \<lparr>ad_header_len = 7, ad_frame_len = 7 + n, ad_profile = at_profile a,
      ad_sampling_frequency_index = at_sampling_freq_idx a, ad_channel_configuration = at_channel_config a,
      ad_sample_rate = adts_sample_rates ! unat (at_sampling_freq_idx a),
      ad_channels = (if at_channel_config a = 7 then 8 else at_channel_config a)\<rparr>"

definition codable :: "audio_track \<Rightarrow> bool" where
  "codable a \<longleftrightarrow> unat (at_profile a) < 4 \<and> unat (at_sampling_freq_idx a) < 13 \<and>
     1 \<le> unat (at_channel_config a) \<and> unat (at_channel_config a) < 8"

definition adts_frame :: "audio_track \<Rightarrow> bytes \<Rightarrow> bytes" where
  "adts_frame a au =
     adts_header (length au) (at_profile a) (at_sampling_freq_idx a) (at_channel_config a) @ au"

lemma adts_parse_bytes:
  assumes "drop_bit 6 (b2 AND 0xC0) = at_profile a" and "drop_bit 2 (b2 AND 0x3C) = at_sampling_freq_idx a"
    and "push_bit 2 (b2 AND 1) OR drop_bit 6 (b3 AND 0xC0) = at_channel_config a"
    and "unat (b3 AND 0x03) * 2048 + unat b4 * 8 + unat b5 div 32 = 7 + n"
    and "unat (at_sampling_freq_idx a) < 13" and "at_channel_config a \<noteq> 0"
  shows "adts_parse ([0xFF, 0xF1, b2, b3, b4, b5, 0xFC] @ rest) = Some (coded_adts n a)"
  using assms by (simp add: adts_parse_def coded_adts_def Let_def adts_sample_rates_def)

lemma adts_parse_header:
  assumes "codable a" and "7 + n < 8192"
  shows "adts_parse (adts_header n (at_profile a) (at_sampling_freq_idx a) (at_channel_config a) @ rest) =
    Some (coded_adts n a)"
proof -
  have a: "unat (at_profile a) < 4" "unat (at_sampling_freq_idx a) < 13"
      "1 \<le> unat (at_channel_config a)" "unat (at_channel_config a) < 8"
    using assms(1) by (auto simp: codable_def)
  have small: "(7 + n) div 2048 < 4" using assms(2) by auto
  have len: "(7 + n) div 2048 * 2048 + (7 + n) div 8 mod 256 * 8 + (7 + n) mod 8 = 7 + n"
  proof -
    have "(7 + n) div 2048 = (7 + n) div 8 div 256" by (simp add: div_mult2_eq [symmetric])
    then show ?thesis
      using div_mult_mod_eq [of "(7 + n) div 8" 256] div_mult_mod_eq [of "7 + n" 8] by linarith
  qed
  define b2 where "b2 = push_bit 6 (at_profile a) OR push_bit 2 (at_sampling_freq_idx a AND 0x0F) OR
    (drop_bit 2 (at_channel_config a) AND 0x01)"
  define b3 :: u8 where "b3 = push_bit 6 (at_channel_config a AND 0x03) OR of_nat ((7 + n) div 2048)"
  define b4 :: u8 where "b4 = of_nat ((7 + n) div 8 mod 256)"
  define b5 :: u8 where "b5 = push_bit 5 (of_nat ((7 + n) mod 8)) OR 0x1F"
  have "(7 + n) mod 2 ^ 16 = 7 + n" and "(7 + n) div 2048 mod 4 = (7 + n) div 2048"
    using assms(2) small by simp_all
  then have bytes: "adts_header n (at_profile a) (at_sampling_freq_idx a) (at_channel_config a) =
      [0xFF, 0xF1, b2, b3, b4, b5, 0xFC]"
    unfolding adts_header_def Let_def b2_def b3_def b4_def b5_def by (simp only:)
  have "at_channel_config a \<noteq> 0" using a(3) by (cases "at_channel_config a = 0") simp_all
  moreover have "unat b4 = (7 + n) div 8 mod 256"
    by (simp add: b4_def unat_of_nat)
  moreover have "unat (b3 AND 0x03) = (7 + n) div 2048" "unat b5 div 32 = (7 + n) mod 8"
    unfolding b3_def b5_def using adts_byte_3(2) [OF small a(3,4)] adts_byte_5 [of "(7 + n) mod 8"] by simp_all
  moreover have "drop_bit 6 (b2 AND 0xC0) = at_profile a" "drop_bit 2 (b2 AND 0x3C) = at_sampling_freq_idx a"
      "push_bit 2 (b2 AND 1) OR drop_bit 6 (b3 AND 0xC0) = at_channel_config a"
    using adts_byte_2 [OF a] adts_byte_3(1) [OF small a(3,4)] unfolding b2_def b3_def by simp_all
  ultimately show ?thesis
    unfolding bytes using len a(2) by (intro adts_parse_bytes) simp_all
qed

text \<open>The frames of one PES, the \<open>idx\<close>-th at its time.\<close>

fun aac_events :: "int \<Rightarrow> int \<Rightarrow> u32 \<Rightarrow> bytes list \<Rightarrow> demux_event list" where
  "aac_events base idx rate [] = []"
| "aac_events base idx rate (au # aus) =
     DeAudioFrame \<lparr>fr_track = audio_track_id, fr_dts = audio_ts base idx rate, fr_pts = audio_ts base idx rate,
       fr_keyframe = True, fr_data = au\<rparr> # aac_events base (idx + 1) rate aus"

definition fits_adts :: "bytes \<Rightarrow> bool" where
  "fits_adts au \<longleftrightarrow> au \<noteq> [] \<and> 7 + length au < 8192"

lemma length_adts_header [simp]: "length (adts_header n p s c) = 7"
  by (simp add: adts_header_def Let_def)

lemma audio_loop_known:
  assumes "codable a" and "list_all fits_adts aus" and "audio_specific_config (coded_adts 0 a) = asc"
  shows "audio_loop base (pre @ concat (map (adts_frame a) aus)) (length pre) idx (Some \<lparr>as_sample_rate = rate, as_asc = Some asc\<rparr>) =
    (aac_events base idx rate aus, Some \<lparr>as_sample_rate = rate, as_asc = Some asc\<rparr>)"
  using assms(2)
proof (induction aus arbitrary: pre idx)
  case Nil
  then show ?case by (simp add: audio_loop.simps)
next
  case (Cons au aus)
  define rest where "rest = concat (map (adts_frame a) aus)"
  define st where "st = \<lparr>as_sample_rate = rate, as_asc = Some asc\<rparr>"
  have au: "au \<noteq> []" "7 + length au < 8192"
    using Cons.prems by (simp_all add: fits_adts_def)
  have parse: "adts_parse (adts_frame a au @ rest) = Some (coded_adts (length au) a)"
    using adts_parse_header [OF assms(1) au(2), of "au @ rest"] by (simp add: adts_frame_def)
  have config: "audio_specific_config (coded_adts (length au) a) = asc"
    using assms(3) by (simp add: audio_specific_config_def coded_adts_def)
  have frame: "audio_frame base idx (pre @ adts_frame a au @ rest) (length pre) (coded_adts (length au) a) (Some st) =
      ([DeAudioFrame \<lparr>fr_track = audio_track_id, fr_dts = audio_ts base idx rate, fr_pts = audio_ts base idx rate,
          fr_keyframe = True, fr_data = au\<rparr>], st)"
    using config by (simp add: audio_frame_def st_def adts_frame_def coded_adts_def Let_def)
  have len: "length (adts_frame a au) = 7 + length au"
    by (simp add: adts_frame_def)
  have lens: "ad_frame_len (coded_adts (length au) a) = 7 + length au" "ad_header_len (coded_adts (length au) a) = 7"
    by (simp_all add: coded_adts_def)
  have "audio_loop base (pre @ adts_frame a au @ rest) (length pre) idx (Some st) =
      (let (rest', st') = audio_loop base ((pre @ adts_frame a au) @ rest) (length (pre @ adts_frame a au)) (idx + 1) (Some st)
       in (fst (audio_frame base idx (pre @ adts_frame a au @ rest) (length pre) (coded_adts (length au) a) (Some st)) @ rest', st'))"
    using au(1) by (subst audio_loop.simps) (simp add: parse frame len lens)
  also have "\<dots> = (aac_events base idx rate (au # aus), Some st)"
    using Cons.IH [of "pre @ adts_frame a au" "idx + 1"] Cons.prems frame by (simp add: rest_def st_def)
  finally show ?case
    by (simp add: rest_def st_def)
qed

lemma audio_loop_first:
  assumes "codable a" and "list_all fits_adts (au # aus)"
  defines "x \<equiv> coded_adts 0 a"
  shows "audio_loop base (concat (map (adts_frame a) (au # aus))) 0 0 None =
    (DeAudioInit \<lparr>ti_id = audio_track_id, ti_codec = Aac, ti_timescale = ad_sample_rate x,
        ti_init = audio_specific_config x, ti_lang = None, ti_video = None,
        ti_audio = Some \<lparr>ap_sample_rate = ad_sample_rate x, ap_channels = ad_channels x\<rparr>\<rparr> #
       aac_events base 0 (ad_sample_rate x) (au # aus),
     Some \<lparr>as_sample_rate = ad_sample_rate x, as_asc = Some (audio_specific_config x)\<rparr>)"
proof -
  define rest where "rest = concat (map (adts_frame a) aus)"
  have au: "au \<noteq> []" "7 + length au < 8192"
    using assms(2) by (simp_all add: fits_adts_def)
  have parse: "adts_parse (adts_frame a au @ rest) = Some (coded_adts (length au) a)"
    using adts_parse_header [OF assms(1) au(2), of "au @ rest"] by (simp add: adts_frame_def)
  have same: "audio_specific_config (coded_adts (length au) a) = audio_specific_config x"
      "ad_sample_rate (coded_adts (length au) a) = ad_sample_rate x" "ad_channels (coded_adts (length au) a) = ad_channels x"
      "ad_frame_len (coded_adts (length au) a) = 7 + length au" "ad_header_len (coded_adts (length au) a) = 7"
    by (simp_all add: x_def coded_adts_def audio_specific_config_def)
  have len: "length (adts_frame a au) = 7 + length au"
    by (simp add: adts_frame_def)
  have au_eq: "drop 7 (adts_frame a au) = au"
    by (simp add: adts_frame_def)
  have loop: "audio_loop base (adts_frame a au @ rest) (length (adts_frame a au)) 1
        (Some \<lparr>as_sample_rate = ad_sample_rate x, as_asc = Some (audio_specific_config x)\<rparr>) =
      (aac_events base 1 (ad_sample_rate x) aus, Some \<lparr>as_sample_rate = ad_sample_rate x, as_asc = Some (audio_specific_config x)\<rparr>)"
    using audio_loop_known [OF assms(1), of aus "audio_specific_config x" base "adts_frame a au" 1 "ad_sample_rate x"] assms(2)
    by (simp add: rest_def x_def)
  have "audio_loop base (adts_frame a au @ rest) 0 0 None =
      (DeAudioInit \<lparr>ti_id = audio_track_id, ti_codec = Aac, ti_timescale = ad_sample_rate x,
        ti_init = audio_specific_config x, ti_lang = None, ti_video = None,
        ti_audio = Some \<lparr>ap_sample_rate = ad_sample_rate x, ap_channels = ad_channels x\<rparr>\<rparr> #
       aac_events base 0 (ad_sample_rate x) (au # aus),
     Some \<lparr>as_sample_rate = ad_sample_rate x, as_asc = Some (audio_specific_config x)\<rparr>)"
    using au(1) loop by (subst audio_loop.simps) (simp add: parse same len au_eq audio_frame_def Let_def)
  then show ?thesis by (simp add: rest_def)
qed

text \<open>An \<open>AudioSpecificConfig\<close> of two bytes with nothing behind the channel configuration.\<close>

definition plain_asc :: "bytes \<Rightarrow> audio_track \<Rightarrow> bool" where
  "plain_asc asc a \<longleftrightarrow> length asc = 2 \<and> (asc ! 1) AND 7 = 0 \<and> unat (drop_bit 3 (asc ! 0)) \<le> 4 \<and>
     from_asc asc = Some a \<and> codable a"

lemma plain_asc_config:
  assumes "plain_asc asc a"
  shows "audio_specific_config (coded_adts n a) = asc"
proof -
  obtain x y where asc: "asc = [x, y]"
    using assms by (auto simp: plain_asc_def length_Suc_conv numeral_2_eq_2)
  define w :: u16 where "w = be16 x y"
  define t where "t = drop_bit 11 w AND 0x1F"
  have t: "t = ucast (drop_bit 3 x)"
    unfolding t_def w_def be16_def field_masks
    by (rule bit_word_eqI) (auto simp: bit_simps dest: bit_imp_le_length)
  have "unat t = unat (drop_bit 3 x)"
  proof -
    have "unat (drop_bit 3 x) < 2 ^ LENGTH(8)" by (rule unsigned_less)
    then show ?thesis by (simp add: t unsigned_ucast_eq take_bit_nat_eq_self_iff)
  qed
  then have small: "unat t \<le> 4"
    using assms by (simp add: plain_asc_def asc)
  have a: "t \<noteq> 0" "a = \<lparr>at_profile = ucast (min (t - 1) 3), at_sampling_freq_idx = ucast (drop_bit 7 w AND 0x0F),
      at_channel_config = ucast (drop_bit 3 w AND 0x0F)\<rparr>"
    using assms by (auto simp: plain_asc_def asc from_asc_def Let_def w_def t_def split: if_splits)
  have "unat t \<noteq> 0" using a(1) by (simp add: unat_eq_zero)
  then have "unat t = 1 \<or> unat t = 2 \<or> unat t = 3 \<or> unat t = 4" using small by linarith
  then have "unat t \<in> {1, 2, 3, 4}" by simp
  then have "t \<in> {1, 2, 3, 4}"
    by (auto simp: word_unat_eq_iff)
  then have profile: "(ucast (ucast (min (t - 1) 3) :: u8) + 1 :: u16) AND 0x1F = t"
    by auto
  have low: "w AND 7 = 0"
  proof (rule bit_word_eqI)
    fix n assume "n < LENGTH(16)"
    have "\<not> bit (y AND 7) n"
      using assms by (simp add: plain_asc_def asc)
    then show "bit (w AND 7) n = bit 0 n"
      unfolding w_def be16_def field_masks by (auto simp: bit_simps)
  qed
  have "audio_specific_config (coded_adts n a) =
      (let m = push_bit 11 ((ucast (ucast (min (t - 1) 3) :: u8) + 1 :: u16) AND 0x1F) OR
          push_bit 7 (ucast ((ucast (drop_bit 7 w AND 0x0F) :: u8) AND 0x0F)) OR
          push_bit 3 (ucast ((ucast (drop_bit 3 w AND 0x0F) :: u8) AND 0x0F))
       in [ucast (drop_bit 8 m), ucast m])"
    unfolding audio_specific_config_def coded_adts_def a(2) by simp
  also have "\<dots> = [ucast (drop_bit 8 w), ucast w]"
    by (simp only: profile) (simp only: t_def asc_fields [OF low] Let_def)
  finally show ?thesis
    by (simp add: w_def asc asc_bytes)
qed

text \<open>
  The AAC frames the muxer puts into a PES packet behind their ADTS headers are all given back
  by the demuxer of a new connection, byte for byte and in order, after one announcement of the track
  that carries the very \<open>AudioSpecificConfig\<close> the muxer was given.
\<close>

theorem aac_roundtrip:
  assumes "plain_asc asc a" and "list_all fits_adts (au # aus)" and "dm_audio d = None"
    and "eu_data unit = concat (map (adts_frame a) (au # aus))"
  defines "rate \<equiv> adts_sample_rates ! unat (at_sampling_freq_idx a)"
  shows "fst (consume_audio unit d) =
    DeAudioInit \<lparr>ti_id = audio_track_id, ti_codec = Aac, ti_timescale = rate, ti_init = asc, ti_lang = None, ti_video = None,
      ti_audio = Some \<lparr>ap_sample_rate = rate, ap_channels = (if at_channel_config a = 7 then 8 else at_channel_config a)\<rparr>\<rparr> #
    aac_events (fst (audio_timestamp_90k unit d)) 0 rate (au # aus)"
proof -
  have "codable a" using assms(1) by (simp add: plain_asc_def)
  have "dm_audio (snd (audio_timestamp_90k unit d)) = None"
    using assms(3) by (simp add: audio_timestamp_90k_def zero_or_def case_prod_unfold Let_def split: option.splits)
  moreover have "ad_sample_rate (coded_adts 0 a) = rate"
      "ad_channels (coded_adts 0 a) = (if at_channel_config a = 7 then 8 else at_channel_config a)"
    by (simp_all add: coded_adts_def rate_def)
  ultimately show ?thesis
    using audio_loop_first [OF \<open>codable a\<close> assms(2)] plain_asc_config [OF assms(1)]
    by (simp add: consume_audio_def assms(4) case_prod_unfold Let_def)
qed

definition demo_audio_unit :: es_unit where
  "demo_audio_unit = \<lparr>eu_kind = EsAac, eu_pts = Some 9000, eu_dts = None,
     eu_data = concat (map (adts_frame \<lparr>at_profile = 1, at_sampling_freq_idx = 4, at_channel_config = 2\<rparr>) [[1, 2], [3]])\<rparr>"

theorem aac_roundtrip_witness:
  "fst (consume_audio demo_audio_unit demuxer_new) =
    DeAudioInit \<lparr>ti_id = TrackId 1, ti_codec = Aac, ti_timescale = 44100, ti_init = [0x12, 0x10], ti_lang = None,
      ti_video = None, ti_audio = Some \<lparr>ap_sample_rate = 44100, ap_channels = 2\<rparr>\<rparr> #
    aac_events 0 0 44100 [[1, 2], [3]]"
proof -
  have "plain_asc [0x12, 0x10] \<lparr>at_profile = 1, at_sampling_freq_idx = 4, at_channel_config = 2\<rparr>"
    by (simp add: plain_asc_def from_asc_def be16_def Let_def codable_def)
  moreover have "fst (audio_timestamp_90k demo_audio_unit demuxer_new) = 0"
    by (simp add: audio_timestamp_90k_def demo_audio_unit_def demuxer_new_def clock_extend_def ts_clock_default_def zero_or_def
        Let_def case_prod_unfold)
  ultimately show ?thesis
    using aac_roundtrip [of "[0x12, 0x10]" "\<lparr>at_profile = 1, at_sampling_freq_idx = 4, at_channel_config = 2\<rparr>"
        "[1, 2]" "[[3]]" demuxer_new demo_audio_unit]
    by (simp add: fits_adts_def demuxer_new_def demo_audio_unit_def adts_sample_rates_def audio_track_id_def)
qed

text \<open>
  The frames after the first of one PES do not advance by whole frames at 44.1 kHz: the step of
  1024 samples is rounded down to 2089 ticks of 90 kHz first, so every later frame is placed before its
  time, the second at sample 1023 instead of 1024.
\<close>

theorem aac_frames_drift:
  assumes "0 < idx" and "idx < 2 ^ 20"
  shows "audio_ts 0 idx 44100 < idx * 1024"
proof -
  have "idx * 2089 * 44100 < idx * 1024 * 90000" using assms by simp
  then have "idx * 92124900 div 90000 < idx * 1024" by linarith
  moreover have "audio_ts 0 idx 44100 = idx * 92124900 div 90000"
  proof -
    have "in_i64 (idx * 92124900 div 90000)"
      unfolding in_i64_bounds using assms by auto
    then show ?thesis
      using assms by (simp add: audio_ts_def sdiv_nonneg wrap64_id mult.commute)
  qed
  ultimately show ?thesis by simp
qed

theorem aac_frames_drift_witness: "audio_ts 0 1 44100 < 1024"
  using aac_frames_drift [of 1] by simp

lemma aac_second_frame_early: "audio_ts 0 1 44100 = 1023"
  by (simp add: audio_ts_def sdiv_nonneg wrap64_id in_i64_bounds)

subsection \<open>From a frame to its unit\<close>

text \<open>The tables the muxer may put before a frame, and what they teach the demuxer.\<close>

lemma maybe_write_psi_out:
  "maybe_write_psi (\<lambda>_. True) now force m = m \<or>
   (\<exists>c c' pcr v ds. tm_out (maybe_write_psi (\<lambda>_. True) now force m) =
      tm_out m @ [PsiPacket pat_pid c (PatPsi 1 pmt_pid), PsiPacket pmt_pid c' (PmtPsi pcr v ds (pmt_es_info m))])"
  by (simp add: maybe_write_psi_def write_pmt_def write_pat_def write_psi_packet_def next_cc_def write_packet_def
      pmt_es_info_def Let_def)

lemma maybe_write_psi_same [simp]:
  "tm_audio (maybe_write_psi acc now force m) = tm_audio m"
  "tm_video (maybe_write_psi acc now force m) = tm_video m"
  "tm_media_clock (maybe_write_psi acc now force m) = tm_media_clock m"
  by (simp_all add: maybe_write_psi_def write_pmt_def write_pat_def write_psi_packet_def next_cc_def write_packet_def Let_def)

lemma psi_written_first:
  assumes "tm_audio m \<noteq> None" and "\<not> tm_psi_written m"
  shows "maybe_write_psi acc now force m \<noteq> m"
proof
  assume "maybe_write_psi acc now force m = m"
  then have "tm_psi_written (maybe_write_psi acc now force m) = tm_psi_written m" by simp
  with assms show False by (auto simp: maybe_write_psi_def)
qed

lemma handle_pmt_partial [simp]: "td_partial (fold handle_pmt_entry es d) = td_partial d"
proof (induction es arbitrary: d)
  case (Cons e es)
  have "td_partial (handle_pmt_entry e d) = td_partial d"
    by (simp add: handle_pmt_entry_def split: option.splits es_kind.splits)
  with Cons show ?case by simp
qed simp

lemma pmt_teaches_audio:
  assumes "tm_audio m \<noteq> None"
  shows "map_of (td_es_pids (fold handle_pmt_entry (pmt_es_info m) d)) audio_pid = Some EsAac"
  using assms
  by (auto simp: pmt_es_info_def handle_pmt_entry_def es_kind_of_def stream_type_scte35_def update_conv'
      audio_pid_def video_pid_def scte35_pid_def split: option.splits)

text \<open>The tables the muxer puts before a frame, if any, teach the demuxer the audio PID and give no unit.\<close>

lemma tables_before_audio:
  assumes "tm_audio m = Some a" and "\<not> tm_psi_written m \<or> map_of (td_es_pids d) audio_pid = Some EsAac"
  obtains ts d0 where "tm_out (maybe_write_psi (\<lambda>_. True) now False m) = tm_out m @ ts" "demux_packets ts d = ([], d0)"
    "map_of (td_es_pids d0) audio_pid = Some EsAac" "td_partial d0 = td_partial d"
proof (cases "maybe_write_psi (\<lambda>_. True) now False m = m")
  case True
  then have "tm_psi_written m" using psi_written_first [of m] assms(1) by auto
  with True that [of "[]" d] assms(2) show thesis by auto
next
  case False
  then obtain c c' pc v ds where out: "tm_out (maybe_write_psi (\<lambda>_. True) now False m) =
      tm_out m @ [PsiPacket pat_pid c (PatPsi 1 pmt_pid), PsiPacket pmt_pid c' (PmtPsi pc v ds (pmt_es_info m))]"
    using maybe_write_psi_out [of now False m] by auto
  show thesis
  proof (rule that [OF out])
    show "demux_packets [PsiPacket pat_pid c (PatPsi 1 pmt_pid), PsiPacket pmt_pid c' (PmtPsi pc v ds (pmt_es_info m))] d =
        ([], fold handle_pmt_entry (pmt_es_info m) d)"
      by (simp add: handle_payload_def handle_pmt_def)
  qed (simp_all add: pmt_teaches_audio assms(1))
qed

text \<open>
  Claim C19. An AAC frame pushed into the muxer comes out of the demuxer as one unit: its bytes behind
  their ADTS header, its presentation time on the muxer's 33-bit clock; at once, whatever the build, and
  also on the first frame, when the demuxer knows the PID only from the tables the muxer puts before it.
\<close>

theorem audio_frame_through_ts:
  assumes "mux_push_frame p (\<lambda>_. True) now info f m = Some m'" and "ti_codec info = Aac"
    and "tm_audio m = Some a" and "fits_adts (fr_data f)"
    and "\<not> tm_psi_written m \<or> map_of (td_es_pids d) audio_pid = Some EsAac"
    and "tm_out m' = tm_out m @ ps" and "demux_packets ps d = (out, d')"
  shows "out = pending audio_pid d @
    [\<lparr>eu_kind = EsAac, eu_pts = Some (nat (pes_ts m (fr_pts f) (ti_timescale info))), eu_dts = None,
      eu_data = adts_frame a (fr_data f)\<rparr>]"
proof -
  define m1 where "m1 = (if tm_media_clock m then m\<lparr>tm_now_90k := Some (to_90k (fr_dts f) (ti_timescale info))\<rparr> else m)"
  define m2 where "m2 = maybe_write_psi (\<lambda>_. True) now False m1"
  define pcr where "pcr = (if is_pcr_track Audio m2 then fst (due_pcr now (to_90k (fr_dts f) (ti_timescale info)) m2) else None)"
  define m3 where "m3 = (if is_pcr_track Audio m2 then snd (due_pcr now (to_90k (fr_dts f) (ti_timescale info)) m2) else m2)"
  define h where "h = \<lparr>ph_pts = Some (nat (pes_ts m (fr_pts f) (ti_timescale info))), ph_dts = None, ph_escr = None\<rparr>"
  define payload where "payload = adts_frame a (fr_data f)"
  have m1: "tm_out m1 = tm_out m" "tm_audio m1 = Some a" "tm_psi_written m1 = tm_psi_written m" "tm_media_clock m1 = tm_media_clock m"
    using assms(3) by (simp_all add: m1_def)
  have m3: "tm_out m3 = tm_out m2" "tm_audio m3 = Some a" "tm_media_clock m3 = tm_media_clock m"
    using m1 by (auto simp: m3_def m2_def due_pcr_def)
  have len: "optional_header_len h + length payload < 2 ^ 16" "length payload < 2 ^ 16"
    using assms(4) by (simp_all add: h_def optional_header_len_def payload_def adts_frame_def fits_adts_def)
  have ts: "pes_ts m3 t s = pes_ts m t s" for t s
    using m3(3) by (simp add: pes_ts_def pts_offset_def)
  have kind: "track_kind_of info = Audio"
    using assms(2) by (simp add: track_kind_of_def)
  have "mux_push_frame p (\<lambda>_. True) now info f m = write_audio p (\<lambda>_. True) info f pcr m3"
    using assms(2) kind
    by (simp add: mux_push_frame_def m1_def m2_def m3_def pcr_def Let_def case_prod_unfold)
  also have "\<dots> = Some (write_pes (\<lambda>_. True) audio_pid h (optional_header_len h + length payload) payload False pcr m3)"
    using m3(2) len ts by (simp add: write_audio_def checked_u16_def h_def payload_def adts_frame_def Let_def)
  finally have m': "m' = write_pes (\<lambda>_. True) audio_pid h (optional_header_len h + length payload) payload False pcr m3"
    using assms(1) by simp
  obtain qs where qs: "tm_out m' = tm_out m3 @ qs"
    using write_pes_out [of audio_pid h "optional_header_len h + length payload" payload False pcr m3] by (auto simp: m')
  obtain ts0 d0 where ts0: "tm_out m2 = tm_out m1 @ ts0" and tables: "demux_packets ts0 d = ([], d0)"
      and known: "map_of (td_es_pids d0) audio_pid = Some EsAac" and same: "td_partial d0 = td_partial d"
    unfolding m2_def by (rule tables_before_audio [of m1 a d now]) (use m1 assms(5) in simp_all)
  have ps: "ps = ts0 @ qs" using assms(6) qs m3(1) ts0 m1(1) by simp
  obtain out' where run: "demux_packets qs d0 = (out', d')" and out: "out = out'"
    using assms(7) tables by (auto simp: ps demux_packets_append Let_def split: prod.splits)
  obtain qs' where "tm_out m' = tm_out m3 @ qs'" and
    res: "out' @ pending audio_pid d' = pending audio_pid d0 @ [pes_unit EsAac h payload]" "pending audio_pid d' = []"
  proof -
    have "\<And>x. x = qs \<Longrightarrow> tm_out (write_pes (\<lambda>_. True) audio_pid h (optional_header_len h + length payload) payload False pcr m3) =
        tm_out m3 @ x" using qs m' by simp
    from pes_resumes [OF known _ this [OF refl] run] that qs show thesis
      by (auto simp: optional_header_len_def)
  qed
  then show ?thesis
    using same by (simp add: out pending_def pes_unit_def h_def payload_def)
qed

definition demo_aac_mux :: ts_mux where
  "demo_aac_mux = ts_mux_new\<lparr>tm_audio := Some \<lparr>at_profile = 1, at_sampling_freq_idx = 4, at_channel_config = 2\<rparr>\<rparr>"

definition demo_aac_info :: track_info where
  "demo_aac_info = \<lparr>ti_id = TrackId 1, ti_codec = Aac, ti_timescale = 44100, ti_init = [0x12, 0x10], ti_lang = None,
     ti_video = None, ti_audio = Some \<lparr>ap_sample_rate = 44100, ap_channels = 2\<rparr>\<rparr>"

definition demo_aac_frame :: frame where
  "demo_aac_frame = \<lparr>fr_track = TrackId 1, fr_dts = 44100, fr_pts = 44100, fr_keyframe = True, fr_data = [1, 2, 3]\<rparr>"

theorem audio_frame_through_ts_witness:
  "\<exists>m'. mux_push_frame Debug (\<lambda>_. True) 0 demo_aac_info demo_aac_frame demo_aac_mux = Some m' \<and>
     fst (demux_packets (tm_out m') (ts_demux_new ())) =
       [\<lparr>eu_kind = EsAac, eu_pts = Some 90000, eu_dts = None,
         eu_data = adts_frame \<lparr>at_profile = 1, at_sampling_freq_idx = 4, at_channel_config = 2\<rparr> [1, 2, 3]\<rparr>]"
proof -
  have pts: "nat (pes_ts demo_aac_mux (fr_pts demo_aac_frame) (ti_timescale demo_aac_info)) = 90000"
    by (simp add: pes_ts_def to_90k_def pts_offset_def demo_aac_mux_def demo_aac_frame_def demo_aac_info_def ts_mux_new_def
        sdiv_nonneg wrap64_id in_i64_bounds)
  have "\<exists>m'. write_audio Debug (\<lambda>_. True) demo_aac_info demo_aac_frame pcr m = Some m'"
    if "tm_audio m = tm_audio demo_aac_mux" for pcr m
    using that by (simp add: write_audio_def demo_aac_mux_def demo_aac_frame_def checked_u16_def optional_header_len_def Let_def)
  then have "\<exists>m'. mux_push_frame Debug (\<lambda>_. True) 0 demo_aac_info demo_aac_frame demo_aac_mux = Some m'"
    by (simp add: mux_push_frame_def demo_aac_info_def track_kind_of_def case_prod_unfold Let_def due_pcr_def)
  then obtain m' where m': "mux_push_frame Debug (\<lambda>_. True) 0 demo_aac_info demo_aac_frame demo_aac_mux = Some m'"
    by blast
  define r where "r = demux_packets (tm_out m') (ts_demux_new ())"
  have "fst r = pending audio_pid (ts_demux_new ()) @
      [\<lparr>eu_kind = EsAac, eu_pts = Some (nat (pes_ts demo_aac_mux (fr_pts demo_aac_frame) (ti_timescale demo_aac_info))),
        eu_dts = None,
        eu_data = adts_frame \<lparr>at_profile = 1, at_sampling_freq_idx = 4, at_channel_config = 2\<rparr> (fr_data demo_aac_frame)\<rparr>]"
  proof (rule audio_frame_through_ts [OF m'])
    show "tm_out m' = tm_out demo_aac_mux @ tm_out m'" by (simp add: demo_aac_mux_def ts_mux_new_def)
    show "demux_packets (tm_out m') (ts_demux_new ()) = (fst r, snd r)" by (simp add: r_def)
  qed (simp_all add: demo_aac_info_def demo_aac_mux_def demo_aac_frame_def ts_mux_new_def fits_adts_def)
  then show ?thesis
    using m' unfolding pts r_def by (auto simp: demo_aac_frame_def pending_def ts_demux_new_def)
qed

end
