(* ===== verification/Cmaf.thy ===== *)
theory Cmaf
  imports Media "HOL-Library.Monad_Syntax"
begin

text \<open>
  \<open>crates/caudal-cmaf/src\<close>: what goes into the boxes of an init segment and of a fragment, and the two
  facts about Opus they need. The boxes themselves are written by \<open>mp4-atom\<close>: encoding a \<open>moof\<close>, an
  init segment, and decoding an \<open>avcC\<close> or \<open>hvcC\<close> record (a value of type \<open>'c\<close>) are arguments.
\<close>

unbundle bit_operations_syntax

subsection \<open>Opus\<close>

definition le16 :: "u8 \<Rightarrow> u8 \<Rightarrow> u16" where
  "le16 a b = be16 b a"

definition le32 :: "u8 \<Rightarrow> u8 \<Rightarrow> u8 \<Rightarrow> u8 \<Rightarrow> u32" where
  "le32 a b c d = push_bit 24 (ucast d) OR push_bit 16 (ucast c) OR push_bit 8 (ucast b) OR ucast a"

record opus_head =
  oh_channels :: u8
  oh_pre_skip :: u16
  oh_input_sample_rate :: u32
  oh_output_gain :: u16

text \<open>The gain is an \<open>i16\<close>, kept as its bits.\<close>

definition opus_magic :: bytes where
  "opus_magic = [0x4F, 0x70, 0x75, 0x73, 0x48, 0x65, 0x61, 0x64]"

definition parse_opus_head :: "bytes \<Rightarrow> opus_head option" where
  "parse_opus_head d =
     (if length d < 19 \<or> take 8 d \<noteq> opus_magic then None
      else if d ! 18 \<noteq> 0 then None
      else Some \<lparr>oh_channels = d ! 9, oh_pre_skip = le16 (d ! 10) (d ! 11),
             oh_input_sample_rate = le32 (d ! 12) (d ! 13) (d ! 14) (d ! 15),
             oh_output_gain = le16 (d ! 16) (d ! 17)\<rparr>)"

definition config_frame_samples :: "nat \<Rightarrow> nat" where
  "config_frame_samples config =
     (if config \<le> 11 then [480, 960, 1920, 2880] ! (config mod 4)
      else if config \<le> 15 then [480, 960] ! (config mod 2)
      else [120, 240, 480, 960] ! (config mod 4))"

definition frame_duration_samples :: "bytes \<Rightarrow> nat" where
  "frame_duration_samples packet =
     (case packet of
        [] \<Rightarrow> 960
      | toc # rest \<Rightarrow>
         (let per_frame = config_frame_samples (unat toc div 8);
              frames = (if unat toc mod 4 = 0 then 1 else if unat toc mod 4 \<le> 2 then 2
                else (case rest of [] \<Rightarrow> 1 | b # _ \<Rightarrow> if unat b mod 64 > 0 then unat b mod 64 else 1))
          in min (per_frame * frames) (2 ^ 32 - 1)))"

lemma config_frame_samples_bounds: "c < 32 \<Longrightarrow> 120 \<le> config_frame_samples c \<and> config_frame_samples c \<le> 2880"
proof -
  have "c mod 4 = 0 \<or> c mod 4 = 1 \<or> c mod 4 = 2 \<or> c mod 4 = 3" "c mod 2 = 0 \<or> c mod 2 = 1" by presburger+
  then show ?thesis by (auto simp: config_frame_samples_def)
qed

lemma frame_duration_bounds: "120 \<le> frame_duration_samples p \<and> frame_duration_samples p \<le> 63 * 2880"
proof (cases p)
  case (Cons toc rest)
  have "unat toc < 2 ^ LENGTH(8)" by (rule unsigned_less)
  then have "unat toc div 8 < 32" by auto
  then have per: "120 \<le> config_frame_samples (unat toc div 8)" "config_frame_samples (unat toc div 8) \<le> 2880"
    using config_frame_samples_bounds by auto
  define n where "n = (if unat toc mod 4 = 0 then 1 else if unat toc mod 4 \<le> 2 then 2
                else (case rest of [] \<Rightarrow> 1 | b # _ \<Rightarrow> if unat b mod 64 > 0 then unat b mod 64 else 1))"
  have n: "1 \<le> n" "n \<le> 63" by (auto simp: n_def split: list.splits)
  have "120 * 1 \<le> config_frame_samples (unat toc div 8) * n" "config_frame_samples (unat toc div 8) * n \<le> 2880 * 63"
    using per n by (intro mult_le_mono; simp)+
  then show ?thesis by (simp add: frame_duration_samples_def Cons n_def [symmetric] Let_def)
qed (simp add: frame_duration_samples_def)

subsection \<open>Init segments\<close>

record mp4_track =
  mt_track_id :: nat
  mt_info :: track_info

datatype 'c sample_entry =
    EAvc1 nat nat 'c
  | EHvc1 nat nat 'c
  | EMp4a nat nat nat u8 u8 u8 bytes
  | EOpus nat nat opus_head

text \<open>
  What the code sets of a \<open>trak\<close> and of the \<open>moov\<close> around it; the rest has the defaults of \<open>mp4-atom\<close>.
  Of an \<open>EMp4a\<close>: channels, rate, ES id, profile, frequency index, channel configuration, the raw config.
\<close>

record 'c trak =
  tk_track_id :: nat
  tk_video :: bool
  tk_width :: nat
  tk_height :: nat
  tk_timescale :: nat
  tk_language :: string
  tk_entry :: "'c sample_entry"

record 'c moov =
  mv_next_track_id :: nat
  mv_traks :: "'c trak list"

record 'c mp4_codec =
  mc_avcc :: "bytes \<Rightarrow> 'c option"
  mc_hvcc :: "bytes \<Rightarrow> 'c option"
  mc_encode :: "'c moov \<Rightarrow> bytes option"

definition aac_entry :: "nat \<Rightarrow> track_info \<Rightarrow> 'c sample_entry option" where
  "aac_entry track_id info =
     (let asc = ti_init info in
      if length asc < 2 then None
      else (let profile = drop_bit 3 (asc ! 0);
                freq_index = push_bit 1 ((asc ! 0) AND 0x07) OR drop_bit 7 (asc ! 1);
                chan_conf = drop_bit 3 (asc ! 1) AND 0x0F;
                channels = (case ti_audio info of
                    Some a \<Rightarrow> if ap_channels a > 0 then unat (ap_channels a) else max (unat chan_conf) 1
                  | None \<Rightarrow> max (unat chan_conf) 1);
                rate = (case ti_audio info of Some a \<Rightarrow> unat (ap_sample_rate a) | None \<Rightarrow> unat (ti_timescale info))
            in Some (EMp4a channels (min rate (2 ^ 16 - 1)) (track_id mod 2 ^ 16) profile freq_index chan_conf asc)))"

definition opus_entry :: "track_info \<Rightarrow> 'c sample_entry option" where
  "opus_entry info = do {
     head \<leftarrow> parse_opus_head (ti_init info);
     let channels = max (case ti_audio info of
           Some a \<Rightarrow> if ap_channels a > 0 then unat (ap_channels a) else unat (oh_channels head)
         | None \<Rightarrow> unat (oh_channels head)) 1;
     let rate = (case ti_audio info of Some a \<Rightarrow> unat (ap_sample_rate a) | None \<Rightarrow> 48000);
     Some (EOpus channels (min rate (2 ^ 16 - 1)) head) }"

definition trak_of :: "'c mp4_codec \<Rightarrow> mp4_track \<Rightarrow> 'c trak option" where
  "trak_of mc t =
     (let info = mt_info t;
          (width, height) = (case ti_video info of
              Some v \<Rightarrow> (min (unat (vp_width v)) (2 ^ 16 - 1), min (unat (vp_height v)) (2 ^ 16 - 1))
            | None \<Rightarrow> (0, 0))
      in do {
        entry \<leftarrow> (case ti_codec info of
            H264 \<Rightarrow> map_option (EAvc1 width height) (mc_avcc mc (ti_init info))
          | H265 \<Rightarrow> map_option (EHvc1 width height) (mc_hvcc mc (ti_init info))
          | Aac \<Rightarrow> aac_entry (mt_track_id t) info
          | Opus \<Rightarrow> opus_entry info
          | _ \<Rightarrow> None);
        Some \<lparr>tk_track_id = mt_track_id t, tk_video = (track_kind_of info = Video), tk_width = width, tk_height = height,
          tk_timescale = unat (ti_timescale info),
          tk_language = (case ti_lang info of Some l \<Rightarrow> if length l = 3 then l else ''und'' | None \<Rightarrow> ''und''),
          tk_entry = entry\<rparr> })"

definition init_segment :: "'c mp4_codec \<Rightarrow> mp4_track list \<Rightarrow> bytes option" where
  "init_segment mc tracks = do {
     traks \<leftarrow> those (map (trak_of mc) tracks);
     mc_encode mc \<lparr>mv_next_track_id = foldl max 0 (map mt_track_id tracks) + 1, mv_traks = traks\<rparr> }"

subsection \<open>Fragments\<close>

record sample =
  sa_dts :: int
  sa_cts :: int
  sa_dur :: nat
  sa_key :: bool
  sa_data :: bytes

record run =
  ru_track_id :: nat
  ru_samples :: "sample list"

definition flags_sync :: u32 where "flags_sync = 0x02000000"
definition flags_non_sync :: u32 where "flags_non_sync = 0x01010000"

record trun_entry =
  te_duration :: nat
  te_size :: nat
  te_flags :: u32
  te_cts :: int

record traf =
  tf_track_id :: nat
  tf_base_decode_time :: nat
  tf_data_offset :: int
  tf_entries :: "trun_entry list"

record moof =
  mo_sequence :: nat
  mo_trafs :: "traf list"

definition wrap32 :: "int \<Rightarrow> int" where
  "wrap32 x = (x + 2 ^ 31) mod 2 ^ 32 - 2 ^ 31"

definition trun_entry_of :: "sample \<Rightarrow> trun_entry" where
  "trun_entry_of s =
     \<lparr>te_duration = sa_dur s, te_size = length (sa_data s) mod 2 ^ 32,
      te_flags = (if sa_key s then flags_sync else flags_non_sync), te_cts = sa_cts s\<rparr>"

definition traf_of :: "run \<Rightarrow> traf" where
  "traf_of r =
     \<lparr>tf_track_id = ru_track_id r, tf_base_decode_time = nat (max (sa_dts (hd (ru_samples r))) 0),
      tf_data_offset = 0, tf_entries = map trun_entry_of (ru_samples r)\<rparr>"

definition run_bytes :: "run \<Rightarrow> bytes" where
  "run_bytes r = concat (map sa_data (ru_samples r))"

text \<open>The second pass: where each run's bytes begin, counted from the start of the \<open>moof\<close>.\<close>

fun place_runs :: "int \<Rightarrow> run list \<Rightarrow> traf list" where
  "place_runs offset [] = []"
| "place_runs offset (r # rs) =
     (traf_of r)\<lparr>tf_data_offset := offset\<rparr> # place_runs (wrap32 (offset + int (length (run_bytes r)))) rs"

definition mdat_name :: bytes where
  "mdat_name = [0x6D, 0x64, 0x61, 0x74]"

definition fragment :: "(moof \<Rightarrow> bytes) \<Rightarrow> nat \<Rightarrow> run list \<Rightarrow> bytes" where
  "fragment moof_encode sequence runs =
     (let runs = filter (\<lambda>r. ru_samples r \<noteq> []) runs;
          probe = moof_encode \<lparr>mo_sequence = sequence, mo_trafs = map traf_of runs\<rparr>;
          payload = concat (map run_bytes runs)
      in moof_encode \<lparr>mo_sequence = sequence, mo_trafs = place_runs (wrap32 (int (length probe) + 8)) runs\<rparr> @
         to_be32 (length payload + 8) @ mdat_name @ payload)"

text \<open>The box writer's promise: the offsets do not change how long a \<open>moof\<close> is.\<close>

definition offsets_keep_length :: "(moof \<Rightarrow> bytes) \<Rightarrow> bool" where
  "offsets_keep_length enc \<longleftrightarrow>
     (\<forall>sq ts us. map (\<lambda>t. t\<lparr>tf_data_offset := 0\<rparr>) ts = map (\<lambda>t. t\<lparr>tf_data_offset := 0\<rparr>) us \<longrightarrow>
        length (enc \<lparr>mo_sequence = sq, mo_trafs = ts\<rparr>) = length (enc \<lparr>mo_sequence = sq, mo_trafs = us\<rparr>))"

lemma wrap32_id: "- (2 ^ 31) \<le> x \<Longrightarrow> x < 2 ^ 31 \<Longrightarrow> wrap32 x = x"
  by (simp add: wrap32_def)

lemma place_runs_length [simp]: "length (place_runs off rs) = length rs"
  by (induction rs arbitrary: off) simp_all

lemma place_runs_shape:
  "map (\<lambda>t. t\<lparr>tf_data_offset := 0\<rparr>) (place_runs off rs) = map (\<lambda>t. t\<lparr>tf_data_offset := 0\<rparr>) (map traf_of rs)"
  by (induction rs arbitrary: off) (simp_all add: traf_of_def)

lemma place_runs_offset:
  assumes "i < length rs" and "0 \<le> off" and "off + int (length (concat (map run_bytes rs))) < 2 ^ 31"
  shows "tf_data_offset (place_runs off rs ! i) = off + int (length (concat (map run_bytes (take i rs))))"
  using assms
proof (induction rs arbitrary: i off)
  case (Cons r rs)
  show ?case
  proof (cases i)
    case (Suc j)
    have "wrap32 (off + int (length (run_bytes r))) = off + int (length (run_bytes r))"
      using Cons.prems by (intro wrap32_id) simp_all
    then show ?thesis
      using Cons.IH [of j "off + int (length (run_bytes r))"] Cons.prems Suc by simp
  qed simp
qed simp

text \<open>
  Claim C22. Every track run of a fragment finds its samples: at the offset its header gives, counted from
  the start of the fragment, the fragment holds exactly the bytes of that run's samples, in order, for
  fragments below 2 GiB and a box writer whose offsets have a fixed size.
\<close>

theorem fragment_offsets:
  assumes "offsets_keep_length enc" and "length (fragment enc sq runs) < 2 ^ 31"
    and "rs = filter (\<lambda>r. ru_samples r \<noteq> []) runs" and "i < length rs"
  shows "\<exists>trafs rest. fragment enc sq runs = enc \<lparr>mo_sequence = sq, mo_trafs = trafs\<rparr> @ rest \<and> length trafs = length rs \<and>
    tf_track_id (trafs ! i) = ru_track_id (rs ! i) \<and>
    take (length (run_bytes (rs ! i))) (drop (nat (tf_data_offset (trafs ! i))) (fragment enc sq runs)) = run_bytes (rs ! i)"
proof -
  define probe where "probe = enc \<lparr>mo_sequence = sq, mo_trafs = map traf_of rs\<rparr>"
  define off where "off = int (length probe) + 8"
  define payload where "payload = concat (map run_bytes rs)"
  define trafs where "trafs = place_runs (wrap32 off) rs"
  have frag: "fragment enc sq runs = enc \<lparr>mo_sequence = sq, mo_trafs = trafs\<rparr> @
      (to_be32 (length payload + 8) @ mdat_name @ payload)"
    by (simp add: fragment_def Let_def probe_def off_def payload_def trafs_def assms(3))
  have len: "length (enc \<lparr>mo_sequence = sq, mo_trafs = trafs\<rparr>) = length probe"
    using assms(1) place_runs_shape unfolding offsets_keep_length_def trafs_def probe_def by blast
  have size: "off + int (length payload) < 2 ^ 31"
    using assms(2) by (simp add: frag len off_def to_be32_def mdat_name_def)
  then have "wrap32 off = off"
    by (intro wrap32_id) (simp_all add: off_def)
  then have at: "tf_data_offset (trafs ! i) = off + int (length (concat (map run_bytes (take i rs))))"
    using place_runs_offset [of i rs off] assms(4) size by (simp add: trafs_def off_def payload_def)
  have "payload = concat (map run_bytes (take i rs)) @ run_bytes (rs ! i) @ concat (map run_bytes (drop (Suc i) rs))"
    unfolding payload_def using assms(4) by (metis concat.simps(2) concat_append id_take_nth_drop list.simps(9) map_append)
  moreover have "drop (nat (tf_data_offset (trafs ! i))) (fragment enc sq runs) =
      drop (length (concat (map run_bytes (take i rs)))) payload"
  proof -
    define box where "box = to_be32 (length payload + 8) @ mdat_name"
    have box: "length box = 8" by (simp add: box_def mdat_name_def)
    have "fragment enc sq runs = enc \<lparr>mo_sequence = sq, mo_trafs = trafs\<rparr> @ box @ payload"
      by (simp add: frag box_def)
    then show ?thesis
      using box len by (simp add: at off_def nat_add_distrib)
  qed
  ultimately have "take (length (run_bytes (rs ! i))) (drop (nat (tf_data_offset (trafs ! i))) (fragment enc sq runs)) =
      run_bytes (rs ! i)"
    by simp
  moreover have "tf_track_id (trafs ! i) = ru_track_id (rs ! i)"
    using arg_cong [OF place_runs_shape [of "wrap32 off" rs], of "\<lambda>xs. tf_track_id (xs ! i)"] assms(4)
    by (simp add: trafs_def traf_of_def)
  ultimately show ?thesis
    using frag by (intro exI conjI) (auto simp: trafs_def)
qed

definition demo_moof_encode :: "moof \<Rightarrow> bytes" where
  "demo_moof_encode m = concat (map (\<lambda>t. of_nat (tf_track_id t) # to_be32 (nat (tf_data_offset t))) (mo_trafs m))"

definition demo_sample :: "nat \<Rightarrow> sample" where
  "demo_sample n = \<lparr>sa_dts = 0, sa_cts = 0, sa_dur = 1, sa_key = True, sa_data = replicate n (of_nat n)\<rparr>"

theorem fragment_offsets_witness:
  "\<exists>trafs rest. fragment demo_moof_encode 1 [\<lparr>ru_track_id = 1, ru_samples = [demo_sample 2]\<rparr>,
      \<lparr>ru_track_id = 2, ru_samples = [demo_sample 3]\<rparr>] = demo_moof_encode \<lparr>mo_sequence = 1, mo_trafs = trafs\<rparr> @ rest \<and>
    length trafs = 2 \<and> tf_track_id (trafs ! 1) = 2 \<and>
    take 3 (drop (nat (tf_data_offset (trafs ! 1))) (fragment demo_moof_encode 1
      [\<lparr>ru_track_id = 1, ru_samples = [demo_sample 2]\<rparr>, \<lparr>ru_track_id = 2, ru_samples = [demo_sample 3]\<rparr>])) = [3, 3, 3]"
proof -
  have len: "length (demo_moof_encode m) = 5 * length (mo_trafs m)" for m
    by (cases m) (simp add: demo_moof_encode_def length_concat to_be32_def comp_def sum_list_triv)
  then have "offsets_keep_length demo_moof_encode"
    unfolding offsets_keep_length_def by (metis length_map moof.select_convs(2))
  moreover have "length (fragment demo_moof_encode 1 [\<lparr>ru_track_id = 1, ru_samples = [demo_sample 2]\<rparr>,
      \<lparr>ru_track_id = 2, ru_samples = [demo_sample 3]\<rparr>]) < 2 ^ 31"
    by (simp add: fragment_def Let_def len demo_sample_def run_bytes_def to_be32_def mdat_name_def)
  moreover have "run_bytes \<lparr>ru_track_id = 2, ru_samples = [demo_sample 3]\<rparr> = [3, 3, 3]"
    by (simp add: run_bytes_def demo_sample_def numeral_3_eq_3)
  moreover have "ru_samples r \<noteq> []" if "r \<in> {\<lparr>ru_track_id = 1, ru_samples = [demo_sample 2]\<rparr>,
      \<lparr>ru_track_id = 2, ru_samples = [demo_sample 3]\<rparr>}" for r
    using that by auto
  ultimately show ?thesis
    using fragment_offsets [of demo_moof_encode 1 "[\<lparr>ru_track_id = 1, ru_samples = [demo_sample 2]\<rparr>,
      \<lparr>ru_track_id = 2, ru_samples = [demo_sample 3]\<rparr>]" _ 1]
    by (simp add: numeral_2_eq_2 numeral_3_eq_3)
qed

end
