(* ===== verification/F64.thy ===== *)
theory F64
  imports Prelude Complex_Main
begin

text \<open>
  The \<open>f64\<close> arithmetic the program uses for durations, on the rationals: every operation is the exact one
  rounded to the nearest value with a 53-bit significand, ties to even. Exponents are unbounded: the
  values are durations in seconds and never near the ends of the range. \<open>fmt_fixed\<close> is \<open>{:.k}\<close> of
  \<open>core::fmt\<close>, which rounds the exact value, ties to even.
\<close>

definition round_half_even :: "rat \<Rightarrow> int" where
  "round_half_even q =
     (let f = \<lfloor>q\<rfloor>; r = q - of_int f in
      if r < 1 / 2 then f else if r > 1 / 2 then f + 1 else if even f then f else f + 1)"

function bit_len :: "int \<Rightarrow> int" where
  "bit_len n = (if n \<le> 0 then 0 else 1 + bit_len (n div 2))"
  by pat_completeness auto
termination
  by (relation "measure nat") auto

declare bit_len.simps [simp del]

definition pow2 :: "int \<Rightarrow> rat" where
  "pow2 e = (if 0 \<le> e then 2 ^ nat e else 1 / 2 ^ nat (- e))"

text \<open>The exponent of a positive rational: \<open>pow2 e \<le> q < pow2 (e + 1)\<close>.\<close>

definition exponent :: "rat \<Rightarrow> int" where
  "exponent q =
     (let (n, d) = quotient_of q; k = bit_len n - bit_len d in
      if pow2 k \<le> q then k else k - 1)"

definition f64_rnd :: "rat \<Rightarrow> rat" where
  "f64_rnd q =
     (if q = 0 then 0
      else (let s = pow2 (52 - exponent \<bar>q\<bar>) in of_int (round_half_even (q * s)) / s))"

definition f64_add :: "rat \<Rightarrow> rat \<Rightarrow> rat" where "f64_add a b = f64_rnd (a + b)"
definition f64_mul :: "rat \<Rightarrow> rat \<Rightarrow> rat" where "f64_mul a b = f64_rnd (a * b)"
definition f64_div :: "rat \<Rightarrow> rat \<Rightarrow> rat" where "f64_div a b = f64_rnd (a / b)"
definition f64_sum :: "rat list \<Rightarrow> rat" where "f64_sum xs = foldl f64_add 0 xs"

text \<open>\<open>f64::round\<close>: halves away from zero. The cast to an unsigned integer truncates.\<close>

definition f64_round :: "rat \<Rightarrow> int" where
  "f64_round q = (if 0 \<le> q then \<lfloor>q + 1 / 2\<rfloor> else - \<lfloor>- q + 1 / 2\<rfloor>)"

definition f64_to_u64 :: "int \<Rightarrow> nat" where
  "f64_to_u64 x = min (nat x) u64_max"

text \<open>A number padded with zeroes to a width, and a fixed number of decimals.\<close>

definition zero_pad :: "nat \<Rightarrow> string \<Rightarrow> string" where
  "zero_pad w s = replicate (w - length s) CHR ''0'' @ s"

definition fmt_fixed :: "nat \<Rightarrow> rat \<Rightarrow> string" where
  "fmt_fixed k q =
     (let n = nat \<bar>round_half_even (q * 10 ^ k)\<bar> in
      (if q < 0 then ''-'' else []) @ decimal (n div 10 ^ k) @ ''.'' @ zero_pad k (decimal (n mod 10 ^ k)))"

lemma round_half_even_int [simp]: "round_half_even (of_int n) = n"
  by (simp add: round_half_even_def)

lemma f64_round_int [simp]: "f64_round (of_int n) = n"
proof -
  have "\<lfloor>(of_int n + 1 / 2 :: rat)\<rfloor> = n" "\<lfloor>(- of_int n + 1 / 2 :: rat)\<rfloor> = - n"
    by (simp_all add: floor_eq_iff)
  then show ?thesis by (simp add: f64_round_def)
qed

end
