(* ===== verification/Calendar.thy ===== *)
theory Calendar
  imports Net F64
begin

text \<open>
  Dates without a date library: the wall clock texts of playlists and recordings
  (\<open>rfc3339\<close> of \<open>crates/caudal-hls/src/packager.rs\<close>; \<open>civil\<close>, \<open>days_from_civil\<close>, \<open>rfc3339\<close>, \<open>id_for\<close> and
  \<open>parse_rfc3339\<close> of \<open>crates/caudal-record/src/meta.rs\<close>). A \<open>SystemTime\<close> is its nanoseconds since
  the epoch, an \<open>int\<close>. Their correctness is in \<open>Calendar_Correct\<close>.
\<close>

subsection \<open>Days\<close>

definition doe_of :: "int \<Rightarrow> int" where
  "doe_of days = days + 719468 - (days + 719468) div 146097 * 146097"

definition yoe_of :: "int \<Rightarrow> int" where
  "yoe_of doe = (doe - doe div 1460 + doe div 36524 - doe div 146096) div 365"

definition doy_of :: "int \<Rightarrow> int" where
  "doy_of doe = doe - (365 * yoe_of doe + yoe_of doe div 4 - yoe_of doe div 100)"

text \<open>Day and month of a day of the year that begins in March.\<close>

definition month_of :: "int \<Rightarrow> int" where
  "month_of doy = (let mp = (5 * doy + 2) div 153 in if mp < 10 then mp + 3 else mp - 9)"

definition day_of :: "int \<Rightarrow> int" where
  "day_of doy = doy - (153 * ((5 * doy + 2) div 153) + 2) div 5 + 1"

definition civil :: "int \<Rightarrow> int \<times> int \<times> int" where
  "civil days =
     (let era = (days + 719468) div 146097; doe = doe_of days; doy = doy_of doe; month = month_of doy in
      (yoe_of doe + era * 400 + (if month \<le> 2 then 1 else 0), month, day_of doy))"

definition days_from_civil :: "int \<Rightarrow> int \<Rightarrow> int \<Rightarrow> int" where
  "days_from_civil y m d =
     (let y = (if m \<le> 2 then y - 1 else y); era = y div 400; yoe = y - era * 400;
          mp = (if m > 2 then m - 3 else m + 9);
          doy = (153 * mp + 2) div 5 + d - 1;
          doe = yoe * 365 + yoe div 4 - yoe div 100 + doy
      in era * 146097 + doe - 719468)"

subsection \<open>Texts\<close>

definition split_time :: "int \<Rightarrow> int \<times> int \<times> int \<times> int \<times> int" where
  "split_time t =
     (let d = max t 0; secs = d div 10 ^ 9; (y, m, day) = civil (secs div 86400) in
      (y, m, day, secs mod 86400, d mod 10 ^ 9 div 10 ^ 6))"

definition padded :: "nat \<Rightarrow> int \<Rightarrow> string" where
  "padded w n = zero_pad w (decimal (nat n))"

definition rfc3339 :: "int \<Rightarrow> string" where
  "rfc3339 t =
     (let (y, m, d, sod, ms) = split_time t in
      padded 4 y @ ''-'' @ padded 2 m @ ''-'' @ padded 2 d @ ''T'' @ padded 2 (sod div 3600) @ '':'' @
      padded 2 (sod mod 3600 div 60) @ '':'' @ padded 2 (sod mod 60) @ ''.'' @ padded 3 ms @ ''Z'')"

definition id_for :: "int \<Rightarrow> string" where
  "id_for t =
     (let (y, m, d, sod, ms) = split_time t in
      padded 4 y @ padded 2 m @ padded 2 d @ ''T'' @ padded 2 (sod div 3600) @ padded 2 (sod mod 3600 div 60) @
      padded 2 (sod mod 60) @ ''Z'')"

text \<open>\<open>i64::from_str\<close>: an optional sign, at least one digit and nothing else, in range.\<close>

definition parse_i64 :: "string \<Rightarrow> int option" where
  "parse_i64 s =
     (let neg = (s \<noteq> [] \<and> hd s = CHR ''-''); ds = (if s \<noteq> [] \<and> (hd s = CHR ''-'' \<or> hd s = CHR ''+'') then tl s else s);
          v = (if neg then - dec_value ds else dec_value ds)
      in if ds = [] \<or> \<not> list_all is_ascii_digit ds \<or> \<not> in_i64 v then None else Some v)"

text \<open>\<open>splitn(3, c)\<close>, each piece parsed, the first three taken.\<close>

definition parse_three :: "char \<Rightarrow> string \<Rightarrow> (int \<times> int \<times> int) option" where
  "parse_three c s =
     (case split_once c s of
        None \<Rightarrow> None
      | Some (a, r) \<Rightarrow>
         (case split_once c r of
            None \<Rightarrow> None
          | Some (b, r) \<Rightarrow>
             (case (parse_i64 a, parse_i64 b, parse_i64 r) of
                (Some x, Some y, Some z) \<Rightarrow> Some (x, y, z) | _ \<Rightarrow> None)))"

definition parse_rfc3339 :: "string \<Rightarrow> int option" where
  "parse_rfc3339 s =
     (case strip_suffix_char (CHR ''Z'') s of
        None \<Rightarrow> None
      | Some s \<Rightarrow>
     (case split_once (CHR ''T'') s of
        None \<Rightarrow> None
      | Some (date, time) \<Rightarrow>
     (case parse_three (CHR ''-'') date of
        None \<Rightarrow> None
      | Some (y, mo, d) \<Rightarrow>
         (let (hms, frac) = (case split_once (CHR ''.'') time of Some (a, b) \<Rightarrow> (a, Some b) | None \<Rightarrow> (time, None)) in
          case parse_three (CHR '':'') hms of
            None \<Rightarrow> None
          | Some (h, mi, se) \<Rightarrow>
              if mo < 1 \<or> 12 < mo \<or> d < 1 \<or> 31 < d \<or> h > 23 \<or> mi > 59 \<or> se > 60 then None
              else (case (case frac of
                        None \<Rightarrow> Some 0
                      | Some f \<Rightarrow> if f \<noteq> [] \<and> list_all is_ascii_digit f
                          then Some (dec_value (take 3 f) * 10 ^ (3 - length (take 3 f))) else None) of
                  None \<Rightarrow> None
                | Some ms \<Rightarrow>
                   (let secs = days_from_civil y mo d * 86400 + h * 3600 + mi * 60 + se in
                    if secs < 0 then None else Some (secs * 10 ^ 9 + ms * 10 ^ 6)))))))"

end
