(* ===== verification/Calendar_Correct.thy ===== *)
theory Calendar_Correct
  imports Calendar
begin

text \<open>
  The day arithmetic of \<open>Calendar\<close> compared with the calendar itself (month lengths and leap years, one
  day after the other), and the round trip of the wall clock text.
\<close>

subsection \<open>The arithmetic of a 400-year era\<close>

definition year_start :: "int \<Rightarrow> int" where
  "year_start y = 365 * y + y div 4 - y div 100"

definition year_last :: "int \<Rightarrow> int" where
  "year_last y = (if y = 399 then 146096 else year_start (y + 1) - 1)"

lemma year_ends: "0 \<le> y \<Longrightarrow> y < 400 \<Longrightarrow>
  yoe_of (year_start y) = y \<and> yoe_of (year_last y) = y \<and> year_start y + 364 \<le> year_last y \<and> year_last y \<le> year_start y + 365 \<and>
  0 \<le> year_start y \<and> year_last y \<le> 146096"
proof -
  have "list_all (\<lambda>y. yoe_of (year_start y) = y \<and> yoe_of (year_last y) = y \<and> year_start y + 364 \<le> year_last y \<and>
      year_last y \<le> year_start y + 365 \<and> 0 \<le> year_start y \<and> year_last y \<le> 146096) [0..399]"
    by code_simp
  then show "0 \<le> y \<Longrightarrow> y < 400 \<Longrightarrow> ?thesis"
    by (simp only: list_all_iff) simp
qed

lemma div_step: "0 < k \<Longrightarrow> (x + 1) div k = (if k dvd x + 1 then x div k + 1 else x div (k::int))"
proof -
  assume k: "0 < k"
  show ?thesis
  proof (cases "k dvd x + 1")
    case True
    then obtain c where c: "x + 1 = k * c" by blast
    then have "x = k * (c - 1) + (k - 1)" by (simp add: algebra_simps)
    then have "x div k = c - 1" using k by simp
    with c k show ?thesis by simp
  next
    case False
    then have "(x + 1) mod k \<noteq> 0" by (simp add: dvd_eq_mod_eq_0)
    then have "x mod k \<noteq> k - 1" by (metis diff_add_cancel mod_add_left_eq mod_self)
    with k have "x mod k + 1 < k" using pos_mod_bound [of k x] by linarith
    then have "(x mod k + 1) div k = 0" using k by (simp add: div_pos_pos_trivial)
    moreover have "x + 1 = x div k * k + (x mod k + 1)" by simp
    ultimately show ?thesis using False k by (metis add.right_neutral div_mult_self3 less_irrefl)
  qed
qed

lemma yoe_mono_step: "yoe_of x \<le> yoe_of (x + 1)"
proof -
  have "x - x div 1460 + x div 36524 - x div 146096 \<le> (x + 1) - (x + 1) div 1460 + (x + 1) div 36524 - (x + 1) div 146096"
  proof -
    have "146096 dvd x + 1 \<Longrightarrow> 36524 dvd x + 1" by (rule dvd_trans [of _ 146096]) simp
    then show ?thesis by (simp add: div_step)
  qed
  then show ?thesis unfolding yoe_of_def by (rule zdiv_mono1) simp
qed

lemma yoe_mono: "x \<le> y \<Longrightarrow> yoe_of x \<le> yoe_of y"
  by (induction y rule: int_ge_induct) (use yoe_mono_step order_trans in blast)+

lemma year_of_doe:
  assumes "0 \<le> doe" and "doe < 146097"
  obtains y where "0 \<le> y" "y < 400" "year_start y \<le> doe" "doe \<le> year_last y" "yoe_of doe = y"
proof -
  have "\<exists>y. 0 \<le> y \<and> y \<le> 399 \<and> year_start y \<le> doe \<and> (\<forall>z. y < z \<and> z \<le> 399 \<longrightarrow> doe < year_start z)"
  proof -
    define ys where "ys = filter (\<lambda>y. year_start y \<le> doe) [0..399]"
    have zero: "0 \<in> set ys" using assms by (simp add: ys_def year_start_def)
    then have "Max (set ys) \<in> set ys" by (intro Max_in) auto
    moreover have "\<forall>z. Max (set ys) < z \<and> z \<le> 399 \<longrightarrow> doe < year_start z"
    proof (intro allI impI)
      fix z assume z: "Max (set ys) < z \<and> z \<le> 399"
      have "0 \<le> Max (set ys)" using zero by (intro Max_ge) auto
      then have "z \<in> set [0..399]" using z by simp
      moreover have "z \<notin> set ys" using z by (meson List.finite_set Max_ge leD)
      ultimately show "doe < year_start z" by (simp add: ys_def)
    qed
    ultimately show ?thesis unfolding ys_def by auto
  qed
  then obtain y where y: "0 \<le> y" "y \<le> 399" "year_start y \<le> doe" "\<forall>z. y < z \<and> z \<le> 399 \<longrightarrow> doe < year_start z"
    by blast
  have last: "doe \<le> year_last y"
  proof (cases "y = 399")
    case False
    then have "doe < year_start (y + 1)" using y by simp
    with False show ?thesis by (simp add: year_last_def)
  qed (use assms in \<open>simp add: year_last_def\<close>)
  have "yoe_of doe = y"
    using yoe_mono [OF y(3)] yoe_mono [OF last] year_ends [of y] y by simp
  with that y last show thesis by simp
qed

lemma doe_bounds: "0 \<le> doe_of d" "doe_of d < 146097"
  by (simp_all add: doe_of_def minus_div_mult_eq_mod)

lemma doy_bounds:
  assumes "0 \<le> doe" and "doe < 146097"
  shows "0 \<le> doy_of doe" and "doy_of doe \<le> 365"
proof -
  from assms obtain y where y: "0 \<le> y" "y < 400" "year_start y \<le> doe" "doe \<le> year_last y" "yoe_of doe = y"
    by (rule year_of_doe)
  have "doy_of doe = doe - year_start y"
    by (simp add: doy_of_def year_start_def y(5))
  then show "0 \<le> doy_of doe" and "doy_of doe \<le> 365"
    using y year_ends [of y] by linarith+
qed

text \<open>The month of a day of the March year, as one of twelve.\<close>

lemma march_div: "153 * ((5 * doy + 2) div 153) \<le> 5 * doy + 2" "5 * doy + 2 < 153 * ((5 * doy + 2) div 153) + (153 :: int)"
  using div_mult_mod_eq [of "5 * doy + 2" 153] pos_mod_bound [of 153 "5 * doy + 2"] pos_mod_sign [of 153 "5 * doy + 2"]
  by linarith+

lemma march_month:
  assumes "0 \<le> doy" "doy \<le> 365"
  obtains k :: int where "(5 * doy + 2) div 153 = k" "k = 0 \<or> k = 1 \<or> k = 2 \<or> k = 3 \<or> k = 4 \<or> k = 5 \<or> k = 6 \<or> k = 7 \<or> k = 8 \<or>
    k = 9 \<or> k = 10 \<or> k = 11"
    "153 * k \<le> 5 * doy + 2" "5 * doy + 2 < 153 * k + 153"
proof -
  define k where "k = (5 * doy + 2) div 153"
  have k: "153 * k \<le> 5 * doy + 2" "5 * doy + 2 < 153 * k + 153"
    unfolding k_def by (rule march_div)+
  have "0 \<le> k" "k \<le> 11" using k assms by linarith+
  then have d: "k = 0 \<or> k = 1 \<or> k = 2 \<or> k = 3 \<or> k = 4 \<or> k = 5 \<or> k = 6 \<or> k = 7 \<or> k = 8 \<or> k = 9 \<or> k = 10 \<or> k = 11" by presburger
  show thesis by (rule that [OF k_def [symmetric] d k])
qed
lemma days_table:
  assumes "0 \<le> doy" and "doy \<le> 365"
  shows "1 \<le> month_of doy \<and> month_of doy \<le> 12 \<and> 1 \<le> day_of doy \<and> day_of doy \<le> 31 \<and>
    (153 * (if month_of doy > 2 then month_of doy - 3 else month_of doy + 9) + 2) div 5 + day_of doy - 1 = doy"
proof -
  obtain k :: int where k: "(5 * doy + 2) div 153 = k" "k = 0 \<or> k = 1 \<or> k = 2 \<or> k = 3 \<or> k = 4 \<or> k = 5 \<or> k = 6 \<or> k = 7 \<or> k = 8 \<or>
    k = 9 \<or> k = 10 \<or> k = 11" "153 * k \<le> 5 * doy + 2" "5 * doy + 2 < 153 * k + 153"
    using assms by (rule march_month)
  show ?thesis
    unfolding month_of_def day_of_def Let_def k(1)
    using k(2) by (elim disjE) (use k(3,4) assms in simp_all)
qed

lemma days_from_civil_civil: "(case civil d of (y, m, day) \<Rightarrow> days_from_civil y m day) = d"
proof -
  define doe where "doe = doe_of d"
  define era where "era = (d + 719468) div 146097"
  have doe: "0 \<le> doe" "doe < 146097" using doe_bounds by (simp_all add: doe_def)
  obtain y where y: "0 \<le> y" "y < 400" "yoe_of doe = y" using doe by (rule year_of_doe)
  note doy = doy_bounds [OF doe]
  have era: "(y + era * 400) div 400 = era" using y by simp
  define m where "m = month_of (doy_of doe)"
  define day where "day = day_of (doy_of doe)"
  have civil: "civil d = (y + era * 400 + (if m \<le> 2 then 1 else 0), m, day)"
    by (simp add: civil_def doe_def [symmetric] era_def [symmetric] y(3) m_def day_def Let_def)
  have doy_eq: "(153 * (if m > 2 then m - 3 else m + 9) + 2) div 5 + day - 1 = doy_of doe"
    using days_table [OF doy] by (simp only: m_def day_def)
  have year: "(if m \<le> 2 then (y + era * 400 + (if m \<le> 2 then 1 else 0)) - 1
      else (y + era * 400 + (if m \<le> 2 then 1 else 0))) = y + era * 400" by simp
  have "days_from_civil (y + era * 400 + (if m \<le> 2 then 1 else 0)) m day =
      era * 146097 + (y * 365 + y div 4 - y div 100 + doy_of doe) - 719468"
    unfolding days_from_civil_def Let_def year era doy_eq by simp
  also have "y * 365 + y div 4 - y div 100 + doy_of doe = doe"
    by (simp add: doy_of_def y(3))
  also have "era * 146097 + doe - 719468 = d"
    by (simp add: doe_def doe_of_def era_def)
  finally show ?thesis by (simp add: civil)
qed

lemma civil_ranges:
  assumes "civil d = (y, m, day)"
  shows "1 \<le> m \<and> m \<le> 12 \<and> 1 \<le> day \<and> day \<le> 31"
  using days_table [OF doy_bounds [OF doe_bounds]] assms by (auto simp: civil_def Let_def)

subsection \<open>The calendar\<close>

definition leap :: "int \<Rightarrow> bool" where
  "leap y \<longleftrightarrow> (4 dvd y \<and> \<not> 100 dvd y) \<or> 400 dvd y"

definition month_days :: "int \<Rightarrow> int \<Rightarrow> int" where
  "month_days y m =
     (if m = 2 then (if leap y then 29 else 28) else if m \<in> {4, 6, 9, 11} then 30 else 31)"

definition next_day :: "int \<times> int \<times> int \<Rightarrow> int \<times> int \<times> int" where
  "next_day ymd =
     (case ymd of (y, m, d) \<Rightarrow>
        if d < month_days y m then (y, m, d + 1) else if m < 12 then (y, m + 1, 1) else (y + 1, 1, 1))"

text \<open>Within a March year, the table follows the calendar up to the end of February.\<close>

lemma march_table:
  assumes "0 \<le> doy" and "doy \<le> 363"
  shows "next_day (y + (if month_of doy \<le> 2 then 1 else 0), month_of doy, day_of doy) =
    (y + (if month_of (doy + 1) \<le> 2 then 1 else 0), month_of (doy + 1), day_of (doy + 1))"
proof -
  define len :: "int \<Rightarrow> int" where "len m = (if m = 2 then 28 else if m \<in> {4, 6, 9, 11} then 30 else 31)" for m
  obtain k :: int where k: "(5 * doy + 2) div 153 = k" "k = 0 \<or> k = 1 \<or> k = 2 \<or> k = 3 \<or> k = 4 \<or> k = 5 \<or> k = 6 \<or> k = 7 \<or> k = 8 \<or>
    k = 9 \<or> k = 10 \<or> k = 11" "153 * k \<le> 5 * doy + 2" "5 * doy + 2 < 153 * k + 153"
  proof (rule march_month [of doy])
    show "0 \<le> doy" "doy \<le> 365" using assms by simp_all
  qed
  define k' where "k' = (5 * (doy + 1) + 2) div 153"
  have k': "153 * k' \<le> 5 * doy + 7" "5 * doy + 7 < 153 * k' + 153"
    using march_div [of "doy + 1"] by (simp_all add: k'_def algebra_simps)
  have "k \<le> k'" "k' \<le> k + 1" using k(3,4) k' by linarith+
  then consider (stays) "k' = k" | (moves) "k' = k + 1" by linarith
  then have step: "if day_of doy < len (month_of doy) then month_of (doy + 1) = month_of doy \<and> day_of (doy + 1) = day_of doy + 1
      else if month_of doy < 12 then month_of doy \<noteq> 2 \<and> month_of (doy + 1) = month_of doy + 1 \<and> day_of (doy + 1) = 1
      else month_of (doy + 1) = 1 \<and> day_of (doy + 1) = 1"
  proof cases
    case stays
    show ?thesis
      unfolding month_of_def day_of_def Let_def k(1) k'_def [symmetric] len_def stays
      using k(2) by (elim disjE) (use k(3,4) k' [unfolded stays] assms in simp_all)
  next
    case moves
    show ?thesis
      unfolding month_of_def day_of_def Let_def k(1) k'_def [symmetric] len_def moves
      using k(2) by (elim disjE) (use k(3,4) k' [unfolded moves] assms in simp_all)
  qed
  have short: "len m \<le> month_days x m \<and> (m \<noteq> 2 \<longrightarrow> len m = month_days x m)" for x m
    by (simp add: len_def month_days_def)
  have m: "1 \<le> month_of doy" "month_of doy \<le> 12" using days_table [of doy] assms by simp_all
  consider (same) "day_of doy < len (month_of doy)"
    | (month) "\<not> day_of doy < len (month_of doy)" "month_of doy < 12" "month_of doy \<noteq> 2"
    | (year) "\<not> day_of doy < len (month_of doy)" "month_of doy = 12"
    using step m by (metis order_le_less)
  then show ?thesis
  proof cases
    case same
    have "day_of doy < month_days x (month_of doy)" for x
      using same short [of "month_of doy" x] by linarith
    then show ?thesis using same step by (simp add: next_day_def)
  next
    case month
    have "month_days x (month_of doy) = len (month_of doy)" for x
      using month short [of "month_of doy" x] by simp
    then show ?thesis using month step m by (simp add: next_day_def)
  next
    case year
    have "month_days x (month_of doy) = len (month_of doy)" for x
      using year short [of "month_of doy" x] by simp
    then show ?thesis using year step by (simp add: next_day_def)
  qed
qed

lemma leap_era: "leap (y + e * 400) = leap y"
proof -
  have "4 dvd y + e * 400 \<longleftrightarrow> 4 dvd y" "100 dvd y + e * 400 \<longleftrightarrow> 100 dvd y" "400 dvd y + e * 400 \<longleftrightarrow> 400 dvd y"
    by (intro dvd_add_left_iff dvd_mult; simp)+
  then show ?thesis by (simp add: leap_def)
qed

lemma long_years:
  assumes "0 \<le> y" and "y < 400"
  shows "leap (y + 1) \<longleftrightarrow> year_last y = year_start y + 365"
proof -
  have "list_all (\<lambda>y. leap (y + 1) \<longleftrightarrow> year_last y = year_start y + 365) [0..399]" by code_simp
  with assms show ?thesis by (simp only: list_all_iff) simp
qed

lemma civil_at:
  assumes "0 \<le> y" and "y < 400" and "year_start y \<le> doe" and "doe \<le> year_last y"
    and "d + 719468 = era * 146097 + doe"
  shows "civil d = (y + era * 400 + (if month_of (doe - year_start y) \<le> 2 then 1 else 0),
    month_of (doe - year_start y), day_of (doe - year_start y))"
proof -
  have yoe: "yoe_of doe = y"
    using yoe_mono [OF assms(3)] yoe_mono [OF assms(4)] year_ends [OF assms(1,2)] by simp
  have range: "0 \<le> doe" "doe < 146097"
    using assms year_ends [OF assms(1,2)] by linarith+
  have "(doe + era * 146097) div 146097 = era"
    by (simp add: div_pos_pos_trivial range)
  then have "(d + 719468) div 146097 = era"
    by (simp only: assms(5) add.commute)
  moreover from this have "doe_of d = doe"
    unfolding doe_of_def assms(5) by linarith
  ultimately show ?thesis
    by (simp add: civil_def yoe doy_of_def year_start_def Let_def)
qed

lemma after_february:
  assumes "0 \<le> y" "y < 400" "d + 719468 = era * 146097 + year_last y"
  shows "civil (d + 1) = (y + 1 + era * 400, 3, 1)"
proof -
  have table: "month_of 0 = 3" "day_of 0 = 1" by (simp_all add: month_of_def day_of_def)
  show ?thesis
  proof (cases "y = 399")
    case y399: True
    then have "d + 1 + 719468 = (era + 1) * 146097 + 0" using assms(3) by (simp add: year_last_def)
    then show ?thesis
      using civil_at [of 0 0 "d + 1" "era + 1"] table y399 by (simp add: year_start_def year_last_def)
  next
    case other: False
    then have "year_last y + 1 = year_start (y + 1)" by (simp add: year_last_def)
    moreover have "year_start (y + 1) \<le> year_last (y + 1)"
      using year_ends [of "y + 1"] assms other by simp
    ultimately show ?thesis
      using civil_at [of "y + 1" "year_last y + 1" "d + 1" era] assms other table by simp
  qed
qed

text \<open>
  Claim C23. The day arithmetic is the Gregorian calendar: day 0 is the first of January 1970, and each
  day's date is the calendar's next day after the date before, over all leap years and centuries, in
  both directions.
\<close>

theorem civil_is_calendar: "civil 0 = (1970, 1, 1) \<and> civil (d + 1) = next_day (civil d)"
proof
  show "civil 0 = (1970, 1, 1)" by code_simp
  define era where "era = (d + 719468) div 146097"
  define doe where "doe = doe_of d"
  have d: "d + 719468 = era * 146097 + doe"
    by (simp add: era_def doe_def doe_of_def)
  obtain y where y: "0 \<le> y" "y < 400" "year_start y \<le> doe" "doe \<le> year_last y"
    using doe_bounds [of d] unfolding doe_def by (rule year_of_doe)
  define doy where "doy = doe - year_start y"
  have doy: "0 \<le> doy" "doy \<le> 365" using y year_ends [OF y(1,2)] by (auto simp: doy_def)
  note now = civil_at [OF y d, folded doy_def]
  have table: "month_of 364 = 2" "day_of 364 = 28" "month_of 365 = 2" "day_of 365 = 29"
    by (simp_all add: month_of_def day_of_def)
  have leap: "leap (y + era * 400 + 1) \<longleftrightarrow> year_last y = year_start y + 365"
    using long_years [OF y(1,2)] leap_era [of "y + 1" era] by (simp add: algebra_simps)
  show "civil (d + 1) = next_day (civil d)"
  proof (cases "doe = year_last y")
    case False
    then have "doe + 1 \<le> year_last y" using y by simp
    then have then1: "civil (d + 1) = (y + era * 400 + (if month_of (doy + 1) \<le> 2 then 1 else 0), month_of (doy + 1), day_of (doy + 1))"
      using civil_at [of y "doe + 1" "d + 1" era] y d by (simp add: doy_def algebra_simps)
    show ?thesis
    proof (cases "doy \<le> 363")
      case True
      then show ?thesis using march_table [of doy "y + era * 400"] doy now then1 by simp
    next
      case no: False
      then have "doy = 364" and long: "year_last y = year_start y + 365"
        using doy False y year_ends [OF y(1,2)] by (auto simp: doy_def)
      then show ?thesis
        using now then1 leap table by (simp add: next_day_def month_days_def)
    qed
  next
    case True
    then have "doy = (if leap (y + era * 400 + 1) then 365 else 364)"
      using leap year_ends [OF y(1,2)] by (simp add: doy_def)
    then have end_feb: "civil d = (y + era * 400 + 1, 2, if leap (y + era * 400 + 1) then 29 else 28)"
      using now table by simp
    have "civil (d + 1) = (y + 1 + era * 400, 3, 1)"
      using after_february [OF y(1,2)] d True by simp
    then show ?thesis
      using end_feb by (simp add: next_day_def month_days_def)
  qed
qed

subsection \<open>Texts\<close>

lemma dec_value_snoc: "dec_value (s @ [c]) = dec_value s * 10 + digit_val c"
  by (simp add: dec_value_def)

lemma digit_char:
  assumes "n < 10"
  shows "is_ascii_digit (char_of (48 + n)) \<and> digit_val (char_of (48 + n)) = int n"
proof -
  have "(of_char (char_of (48 + n)) :: int) = int (of_char (char_of (48 + n)))"
    by (simp only: of_nat_of_char)
  also have "\<dots> = int (48 + n)" using assms by simp
  finally show ?thesis using assms by (simp add: is_ascii_digit_def digit_val_def byte_of_def)
qed

lemma decimal_digits: "decimal n \<noteq> [] \<and> list_all is_ascii_digit (decimal n) \<and> dec_value (decimal n) = int n"
proof (induction n rule: decimal.induct)
  case (1 n)
  show ?case
  proof (cases "n < 10")
    case True
    then show ?thesis using digit_char [of n] by (simp add: decimal.simps [of n] dec_value_def)
  next
    case False
    moreover have "int n = int (n div 10) * 10 + int (n mod 10)"
      by (metis div_mult_mod_eq of_nat_add of_nat_mult of_nat_numeral)
    ultimately show ?thesis
      using 1 digit_char [of "n mod 10"] by (simp add: decimal.simps [of n] dec_value_snoc)
  qed
qed

lemma length_decimal: "n < 10 ^ k \<Longrightarrow> 0 < k \<Longrightarrow> length (decimal n) \<le> k"
proof (induction n arbitrary: k rule: decimal.induct)
  case (1 n)
  show ?case
  proof (cases "n < 10")
    case True
    then show ?thesis using 1 by (simp add: decimal.simps [of n])
  next
    case False
    with 1(2) obtain j where k: "k = Suc j" "0 < j" by (cases k; cases "k - 1") auto
    then have "n div 10 < 10 ^ j" using 1(2) by (simp add: div_less_iff_less_mult mult.commute)
    with 1(1) [OF False, of j] False k show ?thesis by (simp add: decimal.simps [of n])
  qed
qed

lemma dec_value_zeroes: "dec_value (replicate k CHR ''0'' @ s) = dec_value s"
proof -
  have "foldl (\<lambda>n c. n * 10 + digit_val c) 0 (replicate k CHR ''0'') = 0"
    by (induction k) (simp_all add: digit_val_def byte_of_def)
  then show ?thesis by (simp add: dec_value_def)
qed

lemma padded_digits:
  "0 \<le> n \<Longrightarrow> padded w n \<noteq> [] \<and> list_all is_ascii_digit (padded w n) \<and> dec_value (padded w n) = n"
  using decimal_digits [of "nat n"]
  by (auto simp: padded_def zero_pad_def dec_value_zeroes list_all_iff is_ascii_digit_def byte_of_def)

lemma padded_length: "0 \<le> n \<Longrightarrow> n < 10 ^ w \<Longrightarrow> 0 < w \<Longrightarrow> length (padded w n) = w"
  using length_decimal [of "nat n" w] by (simp add: padded_def zero_pad_def nat_less_iff)

lemma split_once_first: "c \<notin> set a \<Longrightarrow> split_once c (a @ c # r) = Some (a, r)"
  by (induction a) auto

lemma split_once_none: "c \<notin> set a \<Longrightarrow> split_once c a = None"
  by (induction a) auto

lemma padded_no: "0 \<le> n \<Longrightarrow> \<not> is_ascii_digit c \<Longrightarrow> c \<notin> set (padded w n)"
  using padded_digits [of n w] by (auto simp: list_all_iff)

lemma separators: "\<not> is_ascii_digit (CHR ''-'')" "\<not> is_ascii_digit (CHR '':'')" "\<not> is_ascii_digit (CHR ''T'')"
  "\<not> is_ascii_digit (CHR ''.'')" "\<not> is_ascii_digit (CHR ''+'')" "\<not> is_ascii_digit (CHR ''Z'')"
  by (simp_all add: is_ascii_digit_def byte_of_def)

lemma parse_padded: "0 \<le> n \<Longrightarrow> in_i64 n \<Longrightarrow> parse_i64 (padded w n) = Some n"
proof -
  assume n: "0 \<le> n" "in_i64 n"
  note d = padded_digits [OF n(1), of w]
  then have "hd (padded w n) \<noteq> CHR ''-''" "hd (padded w n) \<noteq> CHR ''+''"
    using separators padded_no [OF n(1)] by (metis hd_in_set)+
  with d n show ?thesis by (simp add: parse_i64_def)
qed

lemma parse_three_padded:
  assumes "0 \<le> a" "0 \<le> b" "0 \<le> c" and "in_i64 a" "in_i64 b" "in_i64 c" and "\<not> is_ascii_digit s"
  shows "parse_three s (padded u a @ s # padded v b @ s # padded w c) = Some (a, b, c)"
  using assms padded_no by (simp add: parse_three_def split_once_first parse_padded)

lemma civil_year:
  assumes "0 \<le> days" and "civil days = (y, m, d)"
  shows "0 \<le> y \<and> y \<le> (days + 719468) div 146097 * 400 + 400"
proof -
  obtain yy where yy: "0 \<le> yy" "yy < 400" "yoe_of (doe_of days) = yy"
    using doe_bounds [of days] by (rule year_of_doe)
  have era: "0 \<le> (days + 719468) div 146097"
    using assms(1) by (simp add: pos_imp_zdiv_nonneg_iff)
  have "y = yy + (days + 719468) div 146097 * 400 + (if m \<le> 2 then 1 else 0)"
    using assms(2) yy by (auto simp: civil_def Let_def)
  with yy era show ?thesis by (auto split: if_splits)
qed

lemma hms_bounds:
  assumes "0 \<le> sod" "sod < (86400 :: int)"
  shows "0 \<le> sod div 3600" "sod div 3600 \<le> 23" "0 \<le> sod mod 3600 div 60" "sod mod 3600 div 60 \<le> 59"
    "0 \<le> sod mod 60" "sod mod 60 \<le> 59"
proof -
  have "sod div 3600 < 24" using assms by (simp add: div_less_iff_less_mult)
  then show "sod div 3600 \<le> 23" by simp
  have "sod mod 3600 < 3600" by simp
  then have "sod mod 3600 div 60 < 60" by (simp add: div_less_iff_less_mult)
  then show "sod mod 3600 div 60 \<le> 59" by simp
  have "sod mod 60 < 60" by simp
  then show "sod mod 60 \<le> 59" by simp
qed (use assms in \<open>simp_all add: pos_imp_zdiv_nonneg_iff\<close>)

lemma hms_total: "sod div 3600 * 3600 + sod mod 3600 div 60 * 60 + sod mod 60 = (sod :: int)"
proof -
  have "sod mod 60 = sod mod 3600 mod 60" by (simp add: mod_mod_cancel)
  then have "sod mod 3600 div 60 * 60 + sod mod 60 = sod mod 3600"
    using div_mult_mod_eq [of "sod mod 3600" 60] by simp
  then show ?thesis using div_mult_mod_eq [of sod 3600] by linarith
qed

lemma cut_to_millis: "t div 10 ^ 9 * 10 ^ 9 + t mod 10 ^ 9 div 10 ^ 6 * 10 ^ 6 = t div 10 ^ 6 * (10 ^ 6 :: int)"
proof -
  have "(a * 10 ^ 3 * 10 ^ 6 + x) div 10 ^ 6 = a * 10 ^ 3 + x div 10 ^ 6" for a x :: int by simp
  from this [of "t div 10 ^ 9" "t mod 10 ^ 9"]
  have "t div 10 ^ 6 = t div 10 ^ 9 * 10 ^ 3 + t mod 10 ^ 9 div 10 ^ 6" by simp
  then show ?thesis by simp
qed

text \<open>What \<open>split\<close> gives for a time after 1970.\<close>

lemma split_time_parts:
  assumes "0 \<le> t"
  obtains y m d sod ms where "split_time t = (y, m, d, sod, ms)" "0 \<le> y" "1 \<le> m" "m \<le> 12" "1 \<le> d" "d \<le> 31"
    "0 \<le> sod" "sod < 86400" "0 \<le> ms" "ms < 10 ^ 3" "y \<le> (t div 10 ^ 9 div 86400 + 719468) div 146097 * 400 + 400"
    "(days_from_civil y m d * 86400 + sod) * 10 ^ 9 + ms * 10 ^ 6 = t div 10 ^ 6 * 10 ^ 6" "days_from_civil y m d * 86400 + sod = t div 10 ^ 9"
proof -
  obtain y m d where civil: "civil (t div 10 ^ 9 div 86400) = (y, m, d)" by (metis prod_cases3)
  have days: "0 \<le> t div 10 ^ 9 div 86400" using assms by (simp add: pos_imp_zdiv_nonneg_iff)
  have total: "days_from_civil y m d * 86400 + t div 10 ^ 9 mod 86400 = t div 10 ^ 9"
    using days_from_civil_civil [of "t div 10 ^ 9 div 86400"] div_mult_mod_eq [of "t div 10 ^ 9" 86400] unfolding civil prod.case by simp
  show ?thesis
  proof
    show "split_time t = (y, m, d, t div 10 ^ 9 mod 86400, t mod 10 ^ 9 div 10 ^ 6)"
      using civil assms by (simp add: split_time_def Let_def)
    show "(days_from_civil y m d * 86400 + t div 10 ^ 9 mod 86400) * 10 ^ 9 + t mod 10 ^ 9 div 10 ^ 6 * 10 ^ 6 = t div 10 ^ 6 * 10 ^ 6"
      unfolding total by (rule cut_to_millis)
  qed (use civil_year [OF days civil] civil_ranges [OF civil] total in \<open>simp_all add: pos_imp_zdiv_nonneg_iff div_less_iff_less_mult\<close>)
qed

text \<open>The text of a date and a time of the day is read back piece by piece.\<close>

lemma parse_written:
  assumes "0 \<le> y" "y < 10 ^ 9" "1 \<le> m" "m \<le> 12" "1 \<le> d" "d \<le> 31" "0 \<le> sod" "sod < 86400" "0 \<le> ms" "ms < 10 ^ 3"
    and "0 \<le> days_from_civil y m d * 86400 + sod"
  shows "parse_rfc3339 (padded 4 y @ ''-'' @ padded 2 m @ ''-'' @ padded 2 d @ ''T'' @ padded 2 (sod div 3600) @ '':'' @
      padded 2 (sod mod 3600 div 60) @ '':'' @ padded 2 (sod mod 60) @ ''.'' @ padded 3 ms @ ''Z'') =
    Some ((days_from_civil y m d * 86400 + sod) * 10 ^ 9 + ms * 10 ^ 6)"
proof -
  define h mi se where "h = sod div 3600" and "mi = sod mod 3600 div 60" and "se = sod mod 60"
  have hms: "0 \<le> h" "h \<le> 23" "0 \<le> mi" "mi \<le> 59" "0 \<le> se" "se \<le> 59"
    using hms_bounds [OF assms(7,8)] by (simp_all add: h_def mi_def se_def)
  have pos: "0 \<le> m" "0 \<le> d" using assms by simp_all
  have i64: "in_i64 y" "in_i64 m" "in_i64 d" "in_i64 h" "in_i64 mi" "in_i64 se"
    using assms hms by (simp_all add: in_i64_bounds)
  define date where "date = padded 4 y @ CHR ''-'' # padded 2 m @ CHR ''-'' # padded 2 d"
  define time where "time = padded 2 h @ CHR '':'' # padded 2 mi @ CHR '':'' # padded 2 se"
  have no: "CHR ''T'' \<notin> set date" "CHR ''.'' \<notin> set time"
    by (simp_all add: date_def time_def padded_no [OF _ separators(3)] padded_no [OF _ separators(4)] assms(1) pos hms(1,3,5))
  have dates: "parse_three (CHR ''-'') date = Some (y, m, d)"
    unfolding date_def by (rule parse_three_padded [OF assms(1) pos i64(1-3) separators(1)])
  have times: "parse_three (CHR '':'') time = Some (h, mi, se)"
    unfolding time_def by (rule parse_three_padded [OF hms(1,3,5) i64(4-6) separators(2)])
  have frac: "take 3 (padded 3 ms) = padded 3 ms" "length (padded 3 ms) = 3" "padded 3 ms \<noteq> [] \<and> list_all is_ascii_digit (padded 3 ms)"
      "dec_value (padded 3 ms) = ms"
    using padded_length [of ms 3] padded_digits [OF assms(9), of 3] assms(9,10) by simp_all
  have total: "days_from_civil y m d * 86400 + h * 3600 + mi * 60 + se = days_from_civil y m d * 86400 + sod"
    using hms_total [of sod] by (simp add: h_def mi_def se_def)
  have ok: "\<not> (m < 1 \<or> 12 < m \<or> d < 1 \<or> 31 < d \<or> h > 23 \<or> mi > 59 \<or> se > 60)" "\<not> days_from_civil y m d * 86400 + sod < 0"
    using assms hms by linarith+
  have z: "strip_suffix_char (CHR ''Z'') ((date @ CHR ''T'' # time @ CHR ''.'' # padded 3 ms) @ [CHR ''Z'']) =
      Some (date @ CHR ''T'' # time @ CHR ''.'' # padded 3 ms)"
    by (simp only: strip_suffix_char_Some)
  have "parse_rfc3339 ((date @ CHR ''T'' # time @ CHR ''.'' # padded 3 ms) @ [CHR ''Z'']) =
      Some ((days_from_civil y m d * 86400 + sod) * 10 ^ 9 + ms * 10 ^ 6)"
    unfolding parse_rfc3339_def z
    by (simp only: option.case prod.case split_once_first [OF no(1)] split_once_first [OF no(2)] dates times frac total ok
          Let_def if_True if_False) simp
  then show ?thesis by (simp add: date_def time_def h_def mi_def se_def)
qed

text \<open>
  Claim C24. A wall clock time written to a recording is read back: \<open>parse_rfc3339\<close> of \<open>rfc3339\<close> is the
  time cut to milliseconds, for every time from 1970 on (bounded here by thirty thousand years).
\<close>

theorem rfc3339_roundtrip:
  assumes "0 \<le> t" and "t < 10 ^ 21"
  shows "parse_rfc3339 (rfc3339 t) = Some (t div 10 ^ 6 * 10 ^ 6)"
proof -
  obtain y m d sod ms where split: "split_time t = (y, m, d, sod, ms)" and ymd: "0 \<le> y" "1 \<le> m" "m \<le> 12" "1 \<le> d" "d \<le> 31"
    and rest: "0 \<le> sod" "sod < 86400" "0 \<le> ms" "ms < 10 ^ 3"
    and year: "y \<le> (t div 10 ^ 9 div 86400 + 719468) div 146097 * 400 + 400"
    and total: "(days_from_civil y m d * 86400 + sod) * 10 ^ 9 + ms * 10 ^ 6 = t div 10 ^ 6 * 10 ^ 6"
      "days_from_civil y m d * 86400 + sod = t div 10 ^ 9"
    by (rule split_time_parts [OF assms(1)])
  have "(t div 10 ^ 9 div 86400 + 719468) div 146097 < 10 ^ 3"
    using assms by (simp add: div_less_iff_less_mult)
  then have "y < 10 ^ 9" using year by simp
  moreover have "0 \<le> days_from_civil y m d * 86400 + sod" unfolding total(2) using assms(1) by (simp add: pos_imp_zdiv_nonneg_iff)
  ultimately show ?thesis
    using parse_written [OF ymd(1) _ ymd(2-5) rest] unfolding total(1) [symmetric] by (simp add: rfc3339_def split)
qed

theorem rfc3339_roundtrip_witness:
  "parse_rfc3339 (rfc3339 1789680000123456789) = Some 1789680000123000000"
  using rfc3339_roundtrip [of 1789680000123456789] by simp

end
