(* ===== verification/Hls_Packager.thy ===== *)
theory Hls_Packager
  imports Cmaf Calendar Scte35
begin

text \<open>
  \<open>crates/caudal-hls/src/packager.rs\<close>: the LL-HLS segmenter of one stream. Frames go in, parts and
  segments come out. Sample times are \<open>int\<close> (an \<open>i64\<close> shifted by ten seconds, far inside the range for
  any media time), durations in seconds are \<open>f64\<close> values (theory \<open>F64\<close>). The \<open>moof\<close> writer (\<open>enc\<close>) and the
  codec records (\<open>mc\<close>) are those of \<open>Cmaf\<close>. A segment's bytes and its parts' bytes are byte lists: that
  the parts become slices of the whole is not observable.
\<close>

subsection \<open>Data\<close>

record hls_config =
  hc_part_ms :: nat
  hc_segment_ms :: nat
  hc_cue_tags :: bool
  hc_cue_out_tags :: bool
  hc_reconnect_grace :: duration

definition hls_config_default :: hls_config where
  "hls_config_default = \<lparr>hc_part_ms = 200, hc_segment_ms = 2000, hc_cue_tags = True, hc_cue_out_tags = False,
     hc_reconnect_grace = 10 * 10 ^ 9\<rparr>"

definition window :: nat where "window = 6"
definition part_segments :: nat where "part_segments = 3"
definition shift_secs :: int where "shift_secs = 10"
definition jump_secs :: int where "jump_secs = 5"
definition gap_micros :: int where "gap_micros = 500000"

record hls_part =
  pt_duration :: rat
  pt_independent :: bool
  pt_data :: bytes

record hls_segment =
  hs_msn :: nat
  hs_parts :: "hls_part list"
  hs_pdt :: int
  hs_start_us :: int
  hs_discontinuity :: bool
  hs_init_gen :: nat
  hs_full :: "bytes option"

definition segment_duration :: "hls_segment \<Rightarrow> rat" where
  "segment_duration s = f64_sum (map pt_duration (hs_parts s))"

datatype lookup_result = LookupFound bytes | LookupPending | LookupGone

record lane =
  ln_track_id :: nat
  ln_timescale :: nat
  ln_core_id :: track_id
  ln_codec :: codec
  ln_shift :: int
  ln_pending :: "sample option"
  ln_last_dur :: nat

record cue_break =
  cb_out_us :: int
  cb_planned_us :: "int option"
  cb_in_us :: "int option"

record date_range =
  dr_at_us :: int
  dr_end_us :: int
  dr_line :: string

record open_out =
  oo_id :: string
  oo_start_date :: string
  oo_at_us :: int

record packager =
  pk_cfg :: hls_config
  pk_primary :: "lane option"
  pk_secondary :: "lane option"
  pk_primary_is_audio :: bool
  pk_init :: "bytes option"
  pk_init_gen :: nat
  pk_old_inits :: "(nat \<times> bytes) list"
  pk_suspended :: bool
  pk_part :: "sample list"
  pk_queue :: "sample list"
  pk_seg_start :: "int option"
  pk_floor :: "int option"
  pk_waiting_key :: bool
  pk_resume_from :: "int option"
  pk_discontinuity_next :: bool
  pk_fragment_seq :: nat
  pk_segments :: "hls_segment list"
  pk_next_msn :: nat
  pk_discontinuity_seq :: nat
  pk_target :: nat
  pk_ended :: bool
  pk_codecs :: "string list"
  pk_resolution :: "(u32 \<times> u32) option"
  pk_frame_rate :: "f64_bits option"
  pk_dateranges :: "date_range list"
  pk_early_cues :: "cue list"
  pk_open_out :: "open_out option"
  pk_cue_seq :: nat
  pk_breaks :: "cue_break list"

definition packager_new :: "hls_config \<Rightarrow> packager" where
  "packager_new cfg =
     \<lparr>pk_cfg = cfg, pk_primary = None, pk_secondary = None, pk_primary_is_audio = False, pk_init = None, pk_init_gen = 0,
      pk_old_inits = [], pk_suspended = False, pk_part = [], pk_queue = [], pk_seg_start = None, pk_floor = None,
      pk_waiting_key = True, pk_resume_from = None, pk_discontinuity_next = False, pk_fragment_seq = 0, pk_segments = [],
      pk_next_msn = 0, pk_discontinuity_seq = 0, pk_target = max ((hc_segment_ms cfg + 999) div 1000) 1, pk_ended = False,
      pk_codecs = [], pk_resolution = None, pk_frame_rate = None, pk_dateranges = [], pk_early_cues = [],
      pk_open_out = None, pk_cue_seq = 0, pk_breaks = []\<rparr>"

subsection \<open>Lanes\<close>

definition lane_new :: "nat \<Rightarrow> track_info \<Rightarrow> lane" where
  "lane_new track_id info =
     (let ts = unat (ti_timescale info); default_dur = (if track_kind_of info = Audio then 1024 else ts div 30) in
      \<lparr>ln_track_id = track_id, ln_timescale = max ts 1, ln_core_id = ti_id info, ln_codec = ti_codec info,
       ln_shift = shift_secs * int (max ts 1), ln_pending = None, ln_last_dur = max default_dur 1\<rparr>)"

definition fallback_dur :: "lane \<Rightarrow> bytes \<Rightarrow> nat" where
  "fallback_dur l data = (if ln_codec l = Opus then frame_duration_samples data else ln_last_dur l)"

definition lane_sample :: "lane \<Rightarrow> frame \<Rightarrow> bool \<Rightarrow> sample" where
  "lane_sample l f audio =
     \<lparr>sa_dts = fr_dts f + ln_shift l, sa_cts = max (- (2 ^ 31)) (min (2 ^ 31 - 1) (fr_pts f - fr_dts f)), sa_dur = 0,
      sa_key = (fr_keyframe f \<or> audio), sa_data = fr_data f\<rparr>"

definition lane_micros :: "lane \<Rightarrow> int \<Rightarrow> int" where
  "lane_micros l ticks = wrap64 ((ticks * 1000000) sdiv int (ln_timescale l))"

subsection \<open>Ad markers\<close>

definition break_end :: "cue_break \<Rightarrow> int" where
  "break_end b =
     (case cb_in_us b of Some t \<Rightarrow> t
      | None \<Rightarrow> (case cb_planned_us b of Some d \<Rightarrow> cb_out_us b + d | None \<Rightarrow> i64_max))"

definition next_cue_id :: "packager \<Rightarrow> string \<times> packager" where
  "next_cue_id pk =
     (let n = pk_cue_seq pk + 1 in (''scte35-'' @ decimal n, pk\<lparr>pk_cue_seq := n\<rparr>))"

text \<open>\<open>d as f64 / 1e6\<close> with three decimals.\<close>

definition secs3 :: "int \<Rightarrow> string" where
  "secs3 us = fmt_fixed 3 (f64_div (f64_rnd (of_int us)) 1000000)"

definition quoted :: "string \<Rightarrow> string" where
  "quoted s = [CHR 0x22] @ s @ [CHR 0x22]"

definition prune_dateranges :: "packager \<Rightarrow> packager" where
  "prune_dateranges pk =
     (case pk_segments pk of
        [] \<Rightarrow> pk
      | s # _ \<Rightarrow> pk\<lparr>pk_dateranges := filter (\<lambda>d. max (dr_at_us d) (dr_end_us d) \<ge> hs_start_us s) (pk_dateranges pk),
                  pk_breaks := filter (\<lambda>b. break_end b \<ge> hs_start_us s) (pk_breaks pk)\<rparr>)"

text \<open>\<open>breaks.back_mut().filter(in_us.is_none())\<close>.\<close>

definition close_last_break :: "int \<Rightarrow> cue_break list \<Rightarrow> cue_break list" where
  "close_last_break at_us bs =
     (if bs \<noteq> [] \<and> cb_in_us (last bs) = None then butlast bs @ [(last bs)\<lparr>cb_in_us := Some at_us\<rparr>] else bs)"

definition push_legacy_cue :: "cue \<Rightarrow> packager \<Rightarrow> packager" where
  "push_legacy_cue c pk =
     (case cue_kind_of c of
        CueOut duration \<Rightarrow>
         (let planned = (case duration of Some d \<Rightarrow> if d > 0 then Some d else None | None \<Rightarrow> None);
              line = (case planned of Some d \<Rightarrow> ''#EXT-X-CUE-OUT:DURATION='' @ secs3 d | None \<Rightarrow> ''#EXT-X-CUE-OUT'');
              end_us = cue_at_us c + (case planned of Some d \<Rightarrow> d | None \<Rightarrow> 0)
          in pk\<lparr>pk_dateranges := pk_dateranges pk @ [\<lparr>dr_at_us = cue_at_us c, dr_end_us = end_us, dr_line = line\<rparr>],
                pk_breaks := pk_breaks pk @ [\<lparr>cb_out_us = cue_at_us c, cb_planned_us = planned, cb_in_us = None\<rparr>]\<rparr>)
      | CueIn \<Rightarrow>
          pk\<lparr>pk_dateranges := pk_dateranges pk @
               [\<lparr>dr_at_us = cue_at_us c, dr_end_us = cue_at_us c, dr_line = ''#EXT-X-CUE-IN''\<rparr>],
             pk_breaks := close_last_break (cue_at_us c) (pk_breaks pk)\<rparr>
      | CueOther \<Rightarrow> pk)"

text \<open>The line of a cue and where its range ends.\<close>

definition cue_line :: "cue \<Rightarrow> string \<Rightarrow> packager \<Rightarrow> (string \<times> int) \<times> packager" where
  "cue_line c date pk =
     (let hex = to_hex (cue_section c);
          head = (\<lambda>cid d. ''#EXT-X-DATERANGE:ID='' @ quoted cid @ '',START-DATE='' @ quoted d)
      in case cue_kind_of c of
        CueOut duration \<Rightarrow>
         (let (cid, pk) = next_cue_id pk;
              planned = (case duration of Some d \<Rightarrow> if d > 0 then '',PLANNED-DURATION='' @ secs3 d else [] | None \<Rightarrow> [])
          in ((head cid date @ planned @ '',SCTE35-OUT='' @ hex,
               cue_at_us c + max (case duration of Some d \<Rightarrow> d | None \<Rightarrow> 0) 0),
              pk\<lparr>pk_open_out := Some \<lparr>oo_id = cid, oo_start_date = date, oo_at_us = cue_at_us c\<rparr>\<rparr>))
      | CueIn \<Rightarrow>
         (case pk_open_out pk of
            Some out \<Rightarrow>
              ((head (oo_id out) (oo_start_date out) @ '',DURATION='' @ secs3 (max (cue_at_us c - oo_at_us out) 0) @
                '',SCTE35-IN='' @ hex, cue_at_us c), pk\<lparr>pk_open_out := None\<rparr>)
          | None \<Rightarrow>
             (let (cid, pk) = next_cue_id pk in ((head cid date @ '',SCTE35-IN='' @ hex, cue_at_us c), pk)))
      | CueOther \<Rightarrow> (let (cid, pk) = next_cue_id pk in ((head cid date @ '',SCTE35-CMD='' @ hex, cue_at_us c), pk)))"

definition cue_anchor :: "cue \<Rightarrow> packager \<Rightarrow> hls_segment option" where
  "cue_anchor c pk =
     (case find (\<lambda>s. hs_start_us s \<le> cue_at_us c) (rev (pk_segments pk)) of
        Some s \<Rightarrow> Some s
      | None \<Rightarrow> (case pk_segments pk of s # _ \<Rightarrow> Some s | [] \<Rightarrow> None))"

definition hls_push_cue :: "cue \<Rightarrow> packager \<Rightarrow> packager" where
  "hls_push_cue c pk =
     (if (\<not> hc_cue_tags (pk_cfg pk) \<and> \<not> hc_cue_out_tags (pk_cfg pk)) \<or> pk_ended pk then pk
      else case cue_anchor c pk of
        None \<Rightarrow> if length (pk_early_cues pk) < 16 then pk\<lparr>pk_early_cues := pk_early_cues pk @ [c]\<rparr> else pk
      | Some anchor \<Rightarrow>
         (let date = rfc3339 (hs_pdt anchor + (cue_at_us c - hs_start_us anchor) * 1000);
              ((line, end_us), pk) = cue_line c date pk;
              pk = (if hc_cue_tags (pk_cfg pk)
                then pk\<lparr>pk_dateranges := pk_dateranges pk @ [\<lparr>dr_at_us = cue_at_us c, dr_end_us = end_us, dr_line = line\<rparr>]\<rparr>
                else pk);
              pk = (if hc_cue_out_tags (pk_cfg pk) then push_legacy_cue c pk else pk)
          in prune_dateranges pk))"

subsection \<open>Parts and segments\<close>

definition part_target :: "packager \<Rightarrow> rat" where
  "part_target pk = f64_div (of_nat (max (hc_part_ms (pk_cfg pk)) 1)) 1000"

definition sample_end :: "sample \<Rightarrow> int" where
  "sample_end s = sa_dts s + int (sa_dur s)"

definition part_span :: "packager \<Rightarrow> int" where
  "part_span pk = (if pk_part pk = [] then 0 else sample_end (last (pk_part pk)) - sa_dts (hd (pk_part pk)))"

definition part_max :: "packager \<Rightarrow> int" where
  "part_max pk =
     (let ts = (case pk_primary pk of Some l \<Rightarrow> int (ln_timescale l) | None \<Rightarrow> 1) in
      max (int (hc_part_ms (pk_cfg pk)) * ts div 1000) 1)"

text \<open>The secondary samples that start before the end of the part; those over before \<open>floor\<close> are dropped.\<close>

fun take_secondary :: "lane \<Rightarrow> int \<Rightarrow> int option \<Rightarrow> sample list \<Rightarrow> sample list \<times> sample list" where
  "take_secondary sec end_micros floor_us [] = ([], [])"
| "take_secondary sec end_micros floor_us (s # q) =
     (if lane_micros sec (sa_dts s) \<ge> end_micros then ([], s # q)
      else (let (audio, q) = take_secondary sec end_micros floor_us q in
        ((if (case floor_us of Some fl \<Rightarrow> lane_micros sec (sa_dts s) + lane_micros sec (int (sa_dur s)) \<le> fl | None \<Rightarrow> False)
          then audio else s # audio), q)))"

text \<open>\<open>segments.back_mut().filter(full.is_none())\<close>.\<close>

definition open_last :: "hls_segment list \<Rightarrow> hls_segment option" where
  "open_last segs = (if segs \<noteq> [] \<and> hs_full (last segs) = None then Some (last segs) else None)"

definition set_last :: "hls_segment \<Rightarrow> hls_segment list \<Rightarrow> hls_segment list" where
  "set_last s segs = butlast segs @ [s]"

definition close_part :: "(moof \<Rightarrow> bytes) \<Rightarrow> packager \<Rightarrow> packager" where
  "close_part enc pk =
     (case (pk_part pk, pk_primary pk) of
        (s # rest, Some primary) \<Rightarrow>
         (let end_micros = lane_micros primary (sample_end (last (s # rest)));
              duration = f64_div (f64_rnd (of_int (part_span pk))) (of_nat (ln_timescale primary));
              (audio, queue) = (case pk_secondary pk of
                  Some sec \<Rightarrow> take_secondary sec end_micros (pk_floor pk) (pk_queue pk)
                | None \<Rightarrow> ([], pk_queue pk));
              fragment_seq = (pk_fragment_seq pk + 1) mod 2 ^ 32;
              runs = \<lparr>ru_track_id = ln_track_id primary, ru_samples = s # rest\<rparr> #
                (case pk_secondary pk of Some sec \<Rightarrow> [\<lparr>ru_track_id = ln_track_id sec, ru_samples = audio\<rparr>] | None \<Rightarrow> []);
              part = \<lparr>pt_duration = duration, pt_independent = sa_key s, pt_data = fragment enc fragment_seq runs\<rparr>;
              segments = (case open_last (pk_segments pk) of
                  Some seg \<Rightarrow> set_last (seg\<lparr>hs_parts := hs_parts seg @ [part]\<rparr>) (pk_segments pk)
                | None \<Rightarrow> pk_segments pk)
          in pk\<lparr>pk_floor := None, pk_fragment_seq := fragment_seq, pk_queue := queue, pk_part := [],
                pk_segments := segments\<rparr>)
      | _ \<Rightarrow> pk)"

text \<open>The window loop of \<open>close_segment\<close>: old segments leave, their discontinuities are counted.\<close>

fun trim_window :: "hls_segment list \<Rightarrow> nat \<Rightarrow> hls_segment list \<times> nat" where
  "trim_window [] dseq = ([], dseq)"
| "trim_window (s # segs) dseq =
     (if length (filter (\<lambda>s. hs_full s \<noteq> None) (s # segs)) > window
      then trim_window segs (if hs_discontinuity s then dseq + 1 else dseq) else (s # segs, dseq))"

definition close_segment :: "packager \<Rightarrow> packager" where
  "close_segment pk =
     (let pk = pk\<lparr>pk_seg_start := None\<rparr> in
      case open_last (pk_segments pk) of
        None \<Rightarrow> pk
      | Some seg \<Rightarrow>
          if hs_parts seg = [] then pk\<lparr>pk_segments := butlast (pk_segments pk), pk_next_msn := pk_next_msn pk - 1\<rparr>
          else (let seg = seg\<lparr>hs_full := Some (concat (map pt_data (hs_parts seg)))\<rparr>;
                    target = max (pk_target pk) (f64_to_u64 (f64_round (segment_duration seg)));
                    (segments, dseq) = trim_window (set_last seg (pk_segments pk)) (pk_discontinuity_seq pk);
                    first_gen = (case segments of s # _ \<Rightarrow> hs_init_gen s | [] \<Rightarrow> pk_init_gen pk)
                in prune_dateranges (pk\<lparr>pk_segments := segments, pk_target := target, pk_discontinuity_seq := dseq,
                     pk_old_inits := filter (\<lambda>(g, _). g \<ge> first_gen) (pk_old_inits pk)\<rparr>)))"

definition commit_primary :: "(moof \<Rightarrow> bytes) \<Rightarrow> sample \<Rightarrow> packager \<Rightarrow> packager" where
  "commit_primary enc s pk =
     (let pk = (if pk_part pk \<noteq> [] \<and> sample_end s - sa_dts (hd (pk_part pk)) > part_max pk then close_part enc pk else pk) in
      pk\<lparr>pk_part := pk_part pk @ [s]\<rparr>)"

definition open_segment :: "int \<Rightarrow> int \<Rightarrow> packager \<Rightarrow> packager" where
  "open_segment dts now pk =
     (case pk_primary pk of
        None \<Rightarrow> pk
      | Some lane \<Rightarrow>
         (let start_micros = lane_micros lane dts;
              media_us = lane_micros lane (dts - ln_shift lane);
              discontinuity = (pk_discontinuity_next pk \<or>
                (case pk_resume_from pk of
                   Some prev \<Rightarrow> (start_micros - prev < 0 \<or> start_micros - prev > gap_micros) \<and> pk_segments pk \<noteq> []
                 | None \<Rightarrow> False));
              pk = pk\<lparr>pk_discontinuity_next := False, pk_resume_from := None\<rparr>;
              pk = (if pk_waiting_key pk then pk\<lparr>pk_floor := Some start_micros, pk_waiting_key := False\<rparr> else pk);
              seg = \<lparr>hs_msn = pk_next_msn pk, hs_parts = [], hs_pdt = now, hs_start_us = media_us,
                     hs_discontinuity = discontinuity, hs_init_gen = pk_init_gen pk, hs_full = None\<rparr>;
              early = pk_early_cues pk
          in fold hls_push_cue early
               (pk\<lparr>pk_seg_start := Some dts, pk_segments := pk_segments pk @ [seg], pk_next_msn := pk_next_msn pk + 1,
                   pk_early_cues := []\<rparr>)))"

text \<open>The held-back frames go in with their last known duration, then everything open is closed.\<close>

definition flush_primary :: "(moof \<Rightarrow> bytes) \<Rightarrow> packager \<Rightarrow> packager" where
  "flush_primary enc pk =
     (case pk_primary pk of
        None \<Rightarrow> pk
      | Some lane \<Rightarrow>
         (case ln_pending lane of
            None \<Rightarrow> pk
          | Some p \<Rightarrow>
             (let p = p\<lparr>sa_dur := fallback_dur lane (sa_data p)\<rparr>;
                  pk = commit_primary enc p (pk\<lparr>pk_primary := Some (lane\<lparr>ln_pending := None\<rparr>)\<rparr>)
              in pk\<lparr>pk_resume_from := Some (lane_micros lane (sample_end p))\<rparr>)))"

definition flush_secondary :: "packager \<Rightarrow> packager" where
  "flush_secondary pk =
     (case pk_secondary pk of
        None \<Rightarrow> pk
      | Some lane \<Rightarrow>
         (case ln_pending lane of
            None \<Rightarrow> pk
          | Some p \<Rightarrow> pk\<lparr>pk_secondary := Some (lane\<lparr>ln_pending := None\<rparr>),
              pk_queue := pk_queue pk @ [p\<lparr>sa_dur := fallback_dur lane (sa_data p)\<rparr>]\<rparr>))"

definition flush :: "(moof \<Rightarrow> bytes) \<Rightarrow> packager \<Rightarrow> packager" where
  "flush enc pk = close_segment (close_part enc (flush_secondary (flush_primary enc pk)))"

definition push_secondary :: "frame \<Rightarrow> packager \<Rightarrow> packager" where
  "push_secondary f pk =
     (case pk_secondary pk of
        None \<Rightarrow> pk
      | Some lane \<Rightarrow>
         (let new = lane_sample lane f True;
              (lane, queue) = (case ln_pending lane of
                  None \<Rightarrow> (lane, pk_queue pk)
                | Some p \<Rightarrow>
                   (let d = sa_dts new - sa_dts p;
                        dur = (if d \<le> 0 \<or> d > jump_secs * int (ln_timescale lane) then fallback_dur lane (sa_data p)
                          else nat (d mod 2 ^ 32))
                    in (lane\<lparr>ln_last_dur := dur\<rparr>, pk_queue pk @ [p\<lparr>sa_dur := dur\<rparr>])));
              queue = (if pk_seg_start pk = None then drop (length queue - 256) queue else queue)
          in pk\<lparr>pk_secondary := Some (lane\<lparr>ln_pending := Some new\<rparr>), pk_queue := queue\<rparr>))"

text \<open>A primary frame after the one held back: \<open>d\<close> ticks later, in order and without a jump.\<close>

definition cut_after :: "(moof \<Rightarrow> bytes) \<Rightarrow> lane \<Rightarrow> sample \<Rightarrow> int \<Rightarrow> sample \<Rightarrow> packager \<Rightarrow> packager" where
  "cut_after enc lane p d new pk =
     (let p = p\<lparr>sa_dur := nat (d mod 2 ^ 32)\<rparr>;
          pk = commit_primary enc p
            (pk\<lparr>pk_primary := Some (lane\<lparr>ln_pending := None, ln_last_dur := nat (d mod 2 ^ 32)\<rparr>)\<rparr>);
          seg_len = sa_dts new - (case pk_seg_start pk of Some t \<Rightarrow> t | None \<Rightarrow> sa_dts new);
          seg_min = int (hc_segment_ms (pk_cfg pk)) * int (ln_timescale lane) div 1000
      in if sa_key new \<and> seg_len \<ge> seg_min then close_segment (close_part enc pk)
         else if sa_key new \<and> \<not> pk_primary_is_audio pk \<and> pk_part pk \<noteq> []
         then (let long_enough = (part_span pk * 100 \<ge> part_max pk * 85); pk = close_part enc pk in
               if long_enough then pk else close_segment pk)
         else if pk_part pk \<noteq> [] \<and> part_span pk + d > part_max pk then close_part enc pk
         else pk)"

definition push_primary :: "(moof \<Rightarrow> bytes) \<Rightarrow> frame \<Rightarrow> int \<Rightarrow> packager \<Rightarrow> packager" where
  "push_primary enc f now pk =
     (case pk_primary pk of
        None \<Rightarrow> pk
      | Some lane \<Rightarrow>
         (let new = lane_sample lane f (pk_primary_is_audio pk);
              pk = (case ln_pending lane of
                  None \<Rightarrow> pk
                | Some p \<Rightarrow>
                   (let d = sa_dts new - sa_dts p in
                    if d \<le> 0 \<or> d > jump_secs * int (ln_timescale lane)
                    then (let pk = flush enc pk in pk\<lparr>pk_discontinuity_next := (pk_segments pk \<noteq> []), pk_waiting_key := True\<rparr>)
                    else cut_after enc lane p d new pk))
          in if pk_seg_start pk = None \<and> \<not> sa_key new then pk\<lparr>pk_waiting_key := True\<rparr>
             else (let pk = (if pk_seg_start pk = None then open_segment (sa_dts new) now pk else pk) in
               pk\<lparr>pk_primary := map_option (\<lambda>l. l\<lparr>ln_pending := Some new\<rparr>) (pk_primary pk)\<rparr>)))"

definition hls_push :: "(moof \<Rightarrow> bytes) \<Rightarrow> frame \<Rightarrow> int \<Rightarrow> packager \<Rightarrow> packager" where
  "hls_push enc f now pk =
     (if pk_ended pk then pk
      else if (case pk_primary pk of Some l \<Rightarrow> ln_core_id l = fr_track f | None \<Rightarrow> False) then push_primary enc f now pk
      else if (case pk_secondary pk of Some l \<Rightarrow> ln_core_id l = fr_track f | None \<Rightarrow> False) then push_secondary f pk
      else pk)"

subsection \<open>Tracks\<close>

definition hex_text :: "nat \<Rightarrow> nat \<Rightarrow> bool \<Rightarrow> string" where
  "hex_text width n upper =
     (let digit = (\<lambda>d. if d < 10 then char_of (48 + d) else char_of ((if upper then 55 else 87) + d :: int));
          len = max width (if n = 0 then 1 else nat ((bit_len (int n) + 3) div 4))
      in map (\<lambda>i. digit (int n div 16 ^ (len - 1 - i) mod 16)) [0..<len])"

text \<open>The constraint bytes of an \<open>hvcC\<close>, without trailing zeroes but at least one.\<close>

function drop_zeroes :: "string list \<Rightarrow> string list" where
  "drop_zeroes cs = (if length cs > 1 \<and> last cs = ''0'' then drop_zeroes (butlast cs) else cs)"
  by pat_completeness auto
termination
  by (relation "measure length") auto

fun join :: "string \<Rightarrow> string list \<Rightarrow> string" where
  "join sep [] = []"
| "join sep [s] = s"
| "join sep (s # t # ss) = s @ sep @ join sep (t # ss)"

definition codec_string :: "track_info \<Rightarrow> string option" where
  "codec_string t =
     (let c = ti_init t; b = (\<lambda>i. unat (c ! i)) in
      if ti_codec t = H264 \<and> length c \<ge> 4
      then Some (''avc1.'' @ hex_text 2 (b 1) False @ hex_text 2 (b 2) False @ hex_text 2 (b 3) False)
      else if ti_codec t = H265 \<and> length c \<ge> 13
      then (let space = [[], ''A'', ''B'', ''C''] ! (b 1 div 64);
                tier = (if (c ! 1) AND 0x20 \<noteq> 0 then ''H'' else ''L'');
                compat = unat (word_reverse (le32 (c ! 5) (c ! 4) (c ! 3) (c ! 2)));
                cons = drop_zeroes (map (\<lambda>i. hex_text 1 (b i) True) [6..<12])
            in Some (''hvc1.'' @ space @ decimal (b 1 mod 32) @ ''.'' @ hex_text 1 compat True @ ''.'' @ tier @
                 decimal (b 12) @ ''.'' @ join ''.'' cons))
      else if ti_codec t = Aac \<and> c \<noteq> [] then Some (''mp4a.40.'' @ decimal (b 0 div 8))
      else if ti_codec t = Opus \<and> parse_opus_head c \<noteq> None then Some ''opus''
      else None)"

definition playable_video :: "track_info \<Rightarrow> bool" where
  "playable_video t \<longleftrightarrow> (ti_codec t = H264 \<or> ti_codec t = H265) \<and> ti_init t \<noteq> []"

definition playable_audio :: "track_info \<Rightarrow> bool" where
  "playable_audio t \<longleftrightarrow>
     (case ti_codec t of
        Aac \<Rightarrow> length (ti_init t) \<ge> 2
      | Opus \<Rightarrow> parse_opus_head (ti_init t) \<noteq> None
      | _ \<Rightarrow> False)"

text \<open>Numbered from 1, in order.\<close>

definition number_tracks :: "track_info list \<Rightarrow> mp4_track list" where
  "number_tracks ts = map (\<lambda>(i, t). \<lparr>mt_track_id = i + 1, mt_info = t\<rparr>) (enumerate 0 ts)"

text \<open>The tracks that go out and their init segment; when two do not go together, the one that works.\<close>

definition choose_tracks :: "'c mp4_codec \<Rightarrow> track_info list \<Rightarrow> mp4_track list \<times> bytes option" where
  "choose_tracks mc tracks =
     (let mp4 = number_tracks ((case find playable_video tracks of Some v \<Rightarrow> [v] | None \<Rightarrow> []) @
              (case find playable_audio tracks of Some a \<Rightarrow> [a] | None \<Rightarrow> []));
          init = init_segment mc mp4
      in if init = None \<and> length mp4 = 2
         then (let mp4 = number_tracks (map mt_info (filter (\<lambda>t. init_segment mc [t] \<noteq> None) mp4)) in
               (mp4, init_segment mc mp4))
         else (mp4, init))"

definition f64_positive :: "f64_bits \<Rightarrow> bool" where
  "f64_positive w \<longleftrightarrow> \<not> f64_is_nan w \<and> \<not> f64_is_zero w \<and> uint w < 2 ^ 63"

definition lane_id :: "lane option \<Rightarrow> track_id option" where
  "lane_id l = map_option ln_core_id l"

definition nth_track :: "nat \<Rightarrow> mp4_track list \<Rightarrow> mp4_track option" where
  "nth_track i ts = (if i < length ts then Some (ts ! i) else None)"

definition same_tracks :: "mp4_track list \<Rightarrow> bytes option \<Rightarrow> packager \<Rightarrow> bool" where
  "same_tracks mp4 init pk \<longleftrightarrow>
     init = pk_init pk \<and>
     lane_id (pk_primary pk) = map_option (ti_id \<circ> mt_info) (nth_track 0 mp4) \<and>
     lane_id (pk_secondary pk) = map_option (ti_id \<circ> mt_info) (nth_track 1 mp4)"

text \<open>The old init segment is kept for what is listed under it.\<close>

definition retire_init :: "bytes option \<Rightarrow> packager \<Rightarrow> packager" where
  "retire_init init pk =
     (if init = pk_init pk then pk
      else if pk_segments pk \<noteq> []
      then (pk\<lparr>pk_old_inits := pk_old_inits pk @ (case pk_init pk of Some old \<Rightarrow> [(pk_init_gen pk, old)] | None \<Rightarrow> []),
              pk_init := None, pk_init_gen := pk_init_gen pk + 1\<rparr>)
      else pk\<lparr>pk_old_inits := []\<rparr>)"

definition hls_set_tracks ::
    "'c mp4_codec \<Rightarrow> (moof \<Rightarrow> bytes) \<Rightarrow> track_info list \<Rightarrow> packager \<Rightarrow> bool \<times> packager" where
  "hls_set_tracks mc enc tracks pk =
     (let (mp4, init) = choose_tracks mc tracks in
      if same_tracks mp4 init pk then (False, pk)
      else (let pk = flush enc pk;
                had_output = (pk_segments pk \<noteq> []);
                pk = retire_init init pk;
                lane = (\<lambda>i. if init = None then None
                  else map_option (\<lambda>t. lane_new (mt_track_id t) (mt_info t)) (nth_track i mp4));
                infos = map mt_info mp4;
                resolution = (case find (\<lambda>t. ti_video t \<noteq> None) infos of
                    Some t \<Rightarrow> map_option (\<lambda>v. (vp_width v, vp_height v)) (ti_video t) | None \<Rightarrow> None);
                fps = (case find (\<lambda>t. (case ti_video t of Some v \<Rightarrow> vp_fps v \<noteq> None | None \<Rightarrow> False)) infos of
                    Some t \<Rightarrow> Option.bind (ti_video t) vp_fps | None \<Rightarrow> None)
            in (True, pk\<lparr>pk_dateranges := [], pk_breaks := [], pk_open_out := None, pk_discontinuity_next := had_output,
                  pk_resume_from := None, pk_queue := [], pk_floor := None, pk_waiting_key := True, pk_init := init,
                  pk_codecs := List.map_filter codec_string infos,
                  pk_resolution := (case resolution of Some (w, h) \<Rightarrow> if w > 0 \<and> h > 0 then Some (w, h) else None | None \<Rightarrow> None),
                  pk_frame_rate := (case fps of Some r \<Rightarrow> if f64_positive r then Some r else None | None \<Rightarrow> None),
                  pk_primary := lane 0, pk_secondary := lane 1,
                  pk_primary_is_audio := (case mp4 of t # _ \<Rightarrow> track_kind_of (mt_info t) = Audio | [] \<Rightarrow> False)\<rparr>)))"

subsection \<open>Lag, end, republish\<close>

definition lagged :: "(moof \<Rightarrow> bytes) \<Rightarrow> packager \<Rightarrow> packager" where
  "lagged enc pk = (flush enc pk)\<lparr>pk_queue := [], pk_waiting_key := True\<rparr>"

definition hls_end :: "(moof \<Rightarrow> bytes) \<Rightarrow> packager \<Rightarrow> packager" where
  "hls_end enc pk = (flush enc pk)\<lparr>pk_suspended := False, pk_ended := True\<rparr>"

definition suspend :: "(moof \<Rightarrow> bytes) \<Rightarrow> packager \<Rightarrow> packager" where
  "suspend enc pk = (flush enc pk)\<lparr>pk_suspended := True\<rparr>"

definition resume :: "(moof \<Rightarrow> bytes) \<Rightarrow> packager \<Rightarrow> packager" where
  "resume enc pk =
     (let pk = flush enc pk in
      pk\<lparr>pk_suspended := False, pk_discontinuity_next := (pk_segments pk \<noteq> []), pk_resume_from := None, pk_queue := [],
         pk_floor := None, pk_waiting_key := True, pk_dateranges := [], pk_breaks := [], pk_open_out := None,
         pk_early_cues := []\<rparr>)"

subsection \<open>What players ask for\<close>

definition init_for :: "nat \<Rightarrow> packager \<Rightarrow> bytes option" where
  "init_for generation pk =
     (if generation = pk_init_gen pk then pk_init pk
      else map_option snd (find (\<lambda>(g, _). g = generation) (pk_old_inits pk)))"

definition last_part :: "packager \<Rightarrow> (nat \<times> nat) option" where
  "last_part pk =
     map_option (\<lambda>s. (hs_msn s, length (hs_parts s) - 1)) (find (\<lambda>s. hs_parts s \<noteq> []) (rev (pk_segments pk)))"

definition next_part :: "packager \<Rightarrow> nat \<times> nat" where
  "next_part pk =
     (case open_last (pk_segments pk) of Some s \<Rightarrow> (hs_msn s, length (hs_parts s)) | None \<Rightarrow> (pk_next_msn pk, 0))"

definition last_complete :: "packager \<Rightarrow> nat option" where
  "last_complete pk = map_option hs_msn (find (\<lambda>s. hs_full s \<noteq> None) (rev (pk_segments pk)))"

definition hls_segment_at :: "nat \<Rightarrow> packager \<Rightarrow> hls_segment option" where
  "hls_segment_at msn pk =
     (case pk_segments pk of
        [] \<Rightarrow> None
      | s # _ \<Rightarrow> if hs_msn s \<le> msn \<and> msn - hs_msn s < length (pk_segments pk)
          then Some (pk_segments pk ! (msn - hs_msn s)) else None)"

definition lookup_pending :: "nat \<Rightarrow> nat option \<Rightarrow> packager \<Rightarrow> bool" where
  "lookup_pending msn part pk \<longleftrightarrow>
     \<not> pk_ended pk \<and>
     (let (nm, np) = next_part pk in
      case part of Some p \<Rightarrow> msn < nm \<or> (msn = nm \<and> p \<le> np) | None \<Rightarrow> msn \<le> nm)"

definition segment_bytes :: "hls_segment \<Rightarrow> nat option \<Rightarrow> bytes option" where
  "segment_bytes seg part =
     (case part of
        Some i \<Rightarrow> if i < length (hs_parts seg) then Some (pt_data (hs_parts seg ! i)) else None
      | None \<Rightarrow> hs_full seg)"

definition hls_lookup :: "nat \<Rightarrow> nat option \<Rightarrow> packager \<Rightarrow> lookup_result" where
  "hls_lookup msn part pk =
     (case hls_segment_at msn pk of
        Some seg \<Rightarrow>
         (case segment_bytes seg part of
            Some b \<Rightarrow> LookupFound b
          | None \<Rightarrow> if hs_full seg = None \<and> lookup_pending msn part pk then LookupPending else LookupGone)
      | None \<Rightarrow> if msn \<ge> pk_next_msn pk \<and> lookup_pending msn part pk then LookupPending else LookupGone)"

definition ready :: "packager \<Rightarrow> bool" where
  "ready pk \<longleftrightarrow> pk_init pk \<noteq> None \<and> last_part pk \<noteq> None"

end
