(* ===== verification/Hls_Playlist.thy ===== *)
theory Hls_Playlist
  imports Hls_Packager
begin

text \<open>
  The texts of \<open>crates/caudal-hls/src/packager.rs\<close>: the media playlist (\<open>render\<close>), the variant attributes and
  the media spans of the subtitle rendition. A playlist is a list of lines (\<open>playlist_line\<close>), as the code
  appends them, and its text the concatenation of their texts.
\<close>

subsection \<open>Lines\<close>

datatype playlist_line =
    PlTag string
  | PlMap nat
  | PlDiscontinuity
  | PlDateTime int
  | PlPart nat nat rat bool
  | PlSegment nat rat
  | PlHint nat nat
  | PlEnd

definition init_uri :: "nat \<Rightarrow> string" where
  "init_uri generation = (if generation = 0 then ''init.mp4'' else ''init'' @ decimal generation @ ''.mp4'')"

definition file_uri :: "bool \<Rightarrow> string \<Rightarrow> string" where
  "file_uri subs name = (if subs then ''c'' @ name @ ''.vtt'' else ''s'' @ name @ ''.m4s'')"

definition part_uri :: "bool \<Rightarrow> nat \<Rightarrow> nat \<Rightarrow> string" where
  "part_uri subs msn part = file_uri subs (decimal msn @ ''.p'' @ decimal part)"

text \<open>Every WebVTT part stands alone.\<close>

fun line_text :: "bool \<Rightarrow> playlist_line \<Rightarrow> string" where
  "line_text subs (PlTag t) = t @ [CHR 0x0A]"
| "line_text subs (PlMap g) = ''#EXT-X-MAP:URI='' @ quoted (init_uri g) @ [CHR 0x0A]"
| "line_text subs PlDiscontinuity = ''#EXT-X-DISCONTINUITY'' @ [CHR 0x0A]"
| "line_text subs (PlDateTime t) = ''#EXT-X-PROGRAM-DATE-TIME:'' @ rfc3339 t @ [CHR 0x0A]"
| "line_text subs (PlPart msn j d indep) =
     ''#EXT-X-PART:DURATION='' @ fmt_fixed 5 d @ '',URI='' @ quoted (part_uri subs msn j) @
     (if indep \<or> subs then '',INDEPENDENT=YES'' else []) @ [CHR 0x0A]"
| "line_text subs (PlSegment msn d) = ''#EXTINF:'' @ fmt_fixed 5 d @ '','' @ [CHR 0x0A] @ file_uri subs (decimal msn) @ [CHR 0x0A]"
| "line_text subs (PlHint msn part) =
     ''#EXT-X-PRELOAD-HINT:TYPE=PART,URI='' @ quoted (part_uri subs msn part) @ [CHR 0x0A]"
| "line_text subs PlEnd = ''#EXT-X-ENDLIST'' @ [CHR 0x0A]"

subsection \<open>The media playlist\<close>

definition hold_back :: "packager \<Rightarrow> string" where
  "hold_back pk = fmt_fixed 3 (f64_add (f64_mul (part_target pk) 3) (f64_rnd (1 / 1000)))"

definition header_lines :: "bool \<Rightarrow> bool \<Rightarrow> packager \<Rightarrow> playlist_line list" where
  "header_lines subs parts pk =
     [PlTag ''#EXTM3U'', PlTag ''#EXT-X-VERSION:9'', PlTag (''#EXT-X-TARGETDURATION:'' @ decimal (pk_target pk)),
      PlTag (if subs \<and> \<not> parts
        then ''#EXT-X-SERVER-CONTROL:CAN-BLOCK-RELOAD=YES,HOLD-BACK='' @
          fmt_fixed 3 (f64_mul (f64_rnd (of_nat (pk_target pk))) 3) @ '',PART-HOLD-BACK='' @ hold_back pk
        else ''#EXT-X-SERVER-CONTROL:CAN-BLOCK-RELOAD=YES,PART-HOLD-BACK='' @ hold_back pk),
      PlTag (''#EXT-X-PART-INF:PART-TARGET='' @ fmt_fixed 3 (part_target pk)),
      PlTag (''#EXT-X-MEDIA-SEQUENCE:'' @
        decimal (case pk_segments pk of s # _ \<Rightarrow> hs_msn s | [] \<Rightarrow> pk_next_msn pk))] @
     (if pk_discontinuity_seq pk > 0
      then [PlTag (''#EXT-X-DISCONTINUITY-SEQUENCE:'' @ decimal (pk_discontinuity_seq pk))] else []) @
     [PlTag ''#EXT-X-INDEPENDENT-SEGMENTS'']"

text \<open>The legacy continuation tag of a segment that starts inside an ad break.\<close>

definition continuation_lines :: "bool \<Rightarrow> hls_segment \<Rightarrow> packager \<Rightarrow> playlist_line list" where
  "continuation_lines subs seg pk =
     (if subs then []
      else case find (\<lambda>b. cb_out_us b < hs_start_us seg \<and> hs_start_us seg < break_end b) (pk_breaks pk) of
        None \<Rightarrow> []
      | Some b \<Rightarrow>
         (let elapsed = secs3 (hs_start_us seg - cb_out_us b) in
          [PlTag (case cb_planned_us b of
             Some d \<Rightarrow> ''#EXT-X-CUE-OUT-CONT:ElapsedTime='' @ elapsed @ '',Duration='' @ secs3 d
           | None \<Rightarrow> ''#EXT-X-CUE-OUT-CONT:ElapsedTime='' @ elapsed)]))"

definition range_lines :: "bool \<Rightarrow> int \<Rightarrow> int \<Rightarrow> packager \<Rightarrow> playlist_line list" where
  "range_lines subs from_us until_us pk =
     (if subs then []
      else map (\<lambda>d. PlTag (dr_line d)) (filter (\<lambda>d. from_us \<le> dr_at_us d \<and> dr_at_us d < until_us) (pk_dateranges pk)))"

definition part_lines :: "hls_segment \<Rightarrow> playlist_line list" where
  "part_lines seg =
     map (\<lambda>(j, p). PlPart (hs_msn seg) j (pt_duration p) (pt_independent p)) (enumerate 0 (hs_parts seg))"

fun segment_lines ::
    "bool \<Rightarrow> bool \<Rightarrow> packager \<Rightarrow> bool \<Rightarrow> nat \<Rightarrow> (nat \<times> hls_segment) list \<Rightarrow> playlist_line list" where
  "segment_lines subs parts pk first map_gen [] = []"
| "segment_lines subs parts pk first map_gen ((i, seg) # rest) =
     (if hs_discontinuity seg then [PlDiscontinuity] else []) @
     (if hs_init_gen seg \<noteq> map_gen \<and> \<not> subs then [PlMap (hs_init_gen seg)] else []) @
     [PlDateTime (hs_pdt seg)] @
     continuation_lines subs seg pk @
     range_lines subs (if first then i64_min else hs_start_us seg)
       (case rest of (_, s) # _ \<Rightarrow> hs_start_us s | [] \<Rightarrow> i64_max) pk @
     (if i + part_segments \<ge> length (pk_segments pk) \<and> parts then part_lines seg else []) @
     (if hs_full seg \<noteq> None then [PlSegment (hs_msn seg) (segment_duration seg)] else []) @
     segment_lines subs parts pk False (if hs_init_gen seg \<noteq> map_gen \<and> \<not> subs then hs_init_gen seg else map_gen) rest"

definition render :: "bool \<Rightarrow> bool \<Rightarrow> packager \<Rightarrow> playlist_line list" where
  "render subs parts pk =
     (let listed = filter (\<lambda>(_, s). hs_parts s \<noteq> []) (enumerate 0 (pk_segments pk));
          map_gen = (case listed of (_, s) # _ \<Rightarrow> hs_init_gen s | [] \<Rightarrow> pk_init_gen pk)
      in header_lines subs parts pk @
         (if subs then [] else [PlMap map_gen]) @
         segment_lines subs parts pk True map_gen listed @
         (if pk_ended pk then [PlEnd]
          else if parts then [PlHint (fst (next_part pk)) (snd (next_part pk))] else []))"

definition playlist_text :: "bool \<Rightarrow> bool \<Rightarrow> packager \<Rightarrow> string" where
  "playlist_text subs parts pk = concat (map (line_text subs) (render subs parts pk))"

definition playlist :: "packager \<Rightarrow> string" where
  "playlist pk = playlist_text False True pk"

definition subtitle_playlist :: "bool \<Rightarrow> packager \<Rightarrow> string" where
  "subtitle_playlist parts pk = playlist_text True parts pk"

subsection \<open>Spans and variants\<close>

text \<open>\<open>(p.duration * 1e6).round() as i64\<close>.\<close>

definition part_micros :: "hls_part \<Rightarrow> int" where
  "part_micros p = f64_round (f64_mul (pt_duration p) 1000000)"

fun part_spans :: "nat \<Rightarrow> int \<Rightarrow> (nat \<times> hls_part) list \<Rightarrow> (nat \<times> nat option \<times> int \<times> int) list \<times> int" where
  "part_spans msn t [] = ([], t)"
| "part_spans msn t ((j, p) # ps) =
     (let (out, t') = part_spans msn (t + part_micros p) ps in ((msn, Some j, t, t + part_micros p) # out, t'))"

definition spans :: "packager \<Rightarrow> (nat \<times> nat option \<times> int \<times> int) list" where
  "spans pk =
     concat (map (\<lambda>seg.
       let (out, t) = part_spans (hs_msn seg) (hs_start_us seg) (enumerate 0 (hs_parts seg)) in
       out @ (if hs_full seg \<noteq> None then [(hs_msn seg, None, hs_start_us seg, t)] else [])) (pk_segments pk))"

record variant_attrs =
  va_codecs :: string
  va_resolution :: "(u32 \<times> u32) option"
  va_frame_rate :: "f64_bits option"
  va_peak :: nat
  va_average :: "nat option"

definition f64_trunc_u64 :: "rat \<Rightarrow> nat" where
  "f64_trunc_u64 q = f64_to_u64 \<lfloor>q\<rfloor>"

definition bitrates :: "packager \<Rightarrow> nat \<times> nat option" where
  "bitrates pk =
     (let full = List.map_filter (\<lambda>s. map_option (\<lambda>b. (f64_mul (f64_rnd (of_nat (length b))) 8,
              max (segment_duration s) (f64_rnd (1 / 1000)))) (hs_full s)) (pk_segments pk);
          peak = max (foldl max 0 (map (\<lambda>(bits, dur). f64_trunc_u64 (f64_div bits dur)) full)) 64000;
          (bits, dur) = foldl (\<lambda>(b, d) (bi, du). (f64_add b bi, f64_add d du)) (0, 0) full
      in (peak, if full = [] then None else Some (f64_trunc_u64 (f64_div bits (max dur (f64_rnd (1 / 1000)))))))"

definition variant_attrs_of :: "packager \<Rightarrow> variant_attrs option" where
  "variant_attrs_of pk =
     (if pk_codecs pk = [] then None
      else Some \<lparr>va_codecs = join '','' (pk_codecs pk), va_resolution = pk_resolution pk, va_frame_rate = pk_frame_rate pk,
             va_peak = fst (bitrates pk), va_average = snd (bitrates pk)\<rparr>)"

end
