(* ===== verification/Hls_Cutting.thy ===== *)
theory Hls_Cutting
  imports Hls_Playlist
begin

text \<open>
  The packager keeps its window in order. \<open>packager_ok\<close> says it of the whole state: segments are numbered
  without gaps, only the last may be open, each starts on a keyframe and, once complete, is the
  concatenation of its parts and no longer than the target duration; no more than \<open>window\<close> complete ones are
  kept; the open part is one frame or within the part limit. \<open>store_grows\<close> relates two states: what was
  given out never changes. Every operation keeps the first and moves along the second (\<open>hls_step_ok\<close>).
\<close>

subsection \<open>The invariant\<close>

definition listed_ok :: "nat \<Rightarrow> nat \<Rightarrow> hls_segment list \<Rightarrow> bool" where
  "listed_ok target msn segs \<longleftrightarrow>
     length segs \<le> msn \<and> map hs_msn segs = [msn - length segs..<msn] \<and>
     (\<forall>s\<in>set (butlast segs). hs_full s \<noteq> None) \<and>
     (\<forall>s\<in>set segs. hs_parts s \<noteq> [] \<longrightarrow> pt_independent (hd (hs_parts s))) \<and>
     (\<forall>s\<in>set segs. hs_full s \<noteq> None \<longrightarrow>
        hs_parts s \<noteq> [] \<and> hs_full s = Some (concat (map pt_data (hs_parts s))) \<and>
        f64_to_u64 (f64_round (segment_duration s)) \<le> target)"

definition window_ok :: "nat \<Rightarrow> nat \<Rightarrow> hls_segment list \<Rightarrow> bool" where
  "window_ok target msn segs \<longleftrightarrow>
     listed_ok target msn segs \<and> length (filter (\<lambda>s. hs_full s \<noteq> None) segs) \<le> window"

abbreviation open_seg :: "packager \<Rightarrow> hls_segment option" where
  "open_seg pk \<equiv> open_last (pk_segments pk)"

abbreviation held_back :: "packager \<Rightarrow> sample option" where
  "held_back pk \<equiv> Option.bind (pk_primary pk) ln_pending"

definition starts_on_key :: "packager \<Rightarrow> bool" where
  "starts_on_key pk \<longleftrightarrow>
     (case open_seg pk of
        None \<Rightarrow> True
      | Some s \<Rightarrow> hs_parts s \<noteq> [] \<or>
          (case pk_part pk of p # _ \<Rightarrow> sa_key p
           | [] \<Rightarrow> (case held_back pk of Some p \<Rightarrow> sa_key p | None \<Rightarrow> False)))"

definition part_bounded :: "packager \<Rightarrow> bool" where
  "part_bounded pk \<longleftrightarrow> length (pk_part pk) \<le> 1 \<or> part_span pk \<le> part_max pk"

definition packager_ok :: "packager \<Rightarrow> bool" where
  "packager_ok pk \<longleftrightarrow>
     window_ok (pk_target pk) (pk_next_msn pk) (pk_segments pk) \<and>
     (pk_primary pk = None \<longrightarrow> pk_part pk = []) \<and>
     (open_seg pk = None \<longleftrightarrow> pk_seg_start pk = None) \<and>
     (open_seg pk = None \<longrightarrow> pk_part pk = [] \<and> held_back pk = None) \<and>
     starts_on_key pk \<and> part_bounded pk"

subsection \<open>Lists\<close>

lemma open_last_append [simp]: "open_last (segs @ [s]) = (if hs_full s = None then Some s else None)"
  by (simp add: open_last_def)

lemma set_last_append [simp]: "set_last t (segs @ [s]) = segs @ [t]"
  by (simp add: set_last_def)

lemma open_last_cases:
  assumes "open_last segs = Some s"
  obtains rest where "segs = rest @ [s]" "hs_full s = None"
  using assms by (cases segs rule: rev_cases) (auto simp: open_last_def split: if_splits)

lemma open_last_none: "open_last segs = None \<Longrightarrow> s \<in> set segs \<Longrightarrow> \<forall>s\<in>set (butlast segs). hs_full s \<noteq> None \<Longrightarrow> hs_full s \<noteq> None"
  by (cases segs rule: rev_cases) (auto simp: open_last_def split: if_splits)

lemma listed_ok_empty [simp]: "listed_ok t n []"
  by (simp add: listed_ok_def)

lemma listed_ok_mono: "listed_ok t n segs \<Longrightarrow> t \<le> t' \<Longrightarrow> listed_ok t' n segs"
  by (fastforce simp: listed_ok_def)

lemma listed_ok_new:
  assumes "listed_ok t n segs" "open_last segs = None" "hs_msn s = n" "hs_parts s = []" "hs_full s = None"
  shows "listed_ok t (n + 1) (segs @ [s])"
  using assms open_last_none [OF assms(2)]
  by (auto simp: listed_ok_def Suc_diff_le)

lemma listed_ok_part:
  assumes "listed_ok t n (rest @ [s])" "hs_full s = None" "hs_parts s = [] \<Longrightarrow> pt_independent p"
  shows "listed_ok t n (rest @ [s\<lparr>hs_parts := hs_parts s @ [p]\<rparr>])"
  using assms by (auto simp: listed_ok_def hd_append)

lemma listed_ok_close:
  assumes "listed_ok t n (rest @ [s])" "hs_full s = None" "hs_parts s \<noteq> []"
  shows "listed_ok (max t (f64_to_u64 (f64_round (segment_duration s)))) n
           (rest @ [s\<lparr>hs_full := Some (concat (map pt_data (hs_parts s)))\<rparr>])"
  using listed_ok_mono [OF assms(1) max.cobounded1] assms
  by (auto simp: listed_ok_def segment_duration_def)

lemma listed_ok_tail:
  assumes "listed_ok t n (s # segs)"
  shows "listed_ok t n segs"
proof -
  have "map hs_msn segs = tl [n - length (s # segs)..<n]"
    using assms by (metis list.map(2) list.sel(3) listed_ok_def)
  then have "map hs_msn segs = [n - length segs..<n]"
    using assms by (simp add: listed_ok_def tl_upt Suc_diff_Suc)
  then show ?thesis
    using assms by (auto simp: listed_ok_def split: if_splits)
qed

lemma trim_window_drops: "\<exists>k. fst (trim_window segs d) = drop k segs"
proof (induction segs d rule: trim_window.induct)
  case (2 s segs d)
  then show ?case
    by (cases "length (filter (\<lambda>s. hs_full s \<noteq> None) (s # segs)) > window")
      (metis drop_Suc_Cons trim_window.simps(2), metis drop0 fst_conv trim_window.simps(2))
qed simp

lemma trim_window_bound: "length (filter (\<lambda>s. hs_full s \<noteq> None) (fst (trim_window segs d))) \<le> window"
  by (induction segs d rule: trim_window.induct) auto

lemma listed_ok_drop: "listed_ok t n segs \<Longrightarrow> listed_ok t n (drop k segs)"
  by (induction k arbitrary: segs) (auto simp: drop_Suc intro: listed_ok_tail dest: listed_ok_tail split: list.splits,
    metis list.exhaust_sel list.sel(2) listed_ok_tail)

lemma window_ok_trim: "listed_ok t n segs \<Longrightarrow> window_ok t n (fst (trim_window segs d))"
  using trim_window_drops [of segs d] trim_window_bound [of segs d]
  by (auto simp: window_ok_def listed_ok_drop)

lemma trim_window_last:
  assumes "hs_full s \<noteq> None"
  shows "\<exists>k \<le> length rest. fst (trim_window (rest @ [s]) d) = drop k rest @ [s]"
  using assms
proof (induction rest arbitrary: d)
  case Nil
  then show ?case by (simp add: window_def)
next
  case (Cons a rest)
  show ?case
  proof (cases "length (filter (\<lambda>s. hs_full s \<noteq> None) (a # rest @ [s])) > window")
    case True
    then show ?thesis
      using Cons.IH [OF Cons.prems, of "if hs_discontinuity a then d + 1 else d"]
      by (metis append_Cons drop_Suc_Cons length_Cons not_less_eq_eq trim_window.simps(2))
  next
    case False
    then show ?thesis by (intro exI [of _ 0]) simp
  qed
qed

subsection \<open>Ad markers leave the window alone\<close>

lemma prune_keeps [simp]:
  "pk_segments (prune_dateranges pk) = pk_segments pk" "pk_next_msn (prune_dateranges pk) = pk_next_msn pk"
  "pk_target (prune_dateranges pk) = pk_target pk" "pk_part (prune_dateranges pk) = pk_part pk"
  "pk_primary (prune_dateranges pk) = pk_primary pk" "pk_seg_start (prune_dateranges pk) = pk_seg_start pk"
  "pk_cfg (prune_dateranges pk) = pk_cfg pk" "pk_ended (prune_dateranges pk) = pk_ended pk"
  "pk_init (prune_dateranges pk) = pk_init pk" "pk_init_gen (prune_dateranges pk) = pk_init_gen pk"
  "pk_old_inits (prune_dateranges pk) = pk_old_inits pk"
  by (simp_all add: prune_dateranges_def split: list.splits)

lemma push_legacy_cue_keeps [simp]:
  "pk_segments (push_legacy_cue c pk) = pk_segments pk" "pk_next_msn (push_legacy_cue c pk) = pk_next_msn pk"
  "pk_target (push_legacy_cue c pk) = pk_target pk" "pk_part (push_legacy_cue c pk) = pk_part pk"
  "pk_primary (push_legacy_cue c pk) = pk_primary pk" "pk_seg_start (push_legacy_cue c pk) = pk_seg_start pk"
  "pk_cfg (push_legacy_cue c pk) = pk_cfg pk" "pk_ended (push_legacy_cue c pk) = pk_ended pk"
  "pk_init (push_legacy_cue c pk) = pk_init pk" "pk_init_gen (push_legacy_cue c pk) = pk_init_gen pk"
  "pk_old_inits (push_legacy_cue c pk) = pk_old_inits pk"
  by (simp_all add: push_legacy_cue_def Let_def split: cue_kind.splits)

lemma cue_line_keeps [simp]:
  "pk_segments (snd (cue_line c d pk)) = pk_segments pk" "pk_next_msn (snd (cue_line c d pk)) = pk_next_msn pk"
  "pk_target (snd (cue_line c d pk)) = pk_target pk" "pk_part (snd (cue_line c d pk)) = pk_part pk"
  "pk_primary (snd (cue_line c d pk)) = pk_primary pk" "pk_seg_start (snd (cue_line c d pk)) = pk_seg_start pk"
  "pk_cfg (snd (cue_line c d pk)) = pk_cfg pk" "pk_ended (snd (cue_line c d pk)) = pk_ended pk"
  "pk_init (snd (cue_line c d pk)) = pk_init pk" "pk_init_gen (snd (cue_line c d pk)) = pk_init_gen pk"
  "pk_old_inits (snd (cue_line c d pk)) = pk_old_inits pk"
  by (simp_all add: cue_line_def next_cue_id_def Let_def split: cue_kind.splits option.splits)

lemma push_cue_keeps [simp]:
  "pk_segments (hls_push_cue c pk) = pk_segments pk" "pk_next_msn (hls_push_cue c pk) = pk_next_msn pk"
  "pk_target (hls_push_cue c pk) = pk_target pk" "pk_part (hls_push_cue c pk) = pk_part pk"
  "pk_primary (hls_push_cue c pk) = pk_primary pk" "pk_seg_start (hls_push_cue c pk) = pk_seg_start pk"
  "pk_cfg (hls_push_cue c pk) = pk_cfg pk" "pk_ended (hls_push_cue c pk) = pk_ended pk"
  "pk_init (hls_push_cue c pk) = pk_init pk" "pk_init_gen (hls_push_cue c pk) = pk_init_gen pk"
  "pk_old_inits (hls_push_cue c pk) = pk_old_inits pk"
  by (simp_all add: hls_push_cue_def Let_def case_prod_unfold split: option.splits)

lemma push_cues_keep [simp]:
  "pk_segments (fold hls_push_cue cs pk) = pk_segments pk" "pk_next_msn (fold hls_push_cue cs pk) = pk_next_msn pk"
  "pk_target (fold hls_push_cue cs pk) = pk_target pk" "pk_part (fold hls_push_cue cs pk) = pk_part pk"
  "pk_primary (fold hls_push_cue cs pk) = pk_primary pk" "pk_seg_start (fold hls_push_cue cs pk) = pk_seg_start pk"
  "pk_cfg (fold hls_push_cue cs pk) = pk_cfg pk" "pk_ended (fold hls_push_cue cs pk) = pk_ended pk"
  "pk_init (fold hls_push_cue cs pk) = pk_init pk" "pk_init_gen (fold hls_push_cue cs pk) = pk_init_gen pk"
  "pk_old_inits (fold hls_push_cue cs pk) = pk_old_inits pk"
  by (induction cs arbitrary: pk) simp_all

subsection \<open>Segments only grow\<close>

text \<open>A segment keeps its identity, gains parts at the end until it is complete, and then never changes.\<close>

definition segment_grows :: "hls_segment \<Rightarrow> hls_segment \<Rightarrow> bool" where
  "segment_grows s s' \<longleftrightarrow>
     (hs_msn s', hs_pdt s', hs_start_us s', hs_discontinuity s', hs_init_gen s') =
       (hs_msn s, hs_pdt s, hs_start_us s, hs_discontinuity s, hs_init_gen s) \<and>
     prefix (hs_parts s) (hs_parts s') \<and> (hs_full s \<noteq> None \<longrightarrow> s' = s)"

definition store_grows :: "packager \<Rightarrow> packager \<Rightarrow> bool" where
  "store_grows pk pk' \<longleftrightarrow>
     pk_next_msn pk \<le> pk_next_msn pk' \<and> (pk_ended pk \<longrightarrow> pk_ended pk') \<and>
     (\<forall>s'\<in>set (pk_segments pk'). hs_msn s' < pk_next_msn pk \<longrightarrow> (\<exists>s\<in>set (pk_segments pk). segment_grows s s'))"

lemma segment_grows_refl [simp]: "segment_grows s s"
  by (simp add: segment_grows_def)

lemma segment_grows_trans: "segment_grows s t \<Longrightarrow> segment_grows t u \<Longrightarrow> segment_grows s u"
  unfolding segment_grows_def by (metis Pair_inject prefix_order.trans)

lemma store_grows_refl [simp]: "store_grows pk pk"
  by (auto simp: store_grows_def intro: segment_grows_refl)

lemma store_grows_trans [trans]:
  assumes "store_grows p q" "store_grows q r"
  shows "store_grows p r"
proof -
  have "\<exists>s\<in>set (pk_segments p). segment_grows s u" if u: "u \<in> set (pk_segments r)" "hs_msn u < pk_next_msn p" for u
  proof -
    obtain t where t: "t \<in> set (pk_segments q)" "segment_grows t u"
      using assms u by (fastforce simp: store_grows_def)
    then have "hs_msn t < pk_next_msn p" using u by (simp add: segment_grows_def)
    then obtain s where "s \<in> set (pk_segments p)" "segment_grows s t"
      using assms t by (auto simp: store_grows_def)
    then show ?thesis using t segment_grows_trans by blast
  qed
  then show ?thesis using assms by (auto simp: store_grows_def)
qed

lemma store_grows_cong:
  assumes "pk_segments p' = pk_segments p" "pk_next_msn p' = pk_next_msn p" "pk_ended p' = pk_ended p"
    "pk_segments q' = pk_segments q" "pk_next_msn q' = pk_next_msn q" "pk_ended q' = pk_ended q"
  shows "store_grows p' q' \<longleftrightarrow> store_grows p q"
  unfolding store_grows_def assms by (rule refl)

lemma store_grows_same:
  assumes "pk_segments q = pk_segments p" "pk_next_msn q = pk_next_msn p" "pk_ended p \<Longrightarrow> pk_ended q"
  shows "store_grows p q"
  using assms by (auto simp: store_grows_def intro: segment_grows_refl)

lemma store_grows_updates [simp]:
  "store_grows p (q\<lparr>pk_resume_from := r\<rparr>) = store_grows p q" "store_grows p (q\<lparr>pk_waiting_key := w\<rparr>) = store_grows p q"
  "store_grows p (q\<lparr>pk_queue := qu\<rparr>) = store_grows p q" "store_grows p (q\<lparr>pk_suspended := w\<rparr>) = store_grows p q"
  "store_grows p (q\<lparr>pk_secondary := l\<rparr>) = store_grows p q" "store_grows p (q\<lparr>pk_primary := l\<rparr>) = store_grows p q"
  "store_grows p (q\<lparr>pk_discontinuity_next := w\<rparr>) = store_grows p q" "store_grows p (q\<lparr>pk_floor := fl\<rparr>) = store_grows p q"
  "store_grows p (q\<lparr>pk_early_cues := cs\<rparr>) = store_grows p q" "store_grows p (q\<lparr>pk_dateranges := ds\<rparr>) = store_grows p q"
  "store_grows p (q\<lparr>pk_breaks := bs\<rparr>) = store_grows p q" "store_grows p (q\<lparr>pk_open_out := out\<rparr>) = store_grows p q"
  "store_grows p (q\<lparr>pk_part := xs\<rparr>) = store_grows p q" "store_grows (p\<lparr>pk_primary := l\<rparr>) q = store_grows p q"
  by (rule store_grows_cong; simp)+

subsection \<open>Cutting\<close>

lemma close_part_empty: "pk_part pk = [] \<Longrightarrow> close_part enc pk = pk"
  by (simp add: close_part_def)

lemma close_part_frame [simp]:
  "pk_next_msn (close_part enc pk) = pk_next_msn pk" "pk_target (close_part enc pk) = pk_target pk"
  "pk_primary (close_part enc pk) = pk_primary pk" "pk_seg_start (close_part enc pk) = pk_seg_start pk"
  "pk_cfg (close_part enc pk) = pk_cfg pk" "pk_ended (close_part enc pk) = pk_ended pk"
  "pk_init (close_part enc pk) = pk_init pk" "pk_init_gen (close_part enc pk) = pk_init_gen pk"
  "pk_old_inits (close_part enc pk) = pk_old_inits pk"
  by (simp_all add: close_part_def Let_def case_prod_unfold split: list.splits option.splits)

lemma close_part_part: "pk_primary pk = None \<longrightarrow> pk_part pk = [] \<Longrightarrow> pk_part (close_part enc pk) = []"
  by (auto simp: close_part_def Let_def case_prod_unfold split: list.splits option.splits)

lemma close_part_segments:
  assumes "pk_part pk = x # xs" "pk_primary pk = Some l" "pk_segments pk = rest @ [seg]" "hs_full seg = None"
  shows "\<exists>p. pt_independent p = sa_key x \<and> pk_segments (close_part enc pk) = rest @ [seg\<lparr>hs_parts := hs_parts seg @ [p]\<rparr>]"
  using assms by (simp add: close_part_def Let_def case_prod_unfold del: last.simps)
    (rule exI, rule conjI [rotated], rule refl, simp)

lemma close_part_ok:
  assumes ok: "packager_ok pk"
  shows "packager_ok (close_part enc pk)"
proof (cases "pk_part pk")
  case Nil
  then show ?thesis using ok by (simp add: close_part_empty)
next
  case (Cons x xs)
  obtain l seg where l: "pk_primary pk = Some l" and seg: "open_seg pk = Some seg"
    using ok Cons by (auto simp: packager_ok_def)
  obtain rest where rest: "pk_segments pk = rest @ [seg]" "hs_full seg = None"
    using seg by (rule open_last_cases)
  obtain p where p: "pt_independent p = sa_key x"
    and segs: "pk_segments (close_part enc pk) = rest @ [seg\<lparr>hs_parts := hs_parts seg @ [p]\<rparr>]"
    using close_part_segments [OF Cons l rest, of enc] by auto
  have key: "hs_parts seg = [] \<Longrightarrow> pt_independent p"
    using ok Cons seg p by (auto simp: packager_ok_def starts_on_key_def)
  have "window_ok (pk_target pk) (pk_next_msn pk) (pk_segments (close_part enc pk))"
    using ok rest key by (auto simp: packager_ok_def window_ok_def segs intro!: listed_ok_part)
  then show ?thesis
    using ok rest seg close_part_part [of pk enc] l
    by (auto simp: packager_ok_def segs starts_on_key_def part_bounded_def)
qed

lemma close_part_grows: "store_grows pk (close_part enc pk)"
proof (cases "pk_part pk = [] \<or> pk_primary pk = None \<or> open_seg pk = None")
  case True
  then have "pk_segments (close_part enc pk) = pk_segments pk"
    by (auto simp: close_part_def Let_def case_prod_unfold split: list.splits option.splits)
  then show ?thesis by (rule store_grows_same) simp_all
next
  case False
  then obtain x xs l seg where c: "pk_part pk = x # xs" "pk_primary pk = Some l" and seg: "open_seg pk = Some seg"
    by (auto simp: neq_Nil_conv)
  obtain rest where rest: "pk_segments pk = rest @ [seg]" "hs_full seg = None"
    using seg by (rule open_last_cases)
  obtain p where "pk_segments (close_part enc pk) = rest @ [seg\<lparr>hs_parts := hs_parts seg @ [p]\<rparr>]"
    using close_part_segments [OF c rest] by blast
  then show ?thesis
    using rest by (auto simp: store_grows_def segment_grows_def)
qed

lemma commit_grows: "store_grows pk (commit_primary enc p pk)"
  by (simp add: commit_primary_def Let_def close_part_grows)

lemma close_segment_frame [simp]:
  "pk_part (close_segment pk) = pk_part pk" "pk_primary (close_segment pk) = pk_primary pk"
  "pk_seg_start (close_segment pk) = None"
  "pk_cfg (close_segment pk) = pk_cfg pk" "pk_ended (close_segment pk) = pk_ended pk"
  "pk_init (close_segment pk) = pk_init pk" "pk_init_gen (close_segment pk) = pk_init_gen pk"
  by (simp_all add: close_segment_def Let_def case_prod_unfold split: list.splits option.splits)

lemma close_segment_segments:
  assumes "open_seg pk = Some seg" "hs_parts seg \<noteq> []" "pk_segments pk = rest @ [seg]"
  shows "pk_segments (close_segment pk) =
           fst (trim_window (rest @ [seg\<lparr>hs_full := Some (concat (map pt_data (hs_parts seg)))\<rparr>]) (pk_discontinuity_seq pk))"
    "pk_next_msn (close_segment pk) = pk_next_msn pk"
    "pk_target (close_segment pk) = max (pk_target pk) (f64_to_u64 (f64_round (segment_duration seg)))"
  using assms by (simp_all add: close_segment_def Let_def case_prod_unfold segment_duration_def)

lemma close_segment_ok:
  assumes ok: "packager_ok pk" and idle: "pk_part pk = []" "held_back pk = None"
  shows "packager_ok (close_segment pk) \<and> open_seg (close_segment pk) = None \<and> store_grows pk (close_segment pk)"
proof (cases "open_seg pk")
  case None
  then have "close_segment pk = pk"
    using ok by (cases pk) (auto simp: close_segment_def packager_ok_def)
  then show ?thesis using ok None by simp
next
  case (Some seg)
  obtain rest where rest: "pk_segments pk = rest @ [seg]" "hs_full seg = None"
    using Some by (rule open_last_cases)
  have parts: "hs_parts seg \<noteq> []"
    using ok idle Some by (simp add: packager_ok_def starts_on_key_def)
  note segs = close_segment_segments [OF Some parts rest(1)]
  obtain k where k: "pk_segments (close_segment pk) =
      drop k rest @ [seg\<lparr>hs_full := Some (concat (map pt_data (hs_parts seg)))\<rparr>]"
    using trim_window_last [of "seg\<lparr>hs_full := Some (concat (map pt_data (hs_parts seg)))\<rparr>" rest] by (auto simp: segs)
  have "window_ok (pk_target (close_segment pk)) (pk_next_msn (close_segment pk)) (pk_segments (close_segment pk))"
    unfolding segs using ok rest parts
    by (intro window_ok_trim listed_ok_close) (auto simp: packager_ok_def window_ok_def)
  moreover have "store_grows pk (close_segment pk)"
    using rest segs(2) by (auto simp: store_grows_def k segment_grows_def dest: in_set_dropD)
  ultimately show ?thesis
    using ok idle k by (simp add: packager_ok_def starts_on_key_def part_bounded_def)
qed

lemma commit_frame [simp]:
  "pk_next_msn (commit_primary enc p pk) = pk_next_msn pk" "pk_target (commit_primary enc p pk) = pk_target pk"
  "pk_primary (commit_primary enc p pk) = pk_primary pk" "pk_seg_start (commit_primary enc p pk) = pk_seg_start pk"
  "pk_cfg (commit_primary enc p pk) = pk_cfg pk" "pk_ended (commit_primary enc p pk) = pk_ended pk"
  "pk_init (commit_primary enc p pk) = pk_init pk" "pk_init_gen (commit_primary enc p pk) = pk_init_gen pk"
  "pk_old_inits (commit_primary enc p pk) = pk_old_inits pk"
  "pk_part (commit_primary enc p pk) \<noteq> []"
  by (simp_all add: commit_primary_def Let_def)

lemma commit_ok:
  assumes ok: "packager_ok pk" and l: "pk_primary pk = Some l" "ln_pending l = Some p"
    and l': "ln_pending l' = None" "ln_timescale l' = ln_timescale l" and q: "sa_key q = sa_key p"
  shows "packager_ok (commit_primary enc q (pk\<lparr>pk_primary := Some l'\<rparr>))"
proof -
  let ?pk = "pk\<lparr>pk_primary := Some l'\<rparr>"
  have taken: "packager_ok ?pk" if "pk_part pk \<noteq> []"
    using ok l l' that
    by (auto simp: packager_ok_def starts_on_key_def part_bounded_def part_span_def part_max_def split: list.splits option.splits)
  have closed: "packager_ok (close_part enc ?pk)" "pk_part (close_part enc ?pk) = []" if "pk_part pk \<noteq> []"
    using close_part_ok [OF taken [OF that]] close_part_part [of ?pk enc] by auto
  have grown: "packager_ok (pk'\<lparr>pk_part := pk_part pk' @ [q]\<rparr>)"
    if "packager_ok pk'" "open_seg pk' \<noteq> None" "pk_primary pk' = Some l'"
      "pk_part pk' \<noteq> [] \<longrightarrow> sample_end q - sa_dts (hd (pk_part pk')) \<le> part_max pk'"
      "(\<exists>s. open_seg pk' = Some s \<and> hs_parts s \<noteq> []) \<or> pk_part pk' \<noteq> []" for pk'
    using that l'
    by (auto simp: packager_ok_def starts_on_key_def part_bounded_def part_span_def part_max_def hd_append
        split: list.splits option.splits)
  show ?thesis
  proof (cases "pk_part pk = []")
    case True
    then show ?thesis
      using ok l l' q
      by (auto simp: commit_primary_def packager_ok_def starts_on_key_def part_bounded_def Let_def split: option.splits)
  next
    case False
    show ?thesis
    proof (cases "sample_end q - sa_dts (hd (pk_part ?pk)) > part_max ?pk")
      case True
      have "open_seg (close_part enc ?pk) \<noteq> None"
        using closed(1) [OF False] taken [OF False] False by (auto simp: packager_ok_def)
      then show ?thesis
        using grown [of "close_part enc ?pk"] closed [OF False] True False l'
        by (auto simp: commit_primary_def Let_def packager_ok_def starts_on_key_def part_bounded_def)
    next
      case False': False
      then show ?thesis
        using grown [OF taken [OF False]] taken [OF False] False
        by (auto simp: commit_primary_def Let_def packager_ok_def)
    qed
  qed
qed

text \<open>What \<open>packager_ok\<close> reads.\<close>

lemma packager_ok_cong:
  assumes "pk_segments pk' = pk_segments pk" "pk_next_msn pk' = pk_next_msn pk" "pk_target pk' = pk_target pk"
    "pk_part pk' = pk_part pk" "pk_primary pk' = pk_primary pk" "pk_seg_start pk' = pk_seg_start pk"
    "pk_cfg pk' = pk_cfg pk"
  shows "packager_ok pk' \<longleftrightarrow> packager_ok pk"
  unfolding packager_ok_def starts_on_key_def part_bounded_def part_span_def part_max_def assms by (rule refl)

lemma packager_ok_updates [simp]:
  "packager_ok (pk\<lparr>pk_resume_from := r\<rparr>) = packager_ok pk" "packager_ok (pk\<lparr>pk_waiting_key := w\<rparr>) = packager_ok pk"
  "packager_ok (pk\<lparr>pk_queue := q\<rparr>) = packager_ok pk" "packager_ok (pk\<lparr>pk_suspended := w\<rparr>) = packager_ok pk"
  "packager_ok (pk\<lparr>pk_ended := w\<rparr>) = packager_ok pk" "packager_ok (pk\<lparr>pk_secondary := l\<rparr>) = packager_ok pk"
  "packager_ok (pk\<lparr>pk_discontinuity_next := w\<rparr>) = packager_ok pk" "packager_ok (pk\<lparr>pk_floor := fl\<rparr>) = packager_ok pk"
  "packager_ok (pk\<lparr>pk_early_cues := cs\<rparr>) = packager_ok pk" "packager_ok (pk\<lparr>pk_dateranges := ds\<rparr>) = packager_ok pk"
  "packager_ok (pk\<lparr>pk_breaks := bs\<rparr>) = packager_ok pk" "packager_ok (pk\<lparr>pk_open_out := out\<rparr>) = packager_ok pk"
  by (rule packager_ok_cong; simp)+

text \<open>Nothing is open: no segment, no part, no frame held back.\<close>

definition packager_idle :: "packager \<Rightarrow> bool" where
  "packager_idle pk \<longleftrightarrow> open_seg pk = None \<and> pk_part pk = [] \<and> held_back pk = None"

lemma flush_primary_ok:
  assumes ok: "packager_ok pk"
  shows "packager_ok (flush_primary enc pk) \<and> held_back (flush_primary enc pk) = None \<and> store_grows pk (flush_primary enc pk)"
proof (cases "held_back pk")
  case None
  then show ?thesis using ok by (auto simp: flush_primary_def split: option.splits)
next
  case (Some p)
  then obtain l where l: "pk_primary pk = Some l" "ln_pending l = Some p"
    by (auto simp: bind_eq_Some_conv)
  have "packager_ok (commit_primary enc (p\<lparr>sa_dur := fallback_dur l (sa_data p)\<rparr>)
      (pk\<lparr>pk_primary := Some (l\<lparr>ln_pending := None\<rparr>)\<rparr>))"
    by (rule commit_ok [OF ok l]) simp_all
  moreover have "store_grows pk (commit_primary enc (p\<lparr>sa_dur := fallback_dur l (sa_data p)\<rparr>)
      (pk\<lparr>pk_primary := Some (l\<lparr>ln_pending := None\<rparr>)\<rparr>))"
    using commit_grows [of "pk\<lparr>pk_primary := Some (l\<lparr>ln_pending := None\<rparr>)\<rparr>"] by simp
  ultimately show ?thesis
    using l by (simp add: flush_primary_def Let_def)
qed

lemma flush_primary_frame [simp]:
  "pk_next_msn (flush_primary enc pk) = pk_next_msn pk" "pk_ended (flush_primary enc pk) = pk_ended pk"
  "pk_cfg (flush_primary enc pk) = pk_cfg pk" "pk_init (flush_primary enc pk) = pk_init pk"
  "pk_init_gen (flush_primary enc pk) = pk_init_gen pk" "pk_old_inits (flush_primary enc pk) = pk_old_inits pk"
  "pk_target (flush_primary enc pk) = pk_target pk"
  by (simp_all add: flush_primary_def Let_def split: option.splits)

lemma flush_secondary_frame [simp]:
  "pk_segments (flush_secondary pk) = pk_segments pk" "pk_next_msn (flush_secondary pk) = pk_next_msn pk"
  "pk_target (flush_secondary pk) = pk_target pk" "pk_part (flush_secondary pk) = pk_part pk"
  "pk_primary (flush_secondary pk) = pk_primary pk" "pk_seg_start (flush_secondary pk) = pk_seg_start pk"
  "pk_cfg (flush_secondary pk) = pk_cfg pk" "pk_ended (flush_secondary pk) = pk_ended pk"
  "pk_init (flush_secondary pk) = pk_init pk" "pk_init_gen (flush_secondary pk) = pk_init_gen pk"
  "pk_old_inits (flush_secondary pk) = pk_old_inits pk"
  by (simp_all add: flush_secondary_def split: option.splits)

lemma flush_ok:
  assumes ok: "packager_ok pk"
  shows "packager_ok (flush enc pk) \<and> packager_idle (flush enc pk) \<and> store_grows pk (flush enc pk)"
proof -
  let ?p = "flush_secondary (flush_primary enc pk)"
  have "store_grows (flush_primary enc pk) ?p"
    by (rule store_grows_same) simp_all
  then have grows: "store_grows pk (close_part enc ?p)"
    using flush_primary_ok [OF ok, of enc] close_part_grows store_grows_trans by blast
  have "packager_ok ?p \<and> held_back ?p = None"
    using flush_primary_ok [OF ok, of enc] packager_ok_cong [of ?p "flush_primary enc pk"] by simp
  then have c: "packager_ok (close_part enc ?p)" "held_back (close_part enc ?p) = None" "pk_part (close_part enc ?p) = []"
    using close_part_ok [of ?p enc] close_part_part [of ?p enc] by (auto simp: packager_ok_def)
  show ?thesis
    using close_segment_ok [OF c(1) c(3) c(2)] c grows store_grows_trans by (simp add: flush_def packager_idle_def)
qed

lemma packager_ok_idle:
  "packager_idle pk \<Longrightarrow> packager_ok pk \<longleftrightarrow> window_ok (pk_target pk) (pk_next_msn pk) (pk_segments pk) \<and> pk_seg_start pk = None"
  by (auto simp: packager_idle_def packager_ok_def starts_on_key_def part_bounded_def)


lemma cut_after_ok:
  assumes ok: "packager_ok pk" and l: "pk_primary pk = Some l" "ln_pending l = Some p"
  shows "packager_ok (cut_after enc l p d new pk) \<and> held_back (cut_after enc l p d new pk) = None \<and>
    store_grows pk (cut_after enc l p d new pk)"
proof -
  define c where "c = commit_primary enc (p\<lparr>sa_dur := nat (d mod 2 ^ 32)\<rparr>)
    (pk\<lparr>pk_primary := Some (l\<lparr>ln_pending := None, ln_last_dur := nat (d mod 2 ^ 32)\<rparr>)\<rparr>)"
  have c: "packager_ok c"
    unfolding c_def by (rule commit_ok [OF ok l]) simp_all
  have held: "held_back c = None" and prim: "pk_primary c \<noteq> None"
    by (simp_all add: c_def)
  have cp: "packager_ok (close_part enc c)" "pk_part (close_part enc c) = []" "held_back (close_part enc c) = None"
    using close_part_ok [OF c] close_part_part [of c enc] prim held by auto
  have cs: "packager_ok (close_segment (close_part enc c))" "held_back (close_segment (close_part enc c)) = None"
    using close_segment_ok [OF cp] cp by simp_all
  have g: "store_grows pk c"
    using commit_grows [of "pk\<lparr>pk_primary := Some (l\<lparr>ln_pending := None, ln_last_dur := nat (d mod 2 ^ 32)\<rparr>)\<rparr>"]
    by (simp add: c_def)
  note g' = store_grows_trans [OF g close_part_grows [of c enc]]
  note g'' = store_grows_trans [OF g' conjunct2 [OF conjunct2 [OF close_segment_ok [OF cp]]]]
  show ?thesis
    unfolding cut_after_def Let_def c_def [symmetric]
    using c cp cs held g g' g'' by auto
qed

lemma open_segment_frame [simp]:
  "pk_primary (open_segment dts now pk) = pk_primary pk" "pk_target (open_segment dts now pk) = pk_target pk"
  "pk_part (open_segment dts now pk) = pk_part pk" "pk_cfg (open_segment dts now pk) = pk_cfg pk"
  "pk_ended (open_segment dts now pk) = pk_ended pk" "pk_init (open_segment dts now pk) = pk_init pk"
  "pk_init_gen (open_segment dts now pk) = pk_init_gen pk" "pk_old_inits (open_segment dts now pk) = pk_old_inits pk"
  by (simp_all add: open_segment_def Let_def split: option.splits)

lemma open_segment_segments:
  assumes "pk_primary pk = Some l"
  shows "\<exists>s. hs_msn s = pk_next_msn pk \<and> hs_parts s = [] \<and> hs_full s = None \<and> hs_init_gen s = pk_init_gen pk \<and>
           pk_segments (open_segment dts now pk) = pk_segments pk @ [s]"
    "pk_next_msn (open_segment dts now pk) = pk_next_msn pk + 1" "pk_seg_start (open_segment dts now pk) = Some dts"
  using assms by (auto simp: open_segment_def Let_def)

lemma open_segment_grows: "packager_ok pk \<Longrightarrow> store_grows pk (open_segment dts now pk)"
proof (cases "pk_primary pk")
  case (Some l)
  show ?thesis
    using open_segment_segments [OF Some, of dts now] by (auto simp: store_grows_def) (metis segment_grows_refl)
qed (simp add: open_segment_def)

lemma open_segment_ok:
  assumes ok: "packager_ok pk" and l: "pk_primary pk = Some l" and idle: "pk_seg_start pk = None" and key: "sa_key new"
  shows "packager_ok ((open_segment dts now pk)\<lparr>pk_primary := Some (l\<lparr>ln_pending := Some new\<rparr>)\<rparr>)"
proof -
  obtain s where s: "hs_msn s = pk_next_msn pk" "hs_parts s = []" "hs_full s = None"
    "pk_segments (open_segment dts now pk) = pk_segments pk @ [s]"
    using open_segment_segments(1) [OF l] by blast
  have "open_seg pk = None" "pk_part pk = []"
    using ok idle by (auto simp: packager_ok_def)
  moreover have "window_ok (pk_target pk) (pk_next_msn pk + 1) (pk_segments pk @ [s])"
    using ok s calculation by (auto simp: packager_ok_def window_ok_def simp del: Suc_eq_plus1 intro!: listed_ok_new [simplified])
  ultimately show ?thesis
    using ok s key open_segment_segments(2,3) [OF l]
    by (simp add: packager_ok_def starts_on_key_def part_bounded_def)
qed

lemma hold_back_ok:
  assumes "packager_ok pk" "pk_primary pk = Some l" "pk_seg_start pk \<noteq> None" "ln_pending l = None"
  shows "packager_ok (pk\<lparr>pk_primary := Some (l\<lparr>ln_pending := Some new\<rparr>)\<rparr>)"
  using assms
  by (auto simp: packager_ok_def starts_on_key_def part_bounded_def part_span_def part_max_def split: option.splits list.splits)

lemma push_primary_ok:
  assumes ok: "packager_ok pk"
  shows "packager_ok (push_primary enc f now pk) \<and> store_grows pk (push_primary enc f now pk)"
proof (cases "pk_primary pk")
  case None
  then show ?thesis using ok by (simp add: push_primary_def)
next
  case (Some l)
  let ?new = "lane_sample l f (pk_primary_is_audio pk)"
  define pk1 where "pk1 = (case ln_pending l of None \<Rightarrow> pk
    | Some p \<Rightarrow> let d = sa_dts ?new - sa_dts p in
        if d \<le> 0 \<or> d > jump_secs * int (ln_timescale l)
        then (let pk = flush enc pk in pk\<lparr>pk_discontinuity_next := (pk_segments pk \<noteq> []), pk_waiting_key := True\<rparr>)
        else cut_after enc l p d ?new pk)"
  have pk1: "packager_ok pk1" "held_back pk1 = None" and g: "store_grows pk pk1"
    using ok Some flush_ok [OF ok, of enc] cut_after_ok [OF ok Some, of _ enc]
    by (auto simp: pk1_def Let_def packager_idle_def split: option.splits)
  show ?thesis
  proof (cases "pk_primary pk1")
    case None
    have same: "pk1\<lparr>pk_primary := None\<rparr> = pk1" using None by (cases pk1) simp
    show ?thesis
      using pk1 Some None g
      by (simp add: push_primary_def pk1_def [symmetric] Let_def open_segment_def same)
  next
    case (Some l1)
    then have l1: "pk_primary pk1 = Some l1" "ln_pending l1 = None" using pk1 by auto
    show ?thesis
      using pk1 \<open>pk_primary pk = Some l\<close> l1 g store_grows_trans [OF g open_segment_grows [OF pk1(1)]] open_segment_ok [OF pk1(1) l1(1)] hold_back_ok [OF pk1(1) l1(1) _ l1(2)]
      by (simp add: push_primary_def pk1_def [symmetric] Let_def)
  qed
qed

lemma push_secondary_ok:
  "packager_ok pk \<Longrightarrow> packager_ok (push_secondary f pk) \<and> store_grows pk (push_secondary f pk)"
  by (simp add: push_secondary_def Let_def case_prod_unfold split: option.splits)

lemma hls_push_ok: "packager_ok pk \<Longrightarrow> packager_ok (hls_push enc f now pk) \<and> store_grows pk (hls_push enc f now pk)"
  by (simp add: hls_push_def push_primary_ok push_secondary_ok)

lemma hls_push_cue_ok: "packager_ok pk \<Longrightarrow> packager_ok (hls_push_cue c pk) \<and> store_grows pk (hls_push_cue c pk)"
  using packager_ok_cong [of "hls_push_cue c pk" pk] by (auto intro: store_grows_same)

lemma set_tracks_ok:
  assumes ok: "packager_ok pk"
  shows "packager_ok (snd (hls_set_tracks mc enc tracks pk)) \<and> store_grows pk (snd (hls_set_tracks mc enc tracks pk))"
proof -
  note fl = flush_ok [OF ok, of enc]
  have ret: "pk_segments (retire_init i pk) = pk_segments pk" "pk_next_msn (retire_init i pk) = pk_next_msn pk"
    "pk_target (retire_init i pk) = pk_target pk" "pk_part (retire_init i pk) = pk_part pk"
    "pk_seg_start (retire_init i pk) = pk_seg_start pk" "pk_ended (retire_init i pk) = pk_ended pk" for i pk
    by (simp_all add: retire_init_def)
  have held: "Option.bind (map_option (\<lambda>t. lane_new (mt_track_id t) (mt_info t)) x) ln_pending = None" for x
    by (cases x) (simp_all add: lane_new_def Let_def)
  show ?thesis
  proof (cases "same_tracks (fst (choose_tracks mc tracks)) (snd (choose_tracks mc tracks)) pk")
    case True
    then show ?thesis using ok by (simp add: hls_set_tracks_def case_prod_unfold Let_def)
  next
    case False
    let ?q = "snd (hls_set_tracks mc enc tracks pk)"
    have q: "pk_segments ?q = pk_segments (flush enc pk)" "pk_next_msn ?q = pk_next_msn (flush enc pk)"
      "pk_target ?q = pk_target (flush enc pk)" "pk_part ?q = pk_part (flush enc pk)"
      "pk_seg_start ?q = pk_seg_start (flush enc pk)" "pk_ended ?q = pk_ended (flush enc pk)" "held_back ?q = None"
      using False by (simp_all add: hls_set_tracks_def case_prod_unfold Let_def ret held)
    have "store_grows (flush enc pk) ?q"
      using q by (intro store_grows_same) simp_all
    then have "store_grows pk ?q" using fl store_grows_trans by blast
    moreover have "packager_ok ?q"
      using fl q packager_ok_idle [of ?q] packager_ok_idle [of "flush enc pk"] by (simp add: packager_idle_def)
    ultimately show ?thesis by simp
  qed
qed

subsection \<open>Every operation\<close>

datatype hls_event =
    HlsTracks "track_info list"
  | HlsFrame frame int
  | HlsCue cue
  | HlsLagged
  | HlsEnd
  | HlsSuspend
  | HlsResume

primrec hls_step :: "'c mp4_codec \<Rightarrow> (moof \<Rightarrow> bytes) \<Rightarrow> hls_event \<Rightarrow> packager \<Rightarrow> packager" where
  "hls_step mc enc (HlsTracks ts) pk = snd (hls_set_tracks mc enc ts pk)"
| "hls_step mc enc (HlsFrame f now) pk = hls_push enc f now pk"
| "hls_step mc enc (HlsCue c) pk = hls_push_cue c pk"
| "hls_step mc enc HlsLagged pk = lagged enc pk"
| "hls_step mc enc HlsEnd pk = hls_end enc pk"
| "hls_step mc enc HlsSuspend pk = suspend enc pk"
| "hls_step mc enc HlsResume pk = resume enc pk"

definition hls_run :: "'c mp4_codec \<Rightarrow> (moof \<Rightarrow> bytes) \<Rightarrow> hls_event list \<Rightarrow> packager \<Rightarrow> packager" where
  "hls_run mc enc es pk = fold (hls_step mc enc) es pk"

lemma store_grows_ended: "store_grows p q \<Longrightarrow> store_grows p (q\<lparr>pk_ended := True\<rparr>)"
  by (simp add: store_grows_def)

lemma hls_step_ok: "packager_ok pk \<Longrightarrow> packager_ok (hls_step mc enc e pk) \<and> store_grows pk (hls_step mc enc e pk)"
  by (cases e)
    (simp_all add: set_tracks_ok hls_push_ok hls_push_cue_ok lagged_def hls_end_def suspend_def resume_def flush_ok
      store_grows_ended Let_def)

lemma packager_new_ok: "packager_ok (packager_new cfg)"
  by (simp add: packager_new_def packager_ok_def window_ok_def open_last_def starts_on_key_def part_bounded_def)

end
