(* ===== verification/Hls_Correct.thy ===== *)
theory Hls_Correct
  imports Hls_Cutting
begin

text \<open>
  What players can rely on. A locale states what a windowed store of numbered entries promises (an entry appears,
  never changes, and is gone for good once it has left), and the packager is one; the init segments of
  everything listed are kept; every line of a playlist names something that is served.
\<close>

subsection \<open>A store whose entries appear, stay and go\<close>

locale windowed_store =
  fixes ok :: "'s \<Rightarrow> bool" and grows :: "'s \<Rightarrow> 's \<Rightarrow> bool" and step :: "'e \<Rightarrow> 's \<Rightarrow> 's"
    and get :: "'k \<Rightarrow> 's \<Rightarrow> 'v option" and produced :: "'k \<Rightarrow> 's \<Rightarrow> bool"
  assumes grows_refl: "grows s s"
    and grows_trans: "grows s t \<Longrightarrow> grows t u \<Longrightarrow> grows s u"
    and step_ok: "ok s \<Longrightarrow> ok (step e s) \<and> grows s (step e s)"
    and get_grows: "ok s \<Longrightarrow> ok t \<Longrightarrow> grows s t \<Longrightarrow> get k s = Some v \<Longrightarrow> get k t = Some v \<or> get k t = None"
    and get_produced: "ok s \<Longrightarrow> get k s = Some v \<Longrightarrow> produced k s"
    and produced_grows: "ok s \<Longrightarrow> ok t \<Longrightarrow> grows s t \<Longrightarrow> produced k s \<Longrightarrow> produced k t"
    and gone_grows: "ok s \<Longrightarrow> ok t \<Longrightarrow> grows s t \<Longrightarrow> produced k s \<Longrightarrow> get k s = None \<Longrightarrow> get k t = None"
begin

lemma run_ok: "ok s \<Longrightarrow> ok (fold step es s) \<and> grows s (fold step es s)"
proof (induction es arbitrary: s)
  case (Cons e es)
  then show ?case
    using step_ok [OF Cons.prems, of e] grows_trans by auto
qed (simp add: grows_refl)

text \<open>An entry is what it was when it appeared, until it is gone.\<close>

lemma get_stable:
  assumes "ok s" "get k s = Some v"
  shows "get k (fold step es s) = Some v \<or> get k (fold step es s) = None"
  by (rule get_grows [OF assms(1) _ _ assms(2)]) (simp_all add: run_ok [OF assms(1)])

lemma gone_stays:
  assumes ok: "ok s" and "get k s = Some v" "get k (fold step es s) = None"
  shows "get k (fold step (es @ es') s) = None"
proof -
  let ?t = "fold step es s"
  have "produced k ?t"
    using assms run_ok [OF ok, of es] get_produced produced_grows by blast
  then show ?thesis
    using assms(3) run_ok [OF ok, of es] run_ok [of ?t es'] gone_grows [of ?t "fold step es' ?t"] by simp
qed

end

lemma segment_at_iff:
  assumes "listed_ok t (pk_next_msn pk) (pk_segments pk)"
  shows "hls_segment_at m pk = Some s \<longleftrightarrow> s \<in> set (pk_segments pk) \<and> hs_msn s = m"
proof -
  let ?segs = "pk_segments pk" and ?n = "pk_next_msn pk"
  have len: "length ?segs \<le> ?n" and map: "map hs_msn ?segs = [?n - length ?segs..<?n]"
    using assms by (auto simp: listed_ok_def)
  have nth: "hs_msn (?segs ! i) = ?n - length ?segs + i" if "i < length ?segs" for i
    using arg_cong [OF map, of "\<lambda>xs. xs ! i"] that len by simp
  show ?thesis
  proof (cases ?segs)
    case Nil
    then show ?thesis by (simp add: hls_segment_at_def)
  next
    case (Cons a rest)
    then have first: "hs_msn a = ?n - length ?segs" using nth [of 0] by simp
    have at: "hls_segment_at m pk = Some s \<longleftrightarrow> (\<exists>i < length ?segs. m = hs_msn a + i \<and> s = ?segs ! i)"
      unfolding hls_segment_at_def Cons list.case by (auto intro: exI [of _ "m - hs_msn a"])
    show ?thesis
      unfolding at in_set_conv_nth using nth first by auto
  qed
qed

definition hls_get :: "nat \<times> nat option \<Rightarrow> packager \<Rightarrow> bytes option" where
  "hls_get k pk = Option.bind (hls_segment_at (fst k) pk) (\<lambda>s. segment_bytes s (snd k))"

definition hls_produced :: "nat \<times> nat option \<Rightarrow> packager \<Rightarrow> bool" where
  "hls_produced k pk \<longleftrightarrow>
     fst k < pk_next_msn pk \<and>
     (case hls_segment_at (fst k) pk of None \<Rightarrow> True | Some s \<Rightarrow> hs_full s \<noteq> None \<or> segment_bytes s (snd k) \<noteq> None)"

lemma lookup_get: "hls_lookup msn part pk = LookupFound b \<longleftrightarrow> hls_get (msn, part) pk = Some b"
  by (simp add: hls_lookup_def hls_get_def split: option.splits)

lemma segment_at_ok:
  "packager_ok pk \<Longrightarrow> hls_segment_at m pk = Some s \<longleftrightarrow> s \<in> set (pk_segments pk) \<and> hs_msn s = m"
  by (rule segment_at_iff [of "pk_target pk"]) (simp add: packager_ok_def window_ok_def)

lemma msn_bound: "packager_ok pk \<Longrightarrow> s \<in> set (pk_segments pk) \<Longrightarrow> hs_msn s < pk_next_msn pk"
proof -
  assume "packager_ok pk" "s \<in> set (pk_segments pk)"
  then have "hs_msn s \<in> set [pk_next_msn pk - length (pk_segments pk)..<pk_next_msn pk]"
    by (metis (no_types, lifting) image_eqI list.set_map listed_ok_def packager_ok_def window_ok_def)
  then show ?thesis by simp
qed

text \<open>What is found at a number in a later state was there before, if the number had been given out.\<close>

lemma segment_at_grows:
  assumes "packager_ok p" "packager_ok q" "store_grows p q" "hls_segment_at m q = Some s'" "m < pk_next_msn p"
  shows "\<exists>s. hls_segment_at m p = Some s \<and> segment_grows s s'"
proof -
  have "s' \<in> set (pk_segments q)" "hs_msn s' = m"
    using assms segment_at_ok by auto
  then obtain s where "s \<in> set (pk_segments p)" "segment_grows s s'"
    using assms by (auto simp: store_grows_def)
  then show ?thesis
    using segment_at_ok [OF assms(1)] \<open>hs_msn s' = m\<close> by (auto simp: segment_grows_def)
qed

lemma segment_bytes_grows:
  "segment_grows s s' \<Longrightarrow> segment_bytes s part = Some b \<Longrightarrow> segment_bytes s' part = Some b"
  by (cases part) (auto simp: segment_bytes_def segment_grows_def prefix_def nth_append split: if_splits)

lemma get_produced_hls: "packager_ok p \<Longrightarrow> hls_get k p = Some b \<Longrightarrow> hls_produced k p"
proof -
  assume ok: "packager_ok p" and "hls_get k p = Some b"
  then obtain s where s: "hls_segment_at (fst k) p = Some s" "segment_bytes s (snd k) = Some b"
    by (auto simp: hls_get_def bind_eq_Some_conv)
  then have "s \<in> set (pk_segments p)" "hs_msn s = fst k"
    using segment_at_ok [OF ok] by simp_all
  then show "hls_produced k p"
    using s msn_bound [OF ok, of s] by (simp add: hls_produced_def)
qed

interpretation hls: windowed_store packager_ok store_grows "hls_step mc enc" hls_get hls_produced for mc enc
proof unfold_locales
  fix p q k b
  assume a: "packager_ok p" "packager_ok q" "store_grows p q"
  note at = segment_at_grows [OF a]
  have n: "pk_next_msn p \<le> pk_next_msn q" using a by (simp add: store_grows_def)
  show "hls_get k q = Some b \<or> hls_get k q = None" if g: "hls_get k p = Some b"
  proof (cases "hls_segment_at (fst k) q")
    case (Some s')
    obtain s where "hls_segment_at (fst k) p = Some s" "segment_grows s s'"
      using at [OF Some] get_produced_hls [OF a(1) g] by (auto simp: hls_produced_def)
    then show ?thesis
      using g Some segment_bytes_grows by (simp add: hls_get_def)
  qed (simp add: hls_get_def)
  show "hls_produced k q" if pr: "hls_produced k p"
  proof (cases "hls_segment_at (fst k) q")
    case (Some s')
    obtain s where s: "hls_segment_at (fst k) p = Some s" "segment_grows s s'"
      using at [OF Some] pr by (auto simp: hls_produced_def)
    then have "hs_full s' \<noteq> None \<or> segment_bytes s' (snd k) \<noteq> None"
      using pr segment_bytes_grows [OF s(2)] by (auto simp: hls_produced_def segment_grows_def)
    then show ?thesis
      using pr Some n by (simp add: hls_produced_def)
  qed (use pr n in \<open>simp add: hls_produced_def\<close>)
  show "hls_get k q = None" if pr: "hls_produced k p" and none: "hls_get k p = None"
  proof (cases "hls_segment_at (fst k) q")
    case (Some s')
    obtain s where "hls_segment_at (fst k) p = Some s" "segment_grows s s'"
      using at [OF Some] pr by (auto simp: hls_produced_def)
    then show ?thesis
      using pr none Some by (auto simp: hls_get_def hls_produced_def segment_grows_def)
  qed (simp add: hls_get_def)
qed (auto simp: hls_step_ok get_produced_hls intro: store_grows_trans)


subsection \<open>Init segments\<close>

definition inits_ok :: "packager \<Rightarrow> bool" where
  "inits_ok pk \<longleftrightarrow>
     sorted (map hs_init_gen (pk_segments pk)) \<and>
     (\<forall>g\<in>set (map hs_init_gen (pk_segments pk)). g \<le> pk_init_gen pk \<and> init_for g pk \<noteq> None) \<and>
     (pk_primary pk \<noteq> None \<longrightarrow> pk_init pk \<noteq> None)"

lemma inits_ok_cong:
  assumes "map hs_init_gen (pk_segments q) = map hs_init_gen (pk_segments p)" "pk_init_gen q = pk_init_gen p"
    "pk_init q = pk_init p" "pk_old_inits q = pk_old_inits p" "pk_primary q = None \<longleftrightarrow> pk_primary p = None"
  shows "inits_ok q \<longleftrightarrow> inits_ok p"
  unfolding inits_ok_def init_for_def assms by (rule refl)

lemma close_part_gens: "map hs_init_gen (pk_segments (close_part enc pk)) = map hs_init_gen (pk_segments pk)"
proof (cases "open_seg pk")
  case (Some seg)
  obtain rest where "pk_segments pk = rest @ [seg]" "hs_full seg = None"
    using Some by (rule open_last_cases)
  then show ?thesis
    by (auto simp: close_part_def Let_def case_prod_unfold split: list.splits option.splits)
qed (auto simp: close_part_def Let_def case_prod_unfold split: list.splits option.splits)

lemma close_part_inits: "inits_ok (close_part enc pk) = inits_ok pk"
  by (rule inits_ok_cong) (simp_all add: close_part_gens)

lemma commit_inits: "inits_ok (commit_primary enc p pk) = inits_ok pk"
  using inits_ok_cong [of "(close_part enc pk)\<lparr>pk_part := xs\<rparr>" "close_part enc pk" for xs]
    inits_ok_cong [of "pk\<lparr>pk_part := xs\<rparr>" pk for xs]
  by (simp add: commit_primary_def Let_def close_part_inits)

lemma flush_primary_inits: "inits_ok (flush_primary enc pk) = inits_ok pk"
proof (cases "held_back pk")
  case None
  then show ?thesis by (auto simp: flush_primary_def split: option.splits)
next
  case (Some p)
  then obtain l where l: "pk_primary pk = Some l" "ln_pending l = Some p"
    by (auto simp: bind_eq_Some_conv)
  let ?q = "pk\<lparr>pk_primary := Some (l\<lparr>ln_pending := None\<rparr>)\<rparr>"
  have "inits_ok ?q = inits_ok pk"
    using l by (intro inits_ok_cong) simp_all
  moreover have "inits_ok (flush_primary enc pk) = inits_ok (commit_primary enc (p\<lparr>sa_dur := fallback_dur l (sa_data p)\<rparr>) ?q)"
    using l by (intro inits_ok_cong) (simp_all add: flush_primary_def Let_def)
  ultimately show ?thesis by (simp add: commit_inits)
qed

lemma find_append: "find P (xs @ ys) = (case find P xs of Some x \<Rightarrow> Some x | None \<Rightarrow> find P ys)"
  by (induction xs) auto

lemma find_filter_older:
  "g \<ge> (first :: nat) \<Longrightarrow> find (\<lambda>(g', _). g' = g) (filter (\<lambda>(g', _). g' \<ge> first) xs) = find (\<lambda>(g', _). g' = g) xs"
  by (induction xs) auto

lemma inits_ok_drop:
  assumes ok: "inits_ok p" and segs: "map hs_init_gen (pk_segments q) = drop k (map hs_init_gen (pk_segments p))"
    and q: "pk_init_gen q = pk_init_gen p" "pk_init q = pk_init p" "pk_primary q = None \<longleftrightarrow> pk_primary p = None"
    and old: "pk_old_inits q = filter (\<lambda>(g, _). g \<ge> first) (pk_old_inits p)"
    and first: "case pk_segments q of s # _ \<Rightarrow> first = hs_init_gen s | [] \<Rightarrow> True"
  shows "inits_ok q"
proof -
  let ?gens = "map hs_init_gen (pk_segments q)"
  have sorted: "sorted ?gens" using ok unfolding segs by (simp add: inits_ok_def sorted_wrt_drop)
  then have le: "first \<le> g" if "g \<in> set ?gens" for g
    using that first by (cases "pk_segments q") auto
  have "g \<le> pk_init_gen q \<and> init_for g q \<noteq> None" if g: "g \<in> set ?gens" for g
  proof -
    have "init_for g q = init_for g p"
      using le [OF g] by (simp add: init_for_def q old find_filter_older)
    moreover have "g \<in> set (map hs_init_gen (pk_segments p))"
      using g unfolding segs by (rule in_set_dropD)
    ultimately show ?thesis using ok unfolding inits_ok_def q by auto
  qed
  then show ?thesis
    using ok sorted unfolding inits_ok_def q by blast
qed

lemma close_segment_inits:
  assumes inits: "inits_ok pk" and ok: "packager_ok pk" "pk_part pk = []" "held_back pk = None"
  shows "inits_ok (close_segment pk)"
proof (cases "open_seg pk")
  case None
  have "inits_ok (close_segment pk) = inits_ok pk"
    using None by (intro inits_ok_cong) (simp_all add: close_segment_def)
  then show ?thesis using inits by simp
next
  case (Some seg)
  obtain rest where rest: "pk_segments pk = rest @ [seg]" "hs_full seg = None"
    using Some by (rule open_last_cases)
  have parts: "hs_parts seg \<noteq> []"
    using ok Some by (simp add: packager_ok_def starts_on_key_def)
  let ?full = "seg\<lparr>hs_full := Some (concat (map pt_data (hs_parts seg)))\<rparr>"
  obtain k where k: "k \<le> length rest" "pk_segments (close_segment pk) = drop k rest @ [?full]"
    using trim_window_last [of ?full rest] close_segment_segments(1) [OF Some parts rest(1)] by auto
  have "pk_old_inits (close_segment pk) =
      filter (\<lambda>(g, _). g \<ge> (case pk_segments (close_segment pk) of s # _ \<Rightarrow> hs_init_gen s | [] \<Rightarrow> pk_init_gen pk))
        (pk_old_inits pk)"
    using Some parts rest by (simp add: close_segment_def Let_def case_prod_unfold cong: list.case_cong)
  then show ?thesis
    by (rule inits_ok_drop [OF inits, rotated 4, where k = k]) (use k rest in \<open>auto simp: drop_map split: list.splits\<close>)
qed


lemma flush_inits:
  assumes inits: "inits_ok pk" and ok: "packager_ok pk"
  shows "inits_ok (flush enc pk)"
proof -
  let ?p = "flush_secondary (flush_primary enc pk)"
  have p: "packager_ok ?p" "held_back ?p = None"
    using flush_primary_ok [OF ok, of enc] packager_ok_cong [of ?p "flush_primary enc pk"] by simp_all
  have "inits_ok ?p = inits_ok (flush_primary enc pk)"
    by (rule inits_ok_cong) simp_all
  then have "inits_ok (close_part enc ?p)"
    using inits by (simp add: close_part_inits flush_primary_inits)
  then show ?thesis
    unfolding flush_def using p close_part_part [of ?p enc]
    by (intro close_segment_inits close_part_ok) (auto simp: packager_ok_def)
qed

lemma cut_after_inits:
  assumes inits: "inits_ok pk" and ok: "packager_ok pk" and l: "pk_primary pk = Some l" "ln_pending l = Some p"
  shows "inits_ok (cut_after enc l p d new pk)"
proof -
  define c where "c = commit_primary enc (p\<lparr>sa_dur := nat (d mod 2 ^ 32)\<rparr>)
    (pk\<lparr>pk_primary := Some (l\<lparr>ln_pending := None, ln_last_dur := nat (d mod 2 ^ 32)\<rparr>)\<rparr>)"
  have c: "packager_ok c"
    unfolding c_def by (rule commit_ok [OF ok l]) simp_all
  have held: "held_back c = None" and prim: "pk_primary c \<noteq> None"
    by (simp_all add: c_def)
  have "inits_ok c = inits_ok (pk\<lparr>pk_primary := Some (l\<lparr>ln_pending := None, ln_last_dur := nat (d mod 2 ^ 32)\<rparr>)\<rparr>)"
    by (simp add: c_def commit_inits)
  also have "\<dots> = inits_ok pk"
    using l by (intro inits_ok_cong) simp_all
  finally have c': "inits_ok c" using inits by simp
  have "inits_ok (close_segment (close_part enc c))"
    using c c' prim held close_part_part [of c enc]
    by (intro close_segment_inits close_part_ok) (auto simp: close_part_inits)
  then show ?thesis
    unfolding cut_after_def Let_def c_def [symmetric]
    using c' by (auto simp: close_part_inits)
qed

lemma open_segment_inits:
  assumes "inits_ok pk" "pk_primary pk \<noteq> None"
  shows "inits_ok (open_segment dts now pk)"
proof -
  obtain l where l: "pk_primary pk = Some l" using assms by auto
  obtain s where s: "hs_init_gen s = pk_init_gen pk" "pk_segments (open_segment dts now pk) = pk_segments pk @ [s]"
    using open_segment_segments(1) [OF l] by blast
  have "init_for g (open_segment dts now pk) = init_for g pk" for g
    by (simp add: init_for_def)
  then show ?thesis
    using assms s by (auto simp: inits_ok_def sorted_append init_for_def)
qed

lemma inits_ok_updates [simp]:
  "inits_ok (pk\<lparr>pk_resume_from := r\<rparr>) = inits_ok pk" "inits_ok (pk\<lparr>pk_waiting_key := w\<rparr>) = inits_ok pk"
  "inits_ok (pk\<lparr>pk_queue := q\<rparr>) = inits_ok pk" "inits_ok (pk\<lparr>pk_suspended := w\<rparr>) = inits_ok pk"
  "inits_ok (pk\<lparr>pk_ended := w\<rparr>) = inits_ok pk" "inits_ok (pk\<lparr>pk_secondary := l\<rparr>) = inits_ok pk"
  "inits_ok (pk\<lparr>pk_discontinuity_next := w\<rparr>) = inits_ok pk" "inits_ok (pk\<lparr>pk_floor := fl\<rparr>) = inits_ok pk"
  "inits_ok (pk\<lparr>pk_early_cues := cs\<rparr>) = inits_ok pk" "inits_ok (pk\<lparr>pk_dateranges := ds\<rparr>) = inits_ok pk"
  "inits_ok (pk\<lparr>pk_breaks := bs\<rparr>) = inits_ok pk" "inits_ok (pk\<lparr>pk_open_out := out\<rparr>) = inits_ok pk"
  by (rule inits_ok_cong; simp)+

lemma inits_ok_primary:
  "inits_ok pk \<Longrightarrow> pk_primary pk \<noteq> None \<or> l = None \<Longrightarrow> inits_ok (pk\<lparr>pk_primary := l\<rparr>)"
proof -
  have "init_for g (pk\<lparr>pk_primary := l\<rparr>) = init_for g pk" for g
    by (simp add: init_for_def)
  then show "inits_ok pk \<Longrightarrow> pk_primary pk \<noteq> None \<or> l = None \<Longrightarrow> ?thesis"
    by (auto simp: inits_ok_def)
qed

lemma push_primary_inits:
  assumes inits: "inits_ok pk" and ok: "packager_ok pk"
  shows "inits_ok (push_primary enc f now pk)"
proof (cases "pk_primary pk")
  case None
  then show ?thesis using inits by (simp add: push_primary_def)
next
  case (Some l)
  let ?new = "lane_sample l f (pk_primary_is_audio pk)"
  define pk1 where "pk1 = (case ln_pending l of None \<Rightarrow> pk
    | Some p \<Rightarrow> let d = sa_dts ?new - sa_dts p in
        if d \<le> 0 \<or> d > jump_secs * int (ln_timescale l)
        then (let pk = flush enc pk in pk\<lparr>pk_discontinuity_next := (pk_segments pk \<noteq> []), pk_waiting_key := True\<rparr>)
        else cut_after enc l p d ?new pk)"
  have pk1: "inits_ok pk1"
    using inits ok Some flush_inits [OF inits ok, of enc] cut_after_inits [OF inits ok Some, of _ enc]
    by (auto simp: pk1_def Let_def split: option.splits)
  then have "inits_ok (if pk_seg_start pk1 = None then open_segment (sa_dts ?new) now pk1 else pk1)"
    by (cases "pk_primary pk1") (simp_all add: open_segment_inits, simp add: open_segment_def)
  then show ?thesis
    using Some pk1 by (auto simp: push_primary_def pk1_def [symmetric] Let_def intro!: inits_ok_primary)
qed

lemma set_tracks_inits:
  assumes inits: "inits_ok pk" and ok: "packager_ok pk"
  shows "inits_ok (snd (hls_set_tracks mc enc tracks pk))"
proof (cases "same_tracks (fst (choose_tracks mc tracks)) (snd (choose_tracks mc tracks)) pk")
  case True
  then show ?thesis using inits by (simp add: hls_set_tracks_def case_prod_unfold Let_def)
next
  case False
  let ?q = "snd (hls_set_tracks mc enc tracks pk)" and ?fl = "flush enc pk" and ?init = "snd (choose_tracks mc tracks)"
  note fl = flush_inits [OF inits ok, of enc]
  have prim: "pk_primary ?q \<noteq> None \<longrightarrow> pk_init ?q \<noteq> None"
    using False by (simp add: hls_set_tracks_def case_prod_unfold Let_def)
  have q: "pk_segments ?q = pk_segments ?fl" "pk_init ?q = ?init" "pk_init_gen ?q = pk_init_gen (retire_init ?init ?fl)"
    "pk_old_inits ?q = pk_old_inits (retire_init ?init ?fl)"
    using False by (simp_all add: hls_set_tracks_def case_prod_unfold Let_def) (simp add: retire_init_def)
  have "g \<le> pk_init_gen ?q \<and> init_for g ?q \<noteq> None" if g: "g \<in> set (map hs_init_gen (pk_segments ?fl))" for g
  proof -
    have g': "g \<le> pk_init_gen ?fl" "init_for g ?fl \<noteq> None"
      using fl g by (auto simp: inits_ok_def)
    show ?thesis
    proof (cases "?init = pk_init ?fl")
      case True
      then have "init_for g ?q = init_for g ?fl" by (simp add: q retire_init_def init_for_def)
      then show ?thesis using True g' by (simp add: q retire_init_def)
    next
      case False
      have "pk_segments ?fl \<noteq> []" using g by auto
      then show ?thesis
        using False g' by (auto simp: q retire_init_def init_for_def find_append split: if_splits option.splits)
    qed
  qed
  then show ?thesis
    using fl prim unfolding inits_ok_def q(1) by blast
qed

subsection \<open>Properties\<close>

lemma hls_step_inits: "inits_ok pk \<Longrightarrow> packager_ok pk \<Longrightarrow> inits_ok (hls_step mc enc e pk)"
proof (cases e)
  case (HlsFrame f now)
  moreover have "inits_ok (push_secondary f pk) = inits_ok pk"
    by (rule inits_ok_cong) (simp_all add: push_secondary_def Let_def case_prod_unfold split: option.splits)
  ultimately show "inits_ok pk \<Longrightarrow> packager_ok pk \<Longrightarrow> ?thesis"
    by (simp add: hls_push_def push_primary_inits)
next
  case (HlsCue c)
  moreover have "inits_ok (hls_push_cue c pk) = inits_ok pk"
    by (rule inits_ok_cong) simp_all
  ultimately show "inits_ok pk \<Longrightarrow> packager_ok pk \<Longrightarrow> ?thesis" by simp
qed (simp_all add: set_tracks_inits lagged_def hls_end_def suspend_def resume_def flush_inits Let_def)

lemma hls_run_ok: "packager_ok pk \<Longrightarrow> packager_ok (hls_run mc enc es pk)"
  unfolding hls_run_def using hls.run_ok by blast

lemma hls_run_inits: "packager_ok pk \<Longrightarrow> inits_ok pk \<Longrightarrow> inits_ok (hls_run mc enc es pk)"
  unfolding hls_run_def by (induction es arbitrary: pk) (auto simp: hls_step_inits hls_step_ok)

lemma packager_new_inits: "inits_ok (packager_new cfg)"
  by (simp add: packager_new_def inits_ok_def)

lemma lookup_gone: "hls_produced (msn, part) pk \<Longrightarrow> hls_get (msn, part) pk = None \<Longrightarrow> hls_lookup msn part pk = LookupGone"
  by (auto simp: hls_produced_def hls_get_def hls_lookup_def split: option.splits)

text \<open>
  Claim C25. Once a part or segment has been served, the same request is answered with the same bytes whatever
  happens next, until it has left the window; from then on it is gone for good.
\<close>

theorem hls_lookup_stable:
  assumes found: "hls_lookup msn part (hls_run mc enc es (packager_new cfg)) = LookupFound b"
  shows "hls_lookup msn part (hls_run mc enc (es @ cont) (packager_new cfg)) = LookupFound b \<or>
    (\<forall>rest. hls_lookup msn part (hls_run mc enc (es @ cont @ rest) (packager_new cfg)) = LookupGone)"
proof -
  define pk where "pk = hls_run mc enc es (packager_new cfg)"
  have ok: "packager_ok pk"
    unfolding pk_def by (rule hls_run_ok) (rule packager_new_ok)
  have get: "hls_get (msn, part) pk = Some b"
    using found by (simp add: pk_def lookup_get)
  have later: "hls_run mc enc (es @ es') (packager_new cfg) = fold (hls_step mc enc) es' pk" for es'
    by (simp add: hls_run_def pk_def)
  have produced: "hls_produced (msn, part) (fold (hls_step mc enc) es' pk)" for es'
    using hls.run_ok [OF ok, of mc enc es'] hls.get_produced [OF ok get] hls.produced_grows [OF ok] by blast
  show ?thesis
  proof (cases "hls_get (msn, part) (fold (hls_step mc enc) cont pk) = None")
    case True
    then have "hls_lookup msn part (fold (hls_step mc enc) (cont @ rest) pk) = LookupGone" for rest
      by (intro lookup_gone [OF produced] hls.gone_stays [OF ok get])
    then show ?thesis unfolding later by blast
  next
    case False
    then show ?thesis
      using hls.get_stable [OF ok get, of mc enc cont] by (auto simp: later lookup_get)
  qed
qed

text \<open>
  Claim C26. Whatever is fed to a new packager, its window is in order (\<open>packager_ok\<close>): consecutive sequence numbers,
  only the last segment open, at most six complete ones, each the concatenation of its parts, starting on a
  keyframe and no longer than the advertised target duration, and an open part of more than one frame spans no more
  than the part limit (a single frame may be longer than it).
\<close>

theorem hls_window_invariant: "packager_ok (hls_run mc enc es (packager_new cfg))"
  by (rule hls_run_ok) (rule packager_new_ok)

text \<open>What a playlist line promises a player that asks for what it names.\<close>

fun line_served :: "packager \<Rightarrow> playlist_line \<Rightarrow> bool" where
  "line_served pk (PlPart msn j _ _) = (\<exists>b. hls_lookup msn (Some j) pk = LookupFound b)"
| "line_served pk (PlSegment msn d) =
     ((\<exists>b. hls_lookup msn None pk = LookupFound b) \<and> f64_to_u64 (f64_round d) \<le> pk_target pk)"
| "line_served pk (PlHint msn j) = (hls_lookup msn (Some j) pk = LookupPending)"
| "line_served pk (PlMap g) = (ready pk \<longrightarrow> init_for g pk \<noteq> None)"
| "line_served pk _ = True"

lemma listed_segment_served:
  assumes ok: "packager_ok pk" and s: "s \<in> set (pk_segments pk)"
  shows "list_all (line_served pk) (part_lines s)" "hs_full s \<noteq> None \<Longrightarrow> line_served pk (PlSegment (hs_msn s) (segment_duration s))"
proof -
  have at: "hls_segment_at (hs_msn s) pk = Some s" using segment_at_ok [OF ok] s by blast
  then show "list_all (line_served pk) (part_lines s)"
    by (auto simp: part_lines_def list_all_iff in_set_enumerate_eq hls_lookup_def segment_bytes_def)
  show "line_served pk (PlSegment (hs_msn s) (segment_duration s))" if "hs_full s \<noteq> None"
    using at that ok s
    by (auto simp: hls_lookup_def segment_bytes_def packager_ok_def window_ok_def listed_ok_def)
qed

lemma tag_lines_served:
  "list_all (line_served pk) (continuation_lines subs s pk')" "list_all (line_served pk) (range_lines subs a b pk')"
  "list_all (line_served pk) (header_lines subs parts pk')"
  by (auto simp: continuation_lines_def range_lines_def header_lines_def list_all_iff Let_def split: option.splits)

lemma segment_lines_served:
  assumes ok: "packager_ok pk" "inits_ok pk" and segs: "snd ` set xs \<subseteq> set (pk_segments pk)"
  shows "list_all (line_served pk) (segment_lines subs parts pk first g xs)"
  using segs
proof (induction xs arbitrary: first g)
  case (Cons x rest)
  obtain i seg where x: "x = (i, seg)" by (cases x)
  then have seg: "seg \<in> set (pk_segments pk)" using Cons.prems by auto
  have "init_for (hs_init_gen seg) pk \<noteq> None"
    using ok(2) seg by (auto simp: inits_ok_def)
  then show ?case
    using Cons listed_segment_served [OF ok(1) seg] by (simp add: x tag_lines_served)
qed simp

lemma hint_served:
  assumes ok: "packager_ok pk" and live: "\<not> pk_ended pk"
  shows "line_served pk (PlHint (fst (next_part pk)) (snd (next_part pk)))"
proof (cases "open_last (pk_segments pk)")
  case None
  then have "hls_segment_at (pk_next_msn pk) pk = None"
    using segment_at_ok [OF ok] msn_bound [OF ok] by (metis less_irrefl not_None_eq)
  then show ?thesis
    using None live by (simp add: next_part_def hls_lookup_def lookup_pending_def)
next
  case (Some s)
  then obtain rest where s: "pk_segments pk = rest @ [s]" "hs_full s = None"
    by (rule open_last_cases)
  then have "hls_segment_at (hs_msn s) pk = Some s"
    using segment_at_ok [OF ok] by simp
  then show ?thesis
    using Some s live by (simp add: next_part_def hls_lookup_def lookup_pending_def segment_bytes_def)
qed

lemma render_served:
  assumes ok: "packager_ok pk" "inits_ok pk"
  shows "list_all (line_served pk) (render subs parts pk)"
proof -
  define listed where "listed = filter (\<lambda>(_, s). hs_parts s \<noteq> []) (enumerate 0 (pk_segments pk))"
  have listed: "snd ` set listed \<subseteq> set (pk_segments pk)"
    by (auto simp: listed_def in_set_enumerate_eq)
  define g where "g = (case listed of (_, s) # _ \<Rightarrow> hs_init_gen s | [] \<Rightarrow> pk_init_gen pk)"
  have "ready pk \<longrightarrow> init_for g pk \<noteq> None"
  proof (cases listed)
    case Nil
    then show ?thesis by (simp add: g_def ready_def init_for_def)
  next
    case (Cons x rest)
    then have "snd x \<in> set (pk_segments pk)" using listed by auto
    then show ?thesis using ok(2) Cons by (cases x) (auto simp: g_def inits_ok_def)
  qed
  moreover have "list_all (line_served pk) (segment_lines subs parts pk True g listed)"
    by (rule segment_lines_served [OF ok listed])
  ultimately show ?thesis
    using hint_served [OF ok(1)]
    by (simp add: render_def listed_def [symmetric] g_def [symmetric] tag_lines_served Let_def del: line_served.simps(3))
qed

text \<open>
  Claim C27. Every part, segment and init segment a playlist names is served, no segment is longer than the target
  duration it advertises, and a request for the hinted part waits for it.
\<close>

theorem playlist_served:
  "list_all (line_served (hls_run mc enc es (packager_new cfg))) (render subs parts (hls_run mc enc es (packager_new cfg)))"
  by (rule render_served) (simp_all add: hls_run_ok hls_run_inits packager_new_ok packager_new_inits)

subsection \<open>A run\<close>

text \<open>A track of ten ticks a second with a frame every second; parts of 200 ms.\<close>

definition demo_hls_codec :: "nat mp4_codec" where
  "demo_hls_codec = \<lparr>mc_avcc = (\<lambda>b. Some (length b)), mc_hvcc = (\<lambda>b. None), mc_encode = (\<lambda>m. Some [0xAA])\<rparr>"
definition demo_hls_moof :: "moof \<Rightarrow> bytes" where
  "demo_hls_moof m = [of_nat (mo_sequence m)]"
definition demo_hls_track :: track_info where
  "demo_hls_track = \<lparr>ti_id = TrackId 1, ti_codec = H264, ti_timescale = 10, ti_init = [1, 100, 0, 40], ti_lang = None,
     ti_video = None, ti_audio = None\<rparr>"
definition demo_hls_frame :: "int \<Rightarrow> bool \<Rightarrow> frame" where
  "demo_hls_frame t key = \<lparr>fr_track = TrackId 1, fr_dts = t, fr_pts = t, fr_keyframe = key, fr_data = [7]\<rparr>"

definition demo_hls_config :: hls_config where
  "demo_hls_config = \<lparr>hc_part_ms = 200, hc_segment_ms = 2000, hc_cue_tags = False, hc_cue_out_tags = False, hc_reconnect_grace = 0\<rparr>"

definition demo_state :: "sample option \<Rightarrow> nat \<Rightarrow> sample list \<Rightarrow> int option \<Rightarrow> int option \<Rightarrow> bool \<Rightarrow> nat \<Rightarrow> hls_segment list \<Rightarrow> nat \<Rightarrow> packager" where
  "demo_state held dur part start fl waiting fseq segs msn = (packager_new demo_hls_config)\<lparr>
     pk_primary := Some \<lparr>ln_track_id = 1, ln_timescale = 10, ln_core_id = TrackId 1, ln_codec = H264, ln_shift = 100,
       ln_pending = held, ln_last_dur = dur\<rparr>, pk_init := Some [0xAA], pk_codecs := [''avc1.640028''],
     pk_part := part, pk_seg_start := start, pk_floor := fl, pk_waiting_key := waiting, pk_fragment_seq := fseq,
     pk_segments := segs, pk_next_msn := msn\<rparr>"

definition demo_hls_sample :: "int \<Rightarrow> nat \<Rightarrow> bool \<Rightarrow> sample" where
  "demo_hls_sample t d key = \<lparr>sa_dts = t, sa_cts = 0, sa_dur = d, sa_key = key, sa_data = [7]\<rparr>"

definition demo_hls_part :: "nat \<Rightarrow> bool \<Rightarrow> hls_part" where
  "demo_hls_part n key = \<lparr>pt_duration = 1, pt_independent = key, pt_data = [of_nat n, 0, 0, 0, 9, 109, 100, 97, 116, 7]\<rparr>"

definition demo_hls_segment :: "hls_part list \<Rightarrow> hls_segment" where
  "demo_hls_segment ps = \<lparr>hs_msn = 0, hs_parts = ps, hs_pdt = 0, hs_start_us = 0, hs_discontinuity = False, hs_init_gen = 0, hs_full = None\<rparr>"

lemma demo_choose: "choose_tracks demo_hls_codec [demo_hls_track] = ([\<lparr>mt_track_id = 1, mt_info = demo_hls_track\<rparr>], Some [0xAA])"
  by code_simp
lemma demo_string: "codec_string demo_hls_track = Some ''avc1.640028''" by code_simp

lemma demo_tracks: "hls_step demo_hls_codec demo_hls_moof (HlsTracks [demo_hls_track]) (packager_new demo_hls_config) =
   demo_state None 1 [] None None True 0 [] 0"
  unfolding hls_step.simps hls_set_tracks_def demo_choose
  by (simp add: Let_def demo_string same_tracks_def packager_new_def flush_def flush_primary_def map_filter_def
     flush_secondary_def close_part_def close_segment_def open_last_def retire_init_def demo_state_def nth_track_def lane_new_def
     shift_secs_def track_kind_of_def demo_hls_config_def) (simp add: demo_hls_track_def)

lemmas hls_demo_defs = demo_state_def demo_hls_frame_def demo_hls_sample_def demo_hls_part_def demo_hls_segment_def packager_new_def
  demo_hls_config_def

lemma demo_first: "hls_push demo_hls_moof (demo_hls_frame 0 True) 0 (demo_state None 1 [] None None True 0 [] 0) =
   demo_state (Some (demo_hls_sample 100 0 True)) 1 [] (Some 100) (Some 10000000) False 0 [demo_hls_segment []] 1"
  by (simp add: Let_def hls_push_def push_primary_def open_segment_def lane_sample_def lane_micros_def wrap64_def hls_demo_defs)

lemma demo_f64: "f64_div (f64_rnd 10) 10 = 1" by code_simp

lemma demo_second: "hls_push demo_hls_moof (demo_hls_frame 10 False) 1
     (demo_state (Some (demo_hls_sample 100 0 True)) 1 [] (Some 100) (Some 10000000) False 0 [demo_hls_segment []] 1) =
   demo_state (Some (demo_hls_sample 110 0 False)) 10 [] (Some 100) None False 1 [demo_hls_segment [demo_hls_part 1 True]] 1"
  by (simp add: Let_def hls_push_def push_primary_def cut_after_def commit_primary_def part_span_def part_max_def close_part_def
    sample_end_def lane_sample_def lane_micros_def wrap64_def hls_demo_defs jump_secs_def open_last_def set_last_def demo_f64
    fragment_def demo_hls_moof_def to_be32_def mdat_name_def run_bytes_def)

definition demo_hls_events :: "hls_event list" where
  "demo_hls_events = [HlsTracks [demo_hls_track], HlsFrame (demo_hls_frame 0 True) 0, HlsFrame (demo_hls_frame 10 False) 1]"

lemma demo_run: "hls_run demo_hls_codec demo_hls_moof demo_hls_events (packager_new demo_hls_config) =
   demo_state (Some (demo_hls_sample 110 0 False)) 10 [] (Some 100) None False 1 [demo_hls_segment [demo_hls_part 1 True]] 1"
  by (simp add: hls_run_def demo_hls_events_def demo_tracks demo_first demo_second del: hls_step.simps(1) One_nat_def)

lemma demo_found: "hls_lookup 0 (Some 0) (hls_run demo_hls_codec demo_hls_moof demo_hls_events (packager_new demo_hls_config)) =
    LookupFound [1, 0, 0, 0, 9, 109, 100, 97, 116, 7]"
  by (simp add: demo_run hls_lookup_def hls_segment_at_def segment_bytes_def demo_state_def demo_hls_segment_def demo_hls_part_def)

theorem hls_lookup_stable_witness:
  "hls_lookup 0 (Some 0) (hls_run demo_hls_codec demo_hls_moof (demo_hls_events @ [HlsSuspend]) (packager_new demo_hls_config)) =
     LookupFound [1, 0, 0, 0, 9, 109, 100, 97, 116, 7] \<or>
   (\<forall>rest. hls_lookup 0 (Some 0) (hls_run demo_hls_codec demo_hls_moof (demo_hls_events @ [HlsSuspend] @ rest)
      (packager_new demo_hls_config)) = LookupGone)"
  by (rule hls_lookup_stable [OF demo_found])

text \<open>
  A part can be longer than the part target: a frame is never split, so a source slower than one frame
  per \<open>part_ms\<close> makes parts of one frame each.
\<close>

theorem part_longer_than_target:
  "\<exists>pk. pk = hls_run demo_hls_codec demo_hls_moof demo_hls_events (packager_new demo_hls_config) \<and> ready pk \<and>
     (\<exists>s\<in>set (pk_segments pk). \<exists>p\<in>set (hs_parts s). part_target pk < pt_duration p)"
proof -
  have "f64_div 200 1000 < 1" by code_simp
  then show ?thesis
    unfolding demo_run by (simp add: ready_def last_part_def part_target_def hls_demo_defs)
qed
end
