(* ===== verification/Multicast.thy ===== *)
theory Multicast
  imports Switching F64
begin

text \<open>
  The sending half of the multicast output (\<open>crates/caudal-multicast\<close>): \<open>packet.rs\<close> groups the muxer's TS packets
  into datagrams and wraps them for RTP, \<open>pacer.rs\<close> gives each a send time, \<open>send.rs\<close> queues them and sends
  what is due. Instants and durations are nanoseconds, media times microseconds. Random initial values of an
  RTP session and the instants the tasks run at are arguments.
\<close>

subsection \<open>Datagrams\<close>

definition ts_packet_len :: nat where "ts_packet_len = 188"
definition packets_per_datagram :: nat where "packets_per_datagram = 7"
definition datagram_bytes :: nat where "datagram_bytes = ts_packet_len * packets_per_datagram"

text \<open>The chunker is its pending bytes.\<close>

definition chunker_push :: "bytes \<Rightarrow> bytes \<Rightarrow> bytes list \<times> bytes" where
  "chunker_push ts pending =
     (let pending = pending @ ts; full = length pending div datagram_bytes * datagram_bytes in
      if full = 0 then ([], pending)
      else (chunks datagram_bytes (take full pending), drop full pending))"

definition chunker_flush :: "bytes \<Rightarrow> bytes list \<times> bytes" where
  "chunker_flush pending = (if pending \<noteq> [] then ([pending], []) else ([], pending))"

definition rtp_pt_mp2t :: u8 where "rtp_pt_mp2t = 33"

record mp2t_state =
  mt_seq :: u16
  mt_ssrc :: u32
  mt_ts_base :: u32
  mt_epoch :: instant

definition mp2t_timestamp :: "mp2t_state \<Rightarrow> instant \<Rightarrow> u32" where
  "mp2t_timestamp s at_ns = mt_ts_base s + of_nat ((at_ns - mt_epoch s) * 90000 div 10 ^ 9)"

definition mp2t_wrap :: "bytes \<Rightarrow> instant \<Rightarrow> mp2t_state \<Rightarrow> bytes \<times> mp2t_state" where
  "mp2t_wrap payload at_ns s =
     ([0x80, rtp_pt_mp2t] @ to_be16 (mt_seq s) @ to_be32 (unat (mp2t_timestamp s at_ns)) @ to_be32 (unat (mt_ssrc s)) @ payload,
      s\<lparr>mt_seq := mt_seq s + 1\<rparr>)"

subsection \<open>Pacing\<close>

definition rate_window_us :: int where "rate_window_us = 1000000"
definition min_window_us :: int where "min_window_us = 200000"
definition headroom :: rat where "headroom = 3 / 2"
definition reanchor_late :: duration where "reanchor_late = 500 * 10 ^ 6"
definition reanchor_early :: duration where "reanchor_early = 2 * 10 ^ 9"
definition max_lag :: duration where "max_lag = 10 ^ 9"

record pacer =
  pa_enabled :: bool
  pa_anchor :: "(instant \<times> int) option"
  pa_last_media_us :: int
  pa_window :: "(int \<times> nat) list"
  pa_window_bytes :: nat
  pa_next_free :: "instant option"

definition pacer_new :: "bool \<Rightarrow> pacer" where
  "pacer_new enabled = \<lparr>pa_enabled = enabled, pa_anchor = None, pa_last_media_us = i64_min, pa_window = [],
     pa_window_bytes = 0, pa_next_free = None\<rparr>"

text \<open>Where the media clock puts a frame on the wall clock.\<close>

definition anchored :: "(instant \<times> int) option \<Rightarrow> int \<Rightarrow> instant option" where
  "anchored anchor media_us =
     (case anchor of
        None \<Rightarrow> None
      | Some (wall, anchor_us) \<Rightarrow>
         (let offset = media_us - anchor_us in
          if offset \<ge> 0 then Some (wall + nat offset * 1000)
          else if nat (- offset) * 1000 \<le> wall then Some (wall - nat (- offset) * 1000) else None))"

definition pacer_deadline :: "instant \<Rightarrow> int \<Rightarrow> pacer \<Rightarrow> instant \<times> pacer" where
  "pacer_deadline now media_us p =
     (if \<not> pa_enabled p then (now, p)
      else (let media_us = max media_us (pa_last_media_us p); p = p\<lparr>pa_last_media_us := media_us\<rparr>;
                fresh = (now, p\<lparr>pa_anchor := Some (now, media_us), pa_window := [], pa_window_bytes := 0\<rparr>)
            in case anchored (pa_anchor p) media_us of
                 None \<Rightarrow> fresh
               | Some d \<Rightarrow> if d + reanchor_late \<ge> now \<and> d \<le> now + reanchor_early then (d, p) else fresh))"

fun drop_old :: "int \<Rightarrow> (int \<times> nat) list \<Rightarrow> nat \<Rightarrow> (int \<times> nat) list \<times> nat" where
  "drop_old media_us [] bytes_now = ([], bytes_now)"
| "drop_old media_us ((front, b) # w) bytes_now =
     (if media_us - front \<le> rate_window_us then ((front, b) # w, bytes_now) else drop_old media_us w (bytes_now - b))"

definition pacer_record :: "int \<Rightarrow> nat \<Rightarrow> pacer \<Rightarrow> pacer" where
  "pacer_record media_us n p =
     (if n = 0 then p
      else (let (w, bytes_now) = drop_old media_us (pa_window p @ [(media_us, n)]) (pa_window_bytes p + n) in
            p\<lparr>pa_window := w, pa_window_bytes := bytes_now\<rparr>))"

definition average_rate :: "pacer \<Rightarrow> rat option" where
  "average_rate p =
     (case pa_window p of
        [] \<Rightarrow> None
      | (first, first_bytes) # _ \<Rightarrow>
         (let span = fst (last (pa_window p)) - first in
          if span < min_window_us then None
          else Some (f64_div (f64_rnd (of_nat (pa_window_bytes p - first_bytes))) (f64_div (f64_rnd (of_int span)) 1000000))))"

text \<open>\<open>Duration::from_secs_f64\<close> rounds to the nearest nanosecond.\<close>

definition from_secs_f64 :: "rat \<Rightarrow> duration" where
  "from_secs_f64 q = nat (round_half_even (q * 10 ^ 9))"

definition pacer_schedule :: "instant \<Rightarrow> nat \<Rightarrow> pacer \<Rightarrow> instant \<times> pacer" where
  "pacer_schedule deadline n p =
     (if \<not> pa_enabled p then (deadline, p)
      else (let at_ns = min (case pa_next_free p of Some free \<Rightarrow> max free deadline | None \<Rightarrow> deadline) (deadline + max_lag);
                gap = (case average_rate p of
                    Some rate \<Rightarrow> from_secs_f64 (f64_div (f64_rnd (of_nat n)) (f64_mul rate headroom))
                  | None \<Rightarrow> 0)
            in (at_ns, p\<lparr>pa_next_free := Some (at_ns + gap)\<rparr>)))"

subsection \<open>The session\<close>

definition max_queue_bytes :: nat where "max_queue_bytes = 16 * 2 ^ 20"

record queued =
  qd_send_at :: instant
  qd_deadline :: instant
  qd_datagram :: bytes

record sender =
  sn_pending :: bytes
  sn_pacer :: pacer
  sn_rtp :: "mp2t_state option"
  sn_queue :: "queued list"
  sn_queued_bytes :: nat
  sn_dropped :: nat

definition sender_new :: "bool \<Rightarrow> mp2t_state option \<Rightarrow> sender" where
  "sender_new pacing rtp = \<lparr>sn_pending = [], sn_pacer = pacer_new pacing, sn_rtp = rtp, sn_queue = [],
     sn_queued_bytes = 0, sn_dropped = 0\<rparr>"

fun enqueue :: "instant \<Rightarrow> bytes list \<Rightarrow> sender \<Rightarrow> sender" where
  "enqueue deadline [] s = s"
| "enqueue deadline (d # ds) s =
     (if sn_queued_bytes s + length d > max_queue_bytes then enqueue deadline ds (s\<lparr>sn_dropped := sn_dropped s + 1\<rparr>)
      else (let (send_at, p) = pacer_schedule deadline (length d) (sn_pacer s) in
            enqueue deadline ds (s\<lparr>sn_pacer := p, sn_queued_bytes := sn_queued_bytes s + length d,
              sn_queue := sn_queue s @ [\<lparr>qd_send_at = send_at, qd_deadline = deadline, qd_datagram = d\<rparr>]\<rparr>)))"

text \<open>What the muxer put out for one event at \<open>media_us\<close>.\<close>

definition sender_output :: "instant \<Rightarrow> int \<Rightarrow> bytes \<Rightarrow> sender \<Rightarrow> sender" where
  "sender_output now media_us out s =
     (if out = [] then s
      else (let (datagrams, pending) = chunker_push out (sn_pending s);
                (deadline, p) = pacer_deadline now media_us (sn_pacer s);
                p = pacer_record media_us (length out) p
            in enqueue deadline datagrams (s\<lparr>sn_pending := pending, sn_pacer := p\<rparr>)))"

text \<open>The head of the queue goes out while its time has come; the socket may or may not take it.\<close>

fun send_queue :: "instant \<Rightarrow> queued list \<Rightarrow> mp2t_state option \<Rightarrow> bytes list \<times> queued list \<times> mp2t_state option" where
  "send_queue now [] rtp = ([], [], rtp)"
| "send_queue now (q # qs) rtp =
     (if qd_send_at q \<le> now
      then (let (payload, rtp) = (case rtp of
                Some r \<Rightarrow> (let (w, r) = mp2t_wrap (qd_datagram q) (qd_send_at q) r in (w, Some r))
              | None \<Rightarrow> (qd_datagram q, None));
                (out, qs, rtp) = send_queue now qs rtp
            in (payload # out, qs, rtp))
      else ([], q # qs, rtp))"

definition send_due :: "instant \<Rightarrow> sender \<Rightarrow> bytes list \<times> sender" where
  "send_due now s =
     (let (out, qs, rtp) = send_queue now (sn_queue s) (sn_rtp s) in
      (out, s\<lparr>sn_queue := qs, sn_rtp := rtp,
              sn_queued_bytes := sn_queued_bytes s - sum_list (map (length \<circ> qd_datagram) (take (length out) (sn_queue s)))\<rparr>))"

text \<open>The end of the stream: the last, short datagram.\<close>

definition sender_flush :: "instant \<Rightarrow> sender \<Rightarrow> sender" where
  "sender_flush now s =
     (let (datagrams, pending) = chunker_flush (sn_pending s);
          deadline = (if sn_queue s = [] then now else qd_send_at (last (sn_queue s)))
      in enqueue deadline datagrams (s\<lparr>sn_pending := pending\<rparr>))"


subsection \<open>Nothing is lost or reordered\<close>

lemma chunks_exact: "0 < n \<Longrightarrow> n dvd length xs \<Longrightarrow> list_all (\<lambda>c. length c = n) (chunks n xs)"
proof (induction n xs rule: chunks.induct)
  case (1 n xs)
  show ?case
  proof (cases "xs = []")
    case False
    then have "n \<le> length xs" "n dvd length (drop n xs)"
      using 1(3) by (auto dest: dvd_imp_le)
    then show ?thesis using 1 False by (simp add: chunks_step)
  qed simp
qed

lemma chunker_push_spec:
  assumes "chunker_push ts pending = (ds, rest)"
  shows "concat ds @ rest = pending @ ts" "list_all (\<lambda>d. length d = datagram_bytes) ds"
proof -
  define xs where "xs = pending @ ts"
  define full where "full = length xs div datagram_bytes * datagram_bytes"
  have pos: "0 < datagram_bytes" by (simp add: datagram_bytes_def ts_packet_len_def packets_per_datagram_def)
  have cut: "(ds, rest) = (if full = 0 then ([], xs) else (chunks datagram_bytes (take full xs), drop full xs))"
    using assms by (simp only: chunker_push_def Let_def xs_def full_def)
  have "full \<le> length xs" "datagram_bytes dvd full" by (simp_all add: full_def)
  then have "list_all (\<lambda>c. length c = datagram_bytes) (chunks datagram_bytes (take full xs))"
    by (intro chunks_exact [OF pos]) (simp add: min_absorb2)
  then show "list_all (\<lambda>d. length d = datagram_bytes) ds"
    using cut by (auto split: if_splits)
  show "concat ds @ rest = pending @ ts"
    using cut pos unfolding xs_def [symmetric] by (auto split: if_splits)
qed

text \<open>What the session is at: everything that was cut so far, the sent and the queued datagrams among it.\<close>

definition queue_lengths :: "sender \<Rightarrow> nat" where
  "queue_lengths s = sum_list (map (length \<circ> qd_datagram) (sn_queue s))"

definition session_ok :: "bytes \<Rightarrow> bytes list \<Rightarrow> sender \<Rightarrow> bool" where
  "session_ok input sent s \<longleftrightarrow>
     (\<exists>ds. subseq (sent @ map qd_datagram (sn_queue s)) ds \<and> concat ds @ sn_pending s = input \<and>
        list_all (\<lambda>d. length d = datagram_bytes) ds \<and>
        length ds = length sent + length (sn_queue s) + sn_dropped s) \<and>
     sn_queued_bytes s = queue_lengths s \<and> sn_queued_bytes s \<le> max_queue_bytes"

lemma enqueue_ok:
  assumes "subseq (sent @ map qd_datagram (sn_queue s)) ds0" "length ds0 = length sent + length (sn_queue s) + sn_dropped s"
    "sn_queued_bytes s = queue_lengths s" "sn_queued_bytes s \<le> max_queue_bytes"
  shows "subseq (sent @ map qd_datagram (sn_queue (enqueue deadline ds s))) (ds0 @ ds) \<and>
    length (ds0 @ ds) = length sent + length (sn_queue (enqueue deadline ds s)) + sn_dropped (enqueue deadline ds s) \<and>
    sn_queued_bytes (enqueue deadline ds s) = queue_lengths (enqueue deadline ds s) \<and>
    sn_queued_bytes (enqueue deadline ds s) \<le> max_queue_bytes \<and> sn_pending (enqueue deadline ds s) = sn_pending s"
  using assms
proof (induction ds arbitrary: s ds0)
  case (Cons d ds)
  show ?case
  proof (cases "sn_queued_bytes s + length d > max_queue_bytes")
    case True
    have "subseq (sent @ map qd_datagram (sn_queue s)) (ds0 @ [d])"
      using Cons.prems(1) by (rule subseq_rev_drop_many)
    then show ?thesis
      using Cons.IH [of "s\<lparr>sn_dropped := sn_dropped s + 1\<rparr>" "ds0 @ [d]"] True Cons.prems
      by (simp add: queue_lengths_def)
  next
    case False
    obtain t p where tp: "pacer_schedule deadline (length d) (sn_pacer s) = (t, p)" by fastforce
    have "subseq ((sent @ map qd_datagram (sn_queue s)) @ [d]) (ds0 @ [d])"
      using Cons.prems(1) by (rule list_emb_append_mono) simp
    then show ?thesis
      using Cons.IH [of "s\<lparr>sn_pacer := p, sn_queued_bytes := sn_queued_bytes s + length d,
          sn_queue := sn_queue s @ [\<lparr>qd_send_at = t, qd_deadline = deadline, qd_datagram = d\<rparr>]\<rparr>" "ds0 @ [d]"]
        False Cons.prems tp
      by (simp add: queue_lengths_def)
  qed
qed simp

lemma sender_output_ok:
  assumes "session_ok input sent s"
  shows "session_ok (input @ out) sent (sender_output now media_us out s)"
proof (cases "out = []")
  case True
  then show ?thesis using assms by (simp add: sender_output_def)
next
  case False
  obtain ds pending where ch: "chunker_push out (sn_pending s) = (ds, pending)" by fastforce
  obtain deadline p where dl: "pacer_deadline now media_us (sn_pacer s) = (deadline, p)" by fastforce
  obtain ds0 where ds0: "subseq (sent @ map qd_datagram (sn_queue s)) ds0" "concat ds0 @ sn_pending s = input"
    "list_all (\<lambda>d. length d = datagram_bytes) ds0" "length ds0 = length sent + length (sn_queue s) + sn_dropped s"
    using assms by (auto simp: session_ok_def)
  let ?s = "s\<lparr>sn_pending := pending, sn_pacer := pacer_record media_us (length out) p\<rparr>"
  note en = enqueue_ok [of sent ?s ds0 deadline ds]
  have "concat (ds0 @ ds) @ pending = input @ out"
    using ds0(2) chunker_push_spec(1) [OF ch] by simp
  then show ?thesis
    using en ds0 assms chunker_push_spec(2) [OF ch] False ch dl
    by (auto simp: session_ok_def sender_output_def queue_lengths_def intro!: exI [of _ "ds0 @ ds"])
qed

text \<open>An RTP payload is the datagram behind twelve bytes.\<close>

definition wire_payload :: "mp2t_state option \<Rightarrow> bytes \<Rightarrow> bytes" where
  "wire_payload rtp w = (case rtp of Some _ \<Rightarrow> drop 12 w | None \<Rightarrow> w)"

lemma send_queue_spec:
  "send_queue now qs rtp = (out, rest, rtp') \<Longrightarrow>
     map (wire_payload rtp) out = map qd_datagram (take (length out) qs) \<and> rest = drop (length out) qs \<and>
     length out \<le> length qs \<and> (rtp' = None \<longleftrightarrow> rtp = None)"
proof (induction now qs rtp arbitrary: out rest rtp' rule: send_queue.induct)
  case (2 now q qs rtp)
  show ?case
  proof (cases "qd_send_at q \<le> now")
    case True
    define w where "w = (case rtp of Some r \<Rightarrow> fst (mp2t_wrap (qd_datagram q) (qd_send_at q) r) | None \<Rightarrow> qd_datagram q)"
    define r where "r = map_option (\<lambda>r. snd (mp2t_wrap (qd_datagram q) (qd_send_at q) r)) rtp"
    have step: "(case rtp of Some r \<Rightarrow> (let (w, r) = mp2t_wrap (qd_datagram q) (qd_send_at q) r in (w, Some r))
        | None \<Rightarrow> (qd_datagram q, None)) = (w, r)"
      by (simp add: w_def r_def case_prod_unfold Let_def split: option.split)
    obtain o' rest' r' where rec: "send_queue now qs r = (o', rest', r')" by (metis prod_cases3)
    have out: "out = w # o'" "rest = rest'" "rtp' = r'"
      using 2(2) True step rec by (simp_all add: Let_def)
    have IH: "map (wire_payload r) o' = map qd_datagram (take (length o') qs) \<and> rest' = drop (length o') qs \<and>
        length o' \<le> length qs \<and> (r' = None \<longleftrightarrow> r = None)"
      using 2(1) [OF True step [symmetric] refl rec] .
    have "wire_payload rtp w = qd_datagram q"
      by (cases rtp) (simp_all add: w_def wire_payload_def mp2t_wrap_def to_be16_def to_be32_def)
    moreover have "wire_payload r = wire_payload rtp"
      by (cases rtp) (simp_all add: r_def wire_payload_def fun_eq_iff)
    ultimately show ?thesis
      using IH out by (simp add: r_def)
  next
    case False
    then show ?thesis using 2(2) by simp
  qed
qed simp

lemma send_due_ok:
  assumes ok: "session_ok input sent s" and due: "send_due now s = (out, s')"
  shows "session_ok input (sent @ map (wire_payload (sn_rtp s)) out) s'" "sn_rtp s' = None \<longleftrightarrow> sn_rtp s = None"
proof -
  obtain rest rtp where q: "send_queue now (sn_queue s) (sn_rtp s) = (out, rest, rtp)"
    using due by (auto simp: send_due_def split: prod.splits)
  note spec = send_queue_spec [OF q]
  have s': "sn_queue s' = drop (length out) (sn_queue s)" "sn_rtp s' = rtp" "sn_pending s' = sn_pending s"
    "sn_dropped s' = sn_dropped s"
    "sn_queued_bytes s' = sn_queued_bytes s - sum_list (map (length \<circ> qd_datagram) (take (length out) (sn_queue s)))"
    using due q spec by (auto simp: send_due_def)
  have split: "sn_queue s = take (length out) (sn_queue s) @ drop (length out) (sn_queue s)" by simp
  have "queue_lengths s = sum_list (map (length \<circ> qd_datagram) (take (length out) (sn_queue s))) + queue_lengths s'"
    unfolding queue_lengths_def s' by (subst split) (simp only: map_append sum_list_append)
  moreover have "map qd_datagram (sn_queue s) = map (wire_payload (sn_rtp s)) out @ map qd_datagram (sn_queue s')"
    unfolding s' using spec by (metis append_take_drop_id map_append)
  moreover have "length (sn_queue s) = length out + length (sn_queue s')"
    using spec by (simp add: s')
  ultimately show "session_ok input (sent @ map (wire_payload (sn_rtp s)) out) s'"
    using ok by (auto simp: session_ok_def s'(3,4,5))
  show "sn_rtp s' = None \<longleftrightarrow> sn_rtp s = None" using spec s' by simp
qed


subsection \<open>Sessions\<close>

datatype mc_event = McOutput instant int bytes | McDue instant

fun mc_step :: "mc_event \<Rightarrow> bytes list \<times> sender \<Rightarrow> bytes list \<times> sender" where
  "mc_step (McOutput now media_us out) (sent, s) = (sent, sender_output now media_us out s)"
| "mc_step (McDue now) (sent, s) = (let (out, s) = send_due now s in (sent @ out, s))"

definition mc_run :: "bool \<Rightarrow> mp2t_state option \<Rightarrow> mc_event list \<Rightarrow> bytes list \<times> sender" where
  "mc_run pacing rtp es = fold mc_step es ([], sender_new pacing rtp)"

fun mc_bytes :: "mc_event list \<Rightarrow> bytes" where
  "mc_bytes [] = []"
| "mc_bytes (McOutput _ _ out # es) = out @ mc_bytes es"
| "mc_bytes (McDue _ # es) = mc_bytes es"

lemma mc_bytes_snoc [simp]:
  "mc_bytes (es @ [McOutput now media_us out]) = mc_bytes es @ out" "mc_bytes (es @ [McDue now]) = mc_bytes es"
  by (induction es rule: mc_bytes.induct) simp_all

lemma enqueue_rtp [simp]: "sn_rtp (enqueue deadline ds s) = sn_rtp s"
  by (induction deadline ds s rule: enqueue.induct) (auto simp: Let_def split: prod.splits)

lemma sender_output_rtp [simp]: "sn_rtp (sender_output now media_us out s) = sn_rtp s"
  by (simp add: sender_output_def Let_def case_prod_unfold)

lemma wire_payload_cong: "(r = None \<longleftrightarrow> r' = None) \<Longrightarrow> wire_payload r = wire_payload r'"
  by (auto simp: wire_payload_def fun_eq_iff split: option.splits)

lemma mc_run_ok:
  "session_ok (mc_bytes es) (map (wire_payload rtp) (fst (mc_run pacing rtp es))) (snd (mc_run pacing rtp es)) \<and>
   (sn_rtp (snd (mc_run pacing rtp es)) = None \<longleftrightarrow> rtp = None)"
proof (induction es rule: rev_induct)
  case Nil
  then show ?case
    by (simp add: mc_run_def sender_new_def session_ok_def queue_lengths_def)
next
  case (snoc e es)
  obtain sent s where run: "mc_run pacing rtp es = (sent, s)" by fastforce
  then have next_run: "mc_run pacing rtp (es @ [e]) = mc_step e (sent, s)" by (simp add: mc_run_def)
  have ok: "session_ok (mc_bytes es) (map (wire_payload rtp) sent) s" "sn_rtp s = None \<longleftrightarrow> rtp = None"
    using snoc run by simp_all
  show ?case
  proof (cases e)
    case (McOutput now media_us out)
    then show ?thesis unfolding next_run using sender_output_ok [OF ok(1)] ok(2) by simp
  next
    case (McDue now)
    obtain out s' where due: "send_due now s = (out, s')" by fastforce
    then show ?thesis
      unfolding next_run using send_due_ok [OF ok(1) due] ok(2) McDue wire_payload_cong [OF ok(2)] by simp
  qed
qed

text \<open>
  Claim C28. A multicast session is a pipe of whole datagrams: what was sent and what is queued are, in order, the
  datagrams of seven packets the TS output was cut into, with the undivided rest still pending, and the
  only ones missing are those counted as dropped, which happens only to keep the queue within its bound.
\<close>

theorem multicast_delivers:
  "\<exists>ds. subseq (map (wire_payload rtp) (fst (mc_run pacing rtp es)) @ map qd_datagram (sn_queue (snd (mc_run pacing rtp es)))) ds \<and>
     concat ds @ sn_pending (snd (mc_run pacing rtp es)) = mc_bytes es \<and> list_all (\<lambda>d. length d = 1316) ds \<and>
     length ds = length (fst (mc_run pacing rtp es)) + length (sn_queue (snd (mc_run pacing rtp es))) +
       sn_dropped (snd (mc_run pacing rtp es)) \<and>
     sum_list (map (length \<circ> qd_datagram) (sn_queue (snd (mc_run pacing rtp es)))) \<le> 16 * 2 ^ 20"
  using mc_run_ok [of es rtp pacing]
  by (auto simp: session_ok_def queue_lengths_def datagram_bytes_def ts_packet_len_def packets_per_datagram_def max_queue_bytes_def)

subsection \<open>Send times\<close>



















subsection \<open>A media clock that jumps back\<close>

fun deadlines :: "(instant \<times> int) list \<Rightarrow> pacer \<Rightarrow> instant list" where
  "deadlines [] p = []"
| "deadlines ((now, media_us) # fs) p = (let (d, p) = pacer_deadline now media_us p in d # deadlines fs p)"

text \<open>The frames all arrive later than \<open>t\<close>, in order, behind the media time already seen.\<close>

fun behind :: "instant \<Rightarrow> int \<Rightarrow> (instant \<times> int) list \<Rightarrow> bool" where
  "behind t last_us [] = True"
| "behind t last_us ((now, media_us) # fs) \<longleftrightarrow> t \<le> now \<and> media_us \<le> last_us \<and> behind now last_us fs"

lemma deadline_behind:
  assumes "pa_enabled p" "pa_anchor p = Some (wall, pa_last_media_us p)" "wall \<le> now" "media_us \<le> pa_last_media_us p"
  shows "\<exists>d p'. pacer_deadline now media_us p = (d, p') \<and> d \<le> now \<and> pa_enabled p' \<and>
    pa_last_media_us p' = pa_last_media_us p \<and> pa_anchor p' = Some (d, pa_last_media_us p)"
  using assms by (auto simp: pacer_deadline_def anchored_def Let_def max_def)

text \<open>
  Once the media clock has jumped back, nothing is paced until it has caught up with the highest time
  seen: every deadline has passed when its frame is muxed, however many frames come at once.
\<close>

theorem backward_jump_unpaced:
  assumes "pa_enabled p" "pa_anchor p = Some (wall, pa_last_media_us p)" "behind wall (pa_last_media_us p) fs"
  shows "list_all2 (\<le>) (deadlines fs p) (map fst fs)"
  using assms
proof (induction fs arbitrary: p wall)
  case (Cons f fs)
  obtain now media_us where f: "f = (now, media_us)" by fastforce
  obtain d p' where p': "pacer_deadline now media_us p = (d, p')" "d \<le> now" "pa_enabled p'"
    "pa_last_media_us p' = pa_last_media_us p" "pa_anchor p' = Some (d, pa_last_media_us p)"
    using deadline_behind [of p wall now media_us] Cons.prems f by auto
  have "behind d (pa_last_media_us p') fs"
    using Cons.prems f p' by (cases fs) auto
  then show ?case
    using Cons.IH [of p' d] p' f by simp
qed simp

theorem backward_jump_unpaced_witness:
  "list_all2 (\<le>)
     (deadlines [(10 ^ 9, 0), (10 ^ 9, 40000), (10 ^ 9, 80000)] (snd (pacer_deadline (10 ^ 9) 5000000 (pacer_new True))))
     [10 ^ 9, 10 ^ 9, 10 ^ 9]"
  using backward_jump_unpaced [of "snd (pacer_deadline (10 ^ 9) 5000000 (pacer_new True))" "10 ^ 9"
      "[(10 ^ 9, 0), (10 ^ 9, 40000), (10 ^ 9, 80000)]"]
  by (simp add: pacer_deadline_def pacer_new_def anchored_def i64_min_def)

text \<open>
  Deadlines can go back: a frame more than two seconds ahead is placed at the present, before the frames already
  queued ahead of it, and more than a second before them even their send times, which RTP timestamps follow.
\<close>

lemma deadline_goes_back:
  "deadlines [(10 ^ 9, 0), (10 ^ 9, 2000000), (10 ^ 9, 9000000)] (pacer_new True) = [10 ^ 9, 3 * 10 ^ 9, 10 ^ 9]"
  by (simp add: pacer_deadline_def pacer_new_def anchored_def i64_min_def Let_def reanchor_late_def reanchor_early_def)

end
