(* ===== verification/Health.thy ===== *)
theory Health
  imports Switching F64 "HOL-Library.AList"
begin

text \<open>
  Stream health alerts (\<open>crates/caudal-health\<close>): \<open>rules.rs\<close>, the hysteresis of one rule and the trackers that feed it,
  and the watcher of \<open>lib.rs\<close>: one entry per stream name, what the watcher tasks write into it, the tick
  that evaluates it. Instants are nanoseconds; what goes into a webhook besides the rule and its values (wall
  clock texts, signatures) and its delivery are not modelled.
\<close>

subsection \<open>Rules\<close>

datatype rule_kind = NoKeyframe | MinBitrate | PublisherLost | NoAudio

fun rule_as_str :: "rule_kind \<Rightarrow> string" where
  "rule_as_str NoKeyframe = ''no_keyframe''"
| "rule_as_str MinBitrate = ''min_bitrate''"
| "rule_as_str PublisherLost = ''publisher_lost''"
| "rule_as_str NoAudio = ''no_audio''"

definition rule_all :: "rule_kind list" where
  "rule_all = [NoKeyframe, MinBitrate, PublisherLost, NoAudio]"

record observation =
  ob_is_bad :: bool
  ob_value :: rat
  ob_threshold :: rat

datatype transition = Alert rat rat | Resolved rat rat

record rule_state =
  rl_active :: bool
  rl_good_since :: "instant option"

definition rule_new :: rule_state where
  "rule_new = \<lparr>rl_active = False, rl_good_since = None\<rparr>"

definition rule_tick :: "instant \<Rightarrow> observation \<Rightarrow> duration \<Rightarrow> rule_state \<Rightarrow> transition option \<times> rule_state" where
  "rule_tick now obs min_hold r =
     (if ob_is_bad obs
      then if rl_active r then (None, r\<lparr>rl_good_since := None\<rparr>)
           else (Some (Alert (ob_value obs) (ob_threshold obs)), r\<lparr>rl_active := True, rl_good_since := None\<rparr>)
      else if \<not> rl_active r then (None, r)
      else case rl_good_since r of
          None \<Rightarrow> (None, r\<lparr>rl_good_since := Some now\<rparr>)
        | Some since \<Rightarrow>
            if now - since \<ge> min_hold
            then (Some (Resolved (ob_value obs) (ob_threshold obs)), r\<lparr>rl_active := False, rl_good_since := None\<rparr>)
            else (None, r))"

text \<open>\<open>Duration::as_secs_f64\<close>; \<open>None\<close> is \<open>Duration::MAX\<close>.\<close>

definition as_secs_f64 :: "duration \<Rightarrow> rat" where
  "as_secs_f64 d = f64_add (f64_rnd (of_nat (d div 10 ^ 9))) (f64_div (of_nat (d mod 10 ^ 9)) 1000000000)"

definition duration_max :: duration where
  "duration_max = u64_max * 10 ^ 9 + 999999999"

definition since_observe :: "instant option \<Rightarrow> instant \<Rightarrow> duration \<Rightarrow> observation" where
  "since_observe tracker now threshold =
     (let elapsed = (case tracker of Some t \<Rightarrow> now - t | None \<Rightarrow> duration_max) in
      \<lparr>ob_is_bad = elapsed \<ge> threshold, ob_value = as_secs_f64 elapsed, ob_threshold = as_secs_f64 threshold\<rparr>)"

text \<open>The bitrate tracker is the instant since when the floor was not reached.\<close>

definition bitrate_sample :: "instant \<Rightarrow> rat \<Rightarrow> rat \<Rightarrow> duration \<Rightarrow> instant option \<Rightarrow> observation \<times> instant option" where
  "bitrate_sample now kbps floor_kbps for_secs below =
     (if kbps < floor_kbps
      then (let since = (case below of Some t \<Rightarrow> t | None \<Rightarrow> now) in
        (\<lparr>ob_is_bad = now - since \<ge> for_secs, ob_value = kbps, ob_threshold = floor_kbps\<rparr>, Some since))
      else (\<lparr>ob_is_bad = False, ob_value = kbps, ob_threshold = floor_kbps\<rparr>, None))"

subsection \<open>Configuration\<close>

record stream_override =
  so_name :: string
  so_no_keyframe_secs :: "nat option"
  so_min_bitrate_kbps :: "nat option"
  so_min_bitrate_for_secs :: "nat option"
  so_no_audio_secs :: "nat option"
  so_publisher_lost :: "bool option"
  so_publisher_lost_grace_secs :: "nat option"
  so_min_hold_secs :: "nat option"

record health_limits =
  hl_no_keyframe_secs :: "nat option"
  hl_min_bitrate_kbps :: "nat option"
  hl_min_bitrate_for_secs :: nat
  hl_no_audio_secs :: "nat option"
  hl_publisher_lost :: bool
  hl_publisher_lost_grace_secs :: nat
  hl_min_hold_secs :: nat

record health_config =
  hc_limits :: health_limits
  hc_overrides :: "stream_override list"

definition or_else :: "'a option \<Rightarrow> 'a option \<Rightarrow> 'a option" where
  "or_else a b = (case a of Some x \<Rightarrow> Some x | None \<Rightarrow> b)"

definition health_resolve :: "health_config \<Rightarrow> string \<Rightarrow> health_limits" where
  "health_resolve cfg stream =
     (let o_opt = find (\<lambda>ov. so_name ov = stream) (hc_overrides cfg); l = hc_limits cfg;
          pick = (\<lambda>f d. case Option.bind o_opt f of Some x \<Rightarrow> x | None \<Rightarrow> d) in
      \<lparr>hl_no_keyframe_secs = or_else (Option.bind o_opt so_no_keyframe_secs) (hl_no_keyframe_secs l),
       hl_min_bitrate_kbps = or_else (Option.bind o_opt so_min_bitrate_kbps) (hl_min_bitrate_kbps l),
       hl_min_bitrate_for_secs = pick so_min_bitrate_for_secs (hl_min_bitrate_for_secs l),
       hl_no_audio_secs = or_else (Option.bind o_opt so_no_audio_secs) (hl_no_audio_secs l),
       hl_publisher_lost = (case Option.bind o_opt so_publisher_lost of Some x \<Rightarrow> x | None \<Rightarrow> hl_publisher_lost l),
       hl_publisher_lost_grace_secs = pick so_publisher_lost_grace_secs (hl_publisher_lost_grace_secs l),
       hl_min_hold_secs = pick so_min_hold_secs (hl_min_hold_secs l)\<rparr>)"

subsection \<open>Entries\<close>

record health_entry =
  he_limits :: health_limits
  he_alive :: bool
  he_has_audio :: bool
  he_last_keyframe :: "instant option"
  he_last_audio :: "instant option"
  he_lost_since :: "instant option"
  he_bitrate :: "instant option"
  he_last_bytes_in :: nat
  he_no_keyframe :: rule_state
  he_min_bitrate :: rule_state
  he_no_audio :: rule_state
  he_publisher_lost :: rule_state

definition entry_new :: "health_limits \<Rightarrow> instant \<Rightarrow> health_entry" where
  "entry_new limits now =
     \<lparr>he_limits = limits, he_alive = True, he_has_audio = False, he_last_keyframe = Some now, he_last_audio = None,
      he_lost_since = None, he_bitrate = None, he_last_bytes_in = 0, he_no_keyframe = rule_new,
      he_min_bitrate = rule_new, he_no_audio = rule_new, he_publisher_lost = rule_new\<rparr>"

definition any_rule_active :: "health_entry \<Rightarrow> bool" where
  "any_rule_active e \<longleftrightarrow>
     rl_active (he_no_keyframe e) \<or> rl_active (he_min_bitrate e) \<or> rl_active (he_no_audio e) \<or>
     rl_active (he_publisher_lost e)"

definition secs :: "nat \<Rightarrow> duration" where "secs n = n * 10 ^ 9"

definition fine :: "rat \<Rightarrow> observation" where
  "fine threshold = \<lparr>ob_is_bad = False, ob_value = 0, ob_threshold = threshold\<rparr>"

definition lost_observation :: "instant option \<Rightarrow> instant \<Rightarrow> duration \<Rightarrow> observation" where
  "lost_observation lost_since now grace =
     (case lost_since of
        None \<Rightarrow> fine (as_secs_f64 grace)
      | Some since \<Rightarrow>
          \<lparr>ob_is_bad = now - since \<ge> grace, ob_value = as_secs_f64 (now - since), ob_threshold = as_secs_f64 grace\<rparr>)"

text \<open>
  The four rules of one entry, in the order of the tick. \<open>bytes_in\<close> is the counter of the stream the registry has
  under the name, if any. A tick lasts one second.
\<close>

definition tick_no_keyframe :: "instant \<Rightarrow> health_entry \<Rightarrow> (rule_kind \<times> transition) list \<times> health_entry" where
  "tick_no_keyframe now e =
     (case hl_no_keyframe_secs (he_limits e) of
        None \<Rightarrow> ([], e)
      | Some n \<Rightarrow>
         (let obs = (if he_alive e then since_observe (he_last_keyframe e) now (secs n) else fine (f64_rnd (of_nat n)));
              (t, r) = rule_tick now obs (secs (hl_min_hold_secs (he_limits e))) (he_no_keyframe e)
          in (case t of Some t \<Rightarrow> [(NoKeyframe, t)] | None \<Rightarrow> [], e\<lparr>he_no_keyframe := r\<rparr>)))"

definition tick_min_bitrate :: "nat option \<Rightarrow> instant \<Rightarrow> health_entry \<Rightarrow> (rule_kind \<times> transition) list \<times> health_entry" where
  "tick_min_bitrate bytes_in now e =
     (case hl_min_bitrate_kbps (he_limits e) of
        None \<Rightarrow> ([], e)
      | Some fl \<Rightarrow>
         (let (obs, e) = (if he_alive e
                then (let n = (case bytes_in of Some n \<Rightarrow> n | None \<Rightarrow> he_last_bytes_in e);
                          kbps = f64_div (f64_div (f64_mul (f64_rnd (of_nat (n - he_last_bytes_in e))) 8) 1000) 1;
                          (obs, below) = bitrate_sample now kbps (of_nat fl)
                            (secs (max (hl_min_bitrate_for_secs (he_limits e)) 1)) (he_bitrate e)
                      in (obs, e\<lparr>he_last_bytes_in := n, he_bitrate := below\<rparr>))
                else (fine (of_nat fl), e\<lparr>he_bitrate := None\<rparr>));
              (t, r) = rule_tick now obs (secs (hl_min_hold_secs (he_limits e))) (he_min_bitrate e)
          in (case t of Some t \<Rightarrow> [(MinBitrate, t)] | None \<Rightarrow> [], e\<lparr>he_min_bitrate := r\<rparr>)))"

definition tick_no_audio :: "instant \<Rightarrow> health_entry \<Rightarrow> (rule_kind \<times> transition) list \<times> health_entry" where
  "tick_no_audio now e =
     (case (if he_has_audio e then hl_no_audio_secs (he_limits e) else None) of
        None \<Rightarrow> ([], e)
      | Some n \<Rightarrow>
         (let obs = (if he_alive e then since_observe (he_last_audio e) now (secs n) else fine (f64_rnd (of_nat n)));
              (t, r) = rule_tick now obs (secs (hl_min_hold_secs (he_limits e))) (he_no_audio e)
          in (case t of Some t \<Rightarrow> [(NoAudio, t)] | None \<Rightarrow> [], e\<lparr>he_no_audio := r\<rparr>)))"

definition tick_publisher_lost :: "instant \<Rightarrow> health_entry \<Rightarrow> (rule_kind \<times> transition) list \<times> health_entry" where
  "tick_publisher_lost now e =
     (if hl_publisher_lost (he_limits e)
      then (let obs = lost_observation (he_lost_since e) now (secs (hl_publisher_lost_grace_secs (he_limits e)));
                (t, r) = rule_tick now obs (secs (hl_min_hold_secs (he_limits e))) (he_publisher_lost e)
            in (case t of Some t \<Rightarrow> [(PublisherLost, t)] | None \<Rightarrow> [], e\<lparr>he_publisher_lost := r\<rparr>))
      else ([], e))"

definition tick_entry :: "nat option \<Rightarrow> instant \<Rightarrow> health_entry \<Rightarrow> (rule_kind \<times> transition) list \<times> health_entry" where
  "tick_entry bytes_in now e =
     (let (f1, e) = tick_no_keyframe now e; (f2, e) = tick_min_bitrate bytes_in now e;
          (f3, e) = tick_no_audio now e; (f4, e) = tick_publisher_lost now e
      in (f1 @ f2 @ f3 @ f4, e))"

definition prunable :: "health_entry \<Rightarrow> bool" where
  "prunable e \<longleftrightarrow> \<not> he_alive e \<and> \<not> hl_publisher_lost (he_limits e) \<and> \<not> any_rule_active e"

subsection \<open>The watcher tasks\<close>

text \<open>A stream was published: its name's entry starts over, except for the rules.\<close>

definition entry_published :: "health_limits \<Rightarrow> instant \<Rightarrow> health_entry option \<Rightarrow> health_entry" where
  "entry_published limits now old =
     (let e = (case old of Some e \<Rightarrow> e | None \<Rightarrow> entry_new limits now) in
      e\<lparr>he_limits := limits, he_alive := True, he_lost_since := None, he_has_audio := False, he_last_keyframe := Some now,
        he_last_audio := None, he_bitrate := None, he_last_bytes_in := 0\<rparr>)"

definition entry_audio_track :: "instant \<Rightarrow> health_entry \<Rightarrow> health_entry" where
  "entry_audio_track now e = (if he_has_audio e then e else e\<lparr>he_has_audio := True, he_last_audio := Some now\<rparr>)"

definition entry_frame :: "bool \<Rightarrow> bool \<Rightarrow> instant \<Rightarrow> health_entry \<Rightarrow> health_entry" where
  "entry_frame video_key audio now e =
     (if video_key then e\<lparr>he_last_keyframe := Some now\<rparr> else if audio then e\<lparr>he_last_audio := Some now\<rparr> else e)"

definition entry_ended :: "instant \<Rightarrow> health_entry \<Rightarrow> health_entry" where
  "entry_ended now e = e\<lparr>he_alive := False, he_lost_since := Some now\<rparr>"


subsection \<open>The service\<close>

definition events_kept :: nat where "events_kept = 100"

definition queue_capacity :: nat where "queue_capacity = 256"

record alert_payload =
  ap_event :: string
  ap_rule :: string
  ap_stream :: string
  ap_value :: rat
  ap_threshold :: rat
  ap_from :: "string option"
  ap_to :: "string option"
  ap_reason :: "string option"

definition payload_new :: "string \<Rightarrow> string \<Rightarrow> string \<Rightarrow> rat \<Rightarrow> rat \<Rightarrow> alert_payload" where
  "payload_new event rule stream v th =
     \<lparr>ap_event = event, ap_rule = rule, ap_stream = stream, ap_value = v, ap_threshold = th,
      ap_from = None, ap_to = None, ap_reason = None\<rparr>"

definition payload_failover_switched :: "string \<Rightarrow> string option \<Rightarrow> string \<Rightarrow> string \<Rightarrow> alert_payload" where
  "payload_failover_switched stream from_source to_source reason =
     \<lparr>ap_event = ''failover_switched'', ap_rule = ''failover'', ap_stream = stream, ap_value = 0, ap_threshold = 0,
      ap_from = from_source, ap_to = Some to_source, ap_reason = Some reason\<rparr>"

record event_log =
  ev_event :: string
  ev_rule :: string
  ev_stream :: string
  ev_value :: rat
  ev_threshold :: rat

definition event_of :: "alert_payload \<Rightarrow> event_log" where
  "event_of p = \<lparr>ev_event = ap_event p, ev_rule = ap_rule p, ev_stream = ap_stream p, ev_value = ap_value p,
     ev_threshold = ap_threshold p\<rparr>"

text \<open>\<open>hv_queue\<close> is the bounded channel to the delivery worker.\<close>

record health_service =
  hv_entries :: "(string \<times> health_entry) list"
  hv_active :: "string \<times> rule_kind \<Rightarrow> (rat \<times> rat) option"
  hv_events :: "event_log list"
  hv_fired :: "rule_kind \<Rightarrow> nat"
  hv_queue :: "alert_payload list"

definition health_new :: health_service where
  "health_new = \<lparr>hv_entries = [], hv_active = (\<lambda>_. None), hv_events = [], hv_fired = (\<lambda>_. 0), hv_queue = []\<rparr>"

definition keep_last :: "nat \<Rightarrow> 'a list \<Rightarrow> 'a list" where
  "keep_last n xs = drop (length xs - n) xs"

definition delivery_send :: "alert_payload \<Rightarrow> health_service \<Rightarrow> health_service" where
  "delivery_send p s = (if length (hv_queue s) < queue_capacity then s\<lparr>hv_queue := hv_queue s @ [p]\<rparr> else s)"

definition log_event :: "alert_payload \<Rightarrow> health_service \<Rightarrow> health_service" where
  "log_event p s = delivery_send p (s\<lparr>hv_events := keep_last events_kept (hv_events s @ [event_of p])\<rparr>)"

definition failover_switched :: "string \<Rightarrow> string option \<Rightarrow> string \<Rightarrow> string \<Rightarrow> health_service \<Rightarrow> health_service" where
  "failover_switched stream from_source to_source reason =
     log_event (payload_failover_switched stream from_source to_source reason)"

definition handle_transition :: "string \<times> rule_kind \<times> transition \<Rightarrow> health_service \<Rightarrow> health_service" where
  "handle_transition f s =
     (case f of (stream, kind, t) \<Rightarrow>
       (case t of
          Alert v th \<Rightarrow> log_event (payload_new ''alert'' (rule_as_str kind) stream v th)
            (s\<lparr>hv_fired := (hv_fired s)(kind := hv_fired s kind + 1),
               hv_active := (hv_active s)((stream, kind) \<mapsto> (v, th))\<rparr>)
        | Resolved v th \<Rightarrow> log_event (payload_new ''resolved'' (rule_as_str kind) stream v th)
            (s\<lparr>hv_active := (hv_active s)((stream, kind) := None)\<rparr>)))"

text \<open>
  One delivery: the answers of the receiver (\<open>None\<close> where the request failed) decide how often it is asked. The
  result is the pauses slept through and whether the receiver took the payload.
\<close>

definition backoffs :: "duration list" where
  "backoffs = [10 ^ 9, 5 * 10 ^ 9, 25 * 10 ^ 9]"

fun deliver_one :: "(nat \<Rightarrow> nat option) \<Rightarrow> nat \<Rightarrow> duration list \<Rightarrow> duration list \<times> bool" where
  "deliver_one answer attempt delays =
     (let retry = (case delays of
          [] \<Rightarrow> ([], False)
        | d # ds \<Rightarrow> (case deliver_one answer (attempt + 1) ds of (slept, ok) \<Rightarrow> (d # slept, ok)))
      in case answer attempt of
        Some status \<Rightarrow>
          if 200 \<le> status \<and> status < 300 then ([], True)
          else if \<not> (500 \<le> status \<and> status < 600) then ([], False)
          else retry
      | None \<Rightarrow> retry)"

declare deliver_one.simps [simp del]

text \<open>
  One evaluation pass: the entries in some order (the code's map has none of its own), then what fired.
  \<open>bytes_in\<close> gives the byte counters of the streams on air.
\<close>

definition tick_once :: "(string \<Rightarrow> nat option) \<Rightarrow> instant \<Rightarrow> health_service \<Rightarrow> health_service" where
  "tick_once bytes_in now s =
     (let ticked = map (\<lambda>(n, e). (n, tick_entry (bytes_in n) now e)) (hv_entries s);
          fired = concat (map (\<lambda>(n, f, _). map (\<lambda>(k, t). (n, k, t)) f) ticked)
      in fold handle_transition fired
           (s\<lparr>hv_entries := filter (\<lambda>(_, e). \<not> prunable e) (map (\<lambda>(n, _, e). (n, e)) ticked)\<rparr>))"

definition health_metrics :: "health_service \<Rightarrow> string list \<Rightarrow> (rule_kind \<times> nat \<times> nat) list" where
  "health_metrics s names =
     map (\<lambda>k. (k, length (filter (\<lambda>n. hv_active s (n, k) \<noteq> None) names), hv_fired s k)) rule_all"

definition with_entry :: "string \<Rightarrow> (health_entry \<Rightarrow> health_entry) \<Rightarrow> health_service \<Rightarrow> health_service" where
  "with_entry n f s =
     (case map_of (hv_entries s) n of
        Some e \<Rightarrow> s\<lparr>hv_entries := AList.update n (f e) (hv_entries s)\<rparr>
      | None \<Rightarrow> s)"

text \<open>
  The server around the service. A stream is a name and a number of its own. Between the registry and the service
  there are tasks: one takes announcements of published streams and spawns a watcher for each, and every
  watcher sees its own stream's tracks and frames and, at last, its end. They run in any order.
\<close>

record health_world =
  hw_service :: health_service
  hw_on_air :: "(string \<times> nat) list"
  hw_announced :: "(string \<times> nat) list"
  hw_watching :: "string \<Rightarrow> nat option"
  hw_tasks :: "(string \<times> nat) list"
  hw_fresh :: nat
  hw_now :: instant

definition world_new :: health_world where
  "world_new = \<lparr>hw_service = health_new, hw_on_air = [], hw_announced = [], hw_watching = (\<lambda>_. None), hw_tasks = [],
     hw_fresh = 0, hw_now = 0\<rparr>"

definition spawn_watcher :: "health_config \<Rightarrow> string \<times> nat \<Rightarrow> health_world \<Rightarrow> health_world" where
  "spawn_watcher cfg st w =
     (let n = fst st in
      if hw_watching w n = Some (snd st) then w
      else w\<lparr>hw_watching := (hw_watching w)(n \<mapsto> snd st),
             hw_service := (hw_service w)\<lparr>hv_entries := AList.update n
               (entry_published (health_resolve cfg n) (hw_now w) (map_of (hv_entries (hw_service w)) n))
               (hv_entries (hw_service w))\<rparr>,
             hw_tasks := hw_tasks w @ [st]\<rparr>)"

definition on_service :: "(health_service \<Rightarrow> health_service) \<Rightarrow> health_world \<Rightarrow> health_world" where
  "on_service f w = w\<lparr>hw_service := f (hw_service w)\<rparr>"

definition watcher_ended :: "string \<times> nat \<Rightarrow> health_world \<Rightarrow> health_world" where
  "watcher_ended st w =
     (let n = fst st; w = on_service (with_entry n (entry_ended (hw_now w))) w in
      w\<lparr>hw_tasks := remove1 st (hw_tasks w),
        hw_watching := (if hw_watching w n = Some (snd st) then (hw_watching w)(n := None) else hw_watching w)\<rparr>)"

inductive health_step :: "health_config \<Rightarrow> health_world \<Rightarrow> health_world \<Rightarrow> bool" for cfg where
  publish: "map_of (hw_on_air w) n = None \<Longrightarrow>
     health_step cfg w (w\<lparr>hw_on_air := (n, hw_fresh w) # hw_on_air w, hw_announced := hw_announced w @ [(n, hw_fresh w)],
       hw_fresh := hw_fresh w + 1\<rparr>)"
| unpublish: "st \<in> set (hw_on_air w) \<Longrightarrow> health_step cfg w (w\<lparr>hw_on_air := remove1 st (hw_on_air w)\<rparr>)"
| announced: "hw_announced w = st # rest \<Longrightarrow> health_step cfg w (spawn_watcher cfg st (w\<lparr>hw_announced := rest\<rparr>))"
| audio_track: "st \<in> set (hw_tasks w) \<Longrightarrow>
     health_step cfg w (on_service (with_entry (fst st) (entry_audio_track (hw_now w))) w)"
| frame: "st \<in> set (hw_tasks w) \<Longrightarrow>
     health_step cfg w (on_service (with_entry (fst st) (entry_frame video_key audio (hw_now w))) w)"
| ended: "st \<in> set (hw_tasks w) \<Longrightarrow> st \<notin> set (hw_on_air w) \<Longrightarrow> health_step cfg w (watcher_ended st w)"
| listed: "st \<in> set (hw_on_air w) \<Longrightarrow> health_step cfg w (spawn_watcher cfg st w)"
| switched: "health_step cfg w (on_service (failover_switched n from_source to_source reason) w)"
| delivered: "health_step cfg w (on_service (\<lambda>s. s\<lparr>hv_queue := tl (hv_queue s)\<rparr>) w)"
| tick: "health_step cfg w (on_service (tick_once bytes_in (hw_now w)) w)"
| later: "health_step cfg w (w\<lparr>hw_now := hw_now w + d\<rparr>)"

inductive health_reach :: "health_config \<Rightarrow> health_world \<Rightarrow> bool" for cfg where
  start: "health_reach cfg world_new"
| step: "health_reach cfg w \<Longrightarrow> health_step cfg w w' \<Longrightarrow> health_reach cfg w'"


subsection \<open>What is listed as active\<close>

fun rule_of :: "rule_kind \<Rightarrow> health_entry \<Rightarrow> rule_state" where
  "rule_of NoKeyframe e = he_no_keyframe e"
| "rule_of MinBitrate e = he_min_bitrate e"
| "rule_of PublisherLost e = he_publisher_lost e"
| "rule_of NoAudio e = he_no_audio e"

definition rule_raised :: "rule_kind \<Rightarrow> health_service \<Rightarrow> string \<Rightarrow> bool" where
  "rule_raised k s n = (case map_of (hv_entries s) n of Some e \<Rightarrow> rl_active (rule_of k e) | None \<Rightarrow> False)"

definition bounded_logs :: "health_service \<Rightarrow> bool" where
  "bounded_logs s \<longleftrightarrow> length (hv_events s) \<le> events_kept \<and> length (hv_queue s) \<le> queue_capacity"

definition service_ok :: "health_service \<Rightarrow> bool" where
  "service_ok s \<longleftrightarrow> distinct (map fst (hv_entries s)) \<and> bounded_logs s \<and>
     (\<forall>n k. (hv_active s (n, k) \<noteq> None) = rule_raised k s n)"

definition is_alert :: "transition \<Rightarrow> bool" where
  "is_alert t = (case t of Alert _ _ \<Rightarrow> True | Resolved _ _ \<Rightarrow> False)"

text \<open>Whether a rule is raised after some transitions.\<close>

definition raised_by :: "rule_kind \<Rightarrow> (rule_kind \<times> transition) list \<Rightarrow> bool \<Rightarrow> bool" where
  "raised_by k fs b = fold (\<lambda>(k', t) b. if k' = k then is_alert t else b) fs b"

lemma raised_by_simps [simp]:
  "raised_by k [] b = b" "raised_by k ((k', t) # fs) b = raised_by k fs (if k' = k then is_alert t else b)"
  "raised_by k (fs @ gs) b = raised_by k gs (raised_by k fs b)"
  by (simp_all add: raised_by_def)

lemma rule_tick_raised:
  "rl_active (snd (rule_tick now obs hold r)) =
     (case fst (rule_tick now obs hold r) of Some t \<Rightarrow> is_alert t | None \<Rightarrow> rl_active r)"
  by (simp add: rule_tick_def is_alert_def split: option.splits)

lemma raised_by_one:
  "raised_by k (case t of Some t \<Rightarrow> [(k', t)] | None \<Rightarrow> []) b =
     (if k' = k then (case t of Some t \<Rightarrow> is_alert t | None \<Rightarrow> b) else b)"
  by (simp split: option.split)

lemma tick_no_keyframe_raised:
  "raised_by k (fst (tick_no_keyframe now e)) (rl_active (rule_of k e)) = rl_active (rule_of k (snd (tick_no_keyframe now e)))"
  by (cases k) (simp_all add: tick_no_keyframe_def Let_def case_prod_unfold raised_by_one rule_tick_raised split: option.split)

lemma tick_min_bitrate_raised:
  "raised_by k (fst (tick_min_bitrate bi now e)) (rl_active (rule_of k e)) = rl_active (rule_of k (snd (tick_min_bitrate bi now e)))"
  by (cases k; cases "he_alive e")
    (simp_all add: tick_min_bitrate_def Let_def case_prod_unfold raised_by_one rule_tick_raised split: option.split)

lemma tick_no_audio_raised:
  "raised_by k (fst (tick_no_audio now e)) (rl_active (rule_of k e)) = rl_active (rule_of k (snd (tick_no_audio now e)))"
  by (cases k) (simp_all add: tick_no_audio_def Let_def case_prod_unfold raised_by_one rule_tick_raised split: option.split)

lemma tick_publisher_lost_raised:
  "raised_by k (fst (tick_publisher_lost now e)) (rl_active (rule_of k e)) = rl_active (rule_of k (snd (tick_publisher_lost now e)))"
  by (cases k) (simp_all add: tick_publisher_lost_def Let_def case_prod_unfold raised_by_one rule_tick_raised split: option.split)

lemmas tick_rules_raised = tick_no_keyframe_raised tick_min_bitrate_raised tick_no_audio_raised tick_publisher_lost_raised

lemma tick_entry_raised:
  "raised_by k (fst (tick_entry bi now e)) (rl_active (rule_of k e)) = rl_active (rule_of k (snd (tick_entry bi now e)))"
  by (simp add: tick_entry_def Let_def case_prod_unfold tick_rules_raised)

lemma log_event_simps [simp]:
  "hv_entries (log_event p s) = hv_entries s" "hv_active (log_event p s) = hv_active s"
  "hv_fired (log_event p s) = hv_fired s"
  by (simp_all add: log_event_def delivery_send_def)

lemma log_event_bounded: "bounded_logs s \<Longrightarrow> bounded_logs (log_event p s)"
  by (auto simp: bounded_logs_def log_event_def delivery_send_def keep_last_def)

lemma handle_transition_keeps [simp]:
  "hv_entries (handle_transition f s) = hv_entries s" "hv_entries (fold handle_transition fs s) = hv_entries s"
proof -
  show one: "hv_entries (handle_transition f s) = hv_entries s" for f s
    by (simp add: handle_transition_def split: prod.splits transition.splits)
  show "hv_entries (fold handle_transition fs s) = hv_entries s"
    by (induction fs arbitrary: s) (simp_all add: one)
qed

lemma handle_transition_bounded: "bounded_logs s \<Longrightarrow> bounded_logs (fold handle_transition fs s)"
proof (induction fs arbitrary: s)
  case (Cons f fs)
  have "bounded_logs (s\<lparr>hv_fired := a, hv_active := b\<rparr>)" "bounded_logs (s\<lparr>hv_active := b\<rparr>)" for a b
    using Cons.prems by (simp_all add: bounded_logs_def)
  then have "bounded_logs (handle_transition f s)"
    by (simp add: handle_transition_def log_event_bounded split: prod.splits transition.splits)
  then show ?case using Cons.IH by simp
qed simp

lemma handle_transition_active:
  "(hv_active (fold handle_transition fs s) (n, k) \<noteq> None) =
     raised_by k (map snd (filter (\<lambda>f. fst f = n) fs)) (hv_active s (n, k) \<noteq> None)"
proof (induction fs arbitrary: s)
  case (Cons f fs)
  obtain m k' t where f: "f = (m, k', t)" by (metis prod_cases3)
  have "(hv_active (handle_transition f s) (n, k) \<noteq> None) =
      (if m = n \<and> k' = k then is_alert t else hv_active s (n, k) \<noteq> None)"
    by (simp add: f handle_transition_def is_alert_def split: transition.splits)
  then show ?case using Cons [of "handle_transition f s"] by (simp add: f)
qed simp

lemma fired_of_name:
  "distinct (map fst es) \<Longrightarrow>
   map snd (filter (\<lambda>f. fst f = n) (concat (map (\<lambda>(n, f, _). map (\<lambda>(k, t). (n, k, t)) f) (map (\<lambda>(n, e). (n, g n e)) es)))) =
     (case map_of es n of Some e \<Rightarrow> fst (g n e) | None \<Rightarrow> [])"
proof (induction es)
  case (Cons x es)
  obtain m e where x: "x = (m, e)" by fastforce
  have "map_of es n = None" if "m = n"
    using that Cons.prems by (simp add: x map_of_eq_None_iff)
  moreover have "map snd (filter (\<lambda>f. fst f = n) (map (\<lambda>(k, t). (m, k, t)) fs)) = (if m = n then fs else [])" for fs :: "('c \<times> 'd) list"
    by (induction fs) auto
  ultimately show ?case
    using Cons by (auto simp: x case_prod_unfold comp_def split: option.splits)
qed simp

lemma map_of_ticked:
  "distinct (map fst es) \<Longrightarrow>
     map_of (filter (\<lambda>(_, e). P e) (map (\<lambda>(n, e). (n, h n e)) es)) n =
       (case map_of es n of Some e \<Rightarrow> if P (h n e) then Some (h n e) else None | None \<Rightarrow> None)"
proof (induction es)
  case (Cons x es)
  obtain m e where x: "x = (m, e)" by fastforce
  have "map_of es n = None" if "m = n"
    using that Cons.prems by (simp add: x map_of_eq_None_iff)
  then show ?case using Cons by (auto simp: x)
qed simp

lemma tick_once_ok:
  assumes ok: "service_ok s"
  shows "service_ok (tick_once bytes_in now s)"
proof -
  define g where "g n e = tick_entry (bytes_in n) now e" for n e
  define ticked where "ticked = map (\<lambda>(n, e). (n, g n e)) (hv_entries s)"
  define es where "es = filter (\<lambda>(_, e). \<not> prunable e) (map (\<lambda>(n, _, e). (n, e)) ticked)"
  define fired where "fired = concat (map (\<lambda>(n, f, _). map (\<lambda>(k, t). (n, k, t)) f) ticked)"
  have after: "tick_once bytes_in now s = fold handle_transition fired (s\<lparr>hv_entries := es\<rparr>)"
    by (simp add: tick_once_def ticked_def es_def fired_def g_def Let_def)
  have dist: "distinct (map fst (hv_entries s))" using ok by (simp add: service_ok_def)
  have names: "map fst (map (\<lambda>(n, _, e). (n, e)) ticked) = map fst (hv_entries s)"
    by (simp add: ticked_def case_prod_unfold)
  then have dist': "distinct (map fst es)"
    unfolding es_def using dist by (metis distinct_map_filter)
  have entry: "map_of es n = (case map_of (hv_entries s) n of
      Some e \<Rightarrow> if prunable (snd (g n e)) then None else Some (snd (g n e)) | None \<Rightarrow> None)" for n
  proof -
    have eq: "es = filter (\<lambda>(_, e). \<not> prunable e) (map (\<lambda>(n, e). (n, snd (g n e))) (hv_entries s))"
      by (simp add: es_def ticked_def case_prod_unfold comp_def)
    show ?thesis
      unfolding eq map_of_ticked [OF dist] by (simp split: option.split)
  qed
  have "(hv_active (tick_once bytes_in now s) (n, k) \<noteq> None) = rule_raised k (tick_once bytes_in now s) n" for n k
  proof (cases "map_of (hv_entries s) n")
    case None
    have "(hv_active s (n, k) \<noteq> None) = rule_raised k s n" using ok unfolding service_ok_def by blast
    then have "hv_active s (n, k) = None" using None by (cases "hv_active s (n, k)") (simp_all add: rule_raised_def)
    then have "(hv_active (tick_once bytes_in now s) (n, k) \<noteq> None) = False"
      unfolding after handle_transition_active fired_def ticked_def fired_of_name [OF dist] None by simp
    then show ?thesis
      using None entry [of n] by (simp add: after rule_raised_def)
  next
    case (Some e)
    have "(hv_active s (n, k) \<noteq> None) = rule_raised k s n" using ok unfolding service_ok_def by blast
    then have act: "(hv_active s (n, k) \<noteq> None) = rl_active (rule_of k e)"
      using Some by (simp add: rule_raised_def)
    have "(hv_active (tick_once bytes_in now s) (n, k) \<noteq> None) = rl_active (rule_of k (snd (g n e)))"
      unfolding after handle_transition_active fired_def ticked_def fired_of_name [OF dist] Some
      using act tick_entry_raised [of k "bytes_in n" now e] by (simp add: g_def)
    moreover have "\<not> rl_active (rule_of k (snd (g n e)))" if "prunable (snd (g n e))"
      using that by (cases k) (auto simp: prunable_def any_rule_active_def)
    ultimately show ?thesis
      using Some entry [of n] by (simp add: after rule_raised_def)
  qed
  moreover have "bounded_logs (tick_once bytes_in now s)"
    unfolding after by (rule handle_transition_bounded) (use ok in \<open>simp add: service_ok_def bounded_logs_def\<close>)
  ultimately show ?thesis
    using dist' by (simp add: service_ok_def after)
qed

lemma service_okD: "service_ok s \<Longrightarrow> (hv_active s (n, k) \<noteq> None) = rule_raised k s n"
  unfolding service_ok_def by blast

lemma update_entry_ok:
  assumes ok: "service_ok s"
    and same: "\<And>k. rl_active (rule_of k e) = rule_raised k s n"
  shows "service_ok (s\<lparr>hv_entries := AList.update n e (hv_entries s)\<rparr>)"
proof -
  have "rule_raised k (s\<lparr>hv_entries := AList.update n e (hv_entries s)\<rparr>) m = rule_raised k s m" for k m
    using same [of k] by (simp add: rule_raised_def update_conv')
  then show ?thesis
    using ok unfolding service_ok_def bounded_logs_def by (simp add: distinct_update)
qed

lemma with_entry_ok:
  assumes "service_ok s" and "\<And>e k. rule_of k (f e) = rule_of k e"
  shows "service_ok (with_entry n f s)"
proof (cases "map_of (hv_entries s) n")
  case (Some e)
  then show ?thesis
    using update_entry_ok [of s "f e" n] assms by (simp add: with_entry_def rule_raised_def)
qed (simp add: with_entry_def assms)

lemma entry_updates_keep_rules:
  "rule_of k (entry_audio_track now e) = rule_of k e" "rule_of k (entry_frame vk au now e) = rule_of k e"
  "rule_of k (entry_ended now e) = rule_of k e"
  by (cases k; simp add: entry_audio_track_def entry_frame_def entry_ended_def)+

lemma entry_published_rules:
  "rl_active (rule_of k (entry_published limits now old)) = (case old of Some e \<Rightarrow> rl_active (rule_of k e) | None \<Rightarrow> False)"
  by (cases k) (simp_all add: entry_published_def entry_new_def rule_new_def split: option.split)

lemma spawn_watcher_ok:
  "service_ok (hw_service w) \<Longrightarrow> service_ok (hw_service (spawn_watcher cfg st w))"
  using update_entry_ok [of "hw_service w"] by (simp add: spawn_watcher_def Let_def entry_published_rules rule_raised_def)

lemma logs_ok:
  "service_ok s \<Longrightarrow> bounded_logs s' \<Longrightarrow> hv_entries s' = hv_entries s \<Longrightarrow> hv_active s' = hv_active s \<Longrightarrow> service_ok s'"
  unfolding service_ok_def rule_raised_def by simp

lemma health_step_ok: "health_step cfg w w' \<Longrightarrow> service_ok (hw_service w) \<Longrightarrow> service_ok (hw_service w')"
proof (induction rule: health_step.induct)
  case (announced w st rest)
  then show ?case using spawn_watcher_ok [of "w\<lparr>hw_announced := rest\<rparr>"] by simp
next
  case (ended st w)
  then show ?case
    by (simp add: watcher_ended_def on_service_def Let_def with_entry_ok entry_updates_keep_rules)
next
  case (switched w n from_source to_source reason)
  have b: "bounded_logs (failover_switched n from_source to_source reason (hw_service w))"
    unfolding failover_switched_def by (rule log_event_bounded) (use switched in \<open>simp add: service_ok_def\<close>)
  show ?case
    by (rule logs_ok [of "hw_service w"])
      (use switched b in \<open>simp_all add: on_service_def failover_switched_def\<close>)
next
  case (delivered w)
  show ?case
    by (rule logs_ok [of "hw_service w"]) (use delivered in \<open>auto simp: on_service_def bounded_logs_def service_ok_def\<close>)
qed (simp_all add: on_service_def with_entry_ok entry_updates_keep_rules tick_once_ok spawn_watcher_ok)

lemma health_reach_ok: "health_reach cfg w \<Longrightarrow> service_ok (hw_service w)"
proof (induction rule: health_reach.induct)
  case start
  show ?case by (simp add: world_new_def health_new_def service_ok_def bounded_logs_def rule_raised_def)
qed (rule health_step_ok)


text \<open>
  Claim C30. Whatever streams come and go and however the announcements, the watchers and the ticks interleave, the
  alerts listed as active are exactly the rules that stand raised, no more than a hundred events are kept, and the
  queue to the webhooks stays within its bound.
\<close>

theorem active_alerts_are_raised_rules:
  assumes "health_reach cfg w"
  shows "(hv_active (hw_service w) (n, k) \<noteq> None) = rule_raised k (hw_service w) n \<and>
         length (hv_events (hw_service w)) \<le> 100 \<and> length (hv_queue (hw_service w)) \<le> 256"
  using health_reach_ok [OF assms] service_okD
  unfolding service_ok_def bounded_logs_def events_kept_def queue_capacity_def by blast

subsection \<open>Hysteresis\<close>

text \<open>The transitions of one rule fed with observations.\<close>

fun rule_run :: "duration \<Rightarrow> rule_state \<Rightarrow> (instant \<times> observation) list \<Rightarrow> transition option list" where
  "rule_run hold r [] = []"
| "rule_run hold r ((now, obs) # xs) = (case rule_tick now obs hold r of (t, r) \<Rightarrow> t # rule_run hold r xs)"

fun alternate :: "bool \<Rightarrow> transition option list \<Rightarrow> bool" where
  "alternate alert [] = True"
| "alternate alert (None # ts) = alternate alert ts"
| "alternate alert (Some t # ts) = (is_alert t = alert \<and> alternate (\<not> alert) ts)"

definition good_for :: "duration \<Rightarrow> (instant \<times> observation) list \<Rightarrow> nat \<Rightarrow> bool" where
  "good_for hold xs i \<longleftrightarrow>
     (\<exists>j<i. fst (xs ! i) - fst (xs ! j) \<ge> hold \<and> (\<forall>k\<in>{j..i}. \<not> ob_is_bad (snd (xs ! k))))"

lemma rule_run_length [simp]: "length (rule_run hold r xs) = length xs"
  by (induction hold r xs rule: rule_run.induct) (auto split: prod.split)

lemma rule_run_alternates: "alternate (\<not> rl_active r) (rule_run hold r xs)"
proof (induction hold r xs rule: rule_run.induct)
  case (2 hold r now obs xs)
  obtain t r' where step: "rule_tick now obs hold r = (t, r')" by fastforce
  have act: "rl_active r' = (case t of Some t \<Rightarrow> is_alert t | None \<Rightarrow> rl_active r)"
    using rule_tick_raised [of now obs hold r] by (simp add: step)
  have "is_alert t' = (\<not> rl_active r)" if "t = Some t'" for t'
    using step that by (auto simp: rule_tick_def is_alert_def split: if_splits option.splits)
  then show ?case using 2 [OF step [symmetric]] act by (auto simp: step split: option.splits)
qed simp

lemma rule_run_snoc:
  "rule_run hold r (xs @ [x]) =
     rule_run hold r xs @ [fst (rule_tick (fst x) (snd x) hold (fold (\<lambda>(now, obs) r. snd (rule_tick now obs hold r)) xs r))]"
  by (induction xs arbitrary: r) (cases x, auto split: prod.split)

lemma good_since_tracks:
  "rl_good_since (fold (\<lambda>(now, obs) r. snd (rule_tick now obs hold r)) xs rule_new) = Some g \<Longrightarrow>
   \<exists>j<length xs. fst (xs ! j) = g \<and> (\<forall>k\<in>{j..<length xs}. \<not> ob_is_bad (snd (xs ! k)))"
proof (induction xs arbitrary: g rule: rev_induct)
  case (snoc x xs)
  define r where "r = fold (\<lambda>(now, obs) r. snd (rule_tick now obs hold r)) xs rule_new"
  obtain now obs where x: "x = (now, obs)" by fastforce
  have after: "rl_good_since (snd (rule_tick now obs hold r)) = Some g"
    using snoc.prems by (simp add: x r_def)
  then have good: "\<not> ob_is_bad obs \<or> False"
    by (auto simp: rule_tick_def split: if_splits)
  then have cases: "rl_good_since r = Some g \<or> g = now"
    using after by (auto simp: rule_tick_def split: if_splits option.splits)
  show ?case
  proof (cases "rl_good_since r = Some g")
    case True
    then obtain j where "j < length xs" "fst (xs ! j) = g" "\<forall>k\<in>{j..<length xs}. \<not> ob_is_bad (snd (xs ! k))"
      using snoc.IH by (auto simp: r_def)
    then show ?thesis
      using good x by (intro exI [of _ j]) (auto simp: nth_append less_Suc_eq)
  next
    case False
    then show ?thesis
      using cases good x by (intro exI [of _ "length xs"]) (auto simp: nth_append)
  qed
qed (simp add: rule_new_def)

lemma resolved_after_good:
  assumes "i < length xs" and "rule_run hold rule_new xs ! i = Some (Resolved v th)"
  shows "good_for hold xs i"
proof -
  define r where "r = fold (\<lambda>(now, obs) r. snd (rule_tick now obs hold r)) (take i xs) rule_new"
  obtain now obs where x: "xs ! i = (now, obs)" by fastforce
  have split: "xs = (take i xs @ [xs ! i]) @ drop (Suc i) xs"
    using assms(1) by (simp add: id_take_nth_drop)
  have more: "rule_run hold r0 (as @ bs) ! n = rule_run hold r0 as ! n" if "n < length as" for r0 as bs n
    using that by (induction hold r0 as arbitrary: n rule: rule_run.induct) (auto split: prod.splits simp: nth_Cons split: nat.splits)
  have "rule_run hold rule_new xs ! i = rule_run hold rule_new (take i xs @ [xs ! i]) ! i"
    by (subst split, rule more) (use assms(1) in simp)
  also have "\<dots> = fst (rule_tick now obs hold r)"
    using assms(1) by (simp add: rule_run_snoc nth_append x r_def)
  finally have fired: "fst (rule_tick now obs hold r) = Some (Resolved v th)"
    using assms(2) by simp
  then obtain g where g: "rl_good_since r = Some g" "now - g \<ge> hold" "\<not> ob_is_bad obs"
    by (auto simp: rule_tick_def split: if_splits option.splits)
  then obtain j where j: "j < i" "fst (take i xs ! j) = g" "\<forall>k\<in>{j..<i}. \<not> ob_is_bad (snd (take i xs ! k))"
    using good_since_tracks [of hold "take i xs" g] assms(1) by (auto simp: r_def min_def)
  then show ?thesis
    unfolding good_for_def using g x by (intro exI [of _ j]) (auto simp: le_less)
qed

text \<open>
  Claim C31. A rule's alerts and resolutions alternate and begin with an alert, and a resolution comes only after every
  observation of at least the hold time was good.
\<close>

theorem alerts_alternate_and_hold:
  assumes "i < length xs" and "rule_run hold rule_new xs ! i = Some (Resolved v th)"
  shows "alternate True (rule_run hold rule_new xs) \<and> good_for hold xs i"
  using resolved_after_good [OF assms] rule_run_alternates [of rule_new hold xs] by (simp add: rule_new_def)

definition sample_run :: "(instant \<times> observation) list" where
  "sample_run = map (\<lambda>(t, b). (t, \<lparr>ob_is_bad = b, ob_value = 0, ob_threshold = 1\<rparr>))
     [(1, True), (2, False), (3, True), (4, False), (6, False)]"

theorem alerts_alternate_and_hold_witness:
  "alternate True (rule_run 2 rule_new sample_run) \<and> good_for 2 sample_run 4"
  by (rule alerts_alternate_and_hold [of 4 sample_run 2 0 1])
    (simp_all add: sample_run_def rule_new_def rule_tick_def)


subsection \<open>A stream that came back\<close>

definition quiet_limits :: health_limits where
  "quiet_limits = \<lparr>hl_no_keyframe_secs = None, hl_min_bitrate_kbps = None, hl_min_bitrate_for_secs = 10,
     hl_no_audio_secs = None, hl_publisher_lost = True, hl_publisher_lost_grace_secs = 15, hl_min_hold_secs = 10\<rparr>"

definition quiet_config :: health_config where
  "quiet_config = \<lparr>hc_limits = quiet_limits, hc_overrides = []\<rparr>"

definition lost_entry :: "instant \<Rightarrow> health_entry" where
  "lost_entry now = entry_ended now (entry_published quiet_limits now None)"

definition republished :: "health_entry \<Rightarrow> health_world" where
  "republished e = \<lparr>hw_service = health_new\<lparr>hv_entries := [(''a'', e)]\<rparr>, hw_on_air = [(''a'', 1)], hw_announced = [],
     hw_watching = (\<lambda>_. None)(''a'' \<mapsto> 1), hw_tasks = [(''a'', 1)], hw_fresh = 2, hw_now = 0\<rparr>"

lemma entry_published_again:
  "entry_published l 0 (Some (entry_published l 0 None)) = entry_published l 0 None"
  by (simp add: entry_published_def entry_new_def)

lemma stale_end_reachable: "health_reach quiet_config (republished (lost_entry 0))"
proof -
  define e where "e = entry_published quiet_limits 0 None"
  have limits: "health_resolve quiet_config ''a'' = quiet_limits"
    by (simp add: quiet_config_def health_resolve_def or_else_def quiet_limits_def)
  define w1 where "w1 = world_new\<lparr>hw_on_air := [(''a'', 0)], hw_announced := [(''a'', 0)], hw_fresh := 1\<rparr>"
  have "health_reach quiet_config w1"
    using health_reach.step [OF health_reach.start health_step.publish [of world_new "''a''"]]
    by (simp add: w1_def world_new_def)
  then have 2: "health_reach quiet_config (spawn_watcher quiet_config (''a'', 0) (w1\<lparr>hw_announced := []\<rparr>))"
    by (rule health_reach.step) (rule health_step.announced, simp add: w1_def)
  define w2 where "w2 = w1\<lparr>hw_announced := [], hw_watching := (\<lambda>_. None)(''a'' \<mapsto> 0),
    hw_service := health_new\<lparr>hv_entries := [(''a'', e)]\<rparr>, hw_tasks := [(''a'', 0)]\<rparr>"
  have "health_reach quiet_config w2"
    using 2 by (simp add: w2_def w1_def spawn_watcher_def limits world_new_def health_new_def e_def Let_def)
  then have "health_reach quiet_config (w2\<lparr>hw_on_air := remove1 (''a'', 0) (hw_on_air w2)\<rparr>)"
    by (rule health_reach.step) (rule health_step.unpublish, simp add: w2_def w1_def)
  then have 3: "health_reach quiet_config (w2\<lparr>hw_on_air := []\<rparr>)"
    by (simp add: w2_def w1_def)
  define w4 where "w4 = w2\<lparr>hw_on_air := [(''a'', 1)], hw_announced := [(''a'', 1)], hw_fresh := 2\<rparr>"
  have "health_reach quiet_config w4"
    using health_reach.step [OF 3 health_step.publish [of "w2\<lparr>hw_on_air := []\<rparr>" "''a''"]]
    by (simp add: w4_def w2_def w1_def numeral_2_eq_2)
  then have 5: "health_reach quiet_config (spawn_watcher quiet_config (''a'', 1) (w4\<lparr>hw_announced := []\<rparr>))"
    by (rule health_reach.step) (rule health_step.announced, simp add: w4_def)
  define w5 where "w5 = w4\<lparr>hw_announced := [], hw_watching := (\<lambda>_. None)(''a'' \<mapsto> 1),
    hw_service := health_new\<lparr>hv_entries := [(''a'', e)]\<rparr>, hw_tasks := [(''a'', 0), (''a'', 1)]\<rparr>"
  have "health_reach quiet_config w5"
    using 5 by (simp add: w5_def w4_def w2_def w1_def spawn_watcher_def limits world_new_def health_new_def
        e_def Let_def entry_published_again)
  then have "health_reach quiet_config (watcher_ended (''a'', 0) w5)"
    by (rule health_reach.step) (rule health_step.ended, simp_all add: w5_def w4_def)
  moreover have "watcher_ended (''a'', 0) w5 = republished (lost_entry 0)"
    by (simp add: watcher_ended_def on_service_def with_entry_def Let_def w5_def w4_def w2_def w1_def world_new_def
        health_new_def republished_def lost_entry_def e_def)
  ultimately show ?thesis by simp
qed

theorem active_alerts_are_raised_rules_witness:
  "(hv_active (hw_service (republished (lost_entry 0))) (''a'', NoAudio) \<noteq> None) =
     rule_raised NoAudio (hw_service (republished (lost_entry 0))) ''a'' \<and>
   length (hv_events (hw_service (republished (lost_entry 0)))) \<le> 100 \<and>
   length (hv_queue (hw_service (republished (lost_entry 0)))) \<le> 256"
  by (rule active_alerts_are_raised_rules [OF stale_end_reachable])

text \<open>
  Claim C32. The end of a publish that is noticed late counts against the one that replaced it: a stream that
  was restarted at once, is on air and is watched can be listed as lost once the grace time is over.
\<close>

theorem late_end_alerts_live_stream:
  "\<exists>w. health_reach quiet_config w \<and> (''a'', 1) \<in> set (hw_on_air w) \<and> hw_watching w ''a'' = Some 1 \<and>
       hv_active (hw_service w) (''a'', PublisherLost) \<noteq> None"
proof -
  define w where "w = republished (lost_entry 0)"
  have "health_reach quiet_config (w\<lparr>hw_now := hw_now w + secs 15\<rparr>)"
    using health_reach.step [OF stale_end_reachable health_step.later] by (simp add: w_def)
  from health_reach.step [OF this health_step.tick]
  have reach: "health_reach quiet_config (on_service (tick_once (\<lambda>_. None) (secs 15)) (w\<lparr>hw_now := secs 15\<rparr>))"
    by (simp add: w_def republished_def)
  have "hv_active (tick_once (\<lambda>_. None) (secs 15) (hw_service w)) (''a'', PublisherLost) \<noteq> None"
    by (simp add: w_def republished_def lost_entry_def tick_once_def tick_entry_def tick_no_keyframe_def
        tick_min_bitrate_def tick_no_audio_def tick_publisher_lost_def entry_ended_def entry_published_def entry_new_def
        quiet_limits_def rule_new_def lost_observation_def rule_tick_def handle_transition_def health_new_def Let_def)
  then show ?thesis
    using reach by (intro exI [of _ "on_service (tick_once (\<lambda>_. None) (secs 15)) (w\<lparr>hw_now := secs 15\<rparr>)"])
      (simp add: on_service_def w_def republished_def)
qed

lemma tick_keeps_audio_rule:
  "he_has_audio (snd (tick_no_keyframe now e)) = he_has_audio e" "he_no_audio (snd (tick_no_keyframe now e)) = he_no_audio e"
  "he_has_audio (snd (tick_min_bitrate b now e)) = he_has_audio e" "he_no_audio (snd (tick_min_bitrate b now e)) = he_no_audio e"
  "he_has_audio (snd (tick_publisher_lost now e)) = he_has_audio e" "he_no_audio (snd (tick_publisher_lost now e)) = he_no_audio e"
  "\<not> he_has_audio e \<Longrightarrow> tick_no_audio now e = ([], e)"
  by (simp_all add: tick_no_keyframe_def tick_min_bitrate_def tick_publisher_lost_def tick_no_audio_def Let_def
      case_prod_unfold split: option.split)

text \<open>
  An alert for missing audio is never resolved when its stream comes back without an audio track: as long
  as no track is declared, no tick touches the rule, whatever the time and the counters.
\<close>

theorem no_audio_alert_sticks:
  assumes "\<not> he_has_audio e" and "rl_active (he_no_audio e)"
  shows "rl_active (he_no_audio (snd (tick_entry bytes_in now (entry_frame video_key audio t e)))) \<and>
         \<not> he_has_audio (snd (tick_entry bytes_in now (entry_frame video_key audio t e))) \<and>
         \<not> prunable (snd (tick_entry bytes_in now e))"
  using assms
  by (simp add: tick_entry_def Let_def case_prod_unfold tick_keeps_audio_rule entry_frame_def prunable_def
      any_rule_active_def)

theorem no_audio_alert_sticks_witness:
  "rl_active (he_no_audio (snd (tick_entry None 7 (entry_frame True False 6
     (entry_published quiet_limits 5 (Some (entry_new quiet_limits 1\<lparr>he_no_audio := \<lparr>rl_active = True, rl_good_since = None\<rparr>\<rparr>)))))))"
  by (rule no_audio_alert_sticks [THEN conjunct1]) (simp_all add: entry_published_def)

end
