(* ===== verification/Rtp.thy ===== *)
theory Rtp
  imports Media
begin

text \<open>
  RTP packetizing for RTSP players (\<open>crates/caudal-rtsp/src/rtp.rs\<close>): the frames' length-prefixed NAL units become
  single packets or fragments (RFC 6184, RFC 7798), AAC frames one packet each (RFC 3640), all framed in one buffer
  for interleaving into the TCP connection. Sequence numbers and counters are words, as they wrap.
\<close>

subsection \<open>Packets\<close>

definition video_pt :: u8 where "video_pt = 96"
definition audio_pt :: u8 where "audio_pt = 97"
definition mtu :: nat where "mtu = 1200"

record packet_state =
  ps_seq :: u16
  ps_ssrc :: u32
  ps_packet_count :: u32
  ps_octet_count :: u32
  ps_last_ts :: u32

record packets =
  pk_buf :: bytes
  pk_starts :: "nat list"

definition packets_new :: packets where
  "packets_new = \<lparr>pk_buf = [], pk_starts = []\<rparr>"

definition framed :: "packets \<Rightarrow> bytes" where
  "framed out = pk_buf out"

fun bare_from :: "bytes \<Rightarrow> nat list \<Rightarrow> bytes list" where
  "bare_from buf [] = []"
| "bare_from buf (s # ss) =
     (let e = (case ss of s' # _ \<Rightarrow> s' | [] \<Rightarrow> length buf) in take (e - (s + 4)) (drop (s + 4) buf)) # bare_from buf ss"

definition bare :: "packets \<Rightarrow> bytes list" where
  "bare out = bare_from (pk_buf out) (pk_starts out)"

definition rtp_header :: "bool \<Rightarrow> u8 \<Rightarrow> u16 \<Rightarrow> u32 \<Rightarrow> u32 \<Rightarrow> bytes" where
  "rtp_header marker pt seq ts ssrc =
     [0x80, or (push_bit 7 (of_bool marker)) (and pt 0x7F)] @ to_be16 seq @ to_be32 (unat ts) @ to_be32 (unat ssrc)"

definition rtp_push :: "u8 \<Rightarrow> u8 \<Rightarrow> u32 \<Rightarrow> bool \<Rightarrow> bytes list \<Rightarrow> packet_state \<times> packets \<Rightarrow> packet_state \<times> packets" where
  "rtp_push channel pt ts marker parts so =
     (case so of (st, out) \<Rightarrow>
       (let payload_len = sum_list (map length parts); rtp_len = 12 + payload_len; seq = ps_seq st in
         (st\<lparr>ps_seq := seq + 1, ps_packet_count := ps_packet_count st + 1,
             ps_octet_count := ps_octet_count st + of_nat payload_len, ps_last_ts := ts\<rparr>,
          \<lparr>pk_buf = pk_buf out @ [0x24, channel] @ to_be16 (of_nat rtp_len) @ rtp_header marker pt seq ts (ps_ssrc st) @
             concat parts,
           pk_starts = pk_starts out @ [length (pk_buf out)]\<rparr>)))"

subsection \<open>Access units\<close>

function avcc_nalus :: "bytes \<Rightarrow> bytes list" where
  "avcc_nalus rest =
     (if length rest < 4 then []
      else (let len = be32 rest in
            if length rest - 4 < len then [] else take len (drop 4 rest) # avcc_nalus (drop (4 + len) rest)))"
  by pat_completeness auto
termination
  by (relation "measure length") auto

declare avcc_nalus.simps [simp del]

definition fu_flags :: "u8 \<Rightarrow> bool \<Rightarrow> bool \<Rightarrow> u8" where
  "fu_flags nal_type is_first is_last =
     (let hdr = nal_type; hdr = (if is_first then or hdr 0x80 else hdr) in if is_last then or hdr 0x40 else hdr)"

function fu_a_loop :: "(bool \<Rightarrow> bytes list \<Rightarrow> 's \<Rightarrow> 's) \<Rightarrow> u8 \<Rightarrow> u8 \<Rightarrow> bytes \<Rightarrow> bool \<Rightarrow> nat \<Rightarrow> 's \<Rightarrow> 's" where
  "fu_a_loop push fnri nal_type payload last_nalu off s =
     (if off < length payload
      then (let e = min (off + (mtu - 2)) (length payload); is_first = (off = 0); is_last = (e = length payload);
                hdr = fu_flags nal_type is_first is_last
            in fu_a_loop push fnri nal_type payload last_nalu e
                 (push (last_nalu \<and> is_last) [[or fnri 28, hdr], take (e - off) (drop off payload)] s))
      else s)"
  by pat_completeness auto
termination
  by (relation "measure (\<lambda>(_, _, _, payload, _, off, _). length payload - off)") (auto simp: mtu_def)

fun packetize_h264 :: "(bool \<Rightarrow> bytes list \<Rightarrow> 's \<Rightarrow> 's) \<Rightarrow> bytes list \<Rightarrow> 's \<Rightarrow> 's" where
  "packetize_h264 push [] s = s"
| "packetize_h264 push (nalu # nalus) s =
     (let last_nalu = (nalus = []) in
      if nalu = [] then packetize_h264 push nalus s
      else if length nalu \<le> mtu then packetize_h264 push nalus (push last_nalu [nalu] s)
      else packetize_h264 push nalus
             (fu_a_loop push (and (nalu ! 0) 0xE0) (and (nalu ! 0) 0x1F) (drop 1 nalu) last_nalu 0 s))"

function fu_loop :: "(bool \<Rightarrow> bytes list \<Rightarrow> 's \<Rightarrow> 's) \<Rightarrow> u8 \<Rightarrow> u8 \<Rightarrow> u8 \<Rightarrow> bytes \<Rightarrow> bool \<Rightarrow> nat \<Rightarrow> 's \<Rightarrow> 's" where
  "fu_loop push nal_type layer_id_high layer_id_low_tid payload last_nalu off s =
     (if off < length payload
      then (let e = min (off + (mtu - 3)) (length payload); is_first = (off = 0); is_last = (e = length payload);
                hdr = fu_flags nal_type is_first is_last;
                fu = [or (push_bit 1 49) layer_id_high, layer_id_low_tid, hdr]
            in fu_loop push nal_type layer_id_high layer_id_low_tid payload last_nalu e
                 (push (last_nalu \<and> is_last) [fu, take (e - off) (drop off payload)] s))
      else s)"
  by pat_completeness auto
termination
  by (relation "measure (\<lambda>(_, _, _, _, payload, _, off, _). length payload - off)") (auto simp: mtu_def)

fun packetize_h265 :: "(bool \<Rightarrow> bytes list \<Rightarrow> 's \<Rightarrow> 's) \<Rightarrow> bytes list \<Rightarrow> 's \<Rightarrow> 's" where
  "packetize_h265 push [] s = s"
| "packetize_h265 push (nalu # nalus) s =
     (let last_nalu = (nalus = []) in
      if length nalu < 2 then packetize_h265 push nalus s
      else if length nalu \<le> mtu then packetize_h265 push nalus (push last_nalu [nalu] s)
      else packetize_h265 push nalus
             (fu_loop push (and (drop_bit 1 (nalu ! 0)) 0x3F) (and (nalu ! 0) 0x01) (nalu ! 1) (drop 2 nalu) last_nalu 0 s))"

declare fu_a_loop.simps [simp del] fu_loop.simps [simp del]

definition packetize_aac :: "(bool \<Rightarrow> bytes list \<Rightarrow> 's \<Rightarrow> 's) \<Rightarrow> bytes \<Rightarrow> 's \<Rightarrow> 's" where
  "packetize_aac push data s =
     (let size = and (of_nat (length data)) 0x1FFF; au = to_be16 (push_bit 3 size) in push True [to_be16 16, au, data] s)"

definition packetize :: "track_info \<Rightarrow> frame \<Rightarrow> u8 \<Rightarrow> packet_state \<Rightarrow> packet_state \<times> packets" where
  "packetize info f channel st =
     (let ts = of_int (fr_pts f); so = (st, packets_new) in
      case ti_codec info of
        H264 \<Rightarrow> packetize_h264 (rtp_push channel video_pt ts) (avcc_nalus (fr_data f)) so
      | H265 \<Rightarrow> packetize_h265 (rtp_push channel video_pt ts) (avcc_nalus (fr_data f)) so
      | Aac \<Rightarrow> packetize_aac (rtp_push channel audio_pt ts) (fr_data f) so
      | _ \<Rightarrow> so)"

subsection \<open>The plan of an access unit\<close>

text \<open>What is pushed, as a list: the marker bit and the payload of each packet.\<close>

type_synonym plan = "(bool \<times> bytes) list"

fun fu_plan :: "(u8 \<Rightarrow> bytes) \<Rightarrow> u8 \<Rightarrow> bool \<Rightarrow> bool \<Rightarrow> bytes list \<Rightarrow> plan" where
  "fu_plan fu nal_type last_nalu is_first [] = []"
| "fu_plan fu nal_type last_nalu is_first (c # cs) =
     (last_nalu \<and> cs = [], fu (fu_flags nal_type is_first (cs = [])) @ c) # fu_plan fu nal_type last_nalu False cs"

definition plan_push :: "bool \<Rightarrow> bytes list \<Rightarrow> plan \<Rightarrow> plan" where
  "plan_push marker parts acc = acc @ [(marker, concat parts)]"

fun h264_plan :: "bytes list \<Rightarrow> plan" where
  "h264_plan [] = []"
| "h264_plan (n # ns) =
     (if n = [] then []
      else if length n \<le> mtu then [(ns = [], n)]
      else fu_plan (\<lambda>h. [or (and (n ! 0) 0xE0) 28, h]) (and (n ! 0) 0x1F) (ns = []) True (chunks (mtu - 2) (drop 1 n)))
     @ h264_plan ns"

fun h265_plan :: "bytes list \<Rightarrow> plan" where
  "h265_plan [] = []"
| "h265_plan (n # ns) =
     (if length n < 2 then []
      else if length n \<le> mtu then [(ns = [], n)]
      else fu_plan (\<lambda>h. [or (push_bit 1 49) (and (n ! 0) 1), n ! 1, h]) (and (drop_bit 1 (n ! 0)) 0x3F) (ns = []) True
             (chunks (mtu - 3) (drop 2 n)))
     @ h265_plan ns"

definition aac_plan :: "bytes \<Rightarrow> plan" where
  "aac_plan data = [(True, to_be16 16 @ to_be16 (push_bit 3 (and (of_nat (length data)) 0x1FFF)) @ data)]"

lemma chunks_empty_iff: "0 < n \<Longrightarrow> chunks n xs = [] \<longleftrightarrow> xs = []"
  by (cases "xs = []") (simp_all add: chunks_step)

text \<open>One loop for both: it pushes the plan of the fragments.\<close>

lemma fragment_loop:
  assumes loop: "\<And>off acc. loop off acc =
      (if off < length payload
       then loop (min (off + n) (length payload))
              (plan_push (last_nalu \<and> min (off + n) (length payload) = length payload)
                [fu (fu_flags nal_type (off = 0) (min (off + n) (length payload) = length payload)),
                 take (min (off + n) (length payload) - off) (drop off payload)] acc)
       else acc)"
    and n: "0 < n"
  shows "loop off acc = acc @ fu_plan fu nal_type last_nalu (off = 0) (chunks n (drop off payload))"
proof (induction "length payload - off" arbitrary: off acc rule: less_induct)
  case less
  show ?case
  proof (cases "off < length payload")
    case True
    define e where "e = min (off + n) (length payload)"
    have e: "off < e" "e \<le> length payload" using True n by (auto simp: e_def)
    have cut: "chunks n (drop off payload) = take (e - off) (drop off payload) # chunks n (drop e payload)"
      using True n by (auto simp: chunks_step e_def min_def add.commute)
    have fin: "chunks n (drop e payload) = [] \<longleftrightarrow> e = length payload"
      using e n by (cases "drop e payload = []") (simp_all add: chunks_step)
    have "loop off acc = loop e (plan_push (last_nalu \<and> e = length payload)
        [fu (fu_flags nal_type (off = 0) (e = length payload)), take (e - off) (drop off payload)] acc)"
      using True by (subst loop) (simp add: e_def)
    also have "\<dots> = acc @ fu_plan fu nal_type last_nalu (off = 0) (chunks n (drop off payload))"
      using e by (subst less) (simp_all add: cut fin plan_push_def)
    finally show ?thesis .
  qed (subst loop, simp)
qed

lemma fu_a_plan:
  "fu_a_loop plan_push fnri nal_type payload last_nalu 0 acc =
     acc @ fu_plan (\<lambda>h. [or fnri 28, h]) nal_type last_nalu True (chunks (mtu - 2) payload)"
proof -
  have "fu_a_loop plan_push fnri nal_type payload last_nalu 0 acc =
     acc @ fu_plan (\<lambda>h. [or fnri 28, h]) nal_type last_nalu ((0::nat) = 0) (chunks (mtu - 2) (drop 0 payload))"
    by (rule fragment_loop) (subst fu_a_loop.simps, simp add: Let_def, simp add: mtu_def)
  then show ?thesis by simp
qed

lemma fu_plan_265:
  "fu_loop plan_push nal_type hi tid payload last_nalu 0 acc =
     acc @ fu_plan (\<lambda>h. [or (push_bit 1 49) hi, tid, h]) nal_type last_nalu True (chunks (mtu - 3) payload)"
proof -
  have "fu_loop plan_push nal_type hi tid payload last_nalu 0 acc =
     acc @ fu_plan (\<lambda>h. [or (push_bit 1 49) hi, tid, h]) nal_type last_nalu ((0::nat) = 0) (chunks (mtu - 3) (drop 0 payload))"
    by (rule fragment_loop) (subst fu_loop.simps, simp add: Let_def, simp add: mtu_def)
  then show ?thesis by simp
qed

lemma packetize_h264_plan: "packetize_h264 plan_push ns acc = acc @ h264_plan ns"
  by (induction ns arbitrary: acc) (simp_all add: Let_def fu_a_plan plan_push_def)

lemma packetize_h265_plan: "packetize_h265 plan_push ns acc = acc @ h265_plan ns"
  by (induction ns arbitrary: acc) (simp_all add: Let_def fu_plan_265 plan_push_def)

text \<open>The packetizers only use what they are given to push with.\<close>

definition push_all :: "u8 \<Rightarrow> u8 \<Rightarrow> u32 \<Rightarrow> plan \<Rightarrow> packet_state \<times> packets \<Rightarrow> packet_state \<times> packets" where
  "push_all channel pt ts plan so = fold (\<lambda>(m, p). rtp_push channel pt ts m [p]) plan so"

lemma fu_a_loop_hom:
  assumes "\<And>m parts acc. h (p m parts acc) = q m parts (h acc)"
  shows "h (fu_a_loop p fnri nal_type payload last_nalu off s) = fu_a_loop q fnri nal_type payload last_nalu off (h s)"
proof (induction "length payload - off" arbitrary: off s rule: less_induct)
  case less
  then show ?case
    by (subst (1 2) fu_a_loop.simps) (auto simp: Let_def assms mtu_def)
qed

lemma fu_loop_hom:
  assumes "\<And>m parts acc. h (p m parts acc) = q m parts (h acc)"
  shows "h (fu_loop p nal_type hi tid payload last_nalu off s) = fu_loop q nal_type hi tid payload last_nalu off (h s)"
proof (induction "length payload - off" arbitrary: off s rule: less_induct)
  case less
  then show ?case
    by (subst (1 2) fu_loop.simps) (auto simp: Let_def assms mtu_def)
qed

lemma packetize_hom:
  assumes "\<And>m parts acc. h (p m parts acc) = q m parts (h acc)"
  shows "h (packetize_h264 p ns s) = packetize_h264 q ns (h s)" "h (packetize_h265 p ns s) = packetize_h265 q ns (h s)"
  by (induction ns arbitrary: s)
    (simp_all add: Let_def assms fu_a_loop_hom [of h p q, OF assms] fu_loop_hom [of h p q, OF assms])

lemma rtp_push_concat: "rtp_push channel pt ts m [concat parts] = rtp_push channel pt ts m parts"
  by (simp add: rtp_push_def fun_eq_iff length_concat)

fun plan_of :: "codec \<Rightarrow> bytes \<Rightarrow> plan" where
  "plan_of H264 data = h264_plan (avcc_nalus data)"
| "plan_of H265 data = h265_plan (avcc_nalus data)"
| "plan_of Aac data = aac_plan data"
| "plan_of _ data = []"

definition pt_of :: "codec \<Rightarrow> u8" where
  "pt_of c = (if c = Aac then audio_pt else video_pt)"

lemma packetize_is_plan:
  "packetize info f channel st =
     push_all channel (pt_of (ti_codec info)) (of_int (fr_pts f)) (plan_of (ti_codec info) (fr_data f)) (st, packets_new)"
proof -
  define so where "so = (st, packets_new)"
  define h where "h pt acc = push_all channel pt (of_int (fr_pts f)) acc so" for pt acc
  have hom: "h pt (plan_push m parts acc) = rtp_push channel pt (of_int (fr_pts f)) m parts (h pt acc)" for pt m parts acc
    by (simp add: h_def push_all_def plan_push_def rtp_push_concat)
  have [simp]: "h pt [] = so" for pt by (simp add: h_def push_all_def)
  have "h pt (h264_plan ns) = packetize_h264 (rtp_push channel pt (of_int (fr_pts f))) ns so" for pt ns
    using packetize_hom(1) [of "h pt" plan_push "rtp_push channel pt (of_int (fr_pts f))", OF hom, of ns "[]"] by (simp add: packetize_h264_plan)
  moreover have "h pt (h265_plan ns) = packetize_h265 (rtp_push channel pt (of_int (fr_pts f))) ns so" for pt ns
    using packetize_hom(2) [of "h pt" plan_push "rtp_push channel pt (of_int (fr_pts f))", OF hom, of ns "[]"] by (simp add: packetize_h265_plan)
  moreover have "h pt (aac_plan d) = packetize_aac (rtp_push channel pt (of_int (fr_pts f))) d so" for pt d
    using hom [of pt True "[to_be16 16, to_be16 (push_bit 3 (and (of_nat (length d)) 0x1FFF)), d]" "[]"]
    by (simp add: aac_plan_def packetize_aac_def plan_push_def Let_def)
  ultimately show ?thesis
    by (cases "ti_codec info") (simp_all add: packetize_def pt_of_def h_def so_def Let_def push_all_def)
qed


subsection \<open>The buffer\<close>

definition frame_packet :: "u8 \<Rightarrow> bytes \<Rightarrow> bytes" where
  "frame_packet channel p = [0x24, channel] @ to_be16 (of_nat (length p)) @ p"

fun starts_from :: "nat \<Rightarrow> bytes list \<Rightarrow> nat list" where
  "starts_from n [] = []"
| "starts_from n (p # ps) = n # starts_from (n + 4 + length p) ps"

definition holds :: "u8 \<Rightarrow> packets \<Rightarrow> bytes list \<Rightarrow> bool" where
  "holds channel out ps \<longleftrightarrow> pk_buf out = concat (map (frame_packet channel) ps) \<and> pk_starts out = starts_from 0 ps"

fun rtp_wire :: "u8 \<Rightarrow> u32 \<Rightarrow> u32 \<Rightarrow> u16 \<Rightarrow> plan \<Rightarrow> bytes list" where
  "rtp_wire pt ts ssrc seq [] = []"
| "rtp_wire pt ts ssrc seq ((m, p) # plan) = (rtp_header m pt seq ts ssrc @ p) # rtp_wire pt ts ssrc (seq + 1) plan"

lemma length_rtp_header [simp]: "length (rtp_header m pt seq ts ssrc) = 12"
  by (simp add: rtp_header_def to_be16_def)

lemma length_frame_packet [simp]: "length (frame_packet channel p) = 4 + length p"
  by (simp add: frame_packet_def to_be16_def)

lemma starts_from_snoc: "starts_from n (ps @ [p]) = starts_from n ps @ [n + length (concat (map (frame_packet c) ps))]"
  by (induction ps arbitrary: n) (simp_all add: add_ac)

lemma bare_from_starts:
  "bare_from (pre @ concat (map (frame_packet channel) ps)) (starts_from (length pre) ps) = ps"
proof (induction ps arbitrary: pre)
  case (Cons p ps)
  have "bare_from ((pre @ frame_packet channel p) @ concat (map (frame_packet channel) ps))
      (starts_from (length (pre @ frame_packet channel p)) ps) = ps"
    by (rule Cons.IH)
  moreover have "drop 4 (frame_packet channel p) = p" by (simp add: frame_packet_def to_be16_def)
  ultimately show ?case
    by (cases ps) (simp_all add: add_ac)
qed simp

lemma bare_holds: "holds channel out ps \<Longrightarrow> bare out = ps"
  using bare_from_starts [of "[]" channel ps] by (simp add: bare_def holds_def)

lemma rtp_push_holds:
  assumes "holds channel out ps" and "rtp_push channel pt ts m [p] (st, out) = (st', out')"
  shows "holds channel out' (ps @ [rtp_header m pt (ps_seq st) ts (ps_ssrc st) @ p])" and "ps_ssrc st' = ps_ssrc st"
    and "ps_seq st' = ps_seq st + 1" and "ps_packet_count st' = ps_packet_count st + 1"
    and "ps_octet_count st' = ps_octet_count st + of_nat (length p)"
  using assms by (auto simp: rtp_push_def holds_def frame_packet_def starts_from_snoc [of _ _ _ channel] Let_def)

lemma push_all_spec:
  assumes "holds channel out ps" and "push_all channel pt ts plan (st, out) = (st', out')"
  shows "holds channel out' (ps @ rtp_wire pt ts (ps_ssrc st) (ps_seq st) plan) \<and> ps_ssrc st' = ps_ssrc st \<and>
    ps_seq st' = ps_seq st + of_nat (length plan) \<and> ps_packet_count st' = ps_packet_count st + of_nat (length plan) \<and>
    ps_octet_count st' = ps_octet_count st + of_nat (sum_list (map (length \<circ> snd) plan))"
  using assms
proof (induction plan arbitrary: st out ps)
  case (Cons mp plan)
  obtain m p where mp: "mp = (m, p)" by fastforce
  obtain st1 out1 where one: "rtp_push channel pt ts m [p] (st, out) = (st1, out1)" by fastforce
  have "push_all channel pt ts plan (st1, out1) = (st', out')"
    using Cons.prems(2) by (simp add: push_all_def mp one)
  from Cons.IH [OF rtp_push_holds(1) [OF Cons.prems(1) one] this] show ?case
    using rtp_push_holds(2-5) [OF Cons.prems(1) one] by (simp add: mp add_ac)
qed (simp add: push_all_def)

lemma packetize_spec:
  assumes "packetize info f channel st = (st', out)"
  shows "holds channel out (rtp_wire (pt_of (ti_codec info)) (of_int (fr_pts f)) (ps_ssrc st) (ps_seq st)
      (plan_of (ti_codec info) (fr_data f)))"
    and "ps_seq st' = ps_seq st + of_nat (length (bare out))"
    and "ps_packet_count st' = ps_packet_count st + of_nat (length (bare out))"
    and "ps_octet_count st' = ps_octet_count st + of_nat (sum_list (map (\<lambda>p. length p - 12) (bare out)))"
proof -
  define plan where "plan = plan_of (ti_codec info) (fr_data f)"
  have "holds channel packets_new []" by (simp add: holds_def packets_new_def)
  from push_all_spec [OF this, of "pt_of (ti_codec info)" "of_int (fr_pts f)" plan st st' out] assms
  have spec: "holds channel out (rtp_wire (pt_of (ti_codec info)) (of_int (fr_pts f)) (ps_ssrc st) (ps_seq st) plan)"
    "ps_seq st' = ps_seq st + of_nat (length plan)" "ps_packet_count st' = ps_packet_count st + of_nat (length plan)"
    "ps_octet_count st' = ps_octet_count st + of_nat (sum_list (map (length \<circ> snd) plan))"
    by (simp_all add: packetize_is_plan plan_def)
  have len: "length (rtp_wire pt ts ssrc seq plan) = length plan"
      "map (\<lambda>p. length p - 12) (rtp_wire pt ts ssrc seq plan) = map (length \<circ> snd) plan" for pt ts ssrc seq plan
    by (induction pt ts ssrc seq plan rule: rtp_wire.induct) simp_all
  show "holds channel out (rtp_wire (pt_of (ti_codec info)) (of_int (fr_pts f)) (ps_ssrc st) (ps_seq st)
      (plan_of (ti_codec info) (fr_data f)))"
    using spec(1) by (simp add: plan_def)
  show "ps_seq st' = ps_seq st + of_nat (length (bare out))"
    "ps_packet_count st' = ps_packet_count st + of_nat (length (bare out))"
    "ps_octet_count st' = ps_octet_count st + of_nat (sum_list (map (\<lambda>p. length p - 12) (bare out)))"
    using spec by (simp_all add: bare_holds [OF spec(1)] len)
qed

subsection \<open>The receiver\<close>

text \<open>A client that reads the interleaved connection.\<close>

function deinterleave :: "bytes \<Rightarrow> bytes list" where
  "deinterleave b =
     (if length b < 4 \<or> b ! 0 \<noteq> 0x24 then []
      else (let n = unat (be16 (b ! 2) (b ! 3)) in take n (drop 4 b) # deinterleave (drop (4 + n) b)))"
  by pat_completeness auto
termination
  by (relation "measure length") auto

declare deinterleave.simps [simp del]

lemma deinterleave_frames:
  "list_all (\<lambda>p. length p < 65536) ps \<Longrightarrow> deinterleave (concat (map (frame_packet channel) ps)) = ps"
proof (induction ps)
  case (Cons p ps)
  define rest where "rest = concat (map (frame_packet channel) ps)"
  define b where "b = frame_packet channel p @ rest"
  have "unat (of_nat (length p) :: u16) = length p"
    using Cons.prems by (simp add: unat_of_nat)
  then have n: "unat (be16 (b ! 2) (b ! 3)) = length p" "b ! 0 = 0x24" "\<not> length b < 4" "take (length p) (drop 4 b) = p"
    by (simp_all add: b_def frame_packet_def to_be16_def be16_to_be16)
  have "drop (4 + length p) b = rest" by (simp add: b_def)
  then have "deinterleave b = p # deinterleave rest"
    using n by (subst deinterleave.simps) simp
  then show ?case using Cons by (simp add: b_def rest_def)
qed (simp add: deinterleave.simps)

text \<open>Reassembly as RFC 6184 (single NAL units and FU-A) and RFC 7798 describe it.\<close>

fun depacketize_h264 :: "bytes option \<Rightarrow> bytes list \<Rightarrow> bytes list" where
  "depacketize_h264 cur [] = []"
| "depacketize_h264 cur ([] # ps) = depacketize_h264 cur ps"
| "depacketize_h264 cur ((b # r) # ps) =
     (if and b 0x1F \<noteq> 28 then (b # r) # depacketize_h264 None ps
      else case r of
          [] \<Rightarrow> depacketize_h264 None ps
        | h # frag \<Rightarrow>
           (let cur = (if bit h 7 then Some (or (and b 0xE0) (and h 0x1F) # frag) else map_option (\<lambda>c. c @ frag) cur) in
            if bit h 6 then (case cur of Some n \<Rightarrow> n # depacketize_h264 None ps | None \<Rightarrow> depacketize_h264 None ps)
            else depacketize_h264 cur ps))"

fun depacketize_h265 :: "bytes option \<Rightarrow> bytes list \<Rightarrow> bytes list" where
  "depacketize_h265 cur [] = []"
| "depacketize_h265 cur ((b # t # r) # ps) =
     (if and (drop_bit 1 b) 0x3F \<noteq> 49 then (b # t # r) # depacketize_h265 None ps
      else case r of
          [] \<Rightarrow> depacketize_h265 None ps
        | h # frag \<Rightarrow>
           (let cur = (if bit h 7 then Some (or (and b 0x81) (push_bit 1 (and h 0x3F)) # t # frag)
                       else map_option (\<lambda>c. c @ frag) cur) in
            if bit h 6 then (case cur of Some n \<Rightarrow> n # depacketize_h265 None ps | None \<Rightarrow> depacketize_h265 None ps)
            else depacketize_h265 cur ps))"
| "depacketize_h265 cur (_ # ps) = depacketize_h265 cur ps"

definition nal_h264 :: "bytes \<Rightarrow> bool" where
  "nal_h264 n \<longleftrightarrow> n = [] \<or> and (n ! 0) 0x1F \<noteq> 28"

definition nal_h265 :: "bytes \<Rightarrow> bool" where
  "nal_h265 n \<longleftrightarrow> length n < 2 \<or> and (drop_bit 1 (n ! 0)) 0x3F \<noteq> 49 \<and> \<not> bit (n ! 0) 7"


lemma less_8: "n < 8 \<longleftrightarrow> n = 0 \<or> n = 1 \<or> n = 2 \<or> n = 3 \<or> n = 4 \<or> n = 5 \<or> n = 6 \<or> n = (7::nat)"
  by arith

lemma fu_flags_h264:
  "bit (fu_flags (and b 0x1F) s e) 7 = s" "bit (fu_flags (and b 0x1F) s e) 6 = e"
  "and (fu_flags (and b 0x1F) s e) 0x1F = and b 0x1F"
proof -
  show "bit (fu_flags (and b 0x1F) s e) 7 = s" "bit (fu_flags (and b 0x1F) s e) 6 = e"
    by (auto simp: fu_flags_def Let_def bit_simps)
  show "and (fu_flags (and b 0x1F) s e) 0x1F = and b 0x1F"
    by (rule bit_word_eqI) (auto simp: fu_flags_def Let_def bit_simps less_8)
qed

lemma fu_flags_h265:
  "bit (fu_flags (and b 0x3F) s e) 7 = s" "bit (fu_flags (and b 0x3F) s e) 6 = e"
  "and (fu_flags (and b 0x3F) s e) 0x3F = and b 0x3F"
proof -
  show "bit (fu_flags (and b 0x3F) s e) 7 = s" "bit (fu_flags (and b 0x3F) s e) 6 = e"
    by (auto simp: fu_flags_def Let_def bit_simps)
  show "and (fu_flags (and b 0x3F) s e) 0x3F = and b 0x3F"
    by (rule bit_word_eqI) (auto simp: fu_flags_def Let_def bit_simps less_8)
qed

lemma fu_indicator_h264:
  "and (or (and b 0xE0) 28) 0x1F = (28::u8)" "or (and (or (and b 0xE0) 28) 0xE0) (and b 0x1F) = (b::u8)"
  by (rule bit_word_eqI; auto simp: bit_simps less_8)+

lemma fu_indicator_h265:
  "and (drop_bit 1 (or (push_bit 1 49) (and b 1))) 0x3F = (49::u8)"
  "\<not> bit b 7 \<Longrightarrow> or (and (or (push_bit 1 49) (and b 1)) 0x81) (push_bit 1 (and (drop_bit 1 b) 0x3F)) = (b::u8)"
  by (intro bit_word_eqI; auto simp: bit_simps less_8 bit_double_iff mult.commute [of _ "2::u8"] simp flip: numeral_2_eq_2)+

lemma depacketize_fragments_h264:
  assumes "cs \<noteq> []"
  shows "depacketize_h264 (Some n) (map snd (fu_plan (\<lambda>h. [or (and b 0xE0) 28, h]) (and b 0x1F) l False cs) @ ps) =
           (n @ concat cs) # depacketize_h264 None ps"
  using assms
proof (induction cs arbitrary: n)
  case (Cons c cs)
  show ?case
  proof (cases "cs = []")
    case False
    with Cons.IH [OF this, of "n @ c"] show ?thesis by (simp add: fu_indicator_h264 fu_flags_h264 Let_def)
  qed (simp add: fu_indicator_h264 fu_flags_h264 Let_def)
qed simp

lemma depacketize_nal_h264:
  assumes "cs \<noteq> []"
  shows "depacketize_h264 cur (map snd (fu_plan (\<lambda>h. [or (and b 0xE0) 28, h]) (and b 0x1F) l True cs) @ ps) =
           (b # concat cs) # depacketize_h264 None ps"
proof -
  obtain c cs' where cs: "cs = c # cs'" using assms by (cases cs) auto
  show ?thesis
    using depacketize_fragments_h264 [of cs' "b # c" b l ps]
    by (cases "cs' = []") (simp_all add: cs fu_indicator_h264 fu_flags_h264 Let_def)
qed

lemma depacketize_plan_h264:
  "list_all nal_h264 ns \<Longrightarrow> depacketize_h264 None (map snd (h264_plan ns)) = filter (\<lambda>n. n \<noteq> []) ns"
proof (induction ns)
  case (Cons n ns)
  show ?case
  proof (cases n)
    case (Cons b r)
    show ?thesis
    proof (cases "length n \<le> mtu")
      case False
      then have "chunks (mtu - 2) r \<noteq> []" "concat (chunks (mtu - 2) r) = r"
        using Cons by (auto simp: mtu_def chunks_empty_iff)
      then show ?thesis
        using Cons.IH Cons.prems False Cons depacketize_nal_h264 by simp
    qed (use Cons Cons.IH Cons.prems in \<open>simp add: nal_h264_def\<close>)
  qed (use Cons in simp)
qed simp


lemma depacketize_fragments_h265:
  assumes "cs \<noteq> []"
  shows "depacketize_h265 (Some n)
           (map snd (fu_plan (\<lambda>h. [or (push_bit 1 49) (and b 1), t, h]) (and (drop_bit 1 b) 0x3F) l False cs) @ ps) =
           (n @ concat cs) # depacketize_h265 None ps"
  using assms
proof (induction cs arbitrary: n)
  case (Cons c cs)
  show ?case
  proof (cases "cs = []")
    case False
    with Cons.IH [OF this, of "n @ c"] show ?thesis by (simp add: fu_indicator_h265(1) fu_flags_h265 Let_def del: push_bit_numeral)
  qed (simp add: fu_indicator_h265(1) fu_flags_h265 Let_def)
qed simp

lemma depacketize_nal_h265:
  assumes "cs \<noteq> []" and "\<not> bit b 7"
  shows "depacketize_h265 cur
           (map snd (fu_plan (\<lambda>h. [or (push_bit 1 49) (and b 1), t, h]) (and (drop_bit 1 b) 0x3F) l True cs) @ ps) =
           (b # t # concat cs) # depacketize_h265 None ps"
proof -
  obtain c cs' where cs: "cs = c # cs'" using assms(1) by (cases cs) auto
  show ?thesis
    using depacketize_fragments_h265 [of cs' "b # t # c" b t l ps] assms(2)
    by (cases "cs' = []") (simp_all add: cs fu_indicator_h265 [simplified] fu_flags_h265 [simplified] Let_def)
qed

lemma depacketize_plan_h265:
  "list_all nal_h265 ns \<Longrightarrow> depacketize_h265 None (map snd (h265_plan ns)) = filter (\<lambda>n. 2 \<le> length n) ns"
proof (induction ns)
  case (Cons n ns)
  show ?case
  proof (cases "length n < 2")
    case False
    then obtain b t r where n: "n = b # t # r" by (cases n; cases "tl n") auto
    show ?thesis
    proof (cases "length n \<le> mtu")
      case False
      then have "chunks (mtu - 3) r \<noteq> []" "concat (chunks (mtu - 3) r) = r"
        using n by (auto simp: mtu_def chunks_empty_iff)
      then show ?thesis
        using Cons.IH Cons.prems False n depacketize_nal_h265 by (simp add: nal_h265_def)
    qed (use n Cons.IH Cons.prems in \<open>simp add: nal_h265_def\<close>)
  qed (use Cons in simp)
qed simp


lemma fu_plan_sizes:
  assumes "\<And>h. length (fu h) = k" and "list_all (\<lambda>c. length c \<le> n) cs"
  shows "list_all (\<lambda>mp. length (snd mp) \<le> k + n) (fu_plan fu t l s cs)"
  using assms(2) by (induction cs arbitrary: s) (simp_all add: assms(1))

lemma plan_sizes:
  "list_all (\<lambda>mp. length (snd mp) \<le> mtu) (h264_plan ns)" "list_all (\<lambda>mp. length (snd mp) \<le> mtu) (h265_plan ns)"
proof -
  have small: "list_all (\<lambda>c. length c \<le> n) (chunks n xs)" for n and xs :: bytes
    using chunks_bounds by (auto simp: list_all_iff)
  show "list_all (\<lambda>mp. length (snd mp) \<le> mtu) (h264_plan ns)"
    using fu_plan_sizes [OF _ small, of _ 2 "mtu - 2"] by (induction ns) (auto simp: mtu_def)
  show "list_all (\<lambda>mp. length (snd mp) \<le> mtu) (h265_plan ns)"
    using fu_plan_sizes [OF _ small, of _ 3 "mtu - 3"] by (induction ns) (auto simp: mtu_def)
qed


lemma plan_of_sizes: "c \<noteq> Aac \<or> length data \<le> 1196 \<Longrightarrow> list_all (\<lambda>mp. length (snd mp) \<le> mtu) (plan_of c data)"
  using plan_sizes by (cases c) (simp_all add: aac_plan_def to_be16_def mtu_def)

text \<open>The packets of one access unit: consecutive sequence numbers, one timestamp, at most the last one marked.\<close>

text \<open>Reassembly of one access unit per packet as RFC 3640 describes it: the size in the header says how long it is.\<close>

definition depacketize_aac :: "bytes \<Rightarrow> bytes option" where
  "depacketize_aac p =
     (if length p < 4 \<or> be16 (p ! 0) (p ! 1) \<noteq> 16 then None
      else (let size = unat (drop_bit 3 (be16 (p ! 2) (p ! 3))) in
            if length p \<noteq> 4 + size then None else Some (take size (drop 4 p))))"

lemma aac_size: "n < 8192 \<Longrightarrow> unat (drop_bit 3 (push_bit 3 (and (of_nat n :: u16) 0x1FFF))) = n"
proof -
  assume n: "n < 8192"
  have mask: "(0x1FFF :: u16) = mask 13" by (simp add: mask_eq_exp_minus_1)
  have "drop_bit 3 (push_bit 3 (take_bit 13 (of_nat n :: u16))) = take_bit 13 (of_nat n)"
    by (rule bit_word_eqI) (auto simp: bit_simps)
  then have "drop_bit 3 (push_bit 3 (and (of_nat n :: u16) 0x1FFF)) = take_bit 13 (of_nat n)"
    unfolding mask by (simp add: take_bit_eq_mask)
  then show ?thesis using n by (simp add: unsigned_take_bit_eq unsigned_of_nat take_bit_nat_eq_self)
qed

lemma depacketize_aac_bytes:
  "depacketize_aac (to_be16 16 @ to_be16 w @ data) = (if length data = unat (drop_bit 3 w) then Some data else None)"
proof -
  have "be16 0 16 = 16" using be16_to_be16 [of 16] by simp
  then show ?thesis by (simp add: depacketize_aac_def to_be16_def be16_to_be16)
qed

lemma depacketize_aac_plan:
  assumes "length data < 8192"
  shows "map depacketize_aac (map snd (aac_plan data)) = [Some data]"
proof -
  have "map snd (aac_plan data) = [to_be16 16 @ to_be16 (push_bit 3 (and (of_nat (length data)) 0x1FFF)) @ data]"
    by (simp add: aac_plan_def)
  then show ?thesis using aac_size [OF assms] by (simp only: list.map depacketize_aac_bytes) simp
qed

text \<open>What a frame carries, and what a receiver that knows the codec makes of the payloads.\<close>

fun access_units :: "codec \<Rightarrow> bytes \<Rightarrow> bytes list" where
  "access_units H264 data = filter (\<lambda>n. n \<noteq> []) (avcc_nalus data)"
| "access_units H265 data = filter (\<lambda>n. 2 \<le> length n) (avcc_nalus data)"
| "access_units Aac data = [data]"
| "access_units _ data = []"

fun depacketize :: "codec \<Rightarrow> bytes list \<Rightarrow> bytes list" where
  "depacketize H264 ps = depacketize_h264 None ps"
| "depacketize H265 ps = depacketize_h265 None ps"
| "depacketize Aac ps = List.map_filter depacketize_aac ps"
| "depacketize _ ps = ps"

lemma rtp_wire_sizes:
  "list_all (\<lambda>mp. length (snd mp) < 65524) plan \<Longrightarrow> list_all (\<lambda>p. length p < 65536) (rtp_wire pt ts ssrc seq plan)"
  by (induction pt ts ssrc seq plan rule: rtp_wire.induct) auto

lemma rtp_wire_payloads: "map (drop 12) (rtp_wire pt ts ssrc seq plan) = map snd plan"
  by (induction pt ts ssrc seq plan rule: rtp_wire.induct) simp_all

lemma packets_fit_interleaving:
  assumes "packetize info f channel st = (st', out)" and "ti_codec info = Aac \<longrightarrow> length (fr_data f) < 8192"
  shows "deinterleave (framed out) = bare out"
proof -
  define plan where "plan = plan_of (ti_codec info) (fr_data f)"
  note spec = packetize_spec(1) [OF assms(1), folded plan_def]
  have "list_all (\<lambda>mp. length (snd mp) < 65524) plan"
  proof (cases "ti_codec info = Aac")
    case True
    then show ?thesis using assms(2) by (simp add: plan_def aac_plan_def to_be16_def)
  next
    case False
    then have "list_all (\<lambda>mp. length (snd mp) \<le> mtu) plan" unfolding plan_def by (intro plan_of_sizes) simp
    then show ?thesis by (auto simp: list_all_iff mtu_def)
  qed
  then have "list_all (\<lambda>p. length p < 65536) (bare out)" unfolding bare_holds [OF spec] by (rule rtp_wire_sizes)
  moreover have "framed out = concat (map (frame_packet channel) (bare out))"
    using spec bare_holds [OF spec] by (simp add: framed_def holds_def)
  ultimately show ?thesis by (simp add: deinterleave_frames)
qed

text \<open>
  Claim C33. A frame survives packetizing, on UDP and on TCP: a receiver that puts the packets' payloads together again as the
  RTP payload formats say, from bare packets or from what it splits off the interleaved bytes at their length fields, gets
  the frame's NAL units, byte for byte and in order, less the empty ones (H.265: those shorter than their header), or the AAC
  access unit, exactly as long as its size field says. The NAL units are none of the payload formats' own types (for H.265
  also with the forbidden bit zero), and an AAC access unit is below 8192 bytes, which its 13-bit size field can say.
\<close>

theorem rtp_depacketizes:
  assumes "ti_codec info = H264 \<Longrightarrow> list_all nal_h264 (avcc_nalus (fr_data f))"
    and "ti_codec info = H265 \<Longrightarrow> list_all nal_h265 (avcc_nalus (fr_data f))"
    and "ti_codec info = Aac \<Longrightarrow> length (fr_data f) < 8192"
    and "packetize info f channel st = (st', out)"
  shows "depacketize (ti_codec info) (map (drop 12) (bare out)) = access_units (ti_codec info) (fr_data f) \<and>
    depacketize (ti_codec info) (map (drop 12) (deinterleave (framed out))) = access_units (ti_codec info) (fr_data f)"
proof -
  have out: "map (drop 12) (bare out) = map snd (plan_of (ti_codec info) (fr_data f))"
    by (simp add: bare_holds [OF packetize_spec(1) [OF assms(4)]] rtp_wire_payloads)
  have "depacketize (ti_codec info) (map snd (plan_of (ti_codec info) (fr_data f))) = access_units (ti_codec info) (fr_data f)"
    using assms(1-3) depacketize_aac_plan [of "fr_data f"]
    by (cases "ti_codec info")
      (simp_all add: depacketize_plan_h264 depacketize_plan_h265 List.map_filter_def aac_plan_def)
  then show ?thesis using out packets_fit_interleaving [OF assms(4)] assms(3) by simp
qed

definition sample_track :: track_info where
  "sample_track = \<lparr>ti_id = TrackId 0, ti_codec = H264, ti_timescale = 90000, ti_init = [], ti_lang = None,
     ti_video = None, ti_audio = None\<rparr>"

definition sample_frame :: frame where
  "sample_frame = \<lparr>fr_track = TrackId 0, fr_dts = 3000, fr_pts = 3000, fr_keyframe = True,
     fr_data = [0, 0, 0, 2, 0x67, 1, 0, 0, 0, 3, 0x65, 4, 5]\<rparr>"

definition sample_state :: packet_state where
  "sample_state = \<lparr>ps_seq = 65535, ps_ssrc = 7, ps_packet_count = 0, ps_octet_count = 0, ps_last_ts = 0\<rparr>"

lemma sample_nalus: "avcc_nalus (fr_data sample_frame) = [[0x67, 1], [0x65, 4, 5]]"
  by (simp add: sample_frame_def avcc_nalus.simps be32_def)

theorem rtp_depacketizes_witness:
  "depacketize H264 (map (drop 12) (deinterleave (framed (snd (packetize sample_track sample_frame 0 sample_state))))) =
     [[0x67, 1], [0x65, 4, 5]]"
  using rtp_depacketizes [of sample_track sample_frame 0 sample_state
      "fst (packetize sample_track sample_frame 0 sample_state)" "snd (packetize sample_track sample_frame 0 sample_state)"]
  by (simp add: sample_track_def sample_nalus nal_h264_def)

subsection \<open>What goes on the wire\<close>

definition last_nal_sent :: "codec \<Rightarrow> bytes \<Rightarrow> bool" where
  "last_nal_sent c data \<longleftrightarrow>
     (case c of H264 \<Rightarrow> avcc_nalus data \<noteq> [] \<and> last (avcc_nalus data) \<noteq> []
      | H265 \<Rightarrow> avcc_nalus data \<noteq> [] \<and> 2 \<le> length (last (avcc_nalus data))
      | _ \<Rightarrow> True)"

fun marked_last :: "bool \<Rightarrow> plan \<Rightarrow> bool" where
  "marked_last b [] = True"
| "marked_last b ((m, p) # plan) = (m = (b \<and> plan = []) \<and> marked_last b plan)"

lemma marked_last_append: "(b \<Longrightarrow> ys \<noteq> []) \<Longrightarrow> marked_last False xs \<Longrightarrow> marked_last b ys \<Longrightarrow> marked_last b (xs @ ys)"
  by (induction xs) auto

lemma fu_plan_marked: "marked_last l (fu_plan fu t l s cs)"
proof (induction cs arbitrary: s)
  case (Cons c cs)
  then show ?case by (cases cs) auto
qed simp

lemma fu_plan_Nil_iff: "fu_plan fu t l s cs = [] \<longleftrightarrow> cs = []"
  by (cases cs) simp_all

lemma plan_not_empty:
  "ns \<noteq> [] \<Longrightarrow> last ns \<noteq> [] \<Longrightarrow> h264_plan ns \<noteq> []" "ns \<noteq> [] \<Longrightarrow> 2 \<le> length (last ns) \<Longrightarrow> h265_plan ns \<noteq> []"
  by (induction ns) (auto simp: fu_plan_Nil_iff chunks_empty_iff mtu_def split: if_splits)

lemma h264_plan_marked: "marked_last (ns \<noteq> [] \<and> last ns \<noteq> []) (h264_plan ns)"
proof (induction ns)
  case (Cons n ns)
  then show ?case
    using fu_plan_marked [of "ns = []"] plan_not_empty(1) [of ns]
    by (cases "ns = []") (auto intro!: marked_last_append)
qed simp

lemma h265_plan_marked: "marked_last (ns \<noteq> [] \<and> 2 \<le> length (last ns)) (h265_plan ns)"
proof (induction ns)
  case (Cons n ns)
  then show ?case
    using fu_plan_marked [of "ns = []"] plan_not_empty(2) [of ns]
    by (cases "ns = []") (auto intro!: marked_last_append)
qed simp

lemma plan_of_marked: "marked_last (last_nal_sent c data) (plan_of c data)"
  using h264_plan_marked h265_plan_marked
  by (cases c) (simp_all add: last_nal_sent_def aac_plan_def)

fun packets_ok :: "bool \<Rightarrow> u8 \<Rightarrow> u32 \<Rightarrow> u32 \<Rightarrow> u16 \<Rightarrow> bytes list \<Rightarrow> bool" where
  "packets_ok marked pt ts ssrc seq [] = True"
| "packets_ok marked pt ts ssrc seq (p # ps) =
     (take 12 p = rtp_header (marked \<and> ps = []) pt seq ts ssrc \<and> length p \<le> 12 + mtu \<and>
      packets_ok marked pt ts ssrc (seq + 1) ps)"

lemma rtp_wire_ok:
  "marked_last b plan \<Longrightarrow> list_all (\<lambda>mp. length (snd mp) \<le> mtu) plan \<Longrightarrow>
   packets_ok b pt ts ssrc seq (rtp_wire pt ts ssrc seq plan)"
proof (induction plan arbitrary: seq)
  case (Cons mp plan)
  have "rtp_wire pt ts ssrc (seq + 1) plan = [] \<longleftrightarrow> plan = []" by (cases plan) auto
  then show ?case using Cons by (cases mp) auto
qed simp

lemma packets_ok_sizes: "packets_ok b pt ts ssrc seq ps \<Longrightarrow> list_all (\<lambda>p. length p < 65536) ps"
  by (induction b pt ts ssrc seq ps rule: packets_ok.induct) (auto simp: mtu_def)

text \<open>
  The packets of a frame carry the session's sequence numbers without a gap, also across the wrap and from
  one frame to the next, the frame's timestamp and the sender's identifier; none is longer than the header and 1200
  bytes; only the last is marked, and it is unless the frame's last NAL unit was not sent. A player on TCP that
  splits what it reads at the length fields gets exactly the packets a player on UDP gets.
\<close>

theorem rtp_packets_wellformed:
  assumes "ti_codec info \<noteq> Aac \<or> length (fr_data f) \<le> 1196" and "packetize info f channel st = (st', out)"
  shows "packets_ok (last_nal_sent (ti_codec info) (fr_data f)) (pt_of (ti_codec info)) (of_int (fr_pts f)) (ps_ssrc st)
           (ps_seq st) (bare out) \<and>
         deinterleave (framed out) = bare out \<and> ps_seq st' = ps_seq st + of_nat (length (bare out)) \<and>
         ps_packet_count st' = ps_packet_count st + of_nat (length (bare out)) \<and>
         ps_octet_count st' = ps_octet_count st + of_nat (sum_list (map (\<lambda>p. length p - 12) (bare out)))"
proof -
  note spec = packetize_spec [OF assms(2)]
  have ok: "packets_ok (last_nal_sent (ti_codec info) (fr_data f)) (pt_of (ti_codec info)) (of_int (fr_pts f)) (ps_ssrc st)
      (ps_seq st) (bare out)"
    unfolding bare_holds [OF spec(1)] by (rule rtp_wire_ok [OF plan_of_marked plan_of_sizes [OF assms(1)]])
  have "framed out = concat (map (frame_packet channel) (bare out))"
    using spec(1) bare_holds [OF spec(1)] by (simp add: framed_def holds_def)
  then show ?thesis
    using ok spec(2-4) deinterleave_frames [OF packets_ok_sizes [OF ok]] by simp
qed

theorem rtp_packets_wellformed_witness:
  "deinterleave (framed (snd (packetize sample_track sample_frame 3 sample_state))) =
     bare (snd (packetize sample_track sample_frame 3 sample_state)) \<and>
   ps_seq (fst (packetize sample_track sample_frame 3 sample_state)) =
     65535 + of_nat (length (bare (snd (packetize sample_track sample_frame 3 sample_state))))"
  using rtp_packets_wellformed [of sample_track sample_frame 3 sample_state
      "fst (packetize sample_track sample_frame 3 sample_state)" "snd (packetize sample_track sample_frame 3 sample_state)"]
  by (simp add: sample_track_def sample_state_def)

end
