(* ===== verification/Rtsp_Session.thy ===== *)
theory Rtsp_Session
  imports Registry
begin

text \<open>
  One RTSP connection (\<open>crates/caudal-rtsp/src/server.rs\<close>): what each request does to the connection's state and
  what it is answered, with the port pool of \<open>udp.rs\<close>. A request comes parsed, as the RTSP library gives it. The
  registry it meets, the ports that are free and the random session identifier are arguments of every request.
\<close>

subsection \<open>UDP ports\<close>

record port_pool =
  pp_start :: nat
  pp_pairs :: nat
  pp_cursor :: nat

definition u16_max :: nat where "u16_max = 65535"

definition pool_new :: "nat \<times> nat \<Rightarrow> port_pool" where
  "pool_new r =
     (case r of (start, e) \<Rightarrow>
       (let start = (if start mod 2 = 0 then start else min (start + 1) u16_max); usable = e - start in
        \<lparr>pp_start = start, pp_pairs = max (usable div 2) 1, pp_cursor = 0\<rparr>))"

text \<open>
  \<open>allocate\<close>: \<open>free p\<close> says whether binding port \<open>p\<close> works. Adding past the last port panics in a debug build
  and wraps in a release build; port 0 is then any free port, like every other number for the socket.
\<close>

definition port_add :: "profile \<Rightarrow> nat \<Rightarrow> nat \<Rightarrow> nat option" where
  "port_add pr a b =
     (if a + b \<le> u16_max then Some (a + b) else (case pr of Debug \<Rightarrow> None | Release \<Rightarrow> Some ((a + b) mod 65536)))"

fun allocate_from :: "profile \<Rightarrow> (nat \<Rightarrow> bool) \<Rightarrow> nat \<Rightarrow> port_pool \<Rightarrow> (nat option \<times> port_pool) option" where
  "allocate_from pr free 0 pool = Some (None, pool)"
| "allocate_from pr free (Suc n) pool =
     (let idx = pp_cursor pool; pool = pool\<lparr>pp_cursor := (pp_cursor pool + 1) mod pp_pairs pool\<rparr> in
      case port_add pr (pp_start pool) (idx * 2) of
        None \<Rightarrow> None
      | Some rtp_port \<Rightarrow>
         (case port_add pr rtp_port 1 of
            None \<Rightarrow> None
          | Some rtcp_port \<Rightarrow>
              if free rtp_port \<and> free rtcp_port then Some (Some rtp_port, pool) else allocate_from pr free n pool))"

definition allocate :: "profile \<Rightarrow> (nat \<Rightarrow> bool) \<Rightarrow> port_pool \<Rightarrow> (nat option \<times> port_pool) option" where
  "allocate pr free pool = allocate_from pr free (pp_pairs pool) pool"

subsection \<open>Requests\<close>

datatype rtsp_method = OPTIONS | DESCRIBE | SETUP | PLAY | TEARDOWN | GET_PARAMETER | OtherMethod

datatype rtsp_status = StOk | BadRequest | Unauthorized | Forbidden | NotFound | MethodNotAllowed | SessionNotFound
  | MethodNotValidInThisState | UnsupportedTransport | InternalServerError

text \<open>One alternative of a \<open>Transport\<close> header; \<open>tr_rtp\<close> is false for what the library does not know.\<close>

record transport =
  tr_rtp :: bool
  tr_multicast :: bool
  tr_interleaved :: "(nat \<times> nat option) option"
  tr_client_port :: "(nat \<times> nat option) option"
  tr_lower_tcp :: bool

text \<open>\<open>rq_uri\<close>: the path segments (none for a URI that cannot have any) and the query pairs.\<close>

record rtsp_request =
  rq_method :: rtsp_method
  rq_uri :: "(string list option \<times> (string \<times> string) list) option"
  rq_cseq :: "string option"
  rq_session :: "string option"
  rq_transports :: "transport list option"

definition parse_uri :: "rtsp_request \<Rightarrow> (string \<times> string list \<times> string option) option" where
  "parse_uri req =
     (case rq_uri req of
        None \<Rightarrow> None
      | Some (path, query) \<Rightarrow>
         (let token = map_of query ''token'' in
          case path of
            None \<Rightarrow> None
          | Some ss \<Rightarrow>
             (let segments = filter (\<lambda>s. s \<noteq> []) ss in
              case segments of [] \<Rightarrow> None | name # _ \<Rightarrow> Some (name, segments, token))))"

datatype chosen = ChosenTcp nat nat | ChosenUdp nat nat

definition transport_choice :: "bool \<Rightarrow> transport \<Rightarrow> chosen option" where
  "transport_choice is_tls t =
     (if \<not> tr_rtp t then None
      else if tr_multicast t then None
      else case tr_interleaved t of
        Some (ch0, ch1) \<Rightarrow> Some (ChosenTcp ch0 (case ch1 of Some c \<Rightarrow> c | None \<Rightarrow> min (ch0 + 1) 255))
      | None \<Rightarrow>
          if is_tls then None
          else if tr_lower_tcp t then None
          else (case tr_client_port t of
              None \<Rightarrow> None
            | Some (cp0, cp1) \<Rightarrow> Some (ChosenUdp cp0 (case cp1 of Some c \<Rightarrow> c | None \<Rightarrow> min (cp0 + 1) u16_max))))"

fun choose_transport :: "transport list \<Rightarrow> bool \<Rightarrow> chosen option" where
  "choose_transport [] is_tls = None"
| "choose_transport (t # ts) is_tls =
     (case transport_choice is_tls t of Some c \<Rightarrow> Some c | None \<Rightarrow> choose_transport ts is_tls)"

subsection \<open>The connection\<close>

datatype play_transport = PlayTcp nat | PlayUdp nat nat nat

record conn_state =
  cs_session_id :: "string option"
  cs_stream_name :: "string option"
  cs_stream :: "nat option"
  cs_tracks :: "track_info list"
  cs_setups :: "(nat \<times> play_transport) list"
  cs_play :: "(nat \<times> track_info list \<times> (nat \<times> play_transport) list) option"
  cs_peer_ip :: ip_addr
  cs_is_tls :: bool
  cs_timeout_secs :: nat

definition conn_new :: "ip_addr \<Rightarrow> bool \<Rightarrow> nat \<Rightarrow> conn_state" where
  "conn_new peer is_tls timeout =
     \<lparr>cs_session_id = None, cs_stream_name = None, cs_stream = None, cs_tracks = [], cs_setups = [], cs_play = None,
      cs_peer_ip = peer, cs_is_tls = is_tls, cs_timeout_secs = timeout\<rparr>"

text \<open>
  What a request meets: the registry and its demand source, what allocating a port pair gave, the session
  identifier that would be drawn, and the body \<open>sdp.rs\<close> would build.
\<close>

record rtsp_env =
  re_registry :: registry
  re_demand :: "demand option"
  re_port :: "nat option"
  re_id :: string
  re_host :: string
  re_sdp :: "string \<Rightarrow> track_info list \<Rightarrow> string option \<Rightarrow> string"

type_synonym resp = "rtsp_status \<times> (string \<times> string) list \<times> string"

definition simple :: "rtsp_status \<Rightarrow> resp" where
  "simple status = (status, [], [])"

fun rtsp_denied :: "denied \<Rightarrow> resp" where
  "rtsp_denied Missing = (Unauthorized, [(''WWW-Authenticate'', ''Bearer'')], [])"
| "rtsp_denied (Refused _) = simple Forbidden"

definition stream_tracks_of :: "registry \<Rightarrow> nat \<Rightarrow> track_info list" where
  "stream_tracks_of reg s = rg_tracks (st_ring (stream_at reg s))"

definition handle_describe :: "rtsp_env \<Rightarrow> rtsp_request \<Rightarrow> conn_state \<Rightarrow> resp \<times> conn_state" where
  "handle_describe env req st =
     (case parse_uri req of
        None \<Rightarrow> (simple BadRequest, st)
      | Some (name, segments, token) \<Rightarrow>
         (case authorize (re_registry env) Play name token (Some (cs_peer_ip st)) of
            Inl d \<Rightarrow> (rtsp_denied d, st)
          | Inr _ \<Rightarrow>
             (case get_or_demand (re_demand env) (re_registry env) name of
                (None, _) \<Rightarrow> (simple NotFound, st)
              | (Some s, reg) \<Rightarrow>
                 (let tracks = stream_tracks_of reg s in
                  ((StOk, [(''Content-Base'', ''rtsp://'' @ re_host env @ ''/'' @ name @ ''/''),
                           (''Content-Type'', ''application/sdp'')], re_sdp env name tracks token),
                   st\<lparr>cs_stream_name := Some name, cs_stream := Some s, cs_tracks := tracks\<rparr>)))))"

definition session_mismatch :: "rtsp_request \<Rightarrow> conn_state \<Rightarrow> bool" where
  "session_mismatch req st =
     (case (rq_session req, cs_session_id st) of (Some sess, Some i) \<Rightarrow> i \<noteq> sess | _ \<Rightarrow> False)"

definition track_of_segment :: "string list \<Rightarrow> nat option" where
  "track_of_segment segments =
     (case segments of
        _ # s # _ \<Rightarrow> Option.bind (strip_prefix ''streamid='' s) parse_u32
      | _ \<Rightarrow> None)"

definition setup_transport :: "rtsp_env \<Rightarrow> chosen \<Rightarrow> (play_transport \<times> string) option" where
  "setup_transport env ch =
     (case ch of
        ChosenTcp ch0 ch1 \<Rightarrow>
          Some (PlayTcp ch0, ''RTP/AVP/TCP;unicast;interleaved='' @ decimal ch0 @ ''-'' @ decimal ch1)
      | ChosenUdp cp0 cp1 \<Rightarrow>
         (case re_port env of
            None \<Rightarrow> None
          | Some port \<Rightarrow>
              Some (PlayUdp port cp0 cp1,
                ''RTP/AVP;unicast;client_port='' @ decimal cp0 @ ''-'' @ decimal cp1 @ '';server_port='' @
                decimal port @ ''-'' @ decimal (port + 1))))"

definition handle_setup :: "rtsp_env \<Rightarrow> rtsp_request \<Rightarrow> conn_state \<Rightarrow> resp \<times> conn_state" where
  "handle_setup env req st =
     (case parse_uri req of
        None \<Rightarrow> (simple BadRequest, st)
      | Some (name, segments, _) \<Rightarrow>
         (case cs_stream_name st of
            None \<Rightarrow> (simple MethodNotValidInThisState, st)
          | Some stream_name \<Rightarrow>
              if name \<noteq> stream_name then (simple NotFound, st)
              else if session_mismatch req st then (simple SessionNotFound, st)
              else case track_of_segment segments of
                None \<Rightarrow> (simple BadRequest, st)
              | Some track_id \<Rightarrow>
                  if \<not> list_ex (\<lambda>t. ti_id t = TrackId (of_nat track_id)) (cs_tracks st) then (simple NotFound, st)
                  else case rq_transports req of
                    None \<Rightarrow> (simple UnsupportedTransport, st)
                  | Some ts \<Rightarrow>
                     (case choose_transport ts (cs_is_tls st) of
                        None \<Rightarrow> (simple UnsupportedTransport, st)
                      | Some ch \<Rightarrow>
                         (case setup_transport env ch of
                            None \<Rightarrow> (simple InternalServerError, st)
                          | Some (play, value) \<Rightarrow>
                              ((StOk, [(''Transport'', value)], []),
                               st\<lparr>cs_session_id := (case cs_session_id st of None \<Rightarrow> Some (re_id env) | i \<Rightarrow> i),
                                  cs_setups := AList.update track_id play (cs_setups st)\<rparr>)))))"

definition handle_play :: "rtsp_env \<Rightarrow> rtsp_request \<Rightarrow> conn_state \<Rightarrow> resp \<times> conn_state" where
  "handle_play env req st =
     (if session_mismatch req st then (simple SessionNotFound, st)
      else if cs_setups st = [] then (simple MethodNotValidInThisState, st)
      else case cs_stream_name st of
        None \<Rightarrow> (simple MethodNotValidInThisState, st)
      | Some stream_name \<Rightarrow>
         (let token = (case parse_uri req of Some (_, _, t) \<Rightarrow> t | None \<Rightarrow> None) in
          case authorize (re_registry env) Play stream_name token (Some (cs_peer_ip st)) of
            Inl d \<Rightarrow> (rtsp_denied d, st)
          | Inr _ \<Rightarrow>
             (case cs_stream st of
                None \<Rightarrow> (simple NotFound, st)
              | Some s \<Rightarrow>
                  if cs_play st \<noteq> None then (simple StOk, st)
                  else (simple StOk, st\<lparr>cs_play := Some (s, cs_tracks st, cs_setups st)\<rparr>))))"

definition handle_teardown :: "conn_state \<Rightarrow> resp \<times> conn_state" where
  "handle_teardown st = (simple StOk, st\<lparr>cs_play := None, cs_setups := []\<rparr>)"

definition public_methods :: string where
  "public_methods = ''OPTIONS, DESCRIBE, SETUP, PLAY, TEARDOWN, GET_PARAMETER''"

definition dispatch :: "rtsp_env \<Rightarrow> rtsp_request \<Rightarrow> conn_state \<Rightarrow> resp \<times> conn_state" where
  "dispatch env req st =
     (case rq_method req of
        OPTIONS \<Rightarrow> ((StOk, [(''Public'', public_methods)], []), st)
      | DESCRIBE \<Rightarrow> handle_describe env req st
      | SETUP \<Rightarrow> handle_setup env req st
      | PLAY \<Rightarrow> handle_play env req st
      | TEARDOWN \<Rightarrow> handle_teardown st
      | GET_PARAMETER \<Rightarrow> (simple StOk, st)
      | OtherMethod \<Rightarrow> (simple MethodNotAllowed, st))"

definition handle_request :: "rtsp_env \<Rightarrow> rtsp_request \<Rightarrow> conn_state \<Rightarrow> resp \<times> conn_state" where
  "handle_request env req st =
     (case dispatch env req st of
        ((status, headers, body), st) \<Rightarrow>
          ((status,
            (case rq_cseq req of Some c \<Rightarrow> [(''CSeq'', c)] | None \<Rightarrow> []) @
            (case cs_session_id st of
               Some i \<Rightarrow> [(''Session'', if rq_method req = SETUP then i @ '';timeout='' @ decimal (cs_timeout_secs st) else i)]
             | None \<Rightarrow> []) @ headers, body), st))"

fun connection :: "conn_state \<Rightarrow> (rtsp_env \<times> rtsp_request) list \<Rightarrow> conn_state" where
  "connection st [] = st"
| "connection st ((env, req) # rs) = connection (snd (handle_request env req st)) rs"


subsection \<open>Nothing plays that was not granted\<close>

type_synonym rtsp_history = "(rtsp_env \<times> rtsp_request) list"

text \<open>
  A DESCRIBE of \<open>n\<close> that the gate let through and that found the stream at \<open>s\<close> with \<open>tracks\<close>; a SETUP of its track \<open>k\<close> over \<open>p\<close>; a
  PLAY of \<open>n\<close> the gate let through.
\<close>

definition described_by :: "ip_addr \<Rightarrow> string \<Rightarrow> nat \<Rightarrow> track_info list \<Rightarrow> rtsp_env \<times> rtsp_request \<Rightarrow> bool" where
  "described_by ip n s tracks er =
     (case er of (env, req) \<Rightarrow> rq_method req = DESCRIBE \<and>
       (case parse_uri req of
          Some (name, _, token) \<Rightarrow> name = n \<and> authorize (re_registry env) Play n token (Some ip) = Inr () \<and>
            (case get_or_demand (re_demand env) (re_registry env) n of
               (Some s', reg) \<Rightarrow> s' = s \<and> tracks = stream_tracks_of reg s
             | (None, _) \<Rightarrow> False)
        | None \<Rightarrow> False))"

definition set_up_by :: "bool \<Rightarrow> string \<Rightarrow> nat \<Rightarrow> play_transport \<Rightarrow> rtsp_env \<times> rtsp_request \<Rightarrow> bool" where
  "set_up_by tls n k p er =
     (case er of (env, req) \<Rightarrow> rq_method req = SETUP \<and>
       (case parse_uri req of
          Some (name, segments, _) \<Rightarrow> name = n \<and> track_of_segment segments = Some k
        | None \<Rightarrow> False) \<and>
       (\<exists>ts ch v. rq_transports req = Some ts \<and> choose_transport ts tls = Some ch \<and> setup_transport env ch = Some (p, v)))"

definition granted_by :: "ip_addr \<Rightarrow> string \<Rightarrow> rtsp_env \<times> rtsp_request \<Rightarrow> bool" where
  "granted_by ip n er =
     (case er of (env, req) \<Rightarrow> rq_method req = PLAY \<and>
       authorize (re_registry env) Play n (case parse_uri req of Some (_, _, t) \<Rightarrow> t | None \<Rightarrow> None) (Some ip) = Inr ())"

definition no_teardown :: "rtsp_history \<Rightarrow> bool" where
  "no_teardown h \<longleftrightarrow> list_all (\<lambda>(_, req). rq_method req \<noteq> TEARDOWN) h"

text \<open>The last DESCRIBE that succeeded was \<open>n\<close>'s; track \<open>k\<close> was set up, after a DESCRIBE that named it, and not torn down.\<close>

definition last_described :: "ip_addr \<Rightarrow> string \<Rightarrow> nat \<Rightarrow> track_info list \<Rightarrow> rtsp_history \<Rightarrow> bool" where
  "last_described ip n s tracks h \<longleftrightarrow>
     (\<exists>ha d hb. h = ha @ d # hb \<and> described_by ip n s tracks d \<and> (\<forall>er\<in>set hb. \<forall>n s tracks. \<not> described_by ip n s tracks er))"

definition announced_set_up :: "ip_addr \<Rightarrow> bool \<Rightarrow> nat \<Rightarrow> play_transport \<Rightarrow> rtsp_history \<Rightarrow> bool" where
  "announced_set_up ip tls k p h \<longleftrightarrow>
     (\<exists>ha u hb n s tracks. h = ha @ u # hb \<and> last_described ip n s tracks ha \<and> TrackId (of_nat k) \<in> ti_id ` set tracks \<and>
        set_up_by tls n k p u \<and> no_teardown hb)"

definition played :: "ip_addr \<Rightarrow> bool \<Rightarrow> nat \<Rightarrow> track_info list \<Rightarrow> (nat \<times> play_transport) list \<Rightarrow> rtsp_history \<Rightarrow> bool" where
  "played ip tls s tracks tr h \<longleftrightarrow>
     (\<exists>ha g hb n. h = ha @ g # hb \<and> last_described ip n s tracks ha \<and> granted_by ip n g \<and> no_teardown hb \<and>
        tr \<noteq> [] \<and> (\<forall>(k, p)\<in>set tr. announced_set_up ip tls k p ha))"

definition transport_allowed :: "bool \<Rightarrow> play_transport \<Rightarrow> bool" where
  "transport_allowed is_tls p = (case p of PlayTcp _ \<Rightarrow> True | PlayUdp _ _ _ \<Rightarrow> \<not> is_tls)"

definition conn_ok :: "ip_addr \<Rightarrow> bool \<Rightarrow> rtsp_history \<Rightarrow> conn_state \<Rightarrow> bool" where
  "conn_ok ip tls h st \<longleftrightarrow> cs_peer_ip st = ip \<and> cs_is_tls st = tls \<and>
     (case cs_stream_name st of
        None \<Rightarrow> cs_stream st = None
      | Some n \<Rightarrow> (\<exists>s. cs_stream st = Some s \<and> last_described ip n s (cs_tracks st) h)) \<and>
     (\<forall>(k, p)\<in>set (cs_setups st). announced_set_up ip tls k p h) \<and>
     (case cs_play st of None \<Rightarrow> True | Some (s, tracks, tr) \<Rightarrow> played ip tls s tracks tr h)"

lemma choose_transport_allowed:
  "choose_transport ts tls = Some ch \<Longrightarrow> (case ch of ChosenTcp _ _ \<Rightarrow> True | ChosenUdp _ _ \<Rightarrow> \<not> tls)"
  by (induction ts) (auto simp: transport_choice_def split: option.splits if_splits)

lemma setup_transport_allowed:
  "choose_transport ts tls = Some ch \<Longrightarrow> setup_transport env ch = Some (p, v) \<Longrightarrow> transport_allowed tls p"
  using choose_transport_allowed [of ts tls ch]
  by (auto simp: setup_transport_def transport_allowed_def split: chosen.splits option.splits)

lemma announced_allowed: "announced_set_up ip tls k p h \<Longrightarrow> transport_allowed tls p"
  using setup_transport_allowed by (fastforce simp: announced_set_up_def set_up_by_def split: prod.splits)

text \<open>Another request is added to the history.\<close>

lemma last_described_longer:
  assumes "last_described ip n s tracks h" "\<And>n s tracks. \<not> described_by ip n s tracks er"
  shows "last_described ip n s tracks (h @ [er])"
proof -
  obtain ha d hb where "h = ha @ d # hb" "described_by ip n s tracks d" "\<forall>er\<in>set hb. \<forall>n s tracks. \<not> described_by ip n s tracks er"
    using assms(1) by (auto simp: last_described_def)
  with assms(2) show ?thesis unfolding last_described_def by (intro exI [of _ ha] exI [of _ d] exI [of _ "hb @ [er]"]) auto
qed

lemma announced_longer:
  assumes "announced_set_up ip tls k p h" "rq_method req \<noteq> TEARDOWN"
  shows "announced_set_up ip tls k p (h @ [(env, req)])"
proof -
  obtain ha u hb n s tracks where h: "h = ha @ u # hb" "last_described ip n s tracks ha" "TrackId (of_nat k) \<in> ti_id ` set tracks"
    "set_up_by tls n k p u" "no_teardown hb"
    using assms(1) unfolding announced_set_up_def by blast
  have "h @ [(env, req)] = ha @ u # (hb @ [(env, req)])" "no_teardown (hb @ [(env, req)])"
    using h assms(2) by (simp_all add: no_teardown_def)
  with h(2-4) show ?thesis unfolding announced_set_up_def by blast
qed

lemma played_longer:
  assumes "played ip tls s tracks tr h" "rq_method req \<noteq> TEARDOWN"
  shows "played ip tls s tracks tr (h @ [(env, req)])"
proof -
  obtain ha g hb n where h: "h = ha @ g # hb" "last_described ip n s tracks ha" "granted_by ip n g" "no_teardown hb"
    "tr \<noteq> []" "\<forall>(k, p)\<in>set tr. announced_set_up ip tls k p ha"
    using assms(1) unfolding played_def by blast
  have "h @ [(env, req)] = ha @ g # (hb @ [(env, req)])" "no_teardown (hb @ [(env, req)])"
    using h assms(2) by (simp_all add: no_teardown_def)
  with h(2,3,5,6) show ?thesis unfolding played_def by blast
qed

lemma conn_ok_longer:
  assumes "conn_ok ip tls h st" "rq_method req \<noteq> TEARDOWN" "\<And>n s tracks. \<not> described_by ip n s tracks (env, req)"
  shows "conn_ok ip tls (h @ [(env, req)]) st"
  using assms(1) last_described_longer [OF _ assms(3)] announced_longer [OF _ assms(2)] played_longer [OF _ assms(2)]
  unfolding conn_ok_def by (auto split: option.splits)

lemma not_described [simp]: "rq_method req \<noteq> DESCRIBE \<Longrightarrow> \<not> described_by ip n s tracks (env, req)"
  by (simp add: described_by_def)

lemma set_update: "set (AList.update k v xs) \<subseteq> insert (k, v) (set xs)"
  by (induction xs) auto

text \<open>A DESCRIBE succeeds as \<open>described_by\<close> says, or changes nothing.\<close>

lemma handle_describe_cases:
  assumes "rq_method req = DESCRIBE"
  obtains (found) n s tracks where "described_by (cs_peer_ip st) n s tracks (env, req)"
      "snd (handle_describe env req st) = st\<lparr>cs_stream_name := Some n, cs_stream := Some s, cs_tracks := tracks\<rparr>"
  | (refused) "\<And>n s tracks. \<not> described_by (cs_peer_ip st) n s tracks (env, req)" "snd (handle_describe env req st) = st"
proof (cases "parse_uri req")
  case None
  then show ?thesis by (intro refused) (simp_all add: described_by_def handle_describe_def)
next
  case (Some u)
  obtain name segments token where u: "u = (name, segments, token)" by (metis prod_cases3)
  obtain found reg where g: "get_or_demand (re_demand env) (re_registry env) name = (found, reg)" by fastforce
  show ?thesis
  proof (cases "authorize (re_registry env) Play name token (Some (cs_peer_ip st)) = Inr () \<and> found \<noteq> None")
    case True
    then show ?thesis
      using assms Some u g by (auto intro!: found simp: described_by_def handle_describe_def Let_def)
  next
    case False
    then show ?thesis
      using Some u g
      by (intro refused) (auto simp: described_by_def handle_describe_def split: sum.splits option.splits prod.splits)
  qed
qed

lemma handle_describe_ok:
  assumes ok: "conn_ok ip tls h st" and m: "rq_method req = DESCRIBE"
  shows "conn_ok ip tls (h @ [(env, req)]) (snd (handle_describe env req st))"
proof -
  have ip: "cs_peer_ip st = ip" using ok by (simp add: conn_ok_def)
  from m show ?thesis
  proof (cases rule: handle_describe_cases [where env = env and st = st])
    case (found n s tracks)
    have "last_described ip n s tracks (h @ [(env, req)])"
      using found(1) unfolding ip last_described_def by (intro exI [of _ h] exI [of _ "(env, req)"] exI [of _ "[]"]) simp
    then show ?thesis
      using ok announced_longer [of ip tls _ _ h req env] played_longer [of ip tls _ _ _ h req env] m
      by (auto simp: found(2) conn_ok_def split: option.splits)
  next
    case refused
    then show ?thesis using conn_ok_longer [OF ok, of req env] m ip by simp
  qed
qed

lemma handle_setup_ok:
  assumes ok: "conn_ok ip tls h st" and m: "rq_method req = SETUP"
  shows "conn_ok ip tls (h @ [(env, req)]) (snd (handle_setup env req st))"
proof -
  have same: "conn_ok ip tls (h @ [(env, req)]) st" using conn_ok_longer [OF ok] m by simp
  have tls: "cs_is_tls st = tls" using ok by (simp add: conn_ok_def)
  have "conn_ok ip tls (h @ [(env, req)]) (st\<lparr>cs_session_id := i, cs_setups := AList.update k p (cs_setups st)\<rparr>)"
    if asked: "set_up_by tls n k p (env, req)" and name: "cs_stream_name st = Some n"
      and k: "list_ex (\<lambda>t. ti_id t = TrackId (of_nat k)) (cs_tracks st)" for i k p n
  proof -
    have "TrackId (of_nat k) \<in> ti_id ` set (cs_tracks st)" using k unfolding list_ex_iff by (metis image_eqI)
    moreover
    obtain s where "last_described ip n s (cs_tracks st) h" using ok name by (auto simp: conn_ok_def)
    ultimately have "announced_set_up ip tls k p (h @ [(env, req)])"
      using asked unfolding announced_set_up_def no_teardown_def by fastforce
    then show ?thesis
      using same set_update [of k p "cs_setups st"] by (auto simp: conn_ok_def cong: option.case_cong)
  qed
  then show ?thesis
    using same m tls
    by (auto simp: handle_setup_def set_up_by_def split: option.splits prod.splits)
qed

lemma handle_play_ok:
  assumes ok: "conn_ok ip tls h st" and m: "rq_method req = PLAY"
  shows "conn_ok ip tls (h @ [(env, req)]) (snd (handle_play env req st))"
proof -
  have same: "conn_ok ip tls (h @ [(env, req)]) st" using conn_ok_longer [OF ok] m by simp
  have "conn_ok ip tls (h @ [(env, req)]) (st\<lparr>cs_play := Some (s, cs_tracks st, cs_setups st)\<rparr>)"
    if "cs_stream_name st = Some n" "cs_stream st = Some s" "cs_setups st \<noteq> []"
      "authorize (re_registry env) Play n (case parse_uri req of Some (_, _, t) \<Rightarrow> t | None \<Rightarrow> None) (Some (cs_peer_ip st)) = Inr ()"
    for n s
  proof -
    have "granted_by ip n (env, req)" using that(4) m ok by (simp add: granted_by_def conn_ok_def)
    moreover have "last_described ip n s (cs_tracks st) h" using ok that(1,2) by (simp add: conn_ok_def)
    moreover have "\<forall>(k, p)\<in>set (cs_setups st). announced_set_up ip tls k p h" using ok by (simp add: conn_ok_def)
    ultimately have "played ip tls s (cs_tracks st) (cs_setups st) (h @ [(env, req)])"
      using that(3) unfolding played_def no_teardown_def by fastforce
    then show ?thesis using same by (simp add: conn_ok_def cong: option.case_cong)
  qed
  then show ?thesis
    using same by (auto simp: handle_play_def Let_def split: option.splits sum.splits prod.splits)
qed

lemma handle_teardown_ok:
  assumes ok: "conn_ok ip tls h st" and m: "rq_method req = TEARDOWN"
  shows "conn_ok ip tls (h @ [(env, req)]) (snd (handle_teardown st))"
proof -
  have "\<not> described_by ip n s tracks (env, req)" for n s tracks using m by simp
  from last_described_longer [OF _ this] ok show ?thesis
    by (auto simp: conn_ok_def handle_teardown_def split: option.splits)
qed

lemma handle_request_ok:
  assumes ok: "conn_ok ip tls h st"
  shows "conn_ok ip tls (h @ [(env, req)]) (snd (handle_request env req st))"
proof -
  have "conn_ok ip tls (h @ [(env, req)]) (snd (dispatch env req st))"
    using conn_ok_longer [OF ok, of req env] handle_describe_ok [OF ok] handle_setup_ok [OF ok] handle_play_ok [OF ok]
      handle_teardown_ok [OF ok]
    by (cases "rq_method req") (simp_all add: dispatch_def)
  then show ?thesis by (simp add: handle_request_def case_prod_unfold)
qed

lemma connection_ok: "conn_ok ip tls h st \<Longrightarrow> conn_ok ip tls (h @ rs) (connection st rs)"
proof (induction st rs arbitrary: h rule: connection.induct)
  case (2 st env req rs)
  from 2(1) [OF handle_request_ok [OF 2(2)]] show ?case by simp
qed simp

text \<open>
  Claim C34. Whatever a client sends and however the registry changes between its requests, if a connection plays the stream
  \<open>s\<close> with \<open>tracks\<close>, then the client sent, in this order: a DESCRIBE the gate let through and that found \<open>s\<close> with these tracks, the
  last that succeeded; a PLAY of the same name the gate let through; and no TEARDOWN since. It plays at least one track, and
  each one was set up before the PLAY and after the last TEARDOWN, by a SETUP under the name of the last DESCRIBE before it
  and of a track that DESCRIBE found, over the transport that SETUP asked for; over TLS none of them leaves over UDP.
\<close>

theorem rtsp_plays_only_granted:
  "case cs_play (connection (conn_new ip tls timeout) rs) of
     None \<Rightarrow> True
   | Some (s, tracks, tr) \<Rightarrow> played ip tls s tracks tr rs \<and> list_all (\<lambda>(_, p). transport_allowed tls p) tr"
proof -
  have "conn_ok ip tls [] (conn_new ip tls timeout)" by (simp add: conn_ok_def conn_new_def)
  from connection_ok [OF this, of rs]
  have "case cs_play (connection (conn_new ip tls timeout) rs) of
     None \<Rightarrow> True | Some (s, tracks, tr) \<Rightarrow> played ip tls s tracks tr rs" by (simp add: conn_ok_def)
  moreover have "list_all (\<lambda>(_, p). transport_allowed tls p) tr" if "played ip tls s tracks tr rs" for s tracks tr
    using that announced_allowed unfolding played_def list_all_iff by blast
  ultimately show ?thesis by (auto split: option.splits)
qed

text \<open>A client that asks for the one track of an open stream does get it.\<close>

definition sample_env :: rtsp_env where
  "sample_env = \<lparr>re_registry = put_stream 0 (stream_new ''live'' buffer_config_default)
       (snd (publish registry_new ''live'' buffer_config_default)),
     re_demand = None, re_port = None, re_id = ''A'', re_host = ''h'', re_sdp = (\<lambda>_ _ _. [])\<rparr>"

definition sample_request :: "rtsp_method \<Rightarrow> string list \<Rightarrow> rtsp_request" where
  "sample_request m path = \<lparr>rq_method = m, rq_uri = Some (Some path, []), rq_cseq = None, rq_session = None,
     rq_transports = Some [\<lparr>tr_rtp = True, tr_multicast = False, tr_interleaved = Some (0, None),
       tr_client_port = None, tr_lower_tcp = True\<rparr>]\<rparr>"

lemma described_stream_plays:
  "cs_play (snd (handle_request sample_env (sample_request PLAY [''live''])
     ((conn_new ip True 60)\<lparr>cs_stream_name := Some ''live'', cs_stream := Some 0, cs_setups := [(0, PlayTcp 0)]\<rparr>))) =
   Some (0, [], [(0, PlayTcp 0)])"
  by (simp add: handle_request_def dispatch_def handle_play_def sample_request_def sample_env_def session_mismatch_def
      conn_new_def parse_uri_def authorize_def publish_def registry_new_def put_stream_def valid_stream_name_def)

subsection \<open>The range of ports\<close>

lemma allocate_from_range:
  assumes "pp_pairs pool > 0" and "pp_cursor pool < pp_pairs pool" and "pp_start pool + 2 * pp_pairs pool \<le> u16_max + 1"
  shows "\<exists>r pool'. allocate_from pr free n pool = Some (r, pool') \<and>
     (case r of None \<Rightarrow> True
      | Some p \<Rightarrow> pp_start pool \<le> p \<and> p + 1 < pp_start pool + 2 * pp_pairs pool \<and> (p - pp_start pool) mod 2 = 0 \<and>
                  free p \<and> free (p + 1))"
  using assms
proof (induction pr free n pool rule: allocate_from.induct)
  case (2 pr free n pool)
  define pool1 where "pool1 = pool\<lparr>pp_cursor := (pp_cursor pool + 1) mod pp_pairs pool\<rparr>"
  define p where "p = pp_start pool + pp_cursor pool * 2"
  have low: "p + 1 < pp_start pool + 2 * pp_pairs pool" using "2.prems"(2) by (simp add: p_def)
  then have ports: "port_add pr (pp_start pool) (pp_cursor pool * 2) = Some p" "port_add pr p 1 = Some (p + 1)"
    using "2.prems"(3) by (simp_all add: port_add_def p_def)
  show ?case
  proof (cases "free p \<and> free (p + 1)")
    case True
    then show ?thesis using low ports "2.prems" by (simp add: Let_def p_def)
  next
    case False
    have "allocate_from pr free (Suc n) pool = allocate_from pr free n pool1"
      using False ports by (cases "free p") (simp_all add: Let_def pool1_def)
    moreover have "pp_start pool1 = pp_start pool" "pp_pairs pool1 = pp_pairs pool" "pp_cursor pool1 < pp_pairs pool1"
      using "2.prems" by (simp_all add: pool1_def)
    moreover have "\<exists>r pool'. allocate_from pr free n pool1 = Some (r, pool') \<and>
     (case r of None \<Rightarrow> True
      | Some p \<Rightarrow> pp_start pool1 \<le> p \<and> p + 1 < pp_start pool1 + 2 * pp_pairs pool1 \<and> (p - pp_start pool1) mod 2 = 0 \<and>
                  free p \<and> free (p + 1))"
      by (rule "2.IH" [of "pp_cursor pool" pool1 p "p + 1"]) (use "2.prems" ports False in \<open>simp_all add: pool1_def\<close>)
    ultimately show ?thesis by (simp del: allocate_from.simps cong: option.case_cong)
  qed
qed simp

lemma pool_new_range: "start + 2 \<le> e \<Longrightarrow> e \<le> u16_max \<Longrightarrow> pp_start (pool_new (start, e)) mod 2 = 0 \<and>
    start \<le> pp_start (pool_new (start, e)) \<and> pp_start (pool_new (start, e)) + 2 * pp_pairs (pool_new (start, e)) \<le> e + 1"
  by (auto simp: pool_new_def u16_max_def Let_def max_def min_def) presburger+

text \<open>The last pair of an inclusive range such as the default one is never handed out.\<close>

lemma default_range_loses_a_pair:
  "pp_start (pool_new (8000, 8999)) + 2 * pp_pairs (pool_new (8000, 8999)) = 8998"
  by (simp add: pool_new_def)

end
