(* ===== verification/Record_Schedule.thy ===== *)
theory Record_Schedule
  imports Prelude
begin

text \<open>
  Recording schedules (\<open>crates/caudal-record/src/schedule.rs\<close>): rules and their windows, the task that opens and
  closes a rule's gate, and the merging of several gates into one. Timestamps are nanoseconds. The time zone and
  cron libraries (\<open>jiff\<close>, \<open>croner\<close>) are arguments: \<open>cron_lib\<close> holds the functions the code calls.
\<close>

subsection \<open>Rules\<close>

record schedule_config =
  sd_streams :: "string list"
  sd_start :: "string option"
  sd_cron :: "string option"
  sd_tz :: "string option"
  sd_duration_secs :: nat

type_synonym timestamp = int

record rec_window =
  wn_start :: timestamp
  wn_end :: timestamp

datatype sched_kind = Once timestamp | Cron string "string option"

record sched_rule =
  sr_streams :: "string list"
  sr_kind :: sched_kind
  sr_duration_secs :: int

datatype sched_error = NeedsPattern | ZeroDuration | BothKinds | NeitherKind | BadStart string | BadTz string | BadCron string

text \<open>
  \<open>cl_prev\<close> is \<open>find_previous_occurrence\<close>, inclusive, \<open>cl_next\<close> is \<open>find_next_occurrence\<close>, exclusive; \<open>None\<close> where they
  fail. \<open>cl_from_second\<close> is \<open>Timestamp::from_second\<close>, which has a range.
\<close>

record cron_lib =
  cl_parse :: "string \<Rightarrow> timestamp option"
  cl_zone :: "string \<Rightarrow> bool"
  cl_cron :: "string \<Rightarrow> bool"
  cl_prev :: "string \<Rightarrow> string option \<Rightarrow> timestamp \<Rightarrow> timestamp option"
  cl_next :: "string \<Rightarrow> string option \<Rightarrow> timestamp \<Rightarrow> timestamp option"
  cl_from_second :: "int \<Rightarrow> timestamp option"

definition nanos :: int where "nanos = 10 ^ 9"

text \<open>\<open>Timestamp::as_second\<close> cuts towards zero.\<close>

definition as_second :: "timestamp \<Rightarrow> int" where
  "as_second ts = ts sdiv nanos"

definition add_secs :: "cron_lib \<Rightarrow> timestamp \<Rightarrow> int \<Rightarrow> timestamp option" where
  "add_secs lib ts secs =
     (if in_i64 (as_second ts + secs) then cl_from_second lib (as_second ts + secs) else None)"

definition rule_parse :: "cron_lib \<Rightarrow> schedule_config \<Rightarrow> sched_error + sched_rule" where
  "rule_parse lib cfg =
     (if sd_streams cfg = [] then Inl NeedsPattern
      else if sd_duration_secs cfg = 0 then Inl ZeroDuration
      else (let rule = (\<lambda>k. Inr \<lparr>sr_streams = sd_streams cfg, sr_kind = k, sr_duration_secs = int (sd_duration_secs cfg)\<rparr>) in
        case (sd_start cfg, sd_cron cfg) of
          (Some _, Some _) \<Rightarrow> Inl BothKinds
        | (None, None) \<Rightarrow> Inl NeitherKind
        | (Some s, None) \<Rightarrow> (case cl_parse lib s of None \<Rightarrow> Inl (BadStart s) | Some ts \<Rightarrow> rule (Once ts))
        | (None, Some expr) \<Rightarrow>
           (case sd_tz cfg of
              Some name \<Rightarrow>
                if \<not> cl_zone lib name then Inl (BadTz name)
                else if \<not> cl_cron lib expr then Inl (BadCron expr) else rule (Cron expr (Some name))
            | None \<Rightarrow> if \<not> cl_cron lib expr then Inl (BadCron expr) else rule (Cron expr None))))"

definition next_after :: "cron_lib \<Rightarrow> sched_rule \<Rightarrow> timestamp \<Rightarrow> rec_window option" where
  "next_after lib r now =
     (case sr_kind r of
        Once start \<Rightarrow>
          (case add_secs lib start (sr_duration_secs r) of
             None \<Rightarrow> None
           | Some e \<Rightarrow> if e > now then Some \<lparr>wn_start = start, wn_end = e\<rparr> else None)
      | Cron expr tz \<Rightarrow>
         (let later = (case cl_next lib expr tz now of
              None \<Rightarrow> None
            | Some start \<Rightarrow>
               (case add_secs lib start (sr_duration_secs r) of
                  None \<Rightarrow> None
                | Some e \<Rightarrow> Some \<lparr>wn_start = start, wn_end = e\<rparr>))
          in case cl_prev lib expr tz now of
               None \<Rightarrow> later
             | Some start \<Rightarrow>
                (case add_secs lib start (sr_duration_secs r) of
                   Some e \<Rightarrow> if e > now then Some \<lparr>wn_start = start, wn_end = e\<rparr> else later
                 | None \<Rightarrow> later)))"

fun validate_from :: "cron_lib \<Rightarrow> nat \<Rightarrow> schedule_config list \<Rightarrow> (nat \<times> sched_error) option" where
  "validate_from lib i [] = None"
| "validate_from lib i (c # cs) =
     (case rule_parse lib c of Inl e \<Rightarrow> Some (i + 1, e) | Inr _ \<Rightarrow> validate_from lib (i + 1) cs)"

definition validate_schedules :: "cron_lib \<Rightarrow> schedule_config list \<Rightarrow> (nat \<times> sched_error) option" where
  "validate_schedules lib cfgs = validate_from lib 0 cfgs"

definition pattern_matches :: "string list \<Rightarrow> string \<Rightarrow> bool" where
  "pattern_matches patterns name =
     list_ex (\<lambda>p. case strip_suffix_char CHR ''*'' p of
        Some pre \<Rightarrow> strip_prefix pre name \<noteq> None
      | None \<Rightarrow> p = name) patterns"

definition scheduler_rules :: "cron_lib \<Rightarrow> schedule_config list \<Rightarrow> sched_rule list" where
  "scheduler_rules lib cfgs = List.map_filter (\<lambda>c. case rule_parse lib c of Inr r \<Rightarrow> Some r | Inl _ \<Rightarrow> None) cfgs"

text \<open>\<open>gate_for\<close>: which rules' gates a stream's gate is made of; none is no gate, several are merged.\<close>

definition gate_rules :: "sched_rule list \<Rightarrow> string \<Rightarrow> sched_rule list" where
  "gate_rules rules name = filter (\<lambda>r. pattern_matches (sr_streams r) name) rules"

record schedule_status =
  ss_streams :: "string list"
  ss_active :: bool
  ss_next :: "rec_window option"

definition describe_rule :: "cron_lib \<Rightarrow> timestamp \<Rightarrow> sched_rule \<Rightarrow> schedule_status" where
  "describe_rule lib now r =
     (let window = next_after lib r now in
      \<lparr>ss_streams = sr_streams r, ss_active = (case window of Some w \<Rightarrow> wn_start w \<le> now | None \<Rightarrow> False), ss_next = window\<rparr>)"

subsection \<open>The task of a rule\<close>

text \<open>
  One turn of the loop: the time it asked for its window, the time it opened the gate (after sleeping until the
  start, if that was ahead) and the time it closed it (after sleeping until the end, if that was ahead). Sleeps are
  never too short; how much longer they take is free.
\<close>

record turn =
  tn_asked :: timestamp
  tn_opened :: timestamp
  tn_closed :: timestamp

definition turn_timely :: "rec_window \<Rightarrow> turn \<Rightarrow> bool" where
  "turn_timely w t \<longleftrightarrow>
     (if wn_start w > tn_asked t then tn_opened t \<ge> wn_start w else tn_opened t \<ge> tn_asked t) \<and>
     (if wn_end w > tn_opened t then tn_closed t \<ge> wn_end w else tn_closed t \<ge> tn_opened t)"

text \<open>The windows of a run, with the turns that served them; it stops where the code returns or the turns do.\<close>

fun rule_turns :: "cron_lib \<Rightarrow> sched_rule \<Rightarrow> turn list \<Rightarrow> (rec_window \<times> turn) list" where
  "rule_turns lib r [] = []"
| "rule_turns lib r (t # ts) =
     (case next_after lib r (tn_asked t) of
        None \<Rightarrow> []
      | Some w \<Rightarrow> (w, t) # (case sr_kind r of Once _ \<Rightarrow> [] | Cron _ _ \<Rightarrow> rule_turns lib r ts))"

fun turns_ordered :: "turn list \<Rightarrow> bool" where
  "turns_ordered [] = True"
| "turns_ordered [t] = True"
| "turns_ordered (t # t' # ts) \<longleftrightarrow> tn_closed t \<le> tn_asked t' \<and> turns_ordered (t' # ts)"

subsection \<open>Windows\<close>

text \<open>What the libraries are documented to do, for a set of occurrences \<open>occ\<close> of every expression.\<close>

definition cron_laws :: "cron_lib \<Rightarrow> (string \<Rightarrow> string option \<Rightarrow> timestamp \<Rightarrow> bool) \<Rightarrow> bool" where
  "cron_laws lib occ \<longleftrightarrow>
     (\<forall>s t. cl_from_second lib s = Some t \<longrightarrow> t = s * nanos) \<and>
     (\<forall>x z t. occ x z t \<longrightarrow> t mod nanos = 0) \<and>
     (\<forall>x z now p. cl_prev lib x z now = Some p \<longrightarrow> occ x z p \<and> p \<le> now \<and> (\<forall>t. occ x z t \<longrightarrow> t \<le> now \<longrightarrow> t \<le> p)) \<and>
     (\<forall>x z now. cl_prev lib x z now = None \<longrightarrow> (\<forall>t. occ x z t \<longrightarrow> now < t)) \<and>
     (\<forall>x z now n. cl_next lib x z now = Some n \<longrightarrow> occ x z n \<and> now < n \<and> (\<forall>t. occ x z t \<longrightarrow> now < t \<longrightarrow> n \<le> t))"

lemma add_secs_exact:
  assumes "\<forall>s t. cl_from_second lib s = Some t \<longrightarrow> t = s * nanos" and "add_secs lib ts d = Some e" and "ts mod nanos = 0"
  shows "e = ts + d * nanos"
proof -
  obtain k where k: "ts = k * nanos" using assms(3) by (metis dvd_def mod_0_imp_dvd mult.commute)
  then have "as_second ts = k"
    by (cases "k \<ge> 0") (simp_all add: as_second_def nanos_def sdiv_nonneg sdiv_neg not_le)
  then have "e = (k + d) * nanos" using assms(1,2) by (auto simp: add_secs_def split: if_splits)
  then show ?thesis using k by (simp add: algebra_simps)
qed

definition serves :: "(timestamp \<Rightarrow> bool) \<Rightarrow> int \<Rightarrow> timestamp \<Rightarrow> rec_window \<Rightarrow> bool" where
  "serves occ d now w \<longleftrightarrow> occ (wn_start w) \<and> wn_end w = wn_start w + d \<and>
     (if wn_start w \<le> now then now < wn_end w \<and> (\<forall>t. occ t \<longrightarrow> t \<le> now \<longrightarrow> t \<le> wn_start w)
      else (\<forall>t. occ t \<longrightarrow> now < t + d \<longrightarrow> wn_start w \<le> t))"

lemma next_after_cron:
  assumes laws: "cron_laws lib occ" and kind: "sr_kind r = Cron x z" and w: "next_after lib r now = Some w"
    and range: "\<And>p. cl_prev lib x z now = Some p \<Longrightarrow> add_secs lib p (sr_duration_secs r) \<noteq> None"
  shows "serves (occ x z) (sr_duration_secs r * nanos) now w"
proof -
  define d where "d = sr_duration_secs r * nanos"
  have fs: "\<forall>s t. cl_from_second lib s = Some t \<longrightarrow> t = s * nanos"
    and whole: "\<And>t. occ x z t \<Longrightarrow> t mod nanos = 0"
    and prev: "\<And>p. cl_prev lib x z now = Some p \<Longrightarrow> occ x z p \<and> p \<le> now \<and> (\<forall>t. occ x z t \<longrightarrow> t \<le> now \<longrightarrow> t \<le> p)"
    and none: "cl_prev lib x z now = None \<Longrightarrow> \<forall>t. occ x z t \<longrightarrow> now < t"
    and nxt: "\<And>n. cl_next lib x z now = Some n \<Longrightarrow> occ x z n \<and> now < n \<and> (\<forall>t. occ x z t \<longrightarrow> now < t \<longrightarrow> n \<le> t)"
    using laws unfolding cron_laws_def by blast+
  have exact: "e = s + d" if "add_secs lib s (sr_duration_secs r) = Some e" "occ x z s" for s e
    using add_secs_exact [OF fs that(1) whole [OF that(2)]] by (simp add: d_def)
  define add where "add p = add_secs lib p (sr_duration_secs r)" for p
  consider (before) p where "cl_prev lib x z now = Some p" "wn_start w = p" "add p = Some (wn_end w)" "now < wn_end w"
    | (after) n where "cl_next lib x z now = Some n" "wn_start w = n" "add n = Some (wn_end w)"
      "\<forall>p e. cl_prev lib x z now = Some p \<longrightarrow> add p = Some e \<longrightarrow> e \<le> now"
    using w kind unfolding next_after_def Let_def add_def [symmetric]
    by (cases "cl_prev lib x z now"; cases "cl_next lib x z now") (auto split: option.splits if_splits)
  then show ?thesis
  proof cases
    case before
    then show ?thesis
      using prev exact unfolding serves_def d_def add_def by auto
  next
    case after
    have start: "occ x z n" "now < n" and least: "\<And>t. occ x z t \<Longrightarrow> now < t \<Longrightarrow> n \<le> t"
      using nxt [OF after(1)] by auto
    have "n \<le> t" if t: "occ x z t" "now < t + d" for t
    proof (cases "now < t")
      case False
      then obtain p where p: "cl_prev lib x z now = Some p" "t \<le> p" "occ x z p"
        using none prev t(1) by (cases "cl_prev lib x z now") auto
      then obtain e where "add_secs lib p (sr_duration_secs r) = Some e" using range by auto
      then have "p + d \<le> now" using after(4) p(1) exact [OF _ p(3)] by (auto simp: add_def)
      then show ?thesis using p(2) t(2) by simp
    qed (use least t in auto)
    then show ?thesis
      using start exact [OF after(3) [unfolded add_def]] after(2) unfolding serves_def d_def by auto
  qed
qed


text \<open>The latest window of a recurring rule ends within the range of timestamps.\<close>

definition ends_in_range :: "cron_lib \<Rightarrow> sched_rule \<Rightarrow> timestamp \<Rightarrow> bool" where
  "ends_in_range lib r now =
     (case sr_kind r of
        Cron x z \<Rightarrow> (case cl_prev lib x z now of Some p \<Rightarrow> add_secs lib p (sr_duration_secs r) \<noteq> None | None \<Rightarrow> True)
      | Once _ \<Rightarrow> True)"

text \<open>
  When a rule's windows begin, and when one that begins at \<open>t\<close> ends: on a whole second, as \<open>add_secs\<close> cuts its start. A
  window is the right one at \<open>now\<close> if it is the open one that began last or, with none open, the first to come.
\<close>

definition rule_occ :: "(string \<Rightarrow> string option \<Rightarrow> timestamp \<Rightarrow> bool) \<Rightarrow> sched_rule \<Rightarrow> timestamp \<Rightarrow> bool" where
  "rule_occ occ r t = (case sr_kind r of Once s \<Rightarrow> t = s | Cron x z \<Rightarrow> occ x z t)"

definition rule_end :: "sched_rule \<Rightarrow> timestamp \<Rightarrow> timestamp" where
  "rule_end r t = (as_second t + sr_duration_secs r) * nanos"

definition serves_rule :: "(timestamp \<Rightarrow> bool) \<Rightarrow> (timestamp \<Rightarrow> timestamp) \<Rightarrow> timestamp \<Rightarrow> rec_window \<Rightarrow> bool" where
  "serves_rule occ ends now w \<longleftrightarrow> occ (wn_start w) \<and> wn_end w = ends (wn_start w) \<and> now < wn_end w \<and>
     (if wn_start w \<le> now then \<forall>t. occ t \<longrightarrow> t \<le> now \<longrightarrow> t \<le> wn_start w
      else \<forall>t. occ t \<longrightarrow> now < ends t \<longrightarrow> wn_start w \<le> t)"

lemma rule_end_add_secs: "cron_laws lib occ \<Longrightarrow> add_secs lib t (sr_duration_secs r) = Some e \<Longrightarrow> e = rule_end r t"
  by (auto simp: cron_laws_def add_secs_def rule_end_def split: if_splits)

lemma as_second_whole: "t mod nanos = 0 \<Longrightarrow> as_second t * nanos = t"
proof -
  assume "t mod nanos = 0"
  then obtain k where k: "t = k * nanos" by (metis dvd_def mod_0_imp_dvd mult.commute)
  then have "as_second t = k"
    by (cases "k \<ge> 0") (simp_all add: as_second_def nanos_def sdiv_nonneg sdiv_neg not_le)
  then show ?thesis using k by simp
qed

lemma rule_end_whole: "cron_laws lib occ \<Longrightarrow> occ x z t \<Longrightarrow> rule_end r t = t + sr_duration_secs r * nanos"
  using as_second_whole by (simp add: cron_laws_def rule_end_def distrib_right)

text \<open>Without a window, no recurring one is open.\<close>

lemma no_window_cron:
  assumes laws: "cron_laws lib occ" and kind: "sr_kind r = Cron x z" and none: "next_after lib r now = None"
    and range: "ends_in_range lib r now" and t: "occ x z t" "t \<le> now"
  shows "rule_end r t \<le> now"
proof -
  obtain p where p: "cl_prev lib x z now = Some p" "t \<le> p" "occ x z p"
    using laws t unfolding cron_laws_def by (metis linorder_not_less not_None_eq)
  obtain e where e: "add_secs lib p (sr_duration_secs r) = Some e"
    using range p(1) kind by (auto simp: ends_in_range_def)
  then have "e \<le> now" using none kind p(1) by (auto simp: next_after_def Let_def split: if_splits)
  then show ?thesis
    using rule_end_add_secs [OF laws e] rule_end_whole [OF laws p(3), of r] rule_end_whole [OF laws t(1), of r] p(2) by simp
qed

lemma parsed_duration: "rule_parse lib cfg = Inr r \<Longrightarrow> 0 < sr_duration_secs r"
  by (auto simp: rule_parse_def Let_def split: if_splits option.splits)

lemma next_after_later:
  assumes laws: "cron_laws lib occ" and w: "next_after lib r now = Some w" and kind: "sr_kind r = Cron x z"
  shows "wn_end w = wn_start w + sr_duration_secs r * nanos"
proof -
  have "occ x z (wn_start w) \<and> add_secs lib (wn_start w) (sr_duration_secs r) = Some (wn_end w)"
    using w kind laws unfolding next_after_def cron_laws_def Let_def by (auto split: option.splits if_splits)
  then show ?thesis using rule_end_add_secs [OF laws] rule_end_whole [OF laws] by metis
qed

text \<open>
  Claim C35. Every rule, one-off or recurring, reports the window that is open, the latest one that began if several
  overlap, and otherwise the first one to come: it begins when the rule says, ends the configured seconds later (on a whole
  second) and has not ended, and no occurrence whose window is still to end begins before it unless a later one is already
  open. A rule that reports none has no open window, and a one-off rule then has none to come either. This is as long as the
  windows end in the range of the time library, which is assumed of the latest one that a recurring rule began.
\<close>

theorem next_window_serves:
  assumes "cron_laws lib occ" and "ends_in_range lib r now" and "rule_parse lib cfg = Inr r"
  shows "case next_after lib r now of
      Some w \<Rightarrow> serves_rule (rule_occ occ r) (rule_end r) now w
    | None \<Rightarrow> \<forall>t. rule_occ occ r t \<longrightarrow> add_secs lib t (sr_duration_secs r) \<noteq> None \<longrightarrow> t \<le> now \<or> (\<exists>s. sr_kind r = Once s) \<longrightarrow>
        rule_end r t \<le> now"
proof (cases "sr_kind r")
  case (Once s)
  then show ?thesis
    using rule_end_add_secs [OF assms(1), of s r]
    by (auto simp: next_after_def rule_occ_def serves_rule_def split: option.splits)
next
  case (Cron x z)
  show ?thesis
  proof (cases "next_after lib r now")
    case None
    then show ?thesis using no_window_cron [OF assms(1) Cron None assms(2)] Cron by (simp add: rule_occ_def)
  next
    case (Some w)
    have "serves (occ x z) (sr_duration_secs r * nanos) now w"
      by (rule next_after_cron [OF assms(1) Cron Some]) (use assms(2) Cron in \<open>auto simp: ends_in_range_def\<close>)
    moreover have "now < wn_end w" if "\<not> wn_start w \<le> now"
      using that next_after_later [OF assms(1) Some Cron] parsed_duration [OF assms(3)] by (simp add: nanos_def)
    ultimately show ?thesis
      using rule_end_whole [OF assms(1), of x z _ r] Some Cron
      by (cases "wn_start w \<le> now") (simp_all add: serves_def serves_rule_def rule_occ_def)
  qed
qed

text \<open>A library in which every expression occurs every minute.\<close>

definition minute :: int where "minute = 60 * nanos"

definition minute_lib :: cron_lib where
  "minute_lib = \<lparr>cl_parse = (\<lambda>_. Some (500000000 + 90 * nanos)), cl_zone = (\<lambda>_. True), cl_cron = (\<lambda>_. True),
     cl_prev = (\<lambda>_ _ now. Some (now - now mod minute)), cl_next = (\<lambda>_ _ now. Some (now - now mod minute + minute)),
     cl_from_second = (\<lambda>s. Some (s * nanos))\<rparr>"

definition every_minute :: "string \<Rightarrow> string option \<Rightarrow> timestamp \<Rightarrow> bool" where
  "every_minute x z t \<longleftrightarrow> t mod minute = 0"

lemma minute_pos: "0 < minute"
  by (simp add: minute_def nanos_def)

lemma minute_floor: "minute * (now div minute) \<le> now" "now < minute * (now div minute) + minute"
  using pos_mod_sign [OF minute_pos, of now] pos_mod_bound [OF minute_pos, of now] mult_div_mod_eq [of minute now]
  by linarith+

lemma minute_multiple:
  assumes "t mod minute = 0"
  shows "t \<le> now \<Longrightarrow> t \<le> minute * (now div minute)" and "now < t \<Longrightarrow> minute * (now div minute) + minute \<le> t"
proof -
  obtain k where t: "t = minute * k" using assms by (metis mod_0_imp_dvd dvd_def)
  show "t \<le> minute * (now div minute)" if "t \<le> now"
  proof -
    have "minute * k < minute * (now div minute + 1)"
      using that t minute_floor(2) [of now] by (simp add: distrib_left)
    then show ?thesis using t minute_pos by simp
  qed
  show "minute * (now div minute) + minute \<le> t" if "now < t"
  proof -
    have "minute * (now div minute) < minute * k" using that t minute_floor(1) [of now] by linarith
    then have "minute * (now div minute + 1) \<le> minute * k" using minute_pos by simp
    then show ?thesis using t by (simp add: distrib_left)
  qed
qed

lemma minute_lib_laws: "cron_laws minute_lib every_minute"
proof -
  have whole: "t mod nanos = 0" if "t mod minute = 0" for t
    using that by (metis minute_def dvd_imp_mod_0 dvd_mult_left mod_0_imp_dvd mult.commute)
  show ?thesis
    unfolding cron_laws_def
    using minute_multiple whole minute_floor
    by (auto simp: minute_lib_def every_minute_def minus_mod_eq_mult_div)
qed

definition sample_rule :: sched_rule where
  "sample_rule = \<lparr>sr_streams = [''cam*''], sr_kind = Cron ''* * * * *'' None, sr_duration_secs = 150\<rparr>"

text \<open>A one-off rule that starts within a second.\<close>

definition sample_once :: sched_rule where
  "sample_once = \<lparr>sr_streams = [''cam*''], sr_kind = Once (500000000 + 90 * nanos), sr_duration_secs = 20\<rparr>"

theorem next_window_serves_witness:
  "serves_rule (rule_occ every_minute sample_rule) (rule_end sample_rule) (100 * nanos) \<lparr>wn_start = 60 * nanos, wn_end = 210 * nanos\<rparr> \<and>
   serves_rule (rule_occ every_minute sample_once) (rule_end sample_once) (100 * nanos)
     \<lparr>wn_start = 500000000 + 90 * nanos, wn_end = 110 * nanos\<rparr>"
proof -
  have parse: "rule_parse minute_lib \<lparr>sd_streams = [''cam*''], sd_start = None, sd_cron = Some ''* * * * *'', sd_tz = None,
      sd_duration_secs = 150\<rparr> = Inr sample_rule"
    "rule_parse minute_lib \<lparr>sd_streams = [''cam*''], sd_start = Some ''1970-01-01T00:01:30.5Z'', sd_cron = None, sd_tz = None,
      sd_duration_secs = 20\<rparr> = Inr sample_once"
    by (simp_all add: rule_parse_def minute_lib_def sample_rule_def sample_once_def)
  have range: "ends_in_range minute_lib sample_rule (100 * nanos)" "ends_in_range minute_lib sample_once (100 * nanos)"
    by (simp_all add: ends_in_range_def sample_rule_def sample_once_def minute_lib_def minute_def nanos_def add_secs_def as_second_def
        in_i64_bounds)
  have nxt: "next_after minute_lib sample_rule (100 * nanos) = Some \<lparr>wn_start = 60 * nanos, wn_end = 210 * nanos\<rparr>"
    "next_after minute_lib sample_once (100 * nanos) = Some \<lparr>wn_start = 500000000 + 90 * nanos, wn_end = 110 * nanos\<rparr>"
    by (simp_all add: sample_rule_def sample_once_def next_after_def minute_lib_def minute_def nanos_def add_secs_def as_second_def
        in_i64_bounds Let_def)
  show ?thesis
    using next_window_serves [OF minute_lib_laws range(1) parse(1)] next_window_serves [OF minute_lib_laws range(2) parse(2)]
    by (simp add: nxt)
qed

subsection \<open>Every window once\<close>

lemma serves_end: "serves occ d now w \<Longrightarrow> 0 < d \<Longrightarrow> now < wn_end w"
  by (auto simp: serves_def split: if_splits)

lemma turn_timely_bounds:
  "turn_timely w t \<Longrightarrow> wn_start w \<le> tn_opened t \<and> wn_end w \<le> tn_closed t \<and> tn_opened t \<le> tn_closed t \<and> tn_asked t \<le> tn_opened t"
  by (auto simp: turn_timely_def split: if_splits)

lemma rule_turns_later:
  assumes "turns_ordered ts" and "list_all (\<lambda>(w, t). turn_timely w t) (rule_turns lib r ts)"
  shows "list_all (\<lambda>(w, t). next_after lib r (tn_asked t) = Some w \<and> tn_asked (hd ts) \<le> tn_asked t \<and> t \<in> set ts) (rule_turns lib r ts)"
  using assms
proof (induction ts rule: turns_ordered.induct)
  case (3 t t' ts)
  show ?case
  proof (cases "next_after lib r (tn_asked t)")
    case (Some w)
    show ?thesis
    proof (cases "sr_kind r")
      case (Cron x z)
      then have "turn_timely w t" "list_all (\<lambda>(w, t). turn_timely w t) (rule_turns lib r (t' # ts))"
        using "3.prems"(2) Some by (auto simp del: rule_turns.simps(2) simp: rule_turns.simps(2) [of lib r t])
      then have "tn_asked t \<le> tn_asked t'" and
        "list_all (\<lambda>(w, t). next_after lib r (tn_asked t) = Some w \<and> tn_asked t' \<le> tn_asked t \<and> t \<in> set (t' # ts))
           (rule_turns lib r (t' # ts))"
        using "3.IH" "3.prems"(1) turn_timely_bounds [of w t] by auto
      then show ?thesis
        using Some Cron by (auto simp: list_all_iff simp del: rule_turns.simps(2) simp: rule_turns.simps(2) [of lib r t])
    qed (use Some in simp)
  qed simp
qed (auto split: option.splits sched_kind.splits)

text \<open>
  A rule never records a window twice: the windows its task serves start one after the other, and the gate
  of each opens at its start or later and is closed no earlier than its end, however late the task wakes up.
\<close>

theorem windows_served_once:
  assumes "cron_laws lib occ" and "sr_kind r = Cron x z" and "list_all (\<lambda>t. ends_in_range lib r (tn_asked t)) ts" and "0 < sr_duration_secs r"
    and "turns_ordered ts" and "list_all (\<lambda>(w, t). turn_timely w t) (rule_turns lib r ts)"
  shows "sorted_wrt (\<lambda>(w, _) (w', _). wn_start w < wn_start w') (rule_turns lib r ts) \<and>
         list_all (\<lambda>(w, t). wn_start w \<le> tn_opened t \<and> wn_end w \<le> tn_closed t) (rule_turns lib r ts)"
proof -
  define d where "d = sr_duration_secs r * nanos"
  have pos: "0 < d" using assms(4) by (simp add: d_def nanos_def)
  have serves: "serves (occ x z) d now w" if "next_after lib r now = Some w" "ends_in_range lib r now" for now w
    unfolding d_def by (rule next_after_cron [OF assms(1,2) that(1)]) (use that(2) assms(2) in \<open>simp add: ends_in_range_def\<close>)
  have list_all_in: "ends_in_range lib r (tn_asked u)" if "list_all (\<lambda>t. ends_in_range lib r (tn_asked t)) us" "u \<in> set us" for u us
    using that by (auto simp: list_all_iff)
  have "sorted_wrt (\<lambda>(w, _) (w', _). wn_start w < wn_start w') (rule_turns lib r ts)"
    using assms(5,6,3)
  proof (induction ts rule: turns_ordered.induct)
    case (3 t t' ts)
    show ?case
    proof (cases "next_after lib r (tn_asked t)")
      case (Some w)
      have unfold: "rule_turns lib r (t # t' # ts) = (w, t) # rule_turns lib r (t' # ts)"
        using Some assms(2) by simp
      have timely: "turn_timely w t" "list_all (\<lambda>(w, t). turn_timely w t) (rule_turns lib r (t' # ts))"
        using "3.prems"(2) unfolding unfold by simp_all
      have ends: "wn_end w \<le> tn_asked t'"
        using turn_timely_bounds [OF timely(1)] "3.prems"(1) by auto
      have "wn_start w < wn_start w'" if "(w', u) \<in> set (rule_turns lib r (t' # ts))" for w' u
      proof -
        have "list_all (\<lambda>(w, t). next_after lib r (tn_asked t) = Some w \<and> tn_asked t' \<le> tn_asked t \<and> t \<in> set (t' # ts))
            (rule_turns lib r (t' # ts))"
          using rule_turns_later [OF _ timely(2)] "3.prems"(1) by (simp del: rule_turns.simps)
        then have later: "next_after lib r (tn_asked u) = Some w'" "tn_asked t' \<le> tn_asked u" "u \<in> set (t # t' # ts)"
          using that by (auto simp: list_all_iff simp del: rule_turns.simps)
        have served: "serves (occ x z) d (tn_asked u) w'" by (rule serves [OF later(1) list_all_in [OF "3.prems"(3) later(3)]])
        then have "wn_end w < wn_end w'" using serves_end [OF served pos] ends later(2) by linarith
        moreover have "wn_end w = wn_start w + d" using serves [OF Some] "3.prems"(3) by (simp add: serves_def)
        ultimately show ?thesis using served by (simp add: serves_def)
      qed
      then show ?thesis
        using "3.IH" "3.prems"(1,3) timely(2) unfolding unfold by auto
    qed simp
  qed (auto split: option.splits sched_kind.splits)
  moreover have "list_all (\<lambda>(w, t). wn_start w \<le> tn_opened t \<and> wn_end w \<le> tn_closed t) (rule_turns lib r ts)"
    using assms(6) by (rule list.pred_mono_strong) (auto dest: turn_timely_bounds)
  ultimately show ?thesis ..
qed


definition sample_turns :: "turn list" where
  "sample_turns = [\<lparr>tn_asked = 100 * nanos, tn_opened = 100 * nanos, tn_closed = 210 * nanos\<rparr>,
     \<lparr>tn_asked = 210 * nanos, tn_opened = 211 * nanos, tn_closed = 330 * nanos\<rparr>]"

lemma sample_rule_turns: "rule_turns minute_lib sample_rule sample_turns =
    [(\<lparr>wn_start = 60 * nanos, wn_end = 210 * nanos\<rparr>, \<lparr>tn_asked = 100 * nanos, tn_opened = 100 * nanos, tn_closed = 210 * nanos\<rparr>),
     (\<lparr>wn_start = 180 * nanos, wn_end = 330 * nanos\<rparr>, \<lparr>tn_asked = 210 * nanos, tn_opened = 211 * nanos, tn_closed = 330 * nanos\<rparr>)]"
  by (simp add: sample_turns_def sample_rule_def next_after_def minute_lib_def minute_def nanos_def add_secs_def
      as_second_def in_i64_bounds Let_def)

theorem windows_served_once_witness:
  "sorted_wrt (\<lambda>(w, _) (w', _). wn_start w < wn_start w') (rule_turns minute_lib sample_rule sample_turns) \<and>
   list_all (\<lambda>(w, t). wn_start w \<le> tn_opened t \<and> wn_end w \<le> tn_closed t) (rule_turns minute_lib sample_rule sample_turns)"
proof (rule windows_served_once [OF minute_lib_laws])
  show "sr_kind sample_rule = Cron ''* * * * *'' None" "0 < sr_duration_secs sample_rule"
    by (simp_all add: sample_rule_def)
  show "list_all (\<lambda>t. ends_in_range minute_lib sample_rule (tn_asked t)) sample_turns"
    by (simp add: sample_turns_def sample_rule_def ends_in_range_def minute_lib_def minute_def nanos_def add_secs_def
        as_second_def in_i64_bounds)
  show "turns_ordered sample_turns" by (simp add: sample_turns_def nanos_def)
  show "list_all (\<lambda>(w, t). turn_timely w t) (rule_turns minute_lib sample_rule sample_turns)"
    unfolding sample_rule_turns by (simp add: turn_timely_def nanos_def)
qed

text \<open>
  When a later window has begun before the one being served ends, the gate closes and opens again without a pause
  in between: the task has no time to sleep until.
\<close>

lemma overlapping_window_follows_at_once:
  assumes "cron_laws lib occ" "sr_kind r = Cron x z" "ends_in_range lib r (wn_end w)"
    and "next_after lib r (wn_end w) = Some w'" and "occ x z q" "q \<le> wn_end w" "wn_end w < q + sr_duration_secs r * nanos"
  shows "wn_start w' \<le> wn_end w"
proof -
  have "serves (occ x z) (sr_duration_secs r * nanos) (wn_end w) w'"
    by (rule next_after_cron [OF assms(1,2,4)]) (use assms(2,3) in \<open>simp add: ends_in_range_def\<close>)
  then show ?thesis using assms(5-7) by (auto simp: serves_def split: if_splits)
qed

text \<open>The recorder looks at the gate's present value only: an opening that follows a closing at once is no change.\<close>

definition recorder_gate :: "bool \<Rightarrow> bool list \<Rightarrow> bool \<times> bool" where
  "recorder_gate active sent =
     (let now_active = (if sent = [] then active else last sent) in
      if now_active = active then (active, False) else (now_active, \<not> now_active))"

lemma overlap_keeps_recording: "recorder_gate True [False, True] = (True, False)"
  by (simp add: recorder_gate_def)

subsection \<open>Merging gates\<close>

text \<open>
  \<open>merge_any\<close>: one task per input counts the inputs that are true in a shared atomic counter and publishes whether
  there are any. Between its steps (seeing a change and counting it, reading the counter, publishing) other tasks
  run. The code reads every input twice before the tasks start, once for the count and once for what the task has
  last seen.
\<close>

datatype merge_pc = Waiting | Counted | Read bool

record merge_state =
  mg_in :: "bool list"
  mg_last :: "bool list"
  mg_pc :: "merge_pc list"
  mg_count :: u64
  mg_gate :: bool

definition merge_start :: "bool list \<Rightarrow> bool list \<Rightarrow> merge_state" where
  "merge_start counted seen =
     (let n = of_nat (length (filter (\<lambda>b. b) counted)) in
      \<lparr>mg_in = seen, mg_last = seen, mg_pc = replicate (length seen) Waiting, mg_count = n, mg_gate = n > 0\<rparr>)"

inductive merge_step :: "merge_state \<Rightarrow> merge_state \<Rightarrow> bool" where
  flip: "i < length (mg_in m) \<Longrightarrow> merge_step m (m\<lparr>mg_in := (mg_in m)[i := b]\<rparr>)"
| changed: "i < length (mg_in m) \<Longrightarrow> mg_pc m ! i = Waiting \<Longrightarrow> mg_in m ! i \<noteq> mg_last m ! i \<Longrightarrow>
    merge_step m (m\<lparr>mg_last := (mg_last m)[i := mg_in m ! i], mg_pc := (mg_pc m)[i := Counted],
      mg_count := (if mg_in m ! i then mg_count m + 1 else mg_count m - 1)\<rparr>)"
| load: "i < length (mg_in m) \<Longrightarrow> mg_pc m ! i = Counted \<Longrightarrow>
    merge_step m (m\<lparr>mg_pc := (mg_pc m)[i := Read (mg_count m > 0)]\<rparr>)"
| send: "i < length (mg_in m) \<Longrightarrow> mg_pc m ! i = Read b \<Longrightarrow>
    merge_step m (m\<lparr>mg_pc := (mg_pc m)[i := Waiting], mg_gate := b\<rparr>)"

inductive merge_reach :: "merge_state \<Rightarrow> merge_state \<Rightarrow> bool" for m0 where
  refl: "merge_reach m0 m0"
| step: "merge_reach m0 m \<Longrightarrow> merge_step m m' \<Longrightarrow> merge_reach m0 m'"

definition merge_settled :: "merge_state \<Rightarrow> bool" where
  "merge_settled m \<longleftrightarrow> mg_last m = mg_in m \<and> list_all (\<lambda>pc. pc = Waiting) (mg_pc m)"

definition merge_shape :: "merge_state \<Rightarrow> bool" where
  "merge_shape m \<longleftrightarrow> length (mg_last m) = length (mg_in m) \<and> length (mg_pc m) = length (mg_in m) \<and>
     mg_count m = of_nat (length (filter (\<lambda>b. b) (mg_last m)))"

lemma count_pos: "i < length xs \<Longrightarrow> xs ! i \<Longrightarrow> 0 < length (filter (\<lambda>b. b) xs)"
proof (induction xs arbitrary: i)
  case (Cons x xs)
  then show ?case by (cases i) auto
qed simp

lemma count_update:
  "i < length xs \<Longrightarrow> xs ! i \<noteq> b \<Longrightarrow>
     length (filter (\<lambda>b. b) (xs[i := b])) = (if b then length (filter (\<lambda>b. b) xs) + 1 else length (filter (\<lambda>b. b) xs) - 1)"
proof (induction xs arbitrary: i)
  case (Cons x xs)
  then show ?case using count_pos [of "i - 1" xs] by (cases i) auto
qed simp

lemma merge_step_shape: "merge_step m m' \<Longrightarrow> merge_shape m \<Longrightarrow> merge_shape m'"
proof (induction rule: merge_step.induct)
  case (changed i m)
  then have i: "i < length (mg_last m)" "mg_last m ! i \<noteq> mg_in m ! i" by (auto simp: merge_shape_def)
  have "of_nat (length (filter (\<lambda>b. b) ((mg_last m)[i := mg_in m ! i]))) =
      (if mg_in m ! i then mg_count m + 1 else (mg_count m - 1 :: u64))"
    using changed count_update [OF i] count_pos [OF i(1)] i(2) by (auto simp: merge_shape_def of_nat_diff Suc_leI)
  then show ?case using changed by (simp add: merge_shape_def)
qed (simp_all add: merge_shape_def)

lemma merge_start_shape: "merge_shape (merge_start seen seen)"
  by (simp add: merge_shape_def merge_start_def Let_def)

lemma merge_reach_shape: "merge_reach (merge_start seen seen) m \<Longrightarrow> merge_shape m"
  by (induction rule: merge_reach.induct) (auto intro: merge_step_shape merge_start_shape)


lemma merge_reach_length: "merge_reach m0 m \<Longrightarrow> length (mg_in m) = length (mg_in m0)"
proof (induction rule: merge_reach.induct)
  case (step m m')
  from step(2,3) show ?case by (cases rule: merge_step.cases) simp_all
qed simp

text \<open>When both readings agree the counter is exact: it is positive exactly if some task last saw its input true.\<close>

lemma merge_count_exact:
  assumes "merge_reach (merge_start seen seen) m" and "length seen < 2 ^ 64"
  shows "(0 < mg_count m) = list_ex (\<lambda>b. b) (mg_last m)"
proof -
  have "length (mg_last m) = length seen" "mg_count m = of_nat (length (filter (\<lambda>b. b) (mg_last m)))"
    using merge_reach_shape [OF assms(1)] merge_reach_length [OF assms(1)]
    by (simp_all add: merge_shape_def merge_start_def Let_def)
  moreover from this have "length (filter (\<lambda>b. b) (mg_last m)) < 2 ^ 64"
    using assms(2) length_filter_le [of "\<lambda>b. b" "mg_last m"] by linarith
  ultimately have "unat (mg_count m) = length (filter (\<lambda>b. b) (mg_last m))"
    by (simp add: unat_of_nat)
  then have "(0 < mg_count m) = (filter (\<lambda>b. b) (mg_last m) \<noteq> [])"
    by (metis length_greater_0_conv word_gt_0 unat_eq_zero unat_gt_0)
  then show ?thesis by (auto simp: filter_empty_conv list_ex_iff)
qed

lemmas merge_steps = merge_reach.step [OF _ merge_step.flip] merge_reach.step [OF _ merge_step.changed]
  merge_reach.step [OF _ merge_step.load] merge_reach.step [OF _ merge_step.send]

lemma stale_closed:
  "\<exists>m. merge_reach (merge_start [True, False] [True, False]) m \<and> merge_settled m \<and> mg_in m = [False, True] \<and> \<not> mg_gate m"
proof -
  define m0 where "m0 = merge_start [True, False] [True, False]"
  have start: "m0 = \<lparr>mg_in = [True, False], mg_last = [True, False], mg_pc = [Waiting, Waiting], mg_count = 1, mg_gate = True\<rparr>"
    by (simp add: m0_def merge_start_def)
  have "merge_reach m0 \<lparr>mg_in = [True, False], mg_last = [True, False], mg_pc = [Waiting, Waiting], mg_count = 1, mg_gate = True\<rparr>"
    using merge_reach.refl [of m0] by (simp add: start)
  from merge_steps(1) [OF this, of 0 False]
  have "merge_reach m0 \<lparr>mg_in = [False, False], mg_last = [True, False], mg_pc = [Waiting, Waiting], mg_count = 1, mg_gate = True\<rparr>" by simp
  from merge_steps(2) [OF this, of 0]
  have "merge_reach m0 \<lparr>mg_in = [False, False], mg_last = [False, False], mg_pc = [Counted, Waiting], mg_count = 0, mg_gate = True\<rparr>" by simp
  from merge_steps(3) [OF this, of 0]
  have "merge_reach m0 \<lparr>mg_in = [False, False], mg_last = [False, False], mg_pc = [Read False, Waiting], mg_count = 0, mg_gate = True\<rparr>" by simp
  from merge_steps(1) [OF this, of 1 True]
  have "merge_reach m0 \<lparr>mg_in = [False, True], mg_last = [False, False], mg_pc = [Read False, Waiting], mg_count = 0, mg_gate = True\<rparr>" by simp
  from merge_steps(2) [OF this, of 1]
  have "merge_reach m0 \<lparr>mg_in = [False, True], mg_last = [False, True], mg_pc = [Read False, Counted], mg_count = 1, mg_gate = True\<rparr>" by simp
  from merge_steps(3) [OF this, of 1]
  have "merge_reach m0 \<lparr>mg_in = [False, True], mg_last = [False, True], mg_pc = [Read False, Read True], mg_count = 1, mg_gate = True\<rparr>" by simp
  from merge_steps(4) [OF this, of 1 True]
  have "merge_reach m0 \<lparr>mg_in = [False, True], mg_last = [False, True], mg_pc = [Read False, Waiting], mg_count = 1, mg_gate = True\<rparr>" by simp
  from merge_steps(4) [OF this, of 0 False]
  have "merge_reach m0 \<lparr>mg_in = [False, True], mg_last = [False, True], mg_pc = [Waiting, Waiting], mg_count = 1, mg_gate = False\<rparr>" by simp
  then show ?thesis unfolding m0_def by - (rule exI, rule conjI, assumption, simp add: merge_settled_def)
qed

lemma stale_open:
  "\<exists>m. merge_reach (merge_start [False, False] [True, False]) m \<and> merge_settled m \<and> mg_in m = [False, False] \<and> mg_gate m"
proof -
  define m0 where "m0 = merge_start [False, False] [True, False]"
  have start: "m0 = \<lparr>mg_in = [True, False], mg_last = [True, False], mg_pc = [Waiting, Waiting], mg_count = 0, mg_gate = False\<rparr>"
    by (simp add: m0_def merge_start_def)
  have "merge_reach m0 \<lparr>mg_in = [True, False], mg_last = [True, False], mg_pc = [Waiting, Waiting], mg_count = 0, mg_gate = False\<rparr>"
    using merge_reach.refl [of m0] by (simp add: start)
  from merge_steps(1) [OF this, of 0 False]
  have "merge_reach m0 \<lparr>mg_in = [False, False], mg_last = [True, False], mg_pc = [Waiting, Waiting], mg_count = 0, mg_gate = False\<rparr>" by simp
  from merge_steps(2) [OF this, of 0]
  have "merge_reach m0 \<lparr>mg_in = [False, False], mg_last = [False, False], mg_pc = [Counted, Waiting], mg_count = - 1, mg_gate = False\<rparr>" by simp
  from merge_steps(3) [OF this, of 0]
  have "merge_reach m0 \<lparr>mg_in = [False, False], mg_last = [False, False], mg_pc = [Read True, Waiting], mg_count = - 1, mg_gate = False\<rparr>"
    by (simp add: word_gt_0)
  from merge_steps(4) [OF this, of 0 True]
  have "merge_reach m0 \<lparr>mg_in = [False, False], mg_last = [False, False], mg_pc = [Waiting, Waiting], mg_count = - 1, mg_gate = True\<rparr>" by simp
  then show ?thesis unfolding m0_def by - (rule exI, rule conjI, assumption, simp add: merge_settled_def)
qed

text \<open>
  Claim C36. A merged gate can settle on the wrong side. With two windows, one closing as the other opens, it can stay
  closed through the second: the task that read the counter first publishes last. And when an input flips between
  the two readings the code makes of it, the counter wraps below zero and the gate stays open with every window
  closed.
\<close>

theorem merged_gate_goes_stale:
  "(\<exists>m. merge_reach (merge_start [True, False] [True, False]) m \<and> merge_settled m \<and>
        mg_in m = [False, True] \<and> \<not> mg_gate m) \<and>
   (\<exists>m. merge_reach (merge_start [False, False] [True, False]) m \<and> merge_settled m \<and>
        mg_in m = [False, False] \<and> mg_gate m)"
  using stale_closed stale_open by blast

end
