(* ===== verification/Record_Segmenter.thy ===== *)
theory Record_Segmenter
  imports Hls_Packager
begin

text \<open>
  The segmenter of recordings (\<open>crates/caudal-record/src/segmenter.rs\<close>): frames in, fragments and segment boundaries
  out. Its lanes, and which secondary samples a fragment takes, are written as in the LL-HLS packager, so they are
  those of \<open>Hls_Packager\<close>; wall clocks are nanoseconds.
\<close>

subsection \<open>State\<close>

definition chunk_ms :: int where "chunk_ms = 1000"

datatype seg_out = SegOpen bool int | SegFragment bytes | SegClose rat

record segmenter =
  sg_segment_ms :: nat
  sg_primary :: "lane option"
  sg_secondary :: "lane option"
  sg_primary_is_audio :: bool
  sg_init :: "bytes option"
  sg_tracks :: "mp4_track list"
  sg_chunk :: "sample list"
  sg_queue :: "sample list"
  sg_seg_start :: "int option"
  sg_seg_ticks :: int
  sg_pending_open :: "(bool \<times> int) option"
  sg_seg_emitted :: bool
  sg_floor :: "int option"
  sg_waiting_key :: bool
  sg_resume_from :: "int option"
  sg_discontinuity_next :: bool
  sg_any_output :: bool
  sg_fragment_seq :: nat
  sg_anchor :: "(int \<times> int) option"
  sg_out :: "seg_out list"

definition segmenter_new :: "nat \<Rightarrow> segmenter" where
  "segmenter_new segment_ms =
     \<lparr>sg_segment_ms = max segment_ms 100, sg_primary = None, sg_secondary = None, sg_primary_is_audio = False,
      sg_init = None, sg_tracks = [], sg_chunk = [], sg_queue = [], sg_seg_start = None, sg_seg_ticks = 0,
      sg_pending_open = None, sg_seg_emitted = False, sg_floor = None, sg_waiting_key = True, sg_resume_from = None,
      sg_discontinuity_next = False, sg_any_output = False, sg_fragment_seq = 0, sg_anchor = None, sg_out = []\<rparr>"

definition seg_take :: "segmenter \<Rightarrow> seg_out list \<times> segmenter" where
  "seg_take g = (sg_out g, g\<lparr>sg_out := []\<rparr>)"

subsection \<open>Fragments and segments\<close>

definition chunk_max :: "segmenter \<Rightarrow> int" where
  "chunk_max g = max (chunk_ms * (case sg_primary g of Some l \<Rightarrow> int (ln_timescale l) | None \<Rightarrow> 1) div 1000) 1"

definition chunk_span :: "segmenter \<Rightarrow> int" where
  "chunk_span g = (if sg_chunk g = [] then 0 else sample_end (last (sg_chunk g)) - sa_dts (hd (sg_chunk g)))"

definition close_chunk :: "(moof \<Rightarrow> bytes) \<Rightarrow> segmenter \<Rightarrow> segmenter" where
  "close_chunk enc g =
     (case (sg_chunk g, sg_primary g) of
        (s # rest, Some primary) \<Rightarrow>
         (let end_micros = lane_micros primary (sample_end (last (s # rest)));
              (audio, queue) = (case sg_secondary g of
                  Some sec \<Rightarrow> take_secondary sec end_micros (sg_floor g) (sg_queue g)
                | None \<Rightarrow> ([], sg_queue g));
              fragment_seq = (sg_fragment_seq g + 1) mod 2 ^ 32;
              runs = \<lparr>ru_track_id = ln_track_id primary, ru_samples = s # rest\<rparr> #
                (case sg_secondary g of Some sec \<Rightarrow> [\<lparr>ru_track_id = ln_track_id sec, ru_samples = audio\<rparr>] | None \<Rightarrow> []);
              opened = (case sg_pending_open g of Some (d, pdt) \<Rightarrow> [SegOpen d pdt] | None \<Rightarrow> [])
          in g\<lparr>sg_floor := None, sg_queue := queue, sg_fragment_seq := fragment_seq,
               sg_seg_ticks := sg_seg_ticks g + chunk_span g, sg_chunk := [], sg_pending_open := None,
               sg_seg_emitted := True, sg_any_output := True,
               sg_out := sg_out g @ opened @ [SegFragment (fragment enc fragment_seq runs)]\<rparr>)
      | _ \<Rightarrow> g)"

definition seg_close_segment :: "segmenter \<Rightarrow> segmenter" where
  "seg_close_segment g =
     (let emitted = sg_seg_emitted g; g = g\<lparr>sg_seg_start := None, sg_pending_open := None, sg_seg_emitted := False\<rparr> in
      if \<not> emitted then g
      else (let ts = (case sg_primary g of Some l \<Rightarrow> ln_timescale l | None \<Rightarrow> 1) in
        g\<lparr>sg_out := sg_out g @ [SegClose (f64_div (f64_rnd (of_int (sg_seg_ticks g))) (of_nat ts))]\<rparr>))"

definition seg_commit_primary :: "(moof \<Rightarrow> bytes) \<Rightarrow> sample \<Rightarrow> segmenter \<Rightarrow> segmenter" where
  "seg_commit_primary enc s g =
     (let g = (if sg_chunk g \<noteq> [] \<and> sample_end s - sa_dts (hd (sg_chunk g)) > chunk_max g then close_chunk enc g else g) in
      g\<lparr>sg_chunk := sg_chunk g @ [s]\<rparr>)"

definition seg_open_segment :: "int \<Rightarrow> int \<Rightarrow> segmenter \<Rightarrow> segmenter" where
  "seg_open_segment dts now g =
     (case sg_primary g of
        None \<Rightarrow> g
      | Some lane \<Rightarrow>
         (let start_micros = lane_micros lane dts;
              discontinuity = (sg_discontinuity_next g \<or>
                (case sg_resume_from g of
                   Some prev \<Rightarrow> (start_micros - prev < 0 \<or> start_micros - prev > gap_micros) \<and> sg_any_output g
                 | None \<Rightarrow> False));
              g = g\<lparr>sg_discontinuity_next := False, sg_resume_from := None\<rparr>;
              g = (if sg_waiting_key g
                   then g\<lparr>sg_floor := Some start_micros, sg_waiting_key := False,
                          sg_anchor := (if discontinuity \<or> sg_anchor g = None then Some (now, start_micros) else sg_anchor g)\<rparr>
                   else g);
              pdt = (case sg_anchor g of Some (wall, at_us) \<Rightarrow> wall + (start_micros - at_us) * 1000 | None \<Rightarrow> now)
          in g\<lparr>sg_seg_start := Some dts, sg_seg_ticks := 0, sg_seg_emitted := False,
               sg_pending_open := Some (discontinuity, pdt)\<rparr>))"

definition seg_flush_primary :: "(moof \<Rightarrow> bytes) \<Rightarrow> segmenter \<Rightarrow> segmenter" where
  "seg_flush_primary enc g =
     (case sg_primary g of
        None \<Rightarrow> g
      | Some lane \<Rightarrow>
         (case ln_pending lane of
            None \<Rightarrow> g
          | Some p \<Rightarrow>
             (let p = p\<lparr>sa_dur := fallback_dur lane (sa_data p)\<rparr>;
                  g = seg_commit_primary enc p (g\<lparr>sg_primary := Some (lane\<lparr>ln_pending := None\<rparr>)\<rparr>)
              in g\<lparr>sg_resume_from := Some (lane_micros lane (sample_end p))\<rparr>)))"

definition seg_flush_secondary :: "segmenter \<Rightarrow> segmenter" where
  "seg_flush_secondary g =
     (case sg_secondary g of
        None \<Rightarrow> g
      | Some lane \<Rightarrow>
         (case ln_pending lane of
            None \<Rightarrow> g
          | Some p \<Rightarrow> g\<lparr>sg_secondary := Some (lane\<lparr>ln_pending := None\<rparr>),
              sg_queue := sg_queue g @ [p\<lparr>sa_dur := fallback_dur lane (sa_data p)\<rparr>]\<rparr>))"

definition seg_flush :: "(moof \<Rightarrow> bytes) \<Rightarrow> segmenter \<Rightarrow> segmenter" where
  "seg_flush enc g = seg_close_segment (close_chunk enc (seg_flush_secondary (seg_flush_primary enc g)))"

definition seg_cut :: "(moof \<Rightarrow> bytes) \<Rightarrow> lane \<Rightarrow> sample \<Rightarrow> int \<Rightarrow> sample \<Rightarrow> segmenter \<Rightarrow> segmenter" where
  "seg_cut enc lane p d new g =
     (let g = seg_commit_primary enc (p\<lparr>sa_dur := nat (d mod 2 ^ 32)\<rparr>)
            (g\<lparr>sg_primary := Some (lane\<lparr>ln_pending := None, ln_last_dur := nat (d mod 2 ^ 32)\<rparr>)\<rparr>);
          seg_len = sa_dts new - (case sg_seg_start g of Some t \<Rightarrow> t | None \<Rightarrow> sa_dts new);
          seg_min = int (sg_segment_ms g) * int (ln_timescale lane) div 1000
      in if sa_key new \<and> seg_len \<ge> seg_min then seg_close_segment (close_chunk enc g) else g)"

definition seg_push_primary :: "(moof \<Rightarrow> bytes) \<Rightarrow> frame \<Rightarrow> int \<Rightarrow> segmenter \<Rightarrow> segmenter" where
  "seg_push_primary enc f now g =
     (case sg_primary g of
        None \<Rightarrow> g
      | Some lane \<Rightarrow>
         (let new = lane_sample lane f (sg_primary_is_audio g);
              g = (case ln_pending lane of
                  None \<Rightarrow> g
                | Some p \<Rightarrow>
                   (let d = sa_dts new - sa_dts p in
                    if d \<le> 0 \<or> d > jump_secs * int (ln_timescale lane)
                    then (let g = seg_flush enc g in
                          g\<lparr>sg_discontinuity_next := sg_any_output g, sg_resume_from := None, sg_waiting_key := True\<rparr>)
                    else seg_cut enc lane p d new g))
          in if sg_seg_start g = None \<and> \<not> sa_key new then g\<lparr>sg_waiting_key := True\<rparr>
             else (let g = (if sg_seg_start g = None then seg_open_segment (sa_dts new) now g else g) in
               g\<lparr>sg_primary := map_option (\<lambda>l. l\<lparr>ln_pending := Some new\<rparr>) (sg_primary g)\<rparr>)))"

definition seg_push_secondary :: "frame \<Rightarrow> segmenter \<Rightarrow> segmenter" where
  "seg_push_secondary f g =
     (case sg_secondary g of
        None \<Rightarrow> g
      | Some lane \<Rightarrow>
         (let new = lane_sample lane f True;
              (lane, queue) = (case ln_pending lane of
                  None \<Rightarrow> (lane, sg_queue g)
                | Some p \<Rightarrow>
                   (let d = sa_dts new - sa_dts p;
                        dur = (if d \<le> 0 \<or> d > jump_secs * int (ln_timescale lane) then fallback_dur lane (sa_data p) else nat (d mod 2 ^ 32))
                    in (lane\<lparr>ln_last_dur := dur\<rparr>, sg_queue g @ [p\<lparr>sa_dur := dur\<rparr>])));
              queue = (if sg_seg_start g = None then drop (length queue - 256) queue else queue)
          in g\<lparr>sg_secondary := Some (lane\<lparr>ln_pending := Some new\<rparr>), sg_queue := queue\<rparr>))"

definition seg_push :: "(moof \<Rightarrow> bytes) \<Rightarrow> frame \<Rightarrow> int \<Rightarrow> segmenter \<Rightarrow> segmenter" where
  "seg_push enc f now g =
     (if (case sg_primary g of Some l \<Rightarrow> ln_core_id l = fr_track f | None \<Rightarrow> False) then seg_push_primary enc f now g
      else if (case sg_secondary g of Some l \<Rightarrow> ln_core_id l = fr_track f | None \<Rightarrow> False) then seg_push_secondary f g
      else g)"

definition seg_lagged :: "(moof \<Rightarrow> bytes) \<Rightarrow> segmenter \<Rightarrow> segmenter" where
  "seg_lagged enc g =
     (let g = seg_flush enc g in g\<lparr>sg_queue := [], sg_waiting_key := True, sg_discontinuity_next := sg_any_output g\<rparr>)"

definition seg_end :: "(moof \<Rightarrow> bytes) \<Rightarrow> segmenter \<Rightarrow> segmenter" where
  "seg_end enc g = seg_flush enc g"

definition seg_set_tracks :: "'c mp4_codec \<Rightarrow> (moof \<Rightarrow> bytes) \<Rightarrow> track_info list \<Rightarrow> segmenter \<Rightarrow> bool \<times> segmenter" where
  "seg_set_tracks mc enc tracks g =
     (let (mp4, init) = choose_tracks mc tracks;
          core = (\<lambda>i. map_option (\<lambda>t. ti_id (mt_info t)) (nth_track i mp4))
      in if init = sg_init g \<and> lane_id (sg_primary g) = core 0 \<and> lane_id (sg_secondary g) = core 1 then (False, g)
         else (let g = seg_flush enc g;
                   lane = (\<lambda>i. if init = None then None
                     else map_option (\<lambda>t. lane_new (mt_track_id t) (mt_info t)) (nth_track i mp4))
               in (True, g\<lparr>sg_discontinuity_next := False, sg_any_output := False, sg_resume_from := None, sg_anchor := None,
                    sg_queue := [], sg_floor := None, sg_waiting_key := True, sg_init := init,
                    sg_primary := lane 0, sg_secondary := lane 1,
                    sg_primary_is_audio := (case mp4 of t # _ \<Rightarrow> track_kind_of (mt_info t) = Audio | [] \<Rightarrow> False),
                    sg_tracks := (if init = None then [] else mp4)\<rparr>)))"


subsection \<open>What comes out\<close>

text \<open>
  Well-formed output: a segment opens with its first fragment, more may follow, and it closes before the next one
  opens. The truth value is whether a segment is open.
\<close>

fun seg_scan :: "bool \<Rightarrow> seg_out list \<Rightarrow> bool option" where
  "seg_scan b [] = Some b"
| "seg_scan False (SegOpen _ _ # SegFragment _ # xs) = seg_scan True xs"
| "seg_scan True (SegFragment _ # xs) = seg_scan True xs"
| "seg_scan True (SegClose _ # xs) = seg_scan False xs"
| "seg_scan _ _ = None"

lemma seg_scan_append: "seg_scan b xs = Some b' \<Longrightarrow> seg_scan b (xs @ ys) = seg_scan b' ys"
  by (induction b xs rule: seg_scan.induct) auto

definition lane_pending :: "lane option \<Rightarrow> sample option" where
  "lane_pending l = Option.bind l ln_pending"

definition seg_ok :: "segmenter \<Rightarrow> bool" where
  "seg_ok g \<longleftrightarrow>
     (sg_seg_start g = None \<longrightarrow> sg_chunk g = [] \<and> \<not> sg_seg_emitted g \<and> sg_pending_open g = None \<and> lane_pending (sg_primary g) = None) \<and>
     (sg_seg_start g \<noteq> None \<longrightarrow> sg_primary g \<noteq> None \<and> sg_seg_emitted g = (sg_pending_open g = None))"

definition seg_steps :: "segmenter \<Rightarrow> segmenter \<Rightarrow> bool" where
  "seg_steps g g' \<longleftrightarrow> seg_ok g' \<and> (\<exists>outs. sg_out g' = sg_out g @ outs \<and> seg_scan (sg_seg_emitted g) outs = Some (sg_seg_emitted g'))"

lemma seg_steps_refl: "seg_ok g \<Longrightarrow> seg_steps g g"
  by (simp add: seg_steps_def)

lemma seg_steps_trans [trans]: "seg_steps g g' \<Longrightarrow> seg_steps g' g'' \<Longrightarrow> seg_steps g g''"
  by (auto simp: seg_steps_def seg_scan_append intro: exI [where x = "_ @ _"])

lemma seg_steps_same:
  "seg_steps g g' \<Longrightarrow> seg_ok g'' \<Longrightarrow> sg_out g'' = sg_out g' \<Longrightarrow> sg_seg_emitted g'' = sg_seg_emitted g' \<Longrightarrow> seg_steps g g''"
  by (simp add: seg_steps_def)

lemma close_chunk_keeps [simp]:
  "sg_seg_start (close_chunk enc g) = sg_seg_start g" "sg_primary (close_chunk enc g) = sg_primary g"
  "sg_segment_ms (close_chunk enc g) = sg_segment_ms g" "sg_secondary (close_chunk enc g) = sg_secondary g"
  by (simp_all add: close_chunk_def Let_def split: list.split option.split prod.split)

lemma close_chunk_steps: "seg_ok g \<Longrightarrow> seg_steps g (close_chunk enc g)"
  by (auto simp: seg_steps_def seg_ok_def close_chunk_def Let_def split: list.splits option.splits prod.splits)

lemma close_chunk_empty: "seg_ok g \<Longrightarrow> sg_chunk (close_chunk enc g) = []"
  by (auto simp: seg_ok_def close_chunk_def Let_def split: list.splits option.splits prod.splits)

lemma seg_close_segment_steps:
  assumes "seg_ok g" "sg_chunk g = []" "lane_pending (sg_primary g) = None"
  shows "seg_steps g (seg_close_segment g)" "sg_seg_start (seg_close_segment g) = None" "\<not> sg_seg_emitted (seg_close_segment g)"
    "sg_primary (seg_close_segment g) = sg_primary g" "sg_secondary (seg_close_segment g) = sg_secondary g"
  using assms by (auto simp: seg_steps_def seg_ok_def seg_close_segment_def Let_def)

lemma seg_commit_steps:
  assumes "seg_ok g" "sg_seg_start g \<noteq> None"
  shows "seg_steps g (seg_commit_primary enc s g)" "sg_seg_start (seg_commit_primary enc s g) = sg_seg_start g"
    "sg_primary (seg_commit_primary enc s g) = sg_primary g" "sg_secondary (seg_commit_primary enc s g) = sg_secondary g"
proof -
  show "seg_steps g (seg_commit_primary enc s g)"
    using close_chunk_steps [OF assms(1), of enc] assms
    by (auto simp: seg_commit_primary_def Let_def seg_steps_def seg_ok_def)
qed (simp_all add: seg_commit_primary_def Let_def)

lemma seg_ok_pending: "seg_ok g \<Longrightarrow> lane_pending (sg_primary g) = Some p \<Longrightarrow> sg_seg_start g \<noteq> None"
  by (auto simp: seg_ok_def)

lemma seg_flush_secondary_keeps [simp]:
  "sg_chunk (seg_flush_secondary g) = sg_chunk g" "sg_seg_emitted (seg_flush_secondary g) = sg_seg_emitted g"
  "sg_pending_open (seg_flush_secondary g) = sg_pending_open g" "sg_seg_start (seg_flush_secondary g) = sg_seg_start g"
  "sg_primary (seg_flush_secondary g) = sg_primary g" "sg_out (seg_flush_secondary g) = sg_out g"
  by (simp_all add: seg_flush_secondary_def split: option.split)

lemma seg_flush_secondary_ok: "seg_ok (seg_flush_secondary g) = seg_ok g"
  by (simp add: seg_ok_def)

lemma seg_flush_steps:
  assumes "seg_ok g"
  shows "seg_steps g (seg_flush enc g)" "sg_seg_start (seg_flush enc g) = None"
    "sg_primary (seg_flush enc g) = map_option (\<lambda>l. l\<lparr>ln_pending := None\<rparr>) (sg_primary g)"
proof -
  define g1 where "g1 = seg_flush_primary enc g"
  define g2 where "g2 = seg_flush_secondary g1"
  have flush: "seg_flush enc g = seg_close_segment (close_chunk enc g2)"
    by (simp add: seg_flush_def g1_def g2_def)
  have one: "seg_steps g g1 \<and> sg_primary g1 = map_option (\<lambda>l. l\<lparr>ln_pending := None\<rparr>) (sg_primary g)"
  proof (cases "lane_pending (sg_primary g)")
    case None
    then show ?thesis
      using seg_steps_refl [OF assms] by (cases "sg_primary g") (auto simp: g1_def seg_flush_primary_def lane_pending_def)
  next
    case (Some p)
    then obtain lane where lane: "sg_primary g = Some lane" "ln_pending lane = Some p"
      by (auto simp: lane_pending_def bind_eq_Some_conv)
    define h where "h = g\<lparr>sg_primary := Some (lane\<lparr>ln_pending := None\<rparr>)\<rparr>"
    have h: "seg_ok h" "sg_seg_start h \<noteq> None"
      using assms seg_ok_pending [OF assms Some] by (auto simp: h_def seg_ok_def)
    have "seg_steps h (seg_commit_primary enc (p\<lparr>sa_dur := fallback_dur lane (sa_data p)\<rparr>) h)"
      by (rule seg_commit_steps(1) [OF h])
    then show ?thesis
      using lane seg_commit_steps(3) [OF h] by (simp add: g1_def seg_flush_primary_def Let_def h_def seg_steps_def seg_ok_def)
  qed
  have two: "seg_steps g g2" "sg_primary g2 = sg_primary g1"
    using one by (simp_all add: g2_def seg_steps_def seg_flush_secondary_ok)
  have none: "lane_pending (sg_primary g2) = None"
    using one two(2) by (cases "sg_primary g") (simp_all add: lane_pending_def)
  have ok2: "seg_ok g2" using two(1) by (simp add: seg_steps_def)
  have three: "seg_steps g2 (close_chunk enc g2)" by (rule close_chunk_steps [OF ok2])
  then have ok3: "seg_ok (close_chunk enc g2)" by (simp add: seg_steps_def)
  have four: "lane_pending (sg_primary (close_chunk enc g2)) = None" using none by simp
  note closed = seg_close_segment_steps [OF ok3 close_chunk_empty [OF ok2] four]
  show "seg_steps g (seg_flush enc g)"
    unfolding flush by (rule seg_steps_trans [OF two(1) seg_steps_trans [OF three closed(1)]])
  show "sg_seg_start (seg_flush enc g) = None" unfolding flush by (rule closed(2))
  show "sg_primary (seg_flush enc g) = map_option (\<lambda>l. l\<lparr>ln_pending := None\<rparr>) (sg_primary g)"
    unfolding flush closed(4) using one two(2) by simp
qed


lemma seg_cut_steps:
  assumes "seg_ok g" "sg_primary g = Some lane" "sg_seg_start g \<noteq> None"
  shows "seg_steps g (seg_cut enc lane p d new g)" "lane_pending (sg_primary (seg_cut enc lane p d new g)) = None"
    "sg_primary (seg_cut enc lane p d new g) \<noteq> None"
proof -
  define h where "h = g\<lparr>sg_primary := Some (lane\<lparr>ln_pending := None, ln_last_dur := nat (d mod 2 ^ 32)\<rparr>)\<rparr>"
  have h: "seg_ok h" "sg_seg_start h \<noteq> None" using assms by (auto simp: h_def seg_ok_def)
  define g1 where "g1 = seg_commit_primary enc (p\<lparr>sa_dur := nat (d mod 2 ^ 32)\<rparr>) h"
  have g1: "seg_steps h g1" "lane_pending (sg_primary g1) = None" "sg_primary g1 \<noteq> None"
    using seg_commit_steps [OF h] by (simp_all add: g1_def) (simp_all add: h_def lane_pending_def)
  then have ok1: "seg_ok g1" by (simp add: seg_steps_def)
  have two: "seg_steps g1 (close_chunk enc g1)" by (rule close_chunk_steps [OF ok1])
  then have ok2: "seg_ok (close_chunk enc g1)" by (simp add: seg_steps_def)
  have none: "lane_pending (sg_primary (close_chunk enc g1)) = None" using g1(2) by simp
  note closed = seg_close_segment_steps [OF ok2 close_chunk_empty [OF ok1] none]
  have "seg_steps h (seg_close_segment (close_chunk enc g1))"
    by (rule seg_steps_trans [OF g1(1) seg_steps_trans [OF two closed(1)]])
  moreover have "seg_steps g x" if "seg_steps h x" for x using that by (simp add: seg_steps_def h_def)
  moreover have cut: "seg_cut enc lane p d new g = seg_close_segment (close_chunk enc g1) \<or> seg_cut enc lane p d new g = g1"
    unfolding seg_cut_def Let_def g1_def h_def by auto
  ultimately show "seg_steps g (seg_cut enc lane p d new g)"
    using g1(1) by auto
  show "lane_pending (sg_primary (seg_cut enc lane p d new g)) = None" "sg_primary (seg_cut enc lane p d new g) \<noteq> None"
    using g1(2,3) closed(4) cut by auto
qed

lemma seg_open_segment_steps:
  assumes "seg_ok g" "sg_seg_start g = None" "sg_primary g = Some lane"
  shows "seg_steps g (seg_open_segment dts now g)" "sg_seg_start (seg_open_segment dts now g) = Some dts"
    "sg_primary (seg_open_segment dts now g) = Some lane"
  using assms by (simp_all add: seg_open_segment_def Let_def seg_steps_def seg_ok_def)

lemma seg_push_primary_steps:
  assumes ok: "seg_ok g"
  shows "seg_steps g (seg_push_primary enc f now g)"
proof (cases "sg_primary g")
  case None
  then show ?thesis using seg_steps_refl [OF ok] by (simp add: seg_push_primary_def)
next
  case (Some lane)
  define new where "new = lane_sample lane f (sg_primary_is_audio g)"
  define g1 where "g1 = (case ln_pending lane of
                  None \<Rightarrow> g
                | Some p \<Rightarrow>
                   (let d = sa_dts new - sa_dts p in
                    if d \<le> 0 \<or> d > jump_secs * int (ln_timescale lane)
                    then (let g = seg_flush enc g in
                          g\<lparr>sg_discontinuity_next := sg_any_output g, sg_resume_from := None, sg_waiting_key := True\<rparr>)
                    else seg_cut enc lane p d new g))"
  have one: "seg_steps g g1 \<and> lane_pending (sg_primary g1) = None \<and> sg_primary g1 \<noteq> None"
  proof (cases "ln_pending lane")
    case None
    then show ?thesis using seg_steps_refl [OF ok] Some by (simp add: g1_def lane_pending_def)
  next
    case p: (Some p)
    have start: "sg_seg_start g \<noteq> None" using seg_ok_pending [OF ok] Some p by (simp add: lane_pending_def)
    show ?thesis
    proof (cases "sa_dts new - sa_dts p \<le> 0 \<or> sa_dts new - sa_dts p > jump_secs * int (ln_timescale lane)")
      case True
      have "seg_steps g g1"
        by (rule seg_steps_same [OF seg_flush_steps(1) [OF ok, of enc]])
          (use p True seg_flush_steps(1) [OF ok, of enc] in \<open>auto simp: g1_def Let_def seg_steps_def seg_ok_def\<close>)
      then show ?thesis
        using p True seg_flush_steps(3) [OF ok, of enc] Some by (simp add: g1_def Let_def lane_pending_def)
    next
      case False
      then show ?thesis
        using p seg_cut_steps [OF ok Some start, of enc p "sa_dts new - sa_dts p" new] by (auto simp: g1_def Let_def)
    qed
  qed
  then have ok1: "seg_ok g1" by (simp add: seg_steps_def)
  obtain lane1 where lane1: "sg_primary g1 = Some lane1" using one by auto
  have push: "seg_push_primary enc f now g =
      (if sg_seg_start g1 = None \<and> \<not> sa_key new then g1\<lparr>sg_waiting_key := True\<rparr>
       else (let g = (if sg_seg_start g1 = None then seg_open_segment (sa_dts new) now g1 else g1) in
               g\<lparr>sg_primary := map_option (\<lambda>l. l\<lparr>ln_pending := Some new\<rparr>) (sg_primary g)\<rparr>))"
    by (simp only: seg_push_primary_def Some option.case Let_def new_def g1_def)
  show ?thesis
  proof (cases "sg_seg_start g1")
    case None
    have opened: "seg_steps g (seg_open_segment (sa_dts new) now g1)"
      using seg_steps_trans [OF _ seg_open_segment_steps(1) [OF ok1 None lane1]] one by blast
    show ?thesis
    proof (cases "sa_key new")
      case True
      have eq: "seg_push_primary enc f now g = (seg_open_segment (sa_dts new) now g1)\<lparr>sg_primary := Some (lane1\<lparr>ln_pending := Some new\<rparr>)\<rparr>"
        unfolding push using None True seg_open_segment_steps(3) [OF ok1 None lane1] by simp
      show ?thesis
        unfolding eq by (rule seg_steps_same [OF opened])
          (use opened seg_open_segment_steps(2) [OF ok1 None lane1] in \<open>auto simp: seg_steps_def seg_ok_def\<close>)
    next
      case False
      then show ?thesis
        unfolding push using None one ok1 by (simp add: seg_steps_same [of g g1] seg_ok_def)
    qed
  next
    case (Some t)
    have eq: "seg_push_primary enc f now g = g1\<lparr>sg_primary := Some (lane1\<lparr>ln_pending := Some new\<rparr>)\<rparr>"
      unfolding push using Some lane1 by simp
    have "seg_steps g g1" using one by blast
    then show ?thesis
      unfolding eq by (rule seg_steps_same) (use Some ok1 in \<open>auto simp: seg_ok_def\<close>)
  qed
qed

lemma seg_push_steps: "seg_ok g \<Longrightarrow> seg_steps g (seg_push enc f now g)"
  using seg_push_primary_steps [of g enc f now] seg_steps_refl [of g]
  by (auto simp: seg_push_def seg_push_secondary_def Let_def seg_steps_def seg_ok_def split: option.split prod.split)

lemma seg_set_tracks_steps:
  assumes ok: "seg_ok g"
  shows "seg_steps g (snd (seg_set_tracks mc enc tracks g))"
proof -
  have flushed: "seg_steps g (seg_flush enc g)" and closed: "sg_seg_start (seg_flush enc g) = None"
    using seg_flush_steps [OF ok] by blast+
  have idle: "lane_pending None = None" "lane_pending (map_option (\<lambda>t. lane_new (mt_track_id t) (mt_info t)) x) = None" for x
    by (cases x; simp add: lane_pending_def lane_new_def Let_def)+
  have ok': "seg_ok (seg_flush enc g)" using flushed by (simp add: seg_steps_def)
  show ?thesis
    unfolding seg_set_tracks_def Let_def case_prod_unfold
    using seg_steps_refl [OF ok] ok' closed
    by (auto intro!: seg_steps_same [OF flushed] simp: seg_ok_def idle simp del: not_None_eq)
qed

text \<open>A recorder's calls; the output is taken after each of them.\<close>

datatype seg_event = SgFrame frame int | SgTracks "track_info list" | SgLagged | SgEnd

fun seg_step :: "'c mp4_codec \<Rightarrow> (moof \<Rightarrow> bytes) \<Rightarrow> seg_event \<Rightarrow> segmenter \<Rightarrow> segmenter" where
  "seg_step mc enc (SgFrame f now) g = seg_push enc f now g"
| "seg_step mc enc (SgTracks ts) g = snd (seg_set_tracks mc enc ts g)"
| "seg_step mc enc SgLagged g = seg_lagged enc g"
| "seg_step mc enc SgEnd g = seg_end enc g"

fun seg_run :: "'c mp4_codec \<Rightarrow> (moof \<Rightarrow> bytes) \<Rightarrow> seg_event list \<Rightarrow> segmenter \<Rightarrow> seg_out list \<times> segmenter" where
  "seg_run mc enc [] g = ([], g)"
| "seg_run mc enc (e # es) g =
     (let (outs, g) = seg_take (seg_step mc enc e g); (later, g) = seg_run mc enc es g in (outs @ later, g))"

lemma seg_step_steps: "seg_ok g \<Longrightarrow> seg_steps g (seg_step mc enc e g)"
proof (induction mc enc e g rule: seg_step.induct)
  case (3 mc enc g)
  then show ?case
    using seg_flush_steps(1,2) [of g enc] by (auto simp: seg_lagged_def Let_def seg_steps_def seg_ok_def)
qed (simp_all add: seg_push_steps seg_set_tracks_steps seg_end_def seg_flush_steps)

lemma seg_run_steps:
  assumes "seg_ok g" "sg_out g = []" "seg_run mc enc es g = (outs, g')"
  shows "seg_ok g' \<and> sg_out g' = [] \<and> seg_scan (sg_seg_emitted g) outs = Some (sg_seg_emitted g')"
  using assms
proof (induction es arbitrary: g outs)
  case (Cons e es)
  define g1 where "g1 = seg_step mc enc e g"
  obtain later g2 where run: "seg_run mc enc es (g1\<lparr>sg_out := []\<rparr>) = (later, g2)" by fastforce
  have outs: "outs = sg_out g1 @ later" "g' = g2"
    using Cons.prems(3) run by (simp_all add: g1_def seg_take_def)
  have one: "seg_ok g1" "seg_scan (sg_seg_emitted g) (sg_out g1) = Some (sg_seg_emitted g1)"
    using seg_step_steps [OF Cons.prems(1), of mc enc e] Cons.prems(2) by (auto simp: g1_def seg_steps_def)
  have "seg_ok (g1\<lparr>sg_out := []\<rparr>)" using one(1) by (simp add: seg_ok_def)
  from Cons.IH [OF this _ run [folded outs(2)]] show ?case
    using one(2) outs by (simp add: seg_scan_append)
qed simp

text \<open>
  Claim C37. Whatever the segmenter is fed, frames in any order and with any timestamps, new track lists, lags, its
  output is a sequence of well-formed segments: each opens together with its first fragment and is closed before the
  next one opens; after the end nothing is left open.
\<close>

theorem recorded_segments_wellformed:
  "seg_scan False (fst (seg_run mc enc es (segmenter_new segment_ms))) \<noteq> None \<and>
   seg_scan False (fst (seg_run mc enc (es @ [SgEnd]) (segmenter_new segment_ms))) = Some False"
proof -
  have ok: "seg_ok (segmenter_new segment_ms)" "sg_out (segmenter_new segment_ms) = []" "\<not> sg_seg_emitted (segmenter_new segment_ms)"
    by (simp_all add: segmenter_new_def seg_ok_def lane_pending_def)
  obtain outs g where run: "seg_run mc enc es (segmenter_new segment_ms) = (outs, g)" by fastforce
  note spec = seg_run_steps [OF ok(1,2) run]
  have snoc: "seg_run mc enc (es @ [e]) h = (fst (seg_run mc enc es h) @ sg_out (seg_step mc enc e (snd (seg_run mc enc es h))),
      (seg_step mc enc e (snd (seg_run mc enc es h)))\<lparr>sg_out := []\<rparr>)" for e h
    by (induction es arbitrary: h) (simp_all add: seg_take_def case_prod_unfold Let_def)
  have "seg_steps g (seg_flush enc g)" "\<not> sg_seg_emitted (seg_flush enc g)"
    using seg_flush_steps(1,2) [of g enc] spec by (auto simp: seg_steps_def seg_ok_def)
  then have "seg_scan (sg_seg_emitted g) (sg_out (seg_flush enc g)) = Some False"
    using spec by (auto simp: seg_steps_def)
  then show ?thesis
    using spec ok(3) by (simp add: snoc run seg_end_def seg_scan_append)
qed

end
