(* ===== verification/Record_Meta.thy ===== *)
theory Record_Meta
  imports Calendar_Correct Cmaf
begin

text \<open>
  The texts of a recording (\<open>crates/caudal-record/src/meta.rs\<close>): file names, identifiers, the playlist, what is read
  back of it, and the closing of a playlist a crash left open. The functions of \<open>str\<close> the code uses are written out.
\<close>

subsection \<open>Texts\<close>

abbreviation newline :: char where "newline \<equiv> CHR 0x0A"

definition strip_suffix :: "string \<Rightarrow> string \<Rightarrow> string option" where
  "strip_suffix suf s = map_option rev (strip_prefix (rev suf) (rev s))"

definition ends_with :: "string \<Rightarrow> string \<Rightarrow> bool" where
  "ends_with suf s \<longleftrightarrow> strip_suffix suf s \<noteq> None"

text \<open>\<open>str::replace\<close> and \<open>str::contains\<close> for a pattern that is not empty.\<close>

function str_replace :: "string \<Rightarrow> string \<Rightarrow> string \<Rightarrow> string" where
  "str_replace p b [] = []"
| "str_replace p b (c # cs) =
     (case strip_prefix p (c # cs) of
        Some r \<Rightarrow> b @ (if length r < length (c # cs) then str_replace p b r else r)
      | None \<Rightarrow> c # str_replace p b cs)"
  by pat_completeness auto
termination
  by (relation "measure (\<lambda>(_, _, s). length s)") auto

fun str_contains :: "string \<Rightarrow> string \<Rightarrow> bool" where
  "str_contains p [] = (p = [])"
| "str_contains p (c # cs) = (strip_prefix p (c # cs) \<noteq> None \<or> str_contains p cs)"

text \<open>\<open>str::lines\<close>: a line end is \<open>\n\<close> or \<open>\r\n\<close>, and the last one need not be there.\<close>

definition strip_cr :: "string \<Rightarrow> string" where
  "strip_cr l = (if l \<noteq> [] \<and> last l = CHR 0x0D then butlast l else l)"

fun lines_from :: "string \<Rightarrow> string \<Rightarrow> string list" where
  "lines_from acc [] = (if acc = [] then [] else [acc])"
| "lines_from acc (c # cs) = (if c = newline then strip_cr acc # lines_from [] cs else lines_from (acc @ [c]) cs)"

definition str_lines :: "string \<Rightarrow> string list" where
  "str_lines s = lines_from [] s"

definition str_trim :: "string \<Rightarrow> string" where
  "str_trim s = (let blank = (\<lambda>c. c \<in> {CHR 0x20, CHR 0x09, CHR 0x0A, CHR 0x0B, CHR 0x0C, CHR 0x0D}) in
     rev (dropWhile blank (rev (dropWhile blank s))))"

text \<open>\<open>f64::from_str\<close> for plain decimals, which is all the playlists hold: a sign, digits and one point.\<close>

definition parse_f64 :: "string \<Rightarrow> rat option" where
  "parse_f64 s =
     (let neg = (s \<noteq> [] \<and> hd s = CHR ''-''); ds = (if s \<noteq> [] \<and> (hd s = CHR ''-'' \<or> hd s = CHR ''+'') then tl s else s);
          (a, b) = (case split_once (CHR ''.'') ds of Some (a, b) \<Rightarrow> (a, b) | None \<Rightarrow> (ds, []));
          v = of_int (dec_value (a @ b)) / 10 ^ length b
      in if a @ b = [] \<or> \<not> list_all is_ascii_digit (a @ b) then None else Some (f64_rnd (if neg then - v else v)))"

subsection \<open>Metadata\<close>

record track_meta =
  tm_kind :: string
  tm_codec :: string
  tm_width :: "u32 option"
  tm_height :: "u32 option"
  tm_sample_rate :: "u32 option"

record rec_meta =
  rm_stream :: string
  rm_id :: string
  rm_started_at :: string
  rm_ended_at :: "string option"
  rm_duration_ms :: nat
  rm_bytes :: nat
  rm_segments :: nat
  rm_tracks :: "track_meta list"
  rm_error :: "string option"

definition track_meta_of :: "mp4_track \<Rightarrow> track_meta" where
  "track_meta_of t =
     (let i = mt_info t in
      \<lparr>tm_kind = track_kind_as_str (track_kind_of i), tm_codec = codec_as_str (ti_codec i),
       tm_width = map_option vp_width (ti_video i), tm_height = map_option vp_height (ti_video i),
       tm_sample_rate = (case ti_audio i of
           Some a \<Rightarrow> Some (ap_sample_rate a)
         | None \<Rightarrow> if ti_video i = None then Some (ti_timescale i) else None)\<rparr>)"

text \<open>One closed segment as listed in the playlist.\<close>

record seg_entry =
  se_index :: nat
  se_duration :: rat
  se_discontinuity :: bool
  se_pdt :: "int option"

subsection \<open>Names\<close>

definition segment_name :: "nat \<Rightarrow> string" where
  "segment_name index = ''seg-'' @ zero_pad 6 (decimal index) @ ''.m4s''"

definition parse_segment_name :: "string \<Rightarrow> nat option" where
  "parse_segment_name name =
     (case strip_prefix ''seg-'' name of
        None \<Rightarrow> None
      | Some r \<Rightarrow>
         (case strip_suffix ''.m4s'' r of
            None \<Rightarrow> None
          | Some n \<Rightarrow> if length n = 6 \<and> list_all is_ascii_digit n then parse_u32 n else None))"

definition valid_id :: "string \<Rightarrow> bool" where
  "valid_id i =
     (let (b, suffix) = (case split_once (CHR ''-'') i of Some (b, s) \<Rightarrow> (b, Some s) | None \<Rightarrow> (i, None)) in
      (length b = 16 \<and> list_all is_ascii_digit (take 8 b) \<and> b ! 8 = CHR ''T'' \<and>
       list_all is_ascii_digit (take 6 (drop 9 b)) \<and> b ! 15 = CHR ''Z'') \<and>
      (case suffix of
         None \<Rightarrow> True
       | Some s \<Rightarrow> s \<noteq> [] \<and> length s \<le> 6 \<and> list_all is_ascii_digit s \<and> hd s \<noteq> CHR ''0''))"

subsection \<open>The playlist\<close>

definition unlines :: "string list \<Rightarrow> string" where
  "unlines ls = concat (map (\<lambda>l. l @ [newline]) ls)"

definition playlist_target :: "seg_entry list \<Rightarrow> nat \<Rightarrow> nat" where
  "playlist_target segments min_target =
     max (max (fold max (map (\<lambda>s. f64_to_u64 (f64_round (se_duration s))) segments) 0) min_target) 1"

definition header_of :: "nat \<Rightarrow> bool \<Rightarrow> string list" where
  "header_of target ended =
     [''#EXTM3U'', ''#EXT-X-VERSION:7'', ''#EXT-X-TARGETDURATION:'' @ decimal target, ''#EXT-X-MEDIA-SEQUENCE:0'',
      if ended then ''#EXT-X-PLAYLIST-TYPE:VOD'' else ''#EXT-X-PLAYLIST-TYPE:EVENT'',
      ''#EXT-X-INDEPENDENT-SEGMENTS'', ''#EXT-X-MAP:URI='' @ [CHR 0x22] @ ''init.mp4'' @ [CHR 0x22]]"

definition entry_lines :: "seg_entry \<Rightarrow> string list" where
  "entry_lines s =
     (if se_discontinuity s then [''#EXT-X-DISCONTINUITY''] else []) @
     (case se_pdt s of Some pdt \<Rightarrow> [''#EXT-X-PROGRAM-DATE-TIME:'' @ rfc3339 pdt] | None \<Rightarrow> []) @
     [''#EXTINF:'' @ fmt_fixed 5 (se_duration s) @ '','', segment_name (se_index s)]"

definition rec_playlist :: "seg_entry list \<Rightarrow> nat \<Rightarrow> bool \<Rightarrow> string" where
  "rec_playlist segments min_target ended =
     unlines (header_of (playlist_target segments min_target) ended @ concat (map entry_lines segments) @
       (if ended then [''#EXT-X-ENDLIST''] else []))"

text \<open>\<open>(file, seconds)\<close> for every segment a playlist lists; the first argument is the duration read last.\<close>

fun listed_from :: "rat option \<Rightarrow> string list \<Rightarrow> (string \<times> rat) list" where
  "listed_from dur [] = []"
| "listed_from dur (line # ls) =
     (case strip_prefix ''#EXTINF:'' line of
        Some v \<Rightarrow> listed_from (parse_f64 (str_trim (case split_once (CHR '','') v of Some (d, _) \<Rightarrow> d | None \<Rightarrow> v))) ls
      | None \<Rightarrow>
         if line \<noteq> [] \<and> hd line \<noteq> CHR ''#''
         then (case dur of Some d \<Rightarrow> (line, d) # listed_from None ls | None \<Rightarrow> listed_from None ls)
         else listed_from dur ls)"

definition playlist_segments :: "string \<Rightarrow> (string \<times> rat) list" where
  "playlist_segments t = listed_from None (str_lines t)"

definition close_playlist :: "string \<Rightarrow> string" where
  "close_playlist t =
     (let s = str_replace ''#EXT-X-PLAYLIST-TYPE:EVENT'' ''#EXT-X-PLAYLIST-TYPE:VOD'' t in
      if str_contains ''#EXT-X-ENDLIST'' s then s
      else (if ends_with [newline] s then s else s @ [newline]) @ ''#EXT-X-ENDLIST'' @ [newline])"


subsection \<open>Texts, line by line\<close>

text \<open>A line of ours: no line end in it, and a hash sign at most at its beginning.\<close>

definition line_ok :: "string \<Rightarrow> bool" where
  "line_ok l \<longleftrightarrow> newline \<notin> set l \<and> CHR 0x0D \<notin> set l \<and> CHR ''#'' \<notin> set (tl l)"

abbreviation event_line :: string where "event_line \<equiv> ''#EXT-X-PLAYLIST-TYPE:EVENT''"
abbreviation vod_line :: string where "vod_line \<equiv> ''#EXT-X-PLAYLIST-TYPE:VOD''"
abbreviation end_line :: string where "end_line \<equiv> ''#EXT-X-ENDLIST''"

lemma unlines_simps [simp]:
  "unlines [] = []" "unlines (l # ls) = l @ newline # unlines ls" "unlines (ls @ ms) = unlines ls @ unlines ms"
  by (simp_all add: unlines_def)

lemma strip_prefix_append: "strip_prefix p (p @ r) = Some r"
  by (simp add: strip_prefix_Some)

lemma strip_prefix_line:
  "newline \<notin> set p \<Longrightarrow> strip_prefix p (l @ newline # r) = map_option (\<lambda>x. x @ newline # r) (strip_prefix p l)"
  by (induction p l rule: strip_prefix.induct) auto

lemma strip_prefix_head: "p \<noteq> [] \<Longrightarrow> c \<noteq> hd p \<Longrightarrow> strip_prefix p (c # cs) = None"
  by (cases p) auto

lemma replace_skip:
  "p \<noteq> [] \<Longrightarrow> hd p \<notin> set l \<Longrightarrow> str_replace p b (l @ r) = l @ str_replace p b r"
  by (induction l) (auto simp: strip_prefix_head)

lemma contains_skip: "p \<noteq> [] \<Longrightarrow> hd p \<notin> set l \<Longrightarrow> str_contains p (l @ r) = str_contains p r"
  by (induction l) (auto simp: strip_prefix_head)

lemma line_ok_head: "line_ok l \<Longrightarrow> hd p = CHR ''#'' \<Longrightarrow> hd p \<notin> set (tl l)"
  by (simp add: line_ok_def)

lemma replace_line:
  assumes p: "p \<noteq> []" "hd p = CHR ''#''" "newline \<notin> set p" and l: "line_ok l" "strip_prefix p l = None"
  shows "str_replace p b (l @ newline # r) = l @ newline # str_replace p b r"
proof -
  have nl: "str_replace p b (newline # r) = newline # str_replace p b r"
    using p by (simp add: strip_prefix_head)
  show ?thesis
  proof (cases l)
    case (Cons c cs)
    have "strip_prefix p (c # cs @ newline # r) = None"
      using strip_prefix_line [OF p(3), of l r] l(2) Cons by simp
    then have "str_replace p b (l @ newline # r) = c # str_replace p b (cs @ newline # r)"
      using Cons by simp
    also have "\<dots> = c # cs @ str_replace p b (newline # r)"
      using replace_skip [OF p(1), of cs] line_ok_head [OF l(1) p(2)] Cons by simp
    finally show ?thesis using nl Cons by simp
  qed (use nl in simp)
qed

lemma contains_line:
  assumes p: "p \<noteq> []" "hd p = CHR ''#''" "newline \<notin> set p" and l: "line_ok l" "strip_prefix p l = None"
  shows "str_contains p (l @ newline # r) = str_contains p r"
proof -
  have nl: "str_contains p (newline # r) = str_contains p r"
    using p by (simp add: strip_prefix_head)
  show ?thesis
  proof (cases l)
    case (Cons c cs)
    have "strip_prefix p (c # cs @ newline # r) = None"
      using strip_prefix_line [OF p(3), of l r] l(2) Cons by simp
    then have "str_contains p (l @ newline # r) = str_contains p (cs @ newline # r)"
      using Cons by simp
    also have "\<dots> = str_contains p (newline # r)"
      using contains_skip [OF p(1), of cs] line_ok_head [OF l(1) p(2)] Cons by simp
    finally show ?thesis using nl by simp
  qed (use nl in simp)
qed

lemma replace_lines:
  assumes "p \<noteq> []" "hd p = CHR ''#''" "newline \<notin> set p" and "\<forall>l \<in> set ls. line_ok l \<and> strip_prefix p l = None"
  shows "str_replace p b (unlines ls @ r) = unlines ls @ str_replace p b r"
  using assms(4) by (induction ls) (simp_all add: replace_line [OF assms(1-3)])

lemma contains_lines:
  assumes "p \<noteq> []" "hd p = CHR ''#''" "newline \<notin> set p" and "\<forall>l \<in> set ls. line_ok l \<and> strip_prefix p l = None"
  shows "str_contains p (unlines ls @ r) = str_contains p r"
  using assms(4) by (induction ls) (simp_all add: contains_line [OF assms(1-3)])

lemma replace_hit:
  assumes "p \<noteq> []" "newline \<noteq> hd p"
  shows "str_replace p b (p @ newline # r) = b @ newline # str_replace p b r"
proof -
  obtain c cs where p: "p = c # cs" using assms(1) by (cases p) auto
  have "strip_prefix p (p @ newline # r) = Some (newline # r)" by (rule strip_prefix_append)
  then have "str_replace p b (p @ newline # r) = b @ str_replace p b (newline # r)"
    using p by simp
  then show ?thesis using assms by (simp add: strip_prefix_head)
qed

lemma lines_from_line:
  "newline \<notin> set l \<Longrightarrow> lines_from acc (l @ newline # r) = strip_cr (acc @ l) # lines_from [] r"
  by (induction l arbitrary: acc) auto

lemma lines_from_last: "newline \<notin> set l \<Longrightarrow> lines_from acc l = (if acc @ l = [] then [] else [acc @ l])"
  by (induction l arbitrary: acc) auto

lemma str_lines_unlines:
  assumes "\<forall>l \<in> set ls. line_ok l" and "newline \<notin> set t"
  shows "str_lines (unlines ls @ t) = ls @ (if t = [] then [] else [t])"
  using assms
proof (induction ls)
  case Nil
  then show ?case by (simp add: str_lines_def lines_from_last)
next
  case (Cons l ls)
  have "CHR 0x0D \<notin> set l" using Cons.prems(1) by (simp add: line_ok_def)
  then have "l \<noteq> [] \<Longrightarrow> last l \<noteq> CHR 0x0D" by (metis last_in_set)
  then have "strip_cr l = l" by (auto simp: strip_cr_def)
  then show ?case using Cons by (simp add: str_lines_def lines_from_line line_ok_def)
qed

subsection \<open>The lines of a playlist\<close>

text \<open>What digits and the marks of dates and numbers are not.\<close>

definition plain :: "string \<Rightarrow> bool" where
  "plain s \<longleftrightarrow> list_all (\<lambda>c. is_ascii_digit c \<or> c \<in> {CHR ''-'', CHR '':'', CHR ''T'', CHR ''.'', CHR ''Z''}) s"

lemma plain_append [simp]: "plain (a @ b) \<longleftrightarrow> plain a \<and> plain b" and plain_Nil [simp]: "plain []"
  by (simp_all add: plain_def)

lemma plain_marks [simp]: "plain ''-''" "plain '':''" "plain ''T''" "plain ''.''" "plain ''Z''"
  by (simp_all add: plain_def)

lemma plain_digits: "list_all is_ascii_digit s \<Longrightarrow> plain s"
  by (auto simp: plain_def list_all_iff)

lemma digits_zero_pad: "list_all is_ascii_digit s \<Longrightarrow> list_all is_ascii_digit (zero_pad w s)"
  by (auto simp: zero_pad_def list_all_iff is_ascii_digit_def byte_of_def)

lemma plain_padded: "plain (padded w n)"
  by (simp add: padded_def plain_digits digits_zero_pad decimal_digits)

lemma plain_rfc3339: "plain (rfc3339 t)"
  by (simp add: rfc3339_def case_prod_unfold Let_def plain_padded del: append_Cons)

lemma plain_fixed: "plain (fmt_fixed k q)"
  using plain_digits [OF digits_zero_pad [OF conjunct1 [OF conjunct2 [OF decimal_digits]]]]
  by (simp add: fmt_fixed_def Let_def plain_digits decimal_digits) (simp add: plain_def)

lemma plain_not: "plain s \<Longrightarrow> newline \<notin> set s \<and> CHR 0x0D \<notin> set s \<and> CHR ''#'' \<notin> set s \<and> CHR '','' \<notin> set s \<and> CHR 0x20 \<notin> set s"
  by (auto simp: plain_def list_all_iff is_ascii_digit_def byte_of_def)

lemma plain_segment: "plain (zero_pad 6 (decimal n))"
  by (simp add: plain_digits digits_zero_pad decimal_digits)

lemma line_ok_append: "line_ok a \<Longrightarrow> a \<noteq> [] \<Longrightarrow> plain b \<Longrightarrow> line_ok (a @ b)"
  using plain_not [of b] by (cases a) (auto simp: line_ok_def)

lemma literal_lines:
  "list_all (\<lambda>l. line_ok l \<and> strip_prefix event_line l = None \<and> strip_prefix end_line l = None)
     [''#EXTM3U'', ''#EXT-X-VERSION:7'', ''#EXT-X-MEDIA-SEQUENCE:0'', vod_line, ''#EXT-X-INDEPENDENT-SEGMENTS'',
      ''#EXT-X-MAP:URI='' @ [CHR 0x22] @ ''init.mp4'' @ [CHR 0x22], ''#EXT-X-DISCONTINUITY'']"
  "line_ok event_line" "line_ok end_line" "strip_prefix end_line event_line = None"
  "line_ok ''#EXT-X-TARGETDURATION:''" "line_ok ''#EXT-X-PROGRAM-DATE-TIME:''" "line_ok ''#EXTINF:''" "line_ok ''seg-''"
  by code_simp+

lemma open_lines:
  "strip_prefix event_line (''#EXT-X-TARGETDURATION:'' @ x) = None" "strip_prefix end_line (''#EXT-X-TARGETDURATION:'' @ x) = None"
  "strip_prefix event_line (''#EXT-X-PROGRAM-DATE-TIME:'' @ x) = None" "strip_prefix end_line (''#EXT-X-PROGRAM-DATE-TIME:'' @ x) = None"
  "strip_prefix event_line (''#EXTINF:'' @ x) = None" "strip_prefix end_line (''#EXTINF:'' @ x) = None"
  "strip_prefix event_line (''seg-'' @ x) = None" "strip_prefix end_line (''seg-'' @ x) = None"
  by simp_all

lemma entry_line_ok: "l \<in> set (entry_lines s) \<Longrightarrow> line_ok l \<and> strip_prefix event_line l = None \<and> strip_prefix end_line l = None"
proof -
  have comma: "line_ok (''#EXTINF:'' @ fmt_fixed 5 (se_duration s) @ '','')"
    using line_ok_append [OF literal_lines(7) _ plain_fixed] by (simp add: line_ok_def)
  have seg: "line_ok (segment_name (se_index s))"
    using line_ok_append [OF literal_lines(8) _ plain_segment] by (simp add: line_ok_def segment_name_def)
  have pdt: "line_ok (''#EXT-X-PROGRAM-DATE-TIME:'' @ rfc3339 t)" for t
    using line_ok_append [OF literal_lines(6) _ plain_rfc3339] by simp
  assume "l \<in> set (entry_lines s)"
  then consider "l = ''#EXT-X-DISCONTINUITY''" | t where "l = ''#EXT-X-PROGRAM-DATE-TIME:'' @ rfc3339 t"
    | "l = ''#EXTINF:'' @ fmt_fixed 5 (se_duration s) @ '',''" | "l = segment_name (se_index s)"
    by (auto simp only: entry_lines_def set_append Un_iff split: if_splits option.splits) (auto simp only: list.set insert_iff empty_iff)
  then show ?thesis
  proof cases
    case 1
    then show ?thesis using literal_lines(1) by (simp only: list.pred_inject)
  next
    case 2
    then show ?thesis using pdt open_lines(3,4) by simp
  next
    case 3
    then show ?thesis using comma open_lines(5,6) by simp
  next
    case 4
    then show ?thesis using seg open_lines(7,8) by (simp add: segment_name_def)
  qed
qed

lemma header_line_ok:
  assumes "l \<in> set (header_of target ended)"
  shows "line_ok l \<and> strip_prefix end_line l = None \<and> (strip_prefix event_line l \<noteq> None \<longrightarrow> l = event_line)"
proof -
  have target: "line_ok (''#EXT-X-TARGETDURATION:'' @ decimal target)"
    using line_ok_append [OF literal_lines(5) _ plain_digits] decimal_digits by simp
  have "list_all (\<lambda>l. line_ok l \<and> strip_prefix end_line l = None \<and> (strip_prefix event_line l \<noteq> None \<longrightarrow> l = event_line))
      (header_of target ended)"
    using literal_lines(1-4) target open_lines(1,2) by (simp only: header_of_def list.pred_inject simp_thms split: if_split)
  then show ?thesis using assms unfolding list_all_iff by blast
qed

subsection \<open>Reading a playlist back\<close>

lemma dec_value_append: "dec_value (a @ b) = dec_value a * 10 ^ length b + dec_value b"
proof (induction b rule: rev_induct)
  case Nil
  then show ?case by (simp add: dec_value_def)
next
  case (snoc c b)
  have "dec_value (a @ b @ [c]) = dec_value (a @ b) * 10 + digit_val c"
    using dec_value_snoc [of "a @ b" c] by simp
  then show ?case using snoc by (simp add: dec_value_snoc algebra_simps)
qed

lemma length_zero_pad: "n < 10 ^ w \<Longrightarrow> 0 < w \<Longrightarrow> length (zero_pad w (decimal n)) = w"
  using length_decimal [of n w] by (simp add: zero_pad_def)

lemma round_half_even_sign: "q < 0 \<Longrightarrow> round_half_even q \<le> 0" "0 \<le> q \<Longrightarrow> 0 \<le> round_half_even q"
  by (auto simp: round_half_even_def Let_def floor_less_zero le_floor_iff)

text \<open>The duration a playlist is read to hold.\<close>

definition shown_duration :: "rat \<Rightarrow> rat" where
  "shown_duration d = f64_rnd (of_int (round_half_even (d * 10 ^ 5)) / 10 ^ 5)"

lemma trim_plain: "plain s \<Longrightarrow> str_trim s = s"
proof -
  have drop: "dropWhile (\<lambda>c. c \<in> {CHR 0x20, CHR 0x09, CHR 0x0A, CHR 0x0B, CHR 0x0C, CHR 0x0D}) t = t" if "plain t" for t
    using that by (cases t) (auto simp: plain_def is_ascii_digit_def byte_of_def)
  assume "plain s"
  moreover from this have "plain (rev s)" by (simp add: plain_def)
  ultimately show ?thesis using drop [of s] drop [of "rev s"] by (simp only: str_trim_def Let_def rev_rev_ident)
qed

lemma parse_fixed: "parse_f64 (str_trim (fmt_fixed 5 q)) = Some (shown_duration q)"
proof -
  define r where "r = round_half_even (q * 10 ^ 5)"
  define n where "n = nat \<bar>r\<bar>"
  define A where "A = decimal (n div 10 ^ 5)"
  define B where "B = zero_pad 5 (decimal (n mod 10 ^ 5))"
  have A: "A \<noteq> []" "list_all is_ascii_digit A" "dec_value A = int (n div 10 ^ 5)"
    using decimal_digits [of "n div 10 ^ 5"] by (simp_all add: A_def)
  have B: "length B = 5" "list_all is_ascii_digit B" "dec_value B = int (n mod 10 ^ 5)"
    using decimal_digits [of "n mod 10 ^ 5"]
    by (simp_all add: B_def length_zero_pad digits_zero_pad) (simp add: zero_pad_def dec_value_zeroes)
  have fixed: "fmt_fixed 5 q = (if q < 0 then ''-'' else []) @ A @ CHR ''.'' # B"
    by (simp add: fmt_fixed_def Let_def A_def B_def n_def r_def)
  have "int n = int (n div 10 ^ 5) * 10 ^ 5 + int (n mod 10 ^ 5)"
    using div_mult_mod_eq [of n "10 ^ 5", THEN arg_cong [where f = int]] by (simp only: of_nat_add of_nat_mult of_nat_power of_nat_numeral)
  then have val: "dec_value (A @ B) = int n" by (simp only: dec_value_append A(3) B(1,3))
  have digits: "list_all is_ascii_digit (A @ B)" using A B by simp
  have dot: "split_once (CHR ''.'') (A @ CHR ''.'' # B) = Some (A, B)"
    by (rule split_once_first) (use A(2) in \<open>auto simp: list_all_iff is_ascii_digit_def byte_of_def\<close>)
  have head: "hd A \<noteq> CHR ''-''" "hd A \<noteq> CHR ''+''"
    using A(1,2) by (cases A; auto simp: is_ascii_digit_def byte_of_def)+
  have sign: "of_int r = (if q < 0 then - of_int (int n) else of_int (int n) :: rat)"
    using round_half_even_sign [of "q * 10 ^ 5"] by (simp add: n_def r_def mult_neg_pos)
  have "parse_f64 (fmt_fixed 5 q) = Some (f64_rnd (of_int r / 10 ^ 5))"
    using A(1) dot head digits val sign B(1)
    by (cases "q < 0") (simp_all add: fixed parse_f64_def Let_def hd_append)
  then show ?thesis using trim_plain [OF plain_fixed] by (simp add: shown_duration_def r_def)
qed

lemma listed_entry:
  "listed_from dur (entry_lines s @ ls) = (segment_name (se_index s), shown_duration (se_duration s)) # listed_from None ls"
proof -
  have "split_once (CHR '','') (fmt_fixed 5 (se_duration s) @ '','') = Some (fmt_fixed 5 (se_duration s), [])"
    by (rule split_once_first) (use plain_not [OF plain_fixed] in auto)
  then show ?thesis
    using parse_fixed by (simp add: entry_lines_def segment_name_def split: option.split)
qed

lemma listed_entries:
  "listed_from dur (concat (map entry_lines es) @ ls) =
     map (\<lambda>s. (segment_name (se_index s), shown_duration (se_duration s))) es @ listed_from (if es = [] then dur else None) ls"
  by (induction es arbitrary: dur) (simp_all add: listed_entry)

lemma listed_header: "listed_from dur (header_of target ended @ ls) = listed_from dur ls"
  by (simp add: header_of_def)

definition rec_lines :: "seg_entry list \<Rightarrow> nat \<Rightarrow> bool \<Rightarrow> string list" where
  "rec_lines es t ended = header_of (playlist_target es t) ended @ concat (map entry_lines es)"

lemma rec_playlist_lines: "rec_playlist es t ended = unlines (rec_lines es t ended @ (if ended then [end_line] else []))"
  by (simp add: rec_playlist_def rec_lines_def)

lemma rec_line_ok: "l \<in> set (rec_lines es t ended) \<Longrightarrow> line_ok l \<and> strip_prefix end_line l = None"
  using entry_line_ok header_line_ok by (fastforce simp: rec_lines_def)

lemma listed_playlist:
  "playlist_segments (rec_playlist es t ended) = map (\<lambda>s. (segment_name (se_index s), shown_duration (se_duration s))) es"
proof -
  have "line_ok end_line" by (simp add: line_ok_def)
  then have "str_lines (rec_playlist es t ended) = rec_lines es t ended @ (if ended then [end_line] else [])"
    using str_lines_unlines [of "rec_lines es t ended @ (if ended then [end_line] else [])" "[]"] rec_line_ok
    by (auto simp: rec_playlist_lines)
  then show ?thesis
    by (simp add: playlist_segments_def rec_lines_def listed_header listed_entries)
qed

definition top_lines :: "nat \<Rightarrow> string list" where
  "top_lines target = [''#EXTM3U'', ''#EXT-X-VERSION:7'', ''#EXT-X-TARGETDURATION:'' @ decimal target, ''#EXT-X-MEDIA-SEQUENCE:0'']"

definition map_lines :: "string list" where
  "map_lines = [''#EXT-X-INDEPENDENT-SEGMENTS'', ''#EXT-X-MAP:URI='' @ [CHR 0x22] @ ''init.mp4'' @ [CHR 0x22]]"

lemma rec_lines_split:
  "rec_lines es t ended = top_lines (playlist_target es t) @ (if ended then vod_line else event_line) #
     (map_lines @ concat (map entry_lines es))"
  by (simp only: rec_lines_def header_of_def top_lines_def map_lines_def append.simps)

lemma other_lines:
  "l \<in> set (top_lines target) \<Longrightarrow> line_ok l \<and> strip_prefix event_line l = None"
  "l \<in> set map_lines \<Longrightarrow> line_ok l \<and> strip_prefix event_line l = None"
proof -
  have target: "line_ok (''#EXT-X-TARGETDURATION:'' @ decimal target)"
    using line_ok_append [OF literal_lines(5) _ plain_digits] decimal_digits by simp
  have "list_all (\<lambda>l. line_ok l \<and> strip_prefix event_line l = None) (top_lines target)"
    "list_all (\<lambda>l. line_ok l \<and> strip_prefix event_line l = None) map_lines"
    using literal_lines(1) target open_lines(1) by (simp_all only: top_lines_def map_lines_def list.pred_inject simp_thms)
  then show "l \<in> set (top_lines target) \<Longrightarrow> line_ok l \<and> strip_prefix event_line l = None"
    "l \<in> set map_lines \<Longrightarrow> line_ok l \<and> strip_prefix event_line l = None"
    by (simp_all only: list_all_iff)
qed

lemma patterns:
  "event_line \<noteq> []" "hd event_line = CHR ''#''" "newline \<notin> set event_line" "newline \<noteq> hd event_line"
  "end_line \<noteq> []" "hd end_line = CHR ''#''" "newline \<notin> set end_line"
  by code_simp+

lemma replace_event:
  "str_replace event_line vod_line (unlines (rec_lines es t False) @ r) = unlines (rec_lines es t True) @ str_replace event_line vod_line r"
proof -
  define top where "top = top_lines (playlist_target es t)"
  define rest where "rest = map_lines @ concat (map entry_lines es)"
  define E where "E = event_line"
  define V where "V = vod_line"
  have top: "\<forall>l \<in> set top. line_ok l \<and> strip_prefix E l = None"
    using other_lines(1) by (simp only: top_def E_def) blast
  have rest: "\<forall>l \<in> set rest. line_ok l \<and> strip_prefix E l = None"
    using other_lines(2) entry_line_ok by (simp only: rest_def E_def set_append set_concat set_map) blast
  note pats = patterns(1-4) [folded E_def]
  have lines: "rec_lines es t False = top @ E # rest" "rec_lines es t True = top @ V # rest"
    by (simp_all only: rec_lines_split top_def rest_def E_def V_def if_True if_False)
  have "str_replace E V (unlines top @ E @ newline # unlines rest @ r) = unlines top @ V @ newline # unlines rest @ str_replace E V r"
    by (simp only: replace_lines [OF pats(1-3) top] replace_lines [OF pats(1-3) rest] replace_hit [OF pats(1,4)])
  then show ?thesis
    unfolding E_def [symmetric] V_def [symmetric] lines by simp
qed

lemma unlines_ends: "ls \<noteq> [] \<Longrightarrow> ends_with [newline] (unlines ls)"
  by (cases ls rule: rev_cases) (simp_all add: ends_with_def strip_suffix_def)

lemma close_rec_playlist: "close_playlist (rec_playlist es t False) = rec_playlist es t True"
proof -
  have live: "str_replace event_line vod_line (rec_playlist es t False) = unlines (rec_lines es t True)"
    using replace_event [of es t "[]"] by (simp only: rec_playlist_lines append_Nil2 str_replace.simps if_False)
  have "str_contains end_line (unlines (rec_lines es t True)) = str_contains end_line []"
    using contains_lines [OF patterns(5-7), of "rec_lines es t True" "[]"] rec_line_ok by (simp only: append_Nil2) blast
  then have open_end: "\<not> str_contains end_line (unlines (rec_lines es t True))" by simp
  have "ends_with [newline] (unlines (rec_lines es t True))"
    by (rule unlines_ends) (simp add: rec_lines_def header_of_def)
  with live open_end have "close_playlist (rec_playlist es t False) = unlines (rec_lines es t True) @ end_line @ [newline]"
    by (simp only: close_playlist_def Let_def if_True if_False simp_thms)
  also have "\<dots> = rec_playlist es t True"
    by (simp only: rec_playlist_lines unlines_simps if_True append_assoc)
  finally show ?thesis .
qed

lemma contains_hit: "p \<noteq> [] \<Longrightarrow> str_contains p (p @ r)"
  using strip_prefix_append [of p r] by (cases p) auto

lemma close_closed_playlist: "close_playlist (rec_playlist es t True) = rec_playlist es t True"
proof -
  have lines: "\<forall>l \<in> set (rec_lines es t True @ [end_line]). line_ok l \<and> strip_prefix event_line l = None"
    using other_lines entry_line_ok literal_lines(1,3)
    by (auto simp only: rec_lines_split list.pred_inject set_append set_concat set_map list.set if_True Un_iff insert_iff empty_iff)
      (simp_all add: line_ok_def)
  have whole: "rec_playlist es t True = unlines (rec_lines es t True @ [end_line])"
    by (simp only: rec_playlist_lines if_True)
  have "str_replace event_line vod_line (unlines (rec_lines es t True @ [end_line]) @ []) =
      unlines (rec_lines es t True @ [end_line]) @ str_replace event_line vod_line []"
    by (rule replace_lines [OF patterns(1-3) lines])
  then have same: "str_replace event_line vod_line (rec_playlist es t True) = rec_playlist es t True"
    by (simp only: whole append_Nil2 str_replace.simps)
  have "str_contains end_line (unlines (rec_lines es t True) @ end_line @ [newline]) = str_contains end_line (end_line @ [newline])"
    by (rule contains_lines [OF patterns(5-7)]) (use rec_line_ok in blast)
  moreover have "rec_playlist es t True = unlines (rec_lines es t True) @ end_line @ [newline]"
    by (simp only: rec_playlist_lines unlines_simps if_True append_assoc)
  ultimately have "str_contains end_line (rec_playlist es t True)"
    using contains_hit [OF patterns(5)] by (simp only:)
  with same show ?thesis by (simp only: close_playlist_def Let_def if_True)
qed

text \<open>
  Closing the playlist a crash left open gives what the recorder itself would have written at the end, and what
  is read of a playlist are its segments, in order, with their durations cut to five decimals.
\<close>

theorem closed_playlist:
  "close_playlist (rec_playlist es t False) = rec_playlist es t True \<and>
   playlist_segments (rec_playlist es t ended) = map (\<lambda>s. (segment_name (se_index s), shown_duration (se_duration s))) es"
  by (simp add: close_rec_playlist listed_playlist)

subsection \<open>Segment names\<close>

lemma strip_suffix_append: "strip_suffix p (r @ p) = Some r"
  by (simp add: strip_suffix_def strip_prefix_append)

lemma dec_value_bound: "list_all is_ascii_digit s \<Longrightarrow> 0 \<le> dec_value s \<and> dec_value s < 10 ^ length s"
proof (induction s rule: rev_induct)
  case (snoc c s)
  then have "0 \<le> digit_val c" "digit_val c \<le> 9" by (auto simp: digit_val_def is_ascii_digit_def byte_of_def)
  then show ?case using snoc by (simp add: dec_value_snoc)
qed (simp add: dec_value_def)

lemma parse_u32_digits:
  assumes "s \<noteq> []" "list_all is_ascii_digit s" "dec_value s \<le> 4294967295"
  shows "parse_u32 s = Some (nat (dec_value s))"
  using assms by (cases s) (auto simp: parse_u32_def is_ascii_digit_def byte_of_def)

text \<open>
  A segment's file name is read back to its number, and so the segment can be fetched, exactly for the first
  999,999 segments of a recording: the names of later ones have seven digits and are refused.
\<close>

theorem segment_name_read: "parse_segment_name (segment_name n) = (if n < 10 ^ 6 then Some n else None)"
proof -
  define d where "d = zero_pad 6 (decimal n)"
  have d: "list_all is_ascii_digit d" "dec_value d = int n" "d \<noteq> []"
    using decimal_digits [of n] by (simp_all add: d_def digits_zero_pad) (simp_all add: zero_pad_def dec_value_zeroes)
  have len: "length d = 6 \<longleftrightarrow> n < 10 ^ 6"
    using length_zero_pad [of n 6] dec_value_bound [OF d(1)] d(2) unfolding d_def by auto
  have "parse_segment_name (segment_name n) = (if length d = 6 then parse_u32 d else None)"
    using d(1) by (simp only: parse_segment_name_def segment_name_def d_def [symmetric] strip_prefix_append option.case strip_suffix_append) simp
  then show ?thesis using len d parse_u32_digits [OF d(3,1)] by (simp split: if_splits)
qed

end
