(* ===== verification/Record_Files.thy ===== *)
theory Record_Files
  imports Record_Meta Record_Segmenter
begin

text \<open>
  What a recorder does to its files (\<open>crates/caudal-record/src/recorder.rs\<close>) and what a restart does to them
  (\<open>recover\<close> in \<open>lib.rs\<close>). Every file operation may fail, and the server may be killed during any of them; which ones
  do is part of the state of the disk. Files hold bytes, as characters.
\<close>

subsection \<open>A disk that fails\<close>

text \<open>
  What becomes of an operation: it works, it fails with a message after so many bytes, or the server dies during it,
  after so many bytes. A rename happens or does not.
\<close>

datatype io_outcome = Works | Fails nat string | Killed nat

type_synonym dir = "string \<times> string"
type_synonym files = "string \<rightharpoonup> string"

record disk =
  dk_dirs :: "dir \<rightharpoonup> files"
  dk_outcomes :: "io_outcome list"
  dk_alive :: bool

definition on_files :: "dir \<Rightarrow> (files \<Rightarrow> files) \<Rightarrow> (dir \<rightharpoonup> files) \<Rightarrow> dir \<rightharpoonup> files" where
  "on_files d f dirs = (case dirs d of Some F \<Rightarrow> dirs(d \<mapsto> f F) | None \<Rightarrow> dirs)"

definition disk_op :: "((dir \<rightharpoonup> files) \<Rightarrow> dir \<rightharpoonup> files) \<Rightarrow> (nat \<Rightarrow> (dir \<rightharpoonup> files) \<Rightarrow> dir \<rightharpoonup> files) \<Rightarrow> disk \<Rightarrow> (string + unit) \<times> disk" where
  "disk_op done partly dk =
     (if \<not> dk_alive dk then (Inl ''killed'', dk)
      else case dk_outcomes dk of
          [] \<Rightarrow> (Inr (), dk\<lparr>dk_dirs := done (dk_dirs dk)\<rparr>)
        | Works # os \<Rightarrow> (Inr (), dk\<lparr>dk_dirs := done (dk_dirs dk), dk_outcomes := os\<rparr>)
        | Fails k e # os \<Rightarrow> (Inl e, dk\<lparr>dk_dirs := partly k (dk_dirs dk), dk_outcomes := os\<rparr>)
        | Killed k # os \<Rightarrow> (Inl ''killed'', dk\<lparr>dk_dirs := partly k (dk_dirs dk), dk_outcomes := os, dk_alive := False\<rparr>))"

text \<open>Writing a whole file truncates it first; a killed write may have done neither.\<close>

definition write_file :: "dir \<Rightarrow> string \<Rightarrow> string \<Rightarrow> disk \<Rightarrow> (string + unit) \<times> disk" where
  "write_file d f data = disk_op (on_files d (\<lambda>F. F(f \<mapsto> data)))
     (\<lambda>k. case k of 0 \<Rightarrow> id | Suc n \<Rightarrow> on_files d (\<lambda>F. F(f \<mapsto> take n data)))"

definition create_file :: "dir \<Rightarrow> string \<Rightarrow> disk \<Rightarrow> (string + unit) \<times> disk" where
  "create_file d f = write_file d f []"

definition append_file :: "dir \<Rightarrow> string \<Rightarrow> string \<Rightarrow> disk \<Rightarrow> (string + unit) \<times> disk" where
  "append_file d f data =
     (let add = (\<lambda>data F. case F f of Some old \<Rightarrow> F(f \<mapsto> old @ data) | None \<Rightarrow> F) in
      disk_op (on_files d (add data)) (\<lambda>k. on_files d (add (take k data))))"

definition rename_file :: "dir \<Rightarrow> string \<Rightarrow> string \<Rightarrow> disk \<Rightarrow> (string + unit) \<times> disk" where
  "rename_file d f g = disk_op (on_files d (\<lambda>F. case F f of Some c \<Rightarrow> F(f := None, g \<mapsto> c) | None \<Rightarrow> F)) (\<lambda>_. id)"

definition remove_file :: "dir \<Rightarrow> string \<Rightarrow> disk \<Rightarrow> (string + unit) \<times> disk" where
  "remove_file d f = disk_op (on_files d (\<lambda>F. F(f := None))) (\<lambda>_. id)"

text \<open>An operation the files do not show: \<open>create_dir_all\<close> of the stream's directory, \<open>flush\<close>, \<open>sync_data\<close>.\<close>

definition other_op :: "disk \<Rightarrow> (string + unit) \<times> disk" where
  "other_op = disk_op id (\<lambda>_. id)"

text \<open>\<open>create_dir\<close>; \<open>None\<close> is \<open>AlreadyExists\<close>.\<close>

definition create_dir :: "dir \<Rightarrow> disk \<Rightarrow> ((string + unit) \<times> disk) option" where
  "create_dir d dk =
     (if dk_alive dk \<and> dk_dirs dk d \<noteq> None then None
      else Some (disk_op (\<lambda>dirs. dirs(d \<mapsto> Map.empty)) (\<lambda>_. id) dk))"

subsection \<open>A recording\<close>

record open_seg =
  os_index :: nat
  os_tmp :: string
  os_bytes :: nat
  os_discontinuity :: bool
  os_pdt :: int

record recording =
  rc_dir :: dir
  rc_meta :: rec_meta
  rc_segments :: "seg_entry list"
  rc_seconds :: rat
  rc_open :: "open_seg option"
  rc_init_uploaded :: bool

text \<open>
  What the tasks share: the configuration (segment length, whether recordings are mirrored, the JSON writer), the disk,
  the recordings being written and the upload queue, as calls to \<open>enqueue\<close>.
\<close>

record rec_env =
  en_segment_secs :: nat
  en_uploads :: bool
  en_json :: "rec_meta \<Rightarrow> string"

record rec_world =
  rw_disk :: disk
  rw_rec :: "recording option"
  rw_active :: "dir set"
  rw_jobs :: "(dir \<times> string) list"

type_synonym 'a io = "rec_world \<Rightarrow> (string + 'a) \<times> rec_world"

definition io_return :: "'a \<Rightarrow> 'a io" where
  "io_return x w = (Inr x, w)"

definition io_bind :: "'a io \<Rightarrow> ('a \<Rightarrow> 'b io) \<Rightarrow> 'b io" where
  "io_bind m f w = (case m w of (Inl e, w) \<Rightarrow> (Inl e, w) | (Inr x, w) \<Rightarrow> f x w)"

definition io_then :: "unit io \<Rightarrow> 'b io \<Rightarrow> 'b io" where
  "io_then m n = io_bind m (\<lambda>_. n)"

definition io_disk :: "(disk \<Rightarrow> (string + unit) \<times> disk) \<Rightarrow> unit io" where
  "io_disk f w = (let (r, dk) = f (rw_disk w) in (r, w\<lparr>rw_disk := dk\<rparr>))"

definition io_modify :: "(rec_world \<Rightarrow> rec_world) \<Rightarrow> unit io" where
  "io_modify f w = (Inr (), f w)"

text \<open>\<open>let _ = ...\<close>: the error is dropped.\<close>

definition io_try :: "unit io \<Rightarrow> unit io" where
  "io_try m w = (Inr (), snd (m w))"

definition min_target :: "rec_env \<Rightarrow> nat" where
  "min_target env = max (en_segment_secs env) 1"

definition tmp_of :: "string \<Rightarrow> string" where
  "tmp_of f = f @ ''.tmp''"

text \<open>An error runs the clean-up and stays.\<close>

definition io_cleanup :: "'a io \<Rightarrow> (string \<Rightarrow> unit io) \<Rightarrow> 'a io" where
  "io_cleanup m f w = (case m w of (Inl e, w) \<Rightarrow> (Inl e, snd (f e w)) | (Inr x, w) \<Rightarrow> (Inr x, w))"

text \<open>Through a temporary file and a rename; the temporary file goes when that fails.\<close>

definition write_atomic :: "dir \<Rightarrow> string \<Rightarrow> string \<Rightarrow> unit io" where
  "write_atomic d f data =
     io_cleanup (io_then (io_disk (write_file d (tmp_of f) data)) (io_disk (rename_file d (tmp_of f) f)))
       (\<lambda>_. io_disk (remove_file d (tmp_of f)))"

definition write_playlist :: "rec_env \<Rightarrow> recording \<Rightarrow> bool \<Rightarrow> unit io" where
  "write_playlist env r ended = write_atomic (rc_dir r) ''index.m3u8'' (rec_playlist (rc_segments r) (min_target env) ended)"

definition write_meta :: "rec_env \<Rightarrow> recording \<Rightarrow> unit io" where
  "write_meta env r = write_atomic (rc_dir r) ''meta.json'' (en_json env (rc_meta r))"

definition enqueue_job :: "rec_env \<Rightarrow> dir \<Rightarrow> string \<Rightarrow> rec_world \<Rightarrow> rec_world" where
  "enqueue_job env d f w = (if en_uploads env then w\<lparr>rw_jobs := rw_jobs w @ [(d, f)]\<rparr> else w)"

definition finish_recording :: "rec_env \<Rightarrow> int \<Rightarrow> recording \<Rightarrow> string option \<Rightarrow> unit io" where
  "finish_recording env now r err =
     (let r' = r\<lparr>rc_open := None, rc_meta := (rc_meta r)\<lparr>rm_ended_at := Some (rfc3339 now), rm_error := err\<rparr>\<rparr> in
      io_then (case rc_open r of Some s \<Rightarrow> io_try (io_disk (remove_file (rc_dir r) (os_tmp s))) | None \<Rightarrow> io_return ())
     (io_then (io_try (write_playlist env r' True))
     (io_then (io_try (write_meta env r'))
              (io_modify (\<lambda>w. enqueue_job env (rc_dir r) ''meta.json'' (enqueue_job env (rc_dir r) ''index.m3u8''
                (w\<lparr>rw_active := rw_active w - {rc_dir r}\<rparr>)))))))"

text \<open>The directory is named after the second it starts in, with a number for restarts in the same second.\<close>

definition dir_name :: "string \<Rightarrow> nat \<Rightarrow> string" where
  "dir_name base n = (if n = 1 then base else base @ ''-'' @ decimal n)"

function create_rec_dir :: "string \<Rightarrow> string \<Rightarrow> nat \<Rightarrow> string io" where
  "create_rec_dir stream base n w =
     (let i = dir_name base n in
      case create_dir (stream, i) (rw_disk w) of
        Some (Inr _, dk) \<Rightarrow> (Inr i, w\<lparr>rw_disk := dk\<rparr>)
      | Some (Inl e, dk) \<Rightarrow> (Inl e, w\<lparr>rw_disk := dk\<rparr>)
      | None \<Rightarrow> if n < 999 then create_rec_dir stream base (n + 1) w else (Inl ''File exists'', w))"
  by pat_completeness auto
termination
  by (relation "measure (\<lambda>(_, _, n, _). 999 - n)") auto

declare create_rec_dir.simps [simp del]

definition new_recording :: "string \<Rightarrow> string \<Rightarrow> segmenter \<Rightarrow> int \<Rightarrow> recording" where
  "new_recording stream i g started =
     \<lparr>rc_dir = (stream, i),
      rc_meta = \<lparr>rm_stream = stream, rm_id = i, rm_started_at = rfc3339 started, rm_ended_at = None, rm_duration_ms = 0,
        rm_bytes = length (case sg_init g of Some b \<Rightarrow> b | None \<Rightarrow> []), rm_segments = 0,
        rm_tracks = map track_meta_of (sg_tracks g), rm_error = None\<rparr>,
      rc_segments = [], rc_seconds = 0, rc_open = None, rc_init_uploaded = False\<rparr>"

definition raw :: "bytes \<Rightarrow> string" where
  "raw b = map (\<lambda>x. char_of (unat x)) b"

definition create_recording :: "rec_env \<Rightarrow> int \<Rightarrow> string \<Rightarrow> segmenter \<Rightarrow> int \<Rightarrow> recording io" where
  "create_recording env now stream g started =
     io_then (io_disk other_op)
    (io_bind (create_rec_dir stream (id_for started) 1) (\<lambda>i.
      (let r = new_recording stream i g started in
       io_then (io_modify (\<lambda>w. w\<lparr>rw_active := insert (stream, i) (rw_active w)\<rparr>))
      (io_then (io_cleanup
          (io_then (write_atomic (rc_dir r) ''init.mp4'' (raw (case sg_init g of Some b \<Rightarrow> b | None \<Rightarrow> [])))
          (io_then (write_playlist env r False) (write_meta env r)))
          (\<lambda>e. finish_recording env now r (Some (''write failed: '' @ e))))
       (io_return r)))))"

subsection \<open>What the segmenter says is done\<close>

definition current_recording :: "rec_env \<Rightarrow> int \<Rightarrow> string \<Rightarrow> segmenter \<Rightarrow> int \<Rightarrow> recording io" where
  "current_recording env now stream g pdt w =
     (case rw_rec w of
        Some r \<Rightarrow> io_return r w
      | None \<Rightarrow>
          io_bind (create_recording env now stream g pdt)
            (\<lambda>r. io_then (io_modify (\<lambda>w. w\<lparr>rw_rec := Some r\<rparr>)) (io_return r)) w)"

definition apply_open :: "rec_env \<Rightarrow> int \<Rightarrow> string \<Rightarrow> segmenter \<Rightarrow> bool \<Rightarrow> int \<Rightarrow> unit io" where
  "apply_open env now stream g discontinuity pdt =
     io_bind (current_recording env now stream g pdt) (\<lambda>r.
       (let index = length (rc_segments r) + 1; tmp = tmp_of (segment_name index) in
        io_then (io_disk (create_file (rc_dir r) tmp))
          (io_modify (\<lambda>w. w\<lparr>rw_rec := Some (r\<lparr>rc_open := Some
             \<lparr>os_index = index, os_tmp = tmp, os_bytes = 0,
              os_discontinuity = (discontinuity \<and> rc_segments r \<noteq> []), os_pdt = pdt\<rparr>\<rparr>)\<rparr>))))"

definition apply_fragment :: "bytes \<Rightarrow> unit io" where
  "apply_fragment b w =
     (case rw_rec w of
        None \<Rightarrow> io_return () w
      | Some r \<Rightarrow>
         (case rc_open r of
            None \<Rightarrow> io_return () w
          | Some s \<Rightarrow>
             io_then (io_disk (append_file (rc_dir r) (os_tmp s) (raw b)))
               (io_modify (\<lambda>w. w\<lparr>rw_rec := Some (r\<lparr>rc_open := Some (s\<lparr>os_bytes := os_bytes s + length b\<rparr>)\<rparr>)\<rparr>)) w))"

text \<open>The recording once its open segment is a file of its own.\<close>

definition with_segment :: "rat \<Rightarrow> open_seg \<Rightarrow> recording \<Rightarrow> recording" where
  "with_segment duration s r =
     (let segments = rc_segments r @ [\<lparr>se_index = os_index s, se_duration = duration, se_discontinuity = os_discontinuity s,
            se_pdt = (if rc_segments r = [] \<or> os_discontinuity s then Some (os_pdt s) else None)\<rparr>];
          seconds = f64_add (rc_seconds r) duration
      in r\<lparr>rc_open := None, rc_segments := segments, rc_seconds := seconds,
           rc_meta := (rc_meta r)\<lparr>rm_segments := length segments, rm_duration_ms := f64_to_u64 (f64_round (f64_mul seconds 1000)),
             rm_bytes := rm_bytes (rc_meta r) + os_bytes s\<rparr>\<rparr>)"

definition upload_segment :: "rec_env \<Rightarrow> recording \<Rightarrow> string \<Rightarrow> rec_world \<Rightarrow> rec_world" where
  "upload_segment env r name w =
     (if \<not> en_uploads env then w
      else (let w = enqueue_job env (rc_dir r) name w;
                w = (if rc_init_uploaded r then w
                     else (enqueue_job env (rc_dir r) ''init.mp4'' w)\<lparr>rw_rec := Some (r\<lparr>rc_init_uploaded := True\<rparr>)\<rparr>)
            in enqueue_job env (rc_dir r) ''meta.json'' (enqueue_job env (rc_dir r) ''index.m3u8'' w)))"

definition apply_close :: "rec_env \<Rightarrow> rat \<Rightarrow> unit io" where
  "apply_close env duration w =
     (case rw_rec w of
        None \<Rightarrow> io_return () w
      | Some r \<Rightarrow>
         (case rc_open r of
            None \<Rightarrow> io_return () w
          | Some s \<Rightarrow>
             (let name = segment_name (os_index s); r' = with_segment duration s r in
              io_then (io_modify (\<lambda>w. w\<lparr>rw_rec := Some (r\<lparr>rc_open := None\<rparr>)\<rparr>))
             (io_then (io_disk other_op) (io_then (io_disk other_op)
             (io_then (io_disk (rename_file (rc_dir r) (os_tmp s) name))
             (io_then (io_modify (\<lambda>w. w\<lparr>rw_rec := Some r'\<rparr>))
             (io_then (write_playlist env r' False)
             (io_then (write_meta env r')
                      (io_modify (upload_segment env r' name)))))))) w)))"

fun apply_out :: "rec_env \<Rightarrow> int \<Rightarrow> string \<Rightarrow> segmenter \<Rightarrow> seg_out \<Rightarrow> unit io" where
  "apply_out env now stream g (SegOpen discontinuity pdt) = apply_open env now stream g discontinuity pdt"
| "apply_out env now stream g (SegFragment b) = apply_fragment b"
| "apply_out env now stream g (SegClose duration) = apply_close env duration"

fun apply_outs :: "rec_env \<Rightarrow> int \<Rightarrow> string \<Rightarrow> segmenter \<Rightarrow> seg_out list \<Rightarrow> unit io" where
  "apply_outs env now stream g [] = io_return ()"
| "apply_outs env now stream g (x # xs) = io_then (apply_out env now stream g x) (apply_outs env now stream g xs)"

subsection \<open>The recorder task\<close>

text \<open>
  One task per recorded publish. \<open>ra_log\<close> is what it took out of its segmenter while a window was open, kept for the
  statements only.
\<close>

datatype rec_phase = Running | Ended | Failed

record recorder =
  ra_stream :: string
  ra_seg :: segmenter
  ra_world :: rec_world
  ra_fresh :: bool
  ra_active :: bool
  ra_phase :: rec_phase
  ra_log :: "seg_out list"

definition recorder_new :: "rec_env \<Rightarrow> string \<Rightarrow> bool option \<Rightarrow> disk \<Rightarrow> recorder" where
  "recorder_new env stream gate dk =
     \<lparr>ra_stream = stream, ra_seg = segmenter_new (min (max (en_segment_secs env) 1 * 1000) (2 ^ 32 - 1)),
      ra_world = \<lparr>rw_disk = dk, rw_rec = None, rw_active = {}, rw_jobs = []\<rparr>, ra_fresh = True,
      ra_active = (case gate of None \<Rightarrow> True | Some g \<Rightarrow> g), ra_phase = Running, ra_log = []\<rparr>"

datatype rec_event =
    RvTracks "track_info list"
  | RvFrame frame int
  | RvLagged
  | RvCue
  | RvEnd
  | RvGate bool

definition apply_taken :: "rec_env \<Rightarrow> int \<Rightarrow> recorder \<Rightarrow> (string + unit) \<times> recorder" where
  "apply_taken env now st =
     (let (outs, g) = seg_take (ra_seg st); (res, w) = apply_outs env now (ra_stream st) g outs (ra_world st)
      in (res, st\<lparr>ra_seg := g, ra_world := w, ra_log := ra_log st @ outs\<rparr>))"

definition finish_current :: "rec_env \<Rightarrow> int \<Rightarrow> string option \<Rightarrow> recorder \<Rightarrow> recorder" where
  "finish_current env now err st =
     (case rw_rec (ra_world st) of
        None \<Rightarrow> st
      | Some r \<Rightarrow> st\<lparr>ra_world := snd (finish_recording env now r err ((ra_world st)\<lparr>rw_rec := None\<rparr>))\<rparr>)"

text \<open>A failed write ends the recording and the task.\<close>

definition unless_failed :: "rec_env \<Rightarrow> int \<Rightarrow> (recorder \<Rightarrow> recorder) \<Rightarrow> (string + unit) \<times> recorder \<Rightarrow> recorder" where
  "unless_failed env now f p =
     (case p of
        (Inl e, st) \<Rightarrow> (finish_current env now (Some (''write failed: '' @ e)) st)\<lparr>ra_phase := Failed\<rparr>
      | (Inr _, st) \<Rightarrow> f st)"

fun recorder_event :: "'c mp4_codec \<Rightarrow> (moof \<Rightarrow> bytes) \<Rightarrow> rec_env \<Rightarrow> int \<Rightarrow> rec_event \<Rightarrow> recorder \<Rightarrow> recorder" where
  "recorder_event mc enc env now (RvGate opened) st =
     (if opened = ra_active st then st
      else if opened then st\<lparr>ra_active := True, ra_fresh := True\<rparr>
      else unless_failed env now (finish_current env now None)
             (apply_taken env now (st\<lparr>ra_active := False, ra_seg := seg_lagged enc (ra_seg st)\<rparr>)))"
| "recorder_event mc enc env now (RvTracks ts) st =
     (let (changed, g) = seg_set_tracks mc enc ts (ra_seg st) in
      if ra_active st
      then if changed then unless_failed env now (finish_current env now None) (apply_taken env now (st\<lparr>ra_seg := g\<rparr>))
           else st\<lparr>ra_seg := g\<rparr>
      else st\<lparr>ra_seg := snd (seg_take g)\<rparr>)"
| "recorder_event mc enc env now (RvFrame f buffered) st =
     (if ra_active st
      then (let received = (if ra_fresh st then now - max buffered 0 * 1000 else now) in
            unless_failed env now id
              (apply_taken env now (st\<lparr>ra_fresh := False, ra_seg := seg_push enc f received (ra_seg st)\<rparr>)))
      else st)"
| "recorder_event mc enc env now RvLagged st =
     (if ra_active st
      then unless_failed env now id
             (apply_taken env now (st\<lparr>ra_seg := seg_lagged enc (ra_seg st), ra_fresh := True\<rparr>))
      else st)"
| "recorder_event mc enc env now RvCue st = st"
| "recorder_event mc enc env now RvEnd st =
     unless_failed env now (\<lambda>st. (finish_current env now None st)\<lparr>ra_phase := Ended\<rparr>)
       (apply_taken env now (st\<lparr>ra_seg := seg_end enc (ra_seg st)\<rparr>))"

fun recorder_run :: "'c mp4_codec \<Rightarrow> (moof \<Rightarrow> bytes) \<Rightarrow> rec_env \<Rightarrow> (int \<times> rec_event) list \<Rightarrow> recorder \<Rightarrow> recorder" where
  "recorder_run mc enc env [] st = st"
| "recorder_run mc enc env ((now, ev) # evs) st =
     (if ra_phase st = Running then recorder_run mc enc env evs (recorder_event mc enc env now ev st) else st)"

subsection \<open>After a restart\<close>

text \<open>
  \<open>recover\<close> on one directory: \<open>modified\<close> is the time of the last write to \<open>meta.json\<close>, \<open>json_dec\<close> the JSON reader. What
  fails is skipped.
\<close>

definition io_quiet :: "(disk \<Rightarrow> (string + unit) \<times> disk) \<Rightarrow> disk \<Rightarrow> disk" where
  "io_quiet f dk = snd (f dk)"

definition read_file :: "dir \<Rightarrow> string \<Rightarrow> disk \<Rightarrow> string option" where
  "read_file d f dk = (case dk_dirs dk d of Some F \<Rightarrow> F f | None \<Rightarrow> None)"

fun remove_temporaries :: "dir \<Rightarrow> string list \<Rightarrow> disk \<Rightarrow> disk" where
  "remove_temporaries d [] dk = dk"
| "remove_temporaries d (f # fs) dk =
     remove_temporaries d fs (if ends_with ''.tmp'' f then io_quiet (remove_file d f) dk else dk)"

definition recover_dir :: "(rec_meta \<Rightarrow> string) \<Rightarrow> (string \<Rightarrow> rec_meta option) \<Rightarrow> int \<Rightarrow> string list \<Rightarrow> dir \<Rightarrow> disk \<Rightarrow> disk" where
  "recover_dir json json_dec modified listing d dk =
     (let dk = remove_temporaries d listing dk in
      case Option.bind (read_file d ''meta.json'' dk) json_dec of
        None \<Rightarrow> dk
      | Some m \<Rightarrow>
         if rm_ended_at m \<noteq> None then dk
         else (let m = m\<lparr>rm_ended_at := Some (rfc3339 modified),
                     rm_error := (case rm_error m of Some e \<Rightarrow> Some e | None \<Rightarrow> Some ''interrupted: the server stopped while recording'')\<rparr>;
                   dk = (case read_file d ''index.m3u8'' dk of
                       Some pl \<Rightarrow> io_quiet (write_file d ''index.m3u8'' (close_playlist pl)) dk
                     | None \<Rightarrow> dk)
               in io_quiet (write_file d ''meta.json'' (json m)) dk))"

end
