(* ===== verification/Disk_Logic.thy ===== *)
theory Disk_Logic
  imports Record_Files
begin

text \<open>
  A small Hoare logic for the file operations of \<open>Record_Files\<close>: triples with a postcondition for success and one for
  errors, rules for the combinators, and a rule for every operation on a single file.
\<close>

subsection \<open>Reasoning about file operations\<close>

text \<open>
  Assertions speak of whether the server is alive, of the files and of the recording in hand. A triple has a
  postcondition for success and one for errors.
\<close>

type_synonym assn = "bool \<Rightarrow> (dir \<rightharpoonup> files) \<Rightarrow> recording option \<Rightarrow> bool"

definition assn_at :: "assn \<Rightarrow> rec_world \<Rightarrow> bool" where
  "assn_at P w = P (dk_alive (rw_disk w)) (dk_dirs (rw_disk w)) (rw_rec w)"

definition io_ok :: "assn \<Rightarrow> 'a io \<Rightarrow> ('a \<Rightarrow> assn) \<Rightarrow> assn \<Rightarrow> bool" where
  "io_ok P m Q E \<longleftrightarrow>
     (\<forall>w. assn_at P w \<longrightarrow> (case m w of (Inl e, w') \<Rightarrow> assn_at E w' | (Inr x, w') \<Rightarrow> assn_at (Q x) w'))"

lemma io_okD:
  "io_ok P m Q E \<Longrightarrow> assn_at P w \<Longrightarrow> (case m w of (Inl e, w') \<Rightarrow> assn_at E w' | (Inr x, w') \<Rightarrow> assn_at (Q x) w')"
  unfolding io_ok_def by (drule spec [of _ w]) (erule (1) mp)

lemma io_ok_weaken:
  "io_ok P m Q E \<Longrightarrow> (\<And>a D c. P' a D c \<Longrightarrow> P a D c) \<Longrightarrow> (\<And>x a D c. Q x a D c \<Longrightarrow> Q' x a D c) \<Longrightarrow>
   (\<And>a D c. E a D c \<Longrightarrow> E' a D c) \<Longrightarrow> io_ok P' m Q' E'"
  by (fastforce simp: io_ok_def assn_at_def split: prod.splits sum.splits)

lemma io_ok_bind: "io_ok P m Q E \<Longrightarrow> (\<And>x. io_ok (Q x) (f x) R E) \<Longrightarrow> io_ok P (io_bind m f) R E"
  by (fastforce simp: io_ok_def io_bind_def split: prod.splits sum.splits)

lemma io_ok_then: "io_ok P m (\<lambda>_. Q) E \<Longrightarrow> io_ok Q n R E \<Longrightarrow> io_ok P (io_then m n) R E"
  unfolding io_then_def by (rule io_ok_bind)

lemma io_ok_return: "(\<And>a D c. P a D c \<Longrightarrow> Q x a D c) \<Longrightarrow> io_ok P (io_return x) Q E"
  by (simp add: io_ok_def io_return_def assn_at_def)

lemma io_ok_modify:
  "(\<And>w. assn_at P w \<Longrightarrow> assn_at (Q ()) (f w)) \<Longrightarrow> io_ok P (io_modify f) Q E"
  by (simp add: io_ok_def io_modify_def)

lemma io_ok_try: "io_ok P m (\<lambda>_. Q) Q \<Longrightarrow> io_ok P (io_try m) (\<lambda>_. Q) E"
  unfolding io_ok_def io_try_def
proof (intro allI impI)
  fix w assume m: "\<forall>w. assn_at P w \<longrightarrow> (case m w of (Inl e, w') \<Rightarrow> assn_at Q w' | (Inr x, w') \<Rightarrow> assn_at Q w')" and w: "assn_at P w"
  have "case m w of (Inl e, w') \<Rightarrow> assn_at Q w' | (Inr x, w') \<Rightarrow> assn_at Q w'" by (rule m [THEN spec, THEN mp, OF w])
  then show "case (Inr (), snd (m w)) of (Inl e, w') \<Rightarrow> assn_at E w' | (Inr x, w') \<Rightarrow> assn_at Q w'"
    by (cases "m w"; cases "fst (m w)") simp_all
qed

lemma io_ok_cleanup: "io_ok P m Q X \<Longrightarrow> (\<And>e. io_ok X (f e) (\<lambda>_. E) E) \<Longrightarrow> io_ok P (io_cleanup m f) Q E"
  unfolding io_ok_def io_cleanup_def
proof (intro allI impI)
  fix w assume m: "\<forall>w. assn_at P w \<longrightarrow> (case m w of (Inl e, w') \<Rightarrow> assn_at X w' | (Inr x, w') \<Rightarrow> assn_at (Q x) w')"
    and f: "\<And>e. \<forall>w. assn_at X w \<longrightarrow> (case f e w of (Inl e, w') \<Rightarrow> assn_at E w' | (Inr x, w') \<Rightarrow> assn_at E w')" and w: "assn_at P w"
  have after: "case m w of (Inl e, w') \<Rightarrow> assn_at X w' | (Inr x, w') \<Rightarrow> assn_at (Q x) w'" by (rule m [THEN spec, THEN mp, OF w])
  obtain r w' where run: "m w = (r, w')" by fastforce
  show "case case m w of (Inl e, w) \<Rightarrow> (Inl e, snd (f e w)) | (Inr x, w) \<Rightarrow> (Inr x, w) of
      (Inl e, w') \<Rightarrow> assn_at E w' | (Inr x, w') \<Rightarrow> assn_at (Q x) w'"
  proof (cases r)
    case (Inl e)
    then have "case f e w' of (Inl e, w') \<Rightarrow> assn_at E w' | (Inr x, w') \<Rightarrow> assn_at E w'" using after run f [of e] by simp
    then show ?thesis using run Inl by (cases "f e w'"; cases "fst (f e w')") simp_all
  qed (use after run in simp)
qed

lemma io_ok_disk:
  assumes "\<And>D c. P False D c \<Longrightarrow> E False D c"
    and "\<And>D c. P True D c \<Longrightarrow> Q () True (done D) c"
    and "\<And>D c a k. P True D c \<Longrightarrow> E a (partly k D) c"
  shows "io_ok P (io_disk (disk_op done partly)) Q E"
  using assms
  by (auto simp: io_ok_def io_disk_def disk_op_def assn_at_def split: list.splits io_outcome.splits)

subsection \<open>Single files\<close>

definition same_but :: "string set \<Rightarrow> files \<Rightarrow> files \<Rightarrow> bool" where
  "same_but S F G \<longleftrightarrow> (\<forall>f. f \<notin> S \<longrightarrow> G f = F f)"

lemma same_but_refl [simp]: "same_but S F F"
  by (simp add: same_but_def)

lemma on_files_at: "D d = Some F \<Longrightarrow> on_files d f D = D(d \<mapsto> f F)"
  by (simp add: on_files_def)

lemma tmp_not [simp]: "tmp_of f \<noteq> f" "f \<noteq> tmp_of f"
  by (simp_all add: tmp_of_def)

lemma write_file_ok:
  assumes dead: "\<And>D c. P False D c \<Longrightarrow> E False D c"
    and dir: "\<And>D c. P True D c \<Longrightarrow> \<exists>F. D d = Some F"
    and ok: "\<And>D c F. P True D c \<Longrightarrow> D d = Some F \<Longrightarrow> Q () True (D(d \<mapsto> F(f \<mapsto> data))) c"
    and bad: "\<And>D c a F G. P True D c \<Longrightarrow> D d = Some F \<Longrightarrow> same_but {f} F G \<Longrightarrow> E a (D(d \<mapsto> G)) c"
  shows "io_ok P (io_disk (write_file d f data)) Q E"
  unfolding write_file_def
proof (rule io_ok_disk)
  fix D c assume P: "P True D c"
  then obtain F where F: "D d = Some F" using dir by blast
  show "Q () True (on_files d (\<lambda>F. F(f \<mapsto> data)) D) c" using ok [OF P F] by (simp add: on_files_at [where D = D and d = d, OF F])
  fix a k
  have "E a (D(d \<mapsto> F)) c" by (rule bad [OF P F]) simp
  then have "E a D c" using F by (simp add: fun_upd_idem)
  moreover have "E a (D(d \<mapsto> F(f \<mapsto> take n data))) c" for n by (rule bad [OF P F]) (simp add: same_but_def)
  ultimately show "E a ((case k of 0 \<Rightarrow> id | Suc n \<Rightarrow> on_files d (\<lambda>F. F(f \<mapsto> take n data))) D) c"
    by (cases k) (simp_all add: on_files_at [where D = D and d = d, OF F])
qed (rule dead)

lemma rename_file_ok:
  assumes dead: "\<And>D c. P False D c \<Longrightarrow> E False D c"
    and dir: "\<And>D c. P True D c \<Longrightarrow> \<exists>F x. D d = Some F \<and> F f = Some x"
    and ok: "\<And>D c F x. P True D c \<Longrightarrow> D d = Some F \<Longrightarrow> F f = Some x \<Longrightarrow> Q () True (D(d \<mapsto> F(f := None, g \<mapsto> x))) c"
    and bad: "\<And>D c a. P True D c \<Longrightarrow> E a D c"
  shows "io_ok P (io_disk (rename_file d f g)) Q E"
  unfolding rename_file_def
proof (rule io_ok_disk)
  fix D c assume P: "P True D c"
  then obtain F x where F: "D d = Some F" "F f = Some x" using dir by blast
  show "Q () True (on_files d (\<lambda>F. case F f of Some c \<Rightarrow> F(f := None, g \<mapsto> c) | None \<Rightarrow> F) D) c"
    using ok [OF P F] F(2) by (simp add: on_files_at [where D = D and d = d, OF F(1)])
qed (use dead bad in auto)

lemma remove_file_ok:
  assumes dead: "\<And>D c. P False D c \<Longrightarrow> E False D c"
    and dir: "\<And>D c. P True D c \<Longrightarrow> \<exists>F. D d = Some F"
    and ok: "\<And>D c F a. P True D c \<Longrightarrow> D d = Some F \<Longrightarrow> E a (D(d \<mapsto> F(f := None))) c \<and> E a D c"
  shows "io_ok P (io_disk (remove_file d f)) (\<lambda>_. E) E"
  unfolding remove_file_def
proof (rule io_ok_disk)
  fix D c assume P: "P True D c"
  then obtain F where F: "D d = Some F" using dir by blast
  show "E True (on_files d (\<lambda>F. F(f := None)) D) c" using ok [OF P F] by (simp add: on_files_at [where D = D and d = d, OF F])
  fix a k show "E a (id D) c" using ok [OF P F] by simp
qed (rule dead)

lemma append_file_ok:
  assumes dead: "\<And>D c. P False D c \<Longrightarrow> E False D c"
    and dir: "\<And>D c. P True D c \<Longrightarrow> \<exists>F x. D d = Some F \<and> F f = Some x"
    and ok: "\<And>D c F x. P True D c \<Longrightarrow> D d = Some F \<Longrightarrow> F f = Some x \<Longrightarrow> Q () True (D(d \<mapsto> F(f \<mapsto> x @ data))) c"
    and bad: "\<And>D c a F G. P True D c \<Longrightarrow> D d = Some F \<Longrightarrow> same_but {f} F G \<Longrightarrow> E a (D(d \<mapsto> G)) c"
  shows "io_ok P (io_disk (append_file d f data)) Q E"
  unfolding append_file_def Let_def
proof (rule io_ok_disk)
  fix D c assume P: "P True D c"
  then obtain F x where F: "D d = Some F" "F f = Some x" using dir by blast
  show "Q () True (on_files d (\<lambda>F. case F f of Some old \<Rightarrow> F(f \<mapsto> old @ data) | None \<Rightarrow> F) D) c"
    using ok [OF P F] F(2) by (simp add: on_files_at [where D = D and d = d, OF F(1)])
  fix a k
  show "E a (on_files d (\<lambda>F. case F f of Some old \<Rightarrow> F(f \<mapsto> old @ take k data) | None \<Rightarrow> F) D) c"
    using bad [OF P F(1), of "F(f \<mapsto> x @ take k data)" a] F(2) by (simp add: on_files_at [where D = D and d = d, OF F(1)] same_but_def)
qed (rule dead)

lemma other_op_ok:
  "(\<And>D c. P False D c \<Longrightarrow> E False D c) \<Longrightarrow> (\<And>D c a. P True D c \<Longrightarrow> E a D c) \<Longrightarrow> io_ok P (io_disk other_op) (\<lambda>_. P) E"
  unfolding other_op_def by (rule io_ok_disk) auto

lemma write_atomic_ok:
  assumes dead: "\<And>D c. P False D c \<Longrightarrow> E False D c"
    and dir: "\<And>D c. P True D c \<Longrightarrow> \<exists>F. D d = Some F"
    and ok: "\<And>D c F G. P True D c \<Longrightarrow> D d = Some F \<Longrightarrow> same_but {f, tmp_of f} F G \<Longrightarrow> G f = Some data \<Longrightarrow>
        Q () True (D(d \<mapsto> G)) c"
    and bad: "\<And>D c a F G. P True D c \<Longrightarrow> D d = Some F \<Longrightarrow> same_but {tmp_of f} F G \<Longrightarrow> E a (D(d \<mapsto> G)) c"
  shows "io_ok P (write_atomic d f data) Q E"
proof -
  define X :: assn where
    "X = (\<lambda>a D c. (\<not> a \<and> P False D c) \<or> (\<exists>D0 F G. P True D0 c \<and> D0 d = Some F \<and> same_but {tmp_of f} F G \<and> D = D0(d \<mapsto> G)))"
  define M :: assn where
    "M = (\<lambda>a D c. a \<and> (\<exists>D0 F. P True D0 c \<and> D0 d = Some F \<and> D = D0(d \<mapsto> F(tmp_of f \<mapsto> data))))"
  have written: "io_ok P (io_disk (write_file d (tmp_of f) data)) (\<lambda>_. M) X"
  proof (rule write_file_ok)
    fix D c a F G assume "P True D c" "D d = Some F" "same_but {tmp_of f} F G"
    then show "X a (D(d \<mapsto> G)) c" unfolding X_def by blast
  qed (use dir in \<open>auto simp: M_def X_def\<close>)
  have rename: "io_ok M (io_disk (rename_file d (tmp_of f) f)) Q X"
  proof (rule rename_file_ok)
    fix D c F x assume M: "M True D c" and F: "D d = Some F" "F (tmp_of f) = Some x"
    then obtain D0 F0 where D0: "P True D0 c" "D0 d = Some F0" "D = D0(d \<mapsto> F0(tmp_of f \<mapsto> data))" by (auto simp: M_def)
    have "Q () True (D0(d \<mapsto> F(tmp_of f := None, f \<mapsto> x))) c"
      by (rule ok [OF D0(1,2)]) (use D0 F in \<open>auto simp: same_but_def\<close>)
    then show "Q () True (D(d \<mapsto> F(tmp_of f := None, f \<mapsto> x))) c" using D0(3) by simp
  next
    fix D c a assume "M True D c"
    then obtain D1 F where "P True D1 c" "D1 d = Some F" "D = D1(d \<mapsto> F(tmp_of f \<mapsto> data))" by (auto simp: M_def)
    moreover have "same_but {tmp_of f} F (F(tmp_of f \<mapsto> data))" by (simp add: same_but_def)
    ultimately show "X a D c" unfolding X_def by blast
  qed (auto simp: M_def)
  have clean: "io_ok X (io_disk (remove_file d (tmp_of f))) (\<lambda>_. E) E"
  proof (rule remove_file_ok)
    fix D c F a assume "X True D c" and F: "D d = Some F"
    then obtain D0 F0 where D0: "P True D0 c" "D0 d = Some F0" "same_but {tmp_of f} F0 F" "D = D0(d \<mapsto> F)" by (auto simp: X_def)
    have "E a (D0(d \<mapsto> F(tmp_of f := None))) c" "E a (D0(d \<mapsto> F)) c"
      by (rule bad [OF D0(1,2)]; use D0(3) in \<open>simp add: same_but_def\<close>)+
    then show "E a (D(d \<mapsto> F(tmp_of f := None))) c \<and> E a D c" using D0(4) by simp
  next
    fix D c assume "X False D c"
    then show "E False D c" using dead bad by (auto simp: X_def)
  qed (auto simp: X_def)
  show ?thesis
    unfolding write_atomic_def by (rule io_ok_cleanup [OF io_ok_then [OF written rename] clean])
qed

end
