(* ===== verification/Record_Correct.thy ===== *)
theory Record_Correct
  imports Disk_Logic
begin

text \<open>
  What the files of recordings show at every moment, whichever file operation fails and whenever the server is killed,
  and that nothing is lost as long as none does. The specification is the list of segments the segmenter completed.
\<close>

subsection \<open>What a directory shows\<close>

text \<open>
  A playlist lists \<open>n\<close> segments, and they are \<open>n\<close> consecutive ones of the completed segments \<open>L\<close>, each complete.
\<close>

definition listing :: "string \<Rightarrow> nat \<Rightarrow> bool" where
  "listing t n \<longleftrightarrow> map fst (playlist_segments t) = map segment_name [1..<n + 1]"

definition holds_segments :: "string list \<Rightarrow> nat \<Rightarrow> nat \<Rightarrow> files \<Rightarrow> bool" where
  "holds_segments L k n F \<longleftrightarrow> (\<forall>i < n. k + i < length L \<and> F (segment_name (i + 1)) = Some (L ! (k + i)))"

definition shows_ok :: "string list \<Rightarrow> files \<Rightarrow> bool" where
  "shows_ok L F \<longleftrightarrow> (\<forall>t. F ''index.m3u8'' = Some t \<longrightarrow> (\<exists>n k. listing t n \<and> holds_segments L k n F))"

definition lists_segment :: "string list \<Rightarrow> nat \<Rightarrow> files \<Rightarrow> bool" where
  "lists_segment L i F \<longleftrightarrow>
     (\<exists>t n j. F ''index.m3u8'' = Some t \<and> listing t n \<and> j < n \<and> F (segment_name (j + 1)) = Some (L ! i))"

definition crash_safe :: "(dir \<rightharpoonup> files) \<Rightarrow> string list \<Rightarrow> (dir \<rightharpoonup> files) \<Rightarrow> bool" where
  "crash_safe D0 L D \<longleftrightarrow> (\<forall>d \<in> dom D0. D d = D0 d) \<and> (\<forall>d F. d \<notin> dom D0 \<longrightarrow> D d = Some F \<longrightarrow> shows_ok L F)"

definition all_listed :: "(dir \<rightharpoonup> files) \<Rightarrow> string list \<Rightarrow> (dir \<rightharpoonup> files) \<Rightarrow> bool" where
  "all_listed D0 L D \<longleftrightarrow> (\<forall>i < length L. \<exists>d F. d \<notin> dom D0 \<and> D d = Some F \<and> lists_segment L i F)"

definition visible :: "string \<Rightarrow> bool" where
  "visible f \<longleftrightarrow> f = ''index.m3u8'' \<or> f \<in> range segment_name"

definition same_visible :: "files \<Rightarrow> files \<Rightarrow> bool" where
  "same_visible F G \<longleftrightarrow> (\<forall>f. visible f \<longrightarrow> G f = F f)"

lemma last_segment_name [simp]: "last (segment_name i) = CHR ''s''" "segment_name i \<noteq> []"
  by (simp_all add: segment_name_def)

lemma last_tmp [simp]: "last (tmp_of f) = CHR ''p''"
  by (simp add: tmp_of_def)

lemma segment_name_inj: "segment_name i = segment_name j \<Longrightarrow> i = j"
proof -
  assume "segment_name i = segment_name j"
  then have "zero_pad 6 (decimal i) = zero_pad 6 (decimal j)" by (simp add: segment_name_def)
  then have "dec_value (zero_pad 6 (decimal i)) = dec_value (zero_pad 6 (decimal j))" by simp
  then show ?thesis by (simp add: zero_pad_def dec_value_zeroes decimal_digits)
qed

lemma segment_name_eq [simp]: "segment_name i = segment_name j \<longleftrightarrow> i = j"
  using segment_name_inj by blast

lemma names_differ [simp]:
  "segment_name i \<noteq> tmp_of f" "segment_name i \<noteq> ''index.m3u8''" "segment_name i \<noteq> ''meta.json''" "segment_name i \<noteq> ''init.mp4''"
  "tmp_of f \<noteq> ''index.m3u8''" "tmp_of f \<noteq> ''meta.json''" "tmp_of f \<noteq> ''init.mp4''" "tmp_of f \<noteq> segment_name i"
  by (auto dest: arg_cong [where f = last])

lemmas names_differ_sym [simp] = names_differ [symmetric]

lemma tmp_inj [simp]: "tmp_of f = tmp_of g \<longleftrightarrow> f = g"
  by (simp add: tmp_of_def)

lemma not_visible [simp]: "\<not> visible (tmp_of f)" "\<not> visible ''meta.json''" "\<not> visible ''init.mp4''"
  using names_differ names_differ [symmetric] by (auto simp: visible_def)

lemma same_but_visible: "same_but S F G \<Longrightarrow> (\<And>f. f \<in> S \<Longrightarrow> \<not> visible f) \<Longrightarrow> same_visible F G"
  by (auto simp: same_but_def same_visible_def)

lemma same_visible_at: "same_visible F G \<Longrightarrow> G ''index.m3u8'' = F ''index.m3u8'' \<and> G (segment_name i) = F (segment_name i)"
  by (simp add: same_visible_def visible_def)

lemma holds_segments_cong: "(\<And>i. G (segment_name i) = F (segment_name i)) \<Longrightarrow> holds_segments L k n G = holds_segments L k n F"
  by (simp add: holds_segments_def)

lemma holds_segments_more: "holds_segments L k n F \<Longrightarrow> holds_segments (L @ M) k n F"
  by (auto simp: holds_segments_def nth_append)

lemma shows_ok_same: "same_visible F G \<Longrightarrow> shows_ok L G = shows_ok L F"
  using holds_segments_cong [of G F] by (simp add: shows_ok_def same_visible_at)

lemma lists_segment_same: "same_visible F G \<Longrightarrow> lists_segment L i G = lists_segment L i F"
  by (simp add: lists_segment_def same_visible_at)

lemma crash_safe_more: "crash_safe D0 L D \<Longrightarrow> crash_safe D0 (L @ M) D"
  using holds_segments_more unfolding crash_safe_def shows_ok_def by blast

lemma crash_safe_upd: "crash_safe D0 L D \<Longrightarrow> d \<notin> dom D0 \<Longrightarrow> shows_ok L F \<Longrightarrow> crash_safe D0 L (D(d \<mapsto> F))"
  by (auto simp: crash_safe_def)

lemma crash_safe_same: "crash_safe D0 L D \<Longrightarrow> d \<notin> dom D0 \<Longrightarrow> D d = Some F \<Longrightarrow> same_visible F G \<Longrightarrow> crash_safe D0 L (D(d \<mapsto> G))"
proof (rule crash_safe_upd)
  assume "crash_safe D0 L D" "d \<notin> dom D0" "D d = Some F" and same: "same_visible F G"
  then have "shows_ok L F" unfolding crash_safe_def by blast
  then show "shows_ok L G" using shows_ok_same [OF same] by simp
qed

lemma all_listed_upd:
  "all_listed D0 L D \<Longrightarrow> d \<notin> dom D0 \<Longrightarrow> (\<And>F i. D d = Some F \<Longrightarrow> lists_segment L i F \<Longrightarrow> lists_segment L i G) \<Longrightarrow>
   all_listed D0 L (D(d \<mapsto> G))"
  unfolding all_listed_def by (metis fun_upd_apply option.inject)

lemma all_listed_same: "all_listed D0 L D \<Longrightarrow> d \<notin> dom D0 \<Longrightarrow> D d = Some F \<Longrightarrow> same_visible F G \<Longrightarrow> all_listed D0 L (D(d \<mapsto> G))"
  by (rule all_listed_upd) (auto simp: lists_segment_same)

lemma listing_unique: "listing t n \<Longrightarrow> listing t m \<Longrightarrow> n = m"
  unfolding listing_def by (metis add_right_cancel diff_add_inverse2 length_map length_upt)

text \<open>A new playlist that lists the same segments as the one it replaces.\<close>

lemma lists_segment_replaced:
  assumes "lists_segment L i F" and "F ''index.m3u8'' = Some t" "listing t n" and "G ''index.m3u8'' = Some t'" "listing t' n"
    and "\<And>i. G (segment_name i) = F (segment_name i)"
  shows "lists_segment L i G"
  using assms listing_unique by (fastforce simp: lists_segment_def)

subsection \<open>A recording in hand\<close>

definition numbered :: "seg_entry list \<Rightarrow> bool" where
  "numbered es \<longleftrightarrow> map se_index es = [1..<length es + 1]"

lemma numbered_listing: "numbered es \<Longrightarrow> listing (rec_playlist es m e) (length es)"
proof -
  assume n: "numbered es"
  have "map fst (playlist_segments (rec_playlist es m e)) = map segment_name (map se_index es)"
    using listed_playlist [of es m e] by simp
  then show ?thesis using n by (simp only: listing_def numbered_def)
qed

lemma numbered_snoc: "numbered es \<Longrightarrow> se_index s = length es + 1 \<Longrightarrow> numbered (es @ [s])"
  by (simp add: numbered_def)

definition rec_dir_ok :: "(dir \<rightharpoonup> files) \<Rightarrow> string list \<Rightarrow> (dir \<rightharpoonup> files) \<Rightarrow> recording \<Rightarrow> bool" where
  "rec_dir_ok D0 L D r \<longleftrightarrow>
     rc_dir r \<notin> dom D0 \<and> numbered (rc_segments r) \<and> (\<forall>s. rc_open r = Some s \<longrightarrow> \<not> visible (os_tmp s)) \<and>
     (\<exists>F k. D (rc_dir r) = Some F \<and> holds_segments L k (length (rc_segments r)) F)"

text \<open>Between two steps the playlist on disk is up to date, and the open file holds the open segment so far.\<close>

definition rec_in_step :: "(dir \<rightharpoonup> files) \<Rightarrow> string list \<Rightarrow> string option \<Rightarrow> (dir \<rightharpoonup> files) \<Rightarrow> recording \<Rightarrow> bool" where
  "rec_in_step D0 L b D r \<longleftrightarrow>
     rc_dir r \<notin> dom D0 \<and> numbered (rc_segments r) \<and>
     (\<exists>F k t. D (rc_dir r) = Some F \<and> holds_segments L k (length (rc_segments r)) F \<and>
        k + length (rc_segments r) = length L \<and> F ''index.m3u8'' = Some t \<and> listing t (length (rc_segments r)) \<and>
        (case b of
           None \<Rightarrow> rc_open r = None
         | Some c \<Rightarrow> \<exists>s. rc_open r = Some s \<and> os_index s = length (rc_segments r) + 1 \<and>
             os_tmp s = tmp_of (segment_name (os_index s)) \<and> F (os_tmp s) = Some c))"

text \<open>Between two outputs of the segmenter; after an error; and when there is no recording.\<close>

definition in_step :: "(dir \<rightharpoonup> files) \<Rightarrow> string list \<Rightarrow> string option \<Rightarrow> assn" where
  "in_step D0 L b a D c \<longleftrightarrow>
     crash_safe D0 L D \<and> (a \<longrightarrow> all_listed D0 L D \<and> (case c of None \<Rightarrow> b = None | Some r \<Rightarrow> rec_in_step D0 L b D r))"

definition after_error :: "(dir \<rightharpoonup> files) \<Rightarrow> string list \<Rightarrow> assn" where
  "after_error D0 L a D c \<longleftrightarrow> crash_safe D0 L D \<and> (a \<longrightarrow> (case c of None \<Rightarrow> True | Some r \<Rightarrow> rec_dir_ok D0 L D r))"

lemma rec_in_step_dir_ok: "rec_in_step D0 L b D r \<Longrightarrow> rec_dir_ok D0 L D r"
  by (auto simp: rec_in_step_def rec_dir_ok_def split: option.splits)

lemma in_step_error: "in_step D0 L b a D c \<Longrightarrow> after_error D0 L a D c"
  by (auto simp: in_step_def after_error_def rec_in_step_dir_ok split: option.splits)

lemma rec_dir_ok_same: "rec_dir_ok D0 L D r \<Longrightarrow> D (rc_dir r) = Some F \<Longrightarrow> same_visible F G \<Longrightarrow> rec_dir_ok D0 L (D(rc_dir r \<mapsto> G)) r"
  using holds_segments_cong [of G F] by (auto simp: rec_dir_ok_def same_visible_at)

lemma rec_dir_ok_shows: "rec_dir_ok D0 L D r \<Longrightarrow> D (rc_dir r) = Some F \<Longrightarrow> (\<And>i. G (segment_name i) = F (segment_name i)) \<Longrightarrow>
  G ''index.m3u8'' = Some (rec_playlist (rc_segments r) m e) \<Longrightarrow> shows_ok L G"
  using holds_segments_cong [of G F] numbered_listing [of "rc_segments r" m e] by (auto simp: rec_dir_ok_def shows_ok_def)

subsection \<open>Finishing a recording\<close>

text \<open>
  With \<open>whole\<close> the playlist on disk lists the recording's segments already, and every completed segment is listed
  somewhere: that stays so.
\<close>

definition listed_there :: "(dir \<rightharpoonup> files) \<Rightarrow> recording \<Rightarrow> bool" where
  "listed_there D r \<longleftrightarrow> (\<exists>F t. D (rc_dir r) = Some F \<and> F ''index.m3u8'' = Some t \<and> listing t (length (rc_segments r)))"

definition closing :: "(dir \<rightharpoonup> files) \<Rightarrow> string list \<Rightarrow> bool \<Rightarrow> recording \<Rightarrow> recording option \<Rightarrow> assn" where
  "closing D0 L whole r rc a D c \<longleftrightarrow>
     c = rc \<and> crash_safe D0 L D \<and> (a \<longrightarrow> rec_dir_ok D0 L D r \<and> (whole \<longrightarrow> all_listed D0 L D \<and> listed_there D r))"

lemma closing_quiet:
  assumes "closing D0 L whole r rc True D c" "D (rc_dir r) = Some F" "same_visible F G"
  shows "closing D0 L whole r rc a (D(rc_dir r \<mapsto> G)) c"
proof -
  have dir: "rc_dir r \<notin> dom D0" using assms(1) by (simp add: closing_def rec_dir_ok_def)
  have "G ''index.m3u8'' = F ''index.m3u8''" using same_visible_at [OF assms(3)] by simp
  then show ?thesis
    using assms crash_safe_same [where D = D and d = "rc_dir r", OF _ dir assms(2,3)] all_listed_same [where D = D and d = "rc_dir r", OF _ dir assms(2,3)]
      rec_dir_ok_same [where D = D and r = r, OF _ assms(2,3)]
    by (auto simp: closing_def listed_there_def)
qed

lemma closing_playlist:
  assumes P: "closing D0 L whole r rc True D c" and F: "D (rc_dir r) = Some F"
    and G: "\<And>i. G (segment_name i) = F (segment_name i)" "G ''index.m3u8'' = Some (rec_playlist (rc_segments r) m e)"
  shows "closing D0 L whole r rc a (D(rc_dir r \<mapsto> G)) c"
proof -
  have r: "rec_dir_ok D0 L D r" and safe: "crash_safe D0 L D" "c = rc" using P by (simp_all add: closing_def)
  then have dir: "rc_dir r \<notin> dom D0" and n: "numbered (rc_segments r)" by (simp_all add: rec_dir_ok_def)
  have "crash_safe D0 L (D(rc_dir r \<mapsto> G))"
    by (rule crash_safe_upd [OF safe(1) dir rec_dir_ok_shows [OF r F G(1) G(2)]])
  moreover have "rec_dir_ok D0 L (D(rc_dir r \<mapsto> G)) r"
    using r F holds_segments_cong [of G F] G(1) by (auto simp: rec_dir_ok_def)
  moreover have "all_listed D0 L (D(rc_dir r \<mapsto> G)) \<and> listed_there (D(rc_dir r \<mapsto> G)) r" if whole
  proof -
    have listed: "all_listed D0 L D" "listed_there D r" using P that by (simp_all add: closing_def)
    then obtain t where t: "F ''index.m3u8'' = Some t" "listing t (length (rc_segments r))"
      using F by (auto simp: listed_there_def)
    have "lists_segment L i G" if "lists_segment L i F" for i
      by (rule lists_segment_replaced [OF that t G(2) numbered_listing [OF n] G(1)])
    then have "all_listed D0 L (D(rc_dir r \<mapsto> G))" using F by (intro all_listed_upd [OF listed(1) dir]) simp
    then show ?thesis using G(2) numbered_listing [OF n] by (auto simp: listed_there_def)
  qed
  ultimately show ?thesis using safe by (simp add: closing_def)
qed

lemma closing_dead: "closing D0 L whole r rc True D c \<Longrightarrow> closing D0 L whole r rc False D c"
  by (simp add: closing_def)

lemma closing_dir: "closing D0 L whole r rc True D c \<Longrightarrow> \<exists>F. D (rc_dir r) = Some F"
  by (auto simp: closing_def rec_dir_ok_def)

lemma write_quiet_ok:
  assumes "d = rc_dir r" "\<not> visible f"
  shows "io_ok (closing D0 L whole r rc) (write_atomic d f data) (\<lambda>_. closing D0 L whole r rc) (closing D0 L whole r rc)"
  unfolding assms(1)
proof (rule write_atomic_ok)
  fix D c F G assume P: "closing D0 L whole r rc True D c" "D (rc_dir r) = Some F" and "same_but {f, tmp_of f} F G"
  then have "same_visible F G" using assms(2) by (auto intro: same_but_visible)
  with P show "closing D0 L whole r rc True (D(rc_dir r \<mapsto> G)) c" by (rule closing_quiet)
next
  fix D c a F G assume P: "closing D0 L whole r rc True D c" "D (rc_dir r) = Some F" and "same_but {tmp_of f} F G"
  then have "same_visible F G" by (auto intro: same_but_visible)
  with P show "closing D0 L whole r rc a (D(rc_dir r \<mapsto> G)) c" by (rule closing_quiet)
qed (auto dest: closing_dir)

lemma write_playlist_closing:
  assumes "rc_dir r' = rc_dir r" "rc_segments r' = rc_segments r"
  shows "io_ok (closing D0 L whole r rc) (write_playlist env r' e) (\<lambda>_. closing D0 L whole r rc) (closing D0 L whole r rc)"
  unfolding write_playlist_def assms
proof (rule write_atomic_ok)
  fix D c F G assume P: "closing D0 L whole r rc True D c" "D (rc_dir r) = Some F"
    and but: "same_but {''index.m3u8'', tmp_of ''index.m3u8''} F G"
    and G: "G ''index.m3u8'' = Some (rec_playlist (rc_segments r) (min_target env) e)"
  have "G (segment_name i) = F (segment_name i)" for i using but by (simp add: same_but_def)
  then show "closing D0 L whole r rc True (D(rc_dir r \<mapsto> G)) c" by (rule closing_playlist [where D = D and F = F and G = G, OF P]) (rule G)
next
  fix D c a F G assume P: "closing D0 L whole r rc True D c" "D (rc_dir r) = Some F" and "same_but {tmp_of ''index.m3u8''} F G"
  then have "same_visible F G" by (auto intro: same_but_visible)
  with P show "closing D0 L whole r rc a (D(rc_dir r \<mapsto> G)) c" by (rule closing_quiet)
qed (auto dest: closing_dir)

lemma enqueue_job_same [simp]:
  "rw_disk (enqueue_job env d f w) = rw_disk w" "rw_rec (enqueue_job env d f w) = rw_rec w"
  by (simp_all add: enqueue_job_def)

lemma finish_ok:
  "io_ok (closing D0 L whole r rc) (finish_recording env now r err) (\<lambda>_ a D c. c = rc \<and> crash_safe D0 L D \<and> (whole \<longrightarrow> a \<longrightarrow> all_listed D0 L D)) E"
  unfolding finish_recording_def Let_def
proof (intro io_ok_then)
  show "io_ok (closing D0 L whole r rc)
      (case rc_open r of None \<Rightarrow> io_return () | Some s \<Rightarrow> io_try (io_disk (remove_file (rc_dir r) (os_tmp s))))
      (\<lambda>_. closing D0 L whole r rc) E"
  proof (cases "rc_open r")
    case None
    then show ?thesis by (simp add: io_ok_return)
  next
    case (Some s)
    have "io_ok (closing D0 L whole r rc) (io_disk (remove_file (rc_dir r) (os_tmp s))) (\<lambda>_. closing D0 L whole r rc) (closing D0 L whole r rc)"
    proof (rule remove_file_ok)
      fix D c F a assume P: "closing D0 L whole r rc True D c" and F: "D (rc_dir r) = Some F"
      then have "\<not> visible (os_tmp s)" using Some by (simp add: closing_def rec_dir_ok_def)
      then have "same_visible F (F(os_tmp s := None))" by (auto simp: same_visible_def)
      then have "closing D0 L whole r rc a (D(rc_dir r \<mapsto> F(os_tmp s := None))) c" by (rule closing_quiet [OF P F])
      moreover have "closing D0 L whole r rc a D c" using P by (simp add: closing_def)
      ultimately show "closing D0 L whole r rc a (D(rc_dir r \<mapsto> F(os_tmp s := None))) c \<and> closing D0 L whole r rc a D c" by blast
    qed (auto dest: closing_dir)
    then show ?thesis using Some by (simp add: io_ok_try)
  qed
next
  show "io_ok (closing D0 L whole r rc) (io_try (write_playlist env (r\<lparr>rc_open := None,
      rc_meta := rc_meta r\<lparr>rm_ended_at := Some (rfc3339 now), rm_error := err\<rparr>\<rparr>) True)) (\<lambda>_. closing D0 L whole r rc) E"
    by (rule io_ok_try [OF write_playlist_closing]) simp_all
next
  show "io_ok (closing D0 L whole r rc) (io_try (write_meta env (r\<lparr>rc_open := None,
      rc_meta := rc_meta r\<lparr>rm_ended_at := Some (rfc3339 now), rm_error := err\<rparr>\<rparr>))) (\<lambda>_. closing D0 L whole r rc) E"
    unfolding write_meta_def by (rule io_ok_try [OF write_quiet_ok]) simp_all
qed (rule io_ok_modify; simp add: assn_at_def closing_def)

subsection \<open>Starting a recording\<close>

lemma create_rec_dir_cases:
  "case create_rec_dir s base n w of
     (Inr i, w') \<Rightarrow> dk_alive (rw_disk w) \<and> dk_alive (rw_disk w') \<and> dk_dirs (rw_disk w) (s, i) = None \<and>
       dk_dirs (rw_disk w') = (dk_dirs (rw_disk w))((s, i) \<mapsto> Map.empty) \<and> rw_rec w' = rw_rec w
   | (Inl e, w') \<Rightarrow> dk_dirs (rw_disk w') = dk_dirs (rw_disk w) \<and> rw_rec w' = rw_rec w \<and>
       (dk_alive (rw_disk w') \<longrightarrow> dk_alive (rw_disk w))"
proof (induction s base n w rule: create_rec_dir.induct)
  case (1 s base n w)
  show ?case
  proof (cases "create_dir (s, dir_name base n) (rw_disk w)")
    case None
    then show ?thesis
      using "1.IH" [OF refl None] by (subst create_rec_dir.simps) (simp add: Let_def split: prod.splits sum.splits)
  next
    case (Some p)
    then show ?thesis
      by (subst create_rec_dir.simps)
        (auto simp: create_dir_def disk_op_def split: if_splits list.splits io_outcome.splits)
  qed
qed

text \<open>The directory is new; \<open>K\<close> says so until the first playlist is in place.\<close>

definition fresh_dir :: "(dir \<rightharpoonup> files) \<Rightarrow> string list \<Rightarrow> recording \<Rightarrow> recording option \<Rightarrow> assn" where
  "fresh_dir D0 L r rc a D c \<longleftrightarrow>
     c = rc \<and> crash_safe D0 L D \<and> rc_dir r \<notin> dom D0 \<and> (a \<longrightarrow> all_listed D0 L D \<and> (\<exists>F. D (rc_dir r) = Some F \<and> F ''index.m3u8'' = None))"

definition blank_recording :: "recording \<Rightarrow> bool" where
  "blank_recording r \<longleftrightarrow> rc_segments r = [] \<and> rc_open r = None"

lemma blank_dir_ok: "blank_recording r \<Longrightarrow> rc_dir r \<notin> dom D0 \<Longrightarrow> D (rc_dir r) = Some F \<Longrightarrow> rec_dir_ok D0 L D r"
  by (auto simp: rec_dir_ok_def blank_recording_def numbered_def holds_segments_def)

lemma blank_in_step:
  "blank_recording r \<Longrightarrow> rc_dir r \<notin> dom D0 \<Longrightarrow> listed_there D r \<Longrightarrow> rec_in_step D0 L None D r"
  by (auto simp: rec_in_step_def blank_recording_def numbered_def holds_segments_def listed_there_def)

lemma fresh_quiet:
  assumes "fresh_dir D0 L r rc True D c" "D (rc_dir r) = Some F" "same_visible F G"
  shows "fresh_dir D0 L r rc a (D(rc_dir r \<mapsto> G)) c"
proof -
  have dir: "rc_dir r \<notin> dom D0" using assms(1) by (simp add: fresh_dir_def)
  show ?thesis
    using assms crash_safe_same [where D = D and d = "rc_dir r", OF _ dir assms(2,3)]
      all_listed_same [where D = D and d = "rc_dir r", OF _ dir assms(2,3)] same_visible_at [OF assms(3)]
    by (auto simp: fresh_dir_def)
qed

lemma fresh_closing: "fresh_dir D0 L r rc a D c \<Longrightarrow> blank_recording r \<Longrightarrow> closing D0 L False r rc a D c"
  by (auto simp: fresh_dir_def closing_def intro: blank_dir_ok)

lemma fresh_playlist:
  assumes P: "fresh_dir D0 L r rc True D c" and F: "D (rc_dir r) = Some F" and r: "blank_recording r"
    and G: "\<And>i. G (segment_name i) = F (segment_name i)" "G ''index.m3u8'' = Some (rec_playlist (rc_segments r) m e)"
  shows "closing D0 L True r rc True (D(rc_dir r \<mapsto> G)) c"
proof -
  have closing: "closing D0 L False r rc True D c" by (rule fresh_closing [OF P r])
  then have "closing D0 L False r rc True (D(rc_dir r \<mapsto> G)) c" by (rule closing_playlist [where F = F]) (use F G in simp_all)
  moreover have "all_listed D0 L (D(rc_dir r \<mapsto> G))"
    by (rule all_listed_upd) (use P F in \<open>auto simp: fresh_dir_def lists_segment_def\<close>)
  moreover have "listed_there (D(rc_dir r \<mapsto> G)) r"
    using G(2) numbered_listing [of "rc_segments r" m e] r by (simp add: listed_there_def blank_recording_def numbered_def)
  ultimately show ?thesis by (simp add: closing_def)
qed

definition idle :: "(dir \<rightharpoonup> files) \<Rightarrow> string list \<Rightarrow> assn" where
  "idle D0 L a D c \<longleftrightarrow> c = None \<and> crash_safe D0 L D \<and> (a \<longrightarrow> all_listed D0 L D)"

lemma new_recording_blank [simp]:
  "rc_dir (new_recording stream i g started) = (stream, i)" "blank_recording (new_recording stream i g started)"
  by (simp_all add: new_recording_def blank_recording_def)

lemma shows_ok_empty [simp]: "shows_ok L Map.empty"
  by (simp add: shows_ok_def)

lemma create_rec_dir_ok:
  "io_ok (idle D0 L) (create_rec_dir stream base n) (\<lambda>i. fresh_dir D0 L (new_recording stream i g started) None)
     (\<lambda>a D c. c = None \<and> crash_safe D0 L D)"
  unfolding io_ok_def
proof (intro allI impI)
  fix w
  assume "assn_at (idle D0 L) w"
  then have w: "rw_rec w = None" "crash_safe D0 L (dk_dirs (rw_disk w))" "dk_alive (rw_disk w) \<Longrightarrow> all_listed D0 L (dk_dirs (rw_disk w))"
    by (simp_all add: assn_at_def idle_def)
  obtain x w' where run: "create_rec_dir stream base n w = (x, w')" by fastforce
  have out: "case x of
     Inr i \<Rightarrow> dk_alive (rw_disk w) \<and> dk_alive (rw_disk w') \<and> dk_dirs (rw_disk w) (stream, i) = None \<and>
       dk_dirs (rw_disk w') = (dk_dirs (rw_disk w))((stream, i) \<mapsto> Map.empty) \<and> rw_rec w' = rw_rec w
   | Inl e \<Rightarrow> dk_dirs (rw_disk w') = dk_dirs (rw_disk w) \<and> rw_rec w' = rw_rec w"
    using create_rec_dir_cases [where s = stream and base = base and n = n and w = w] run by (cases x) simp_all
  show "case create_rec_dir stream base n w of (Inl e, w') \<Rightarrow> assn_at (\<lambda>a D c. c = None \<and> crash_safe D0 L D) w'
      | (Inr i, w') \<Rightarrow> assn_at (fresh_dir D0 L (new_recording stream i g started) None) w'"
  proof (cases x)
    case (Inl e)
    then show ?thesis using run out w by (simp add: assn_at_def)
  next
    case (Inr i)
    have new: "(stream, i) \<notin> dom D0"
    proof
      assume "(stream, i) \<in> dom D0"
      then have "dk_dirs (rw_disk w) (stream, i) = D0 (stream, i)" "D0 (stream, i) \<noteq> None" using w(2) unfolding crash_safe_def by blast+
      then show False using out Inr by simp
    qed
    have "crash_safe D0 L ((dk_dirs (rw_disk w))((stream, i) \<mapsto> Map.empty))"
      by (rule crash_safe_upd [OF w(2) new]) simp
    moreover have "all_listed D0 L ((dk_dirs (rw_disk w))((stream, i) \<mapsto> Map.empty))"
      using out Inr by (intro all_listed_upd [OF w(3) new]) simp_all
    ultimately show ?thesis using run out w Inr new by (simp add: assn_at_def fresh_dir_def)
  qed
qed

lemma write_playlist_fresh:
  assumes r: "blank_recording r"
  shows "io_ok (fresh_dir D0 L r rc) (write_playlist env r False) (\<lambda>_. closing D0 L True r rc) (closing D0 L False r rc)"
  unfolding write_playlist_def
proof (rule write_atomic_ok)
  fix D c F G assume P: "fresh_dir D0 L r rc True D c" "D (rc_dir r) = Some F"
    and but: "same_but {''index.m3u8'', tmp_of ''index.m3u8''} F G"
    and G: "G ''index.m3u8'' = Some (rec_playlist (rc_segments r) (min_target env) False)"
  have "G (segment_name i) = F (segment_name i)" for i using but by (simp add: same_but_def)
  then show "closing D0 L True r rc True (D(rc_dir r \<mapsto> G)) c" by (rule fresh_playlist [OF P r]) (rule G)
next
  fix D c a F G assume P: "fresh_dir D0 L r rc True D c" "D (rc_dir r) = Some F" and "same_but {tmp_of ''index.m3u8''} F G"
  then have "same_visible F G" by (auto intro: same_but_visible)
  from fresh_closing [OF fresh_quiet [OF P this] r] show "closing D0 L False r rc a (D(rc_dir r \<mapsto> G)) c" .
qed (rule fresh_closing [OF _ r], assumption, auto simp: fresh_dir_def)

lemma write_init_fresh:
  assumes r: "blank_recording r"
  shows "io_ok (fresh_dir D0 L r rc) (write_atomic (rc_dir r) ''init.mp4'' data) (\<lambda>_. fresh_dir D0 L r rc) (closing D0 L False r rc)"
proof (rule write_atomic_ok)
  fix D c F G assume P: "fresh_dir D0 L r rc True D c" "D (rc_dir r) = Some F" and "same_but {''init.mp4'', tmp_of ''init.mp4''} F G"
  then have "same_visible F G" by (auto intro: same_but_visible)
  with P show "fresh_dir D0 L r rc True (D(rc_dir r \<mapsto> G)) c" by (rule fresh_quiet)
next
  fix D c a F G assume P: "fresh_dir D0 L r rc True D c" "D (rc_dir r) = Some F" and "same_but {tmp_of ''init.mp4''} F G"
  then have "same_visible F G" by (auto intro: same_but_visible)
  from fresh_closing [OF fresh_quiet [OF P this] r] show "closing D0 L False r rc a (D(rc_dir r \<mapsto> G)) c" .
qed (rule fresh_closing [OF _ r], assumption, auto simp: fresh_dir_def)

lemma closing_whole: "closing D0 L True r rc a D c \<Longrightarrow> closing D0 L False r rc a D c"
  by (simp add: closing_def)

lemma closing_blank: "closing D0 L True r rc a D c \<Longrightarrow> blank_recording r \<Longrightarrow> a \<longrightarrow> rec_in_step D0 L None D r"
  by (auto simp: closing_def rec_dir_ok_def intro: blank_in_step)

lemma create_recording_ok:
  "io_ok (idle D0 L) (create_recording env now stream g started)
     (\<lambda>r a D c. c = None \<and> crash_safe D0 L D \<and> (a \<longrightarrow> all_listed D0 L D \<and> rec_in_step D0 L None D r))
     (\<lambda>a D c. c = None \<and> crash_safe D0 L D)"
  unfolding create_recording_def Let_def
proof (rule io_ok_then [OF other_op_ok], goal_cases)
  case 3
  show ?case
  proof (rule io_ok_bind [OF create_rec_dir_ok])
    fix i
    define r where "r = new_recording stream i g started"
    have r: "blank_recording r" by (simp add: r_def)
    have files: "io_ok (fresh_dir D0 L r None)
        (io_cleanup (io_then (write_atomic (rc_dir r) ''init.mp4'' (raw (case sg_init g of Some b \<Rightarrow> b | None \<Rightarrow> [])))
            (io_then (write_playlist env r False) (write_meta env r)))
          (\<lambda>e. finish_recording env now r (Some (''write failed: '' @ e))))
        (\<lambda>_. closing D0 L True r None) (\<lambda>a D c. c = None \<and> crash_safe D0 L D)"
    proof (rule io_ok_cleanup)
      have meta: "io_ok (closing D0 L True r None) (write_meta env r) (\<lambda>_. closing D0 L True r None) (closing D0 L False r None)"
        unfolding write_meta_def
        by (rule io_ok_weaken [OF write_quiet_ok [where whole = True and r = r]]) (auto intro: closing_whole)
      show "io_ok (fresh_dir D0 L r None)
          (io_then (write_atomic (rc_dir r) ''init.mp4'' (raw (case sg_init g of Some b \<Rightarrow> b | None \<Rightarrow> [])))
            (io_then (write_playlist env r False) (write_meta env r)))
          (\<lambda>_. closing D0 L True r None) (closing D0 L False r None)"
        by (rule io_ok_then [OF write_init_fresh [OF r] io_ok_then [OF write_playlist_fresh [OF r] meta]])
      show "io_ok (closing D0 L False r None) (finish_recording env now r (Some (''write failed: '' @ e)))
          (\<lambda>_ a D c. c = None \<and> crash_safe D0 L D) (\<lambda>a D c. c = None \<and> crash_safe D0 L D)" for e
        by (rule io_ok_weaken [OF finish_ok]) auto
    qed
    have insert: "io_ok (fresh_dir D0 L r None) (io_modify (\<lambda>w. w\<lparr>rw_active := insert (stream, i) (rw_active w)\<rparr>))
        (\<lambda>_. fresh_dir D0 L r None) (\<lambda>a D c. c = None \<and> crash_safe D0 L D)"
      by (rule io_ok_modify) (simp add: assn_at_def)
    show "io_ok (fresh_dir D0 L (new_recording stream i g started) None)
        (io_then (io_modify (\<lambda>w. w\<lparr>rw_active := insert (stream, i) (rw_active w)\<rparr>))
          (io_then (io_cleanup (io_then (write_atomic (rc_dir (new_recording stream i g started)) ''init.mp4''
              (raw (case sg_init g of None \<Rightarrow> [] | Some b \<Rightarrow> b)))
              (io_then (write_playlist env (new_recording stream i g started) False) (write_meta env (new_recording stream i g started))))
            (\<lambda>e. finish_recording env now (new_recording stream i g started) (Some (''write failed: '' @ e))))
          (io_return (new_recording stream i g started))))
        (\<lambda>r a D c. c = None \<and> crash_safe D0 L D \<and> (a \<longrightarrow> all_listed D0 L D \<and> rec_in_step D0 L None D r))
        (\<lambda>a D c. c = None \<and> crash_safe D0 L D)"
      unfolding r_def [symmetric]
    proof (rule io_ok_then [OF insert io_ok_then [OF files io_ok_return]])
      fix a D c assume closed: "closing D0 L True r None a D c"
      with closing_blank [OF closed r]
      show "c = None \<and> crash_safe D0 L D \<and> (a \<longrightarrow> all_listed D0 L D \<and> rec_in_step D0 L None D r)"
        by (simp add: closing_def)
    qed
  qed
qed (auto simp: idle_def)

subsection \<open>One output of the segmenter after the other\<close>

text \<open>The segments that are complete after an output, and what the open one holds.\<close>

fun seg_one :: "string list \<times> string option \<Rightarrow> seg_out \<Rightarrow> string list \<times> string option" where
  "seg_one (L, b) (SegOpen _ _) = (L, Some [])"
| "seg_one (L, b) (SegFragment f) = (L, map_option (\<lambda>x. x @ raw f) b)"
| "seg_one (L, b) (SegClose _) = (case b of Some x \<Rightarrow> (L @ [x], None) | None \<Rightarrow> (L, None))"

lemma io_ok_rec:
  assumes "io_ok (\<lambda>a D c. P a D c \<and> c = None) m Q E" and "\<And>r. io_ok (\<lambda>a D c. P a D c \<and> c = Some r) (f r) Q E"
  shows "io_ok P (\<lambda>w. case rw_rec w of None \<Rightarrow> m w | Some r \<Rightarrow> f r w) Q E"
  unfolding io_ok_def
proof (intro allI impI)
  fix w assume w: "assn_at P w"
  show "case case rw_rec w of None \<Rightarrow> m w | Some r \<Rightarrow> f r w of (Inl e, w') \<Rightarrow> assn_at E w' | (Inr x, w') \<Rightarrow> assn_at (Q x) w'"
  proof (cases "rw_rec w")
    case None
    with w have "assn_at (\<lambda>a D c. P a D c \<and> c = None) w" by (simp add: assn_at_def)
    from io_okD [OF assms(1) this] show ?thesis by (simp only: None option.case)
  next
    case (Some r)
    with w have "assn_at (\<lambda>a D c. P a D c \<and> c = Some r) w" by (simp add: assn_at_def)
    from io_okD [OF assms(2) this] show ?thesis by (simp only: Some option.case)
  qed
qed

definition with_rec :: "(dir \<rightharpoonup> files) \<Rightarrow> string list \<Rightarrow> ((dir \<rightharpoonup> files) \<Rightarrow> bool) \<Rightarrow> recording \<Rightarrow> assn" where
  "with_rec D0 L R r a D c \<longleftrightarrow> c = Some r \<and> crash_safe D0 L D \<and> (a \<longrightarrow> all_listed D0 L D \<and> R D)"

lemma with_rec_in_step: "with_rec D0 L (\<lambda>D. rec_in_step D0 L b D r) r a D c \<Longrightarrow> in_step D0 L b a D c"
  by (simp add: with_rec_def in_step_def)

lemma rec_in_step_files:
  assumes "rec_in_step D0 L b D r" and "D (rc_dir r) = Some F" and "same_visible F G"
    and "rc_dir r' = rc_dir r" "rc_segments r' = rc_segments r"
    and "case b' of None \<Rightarrow> rc_open r' = None
      | Some x \<Rightarrow> \<exists>s. rc_open r' = Some s \<and> os_index s = length (rc_segments r') + 1 \<and>
             os_tmp s = tmp_of (segment_name (os_index s)) \<and> G (os_tmp s) = Some x"
  shows "rec_in_step D0 L b' (D(rc_dir r \<mapsto> G)) r'"
proof -
  obtain k t where F: "holds_segments L k (length (rc_segments r)) F" "k + length (rc_segments r) = length L"
      "F ''index.m3u8'' = Some t" "listing t (length (rc_segments r))" and r: "rc_dir r \<notin> dom D0" "numbered (rc_segments r)"
    using assms(1,2) unfolding rec_in_step_def by auto
  have "holds_segments L k (length (rc_segments r)) G" "G ''index.m3u8'' = Some t"
    using F(1,3) holds_segments_cong [of G F] same_visible_at [OF assms(3)] by simp_all
  then show ?thesis
    unfolding rec_in_step_def assms(4,5) using F(2,4) r assms(6) [unfolded assms(5)] by (intro conjI exI [of _ G] exI [of _ k] exI [of _ t]) simp_all
qed

lemma rec_in_step_dir: "rec_in_step D0 L b D r \<Longrightarrow> rc_dir r \<notin> dom D0 \<and> (\<exists>F. D (rc_dir r) = Some F)"
  by (auto simp: rec_in_step_def)

lemma rec_in_stepD:
  "rec_in_step D0 L b D r \<Longrightarrow> D (rc_dir r) = Some F \<Longrightarrow>
   numbered (rc_segments r) \<and>
   (\<exists>k t. holds_segments L k (length (rc_segments r)) F \<and> k + length (rc_segments r) = length L \<and>
        F ''index.m3u8'' = Some t \<and> listing t (length (rc_segments r)) \<and>
        (case b of
           None \<Rightarrow> rc_open r = None
         | Some c \<Rightarrow> \<exists>s. rc_open r = Some s \<and> os_index s = length (rc_segments r) + 1 \<and>
             os_tmp s = tmp_of (segment_name (os_index s)) \<and> F (os_tmp s) = Some c))"
  by (simp add: rec_in_step_def)

text \<open>A step inside the recording's directory that no reader sees.\<close>

lemma with_rec_quiet:
  assumes P: "with_rec D0 L (\<lambda>D. rec_in_step D0 L b D r) rc True D c" and F: "D (rc_dir r) = Some F" "same_visible F G"
    and R: "R (D(rc_dir r \<mapsto> G))"
  shows "with_rec D0 L R rc a (D(rc_dir r \<mapsto> G)) c"
proof -
  have dir: "rc_dir r \<notin> dom D0" using P rec_in_step_dir [of D0 L b D r] by (simp add: with_rec_def)
  show ?thesis
    using P R crash_safe_same [where D = D and d = "rc_dir r", OF _ dir F] all_listed_same [where D = D and d = "rc_dir r", OF _ dir F]
    by (simp add: with_rec_def)
qed

lemma quiet_error:
  assumes P: "with_rec D0 L (\<lambda>D. rec_in_step D0 L b D r) rc True D c" and F: "D (rc_dir r) = Some F" "same_visible F G"
    and rc: "rec_dir_ok D0 L D rc" "rc_dir rc = rc_dir r"
  shows "after_error D0 L a (D(rc_dir r \<mapsto> G)) c"
proof -
  have dir: "rc_dir r \<notin> dom D0" using P rec_in_step_dir [of D0 L b D r] by (simp add: with_rec_def)
  have "rec_dir_ok D0 L (D(rc_dir rc \<mapsto> G)) rc" by (rule rec_dir_ok_same [OF rc(1)]) (use F rc(2) in simp_all)
  then show ?thesis
    using P rc(2) crash_safe_same [where D = D and d = "rc_dir r", OF _ dir F] by (simp add: with_rec_def after_error_def)
qed

lemma current_recording_ok:
  "io_ok (in_step D0 L b) (current_recording env now stream g pdt)
     (\<lambda>r a D c. \<exists>b. with_rec D0 L (\<lambda>D. rec_in_step D0 L b D r) r a D c) (after_error D0 L)"
  unfolding current_recording_def
proof (rule io_ok_rec)
  show "io_ok (\<lambda>a D c. in_step D0 L b a D c \<and> c = None)
      (io_bind (create_recording env now stream g pdt) (\<lambda>r. io_then (io_modify (\<lambda>w. w\<lparr>rw_rec := Some r\<rparr>)) (io_return r)))
      (\<lambda>r a D c. \<exists>b. with_rec D0 L (\<lambda>D. rec_in_step D0 L b D r) r a D c) (after_error D0 L)"
  proof (rule io_ok_bind [where Q = "\<lambda>r a D c. c = None \<and> crash_safe D0 L D \<and> (a \<longrightarrow> all_listed D0 L D \<and> rec_in_step D0 L None D r)"])
    show "io_ok (\<lambda>a D c. in_step D0 L b a D c \<and> c = None) (create_recording env now stream g pdt)
        (\<lambda>r a D c. c = None \<and> crash_safe D0 L D \<and> (a \<longrightarrow> all_listed D0 L D \<and> rec_in_step D0 L None D r)) (after_error D0 L)"
      by (rule io_ok_weaken [OF create_recording_ok]) (auto simp: in_step_def idle_def after_error_def)
  next
    fix r
    have "io_ok (\<lambda>a D c. c = None \<and> crash_safe D0 L D \<and> (a \<longrightarrow> all_listed D0 L D \<and> rec_in_step D0 L None D r))
        (io_modify (\<lambda>w. w\<lparr>rw_rec := Some r\<rparr>)) (\<lambda>_. with_rec D0 L (\<lambda>D. rec_in_step D0 L None D r) r) (after_error D0 L)"
      by (rule io_ok_modify) (auto simp: assn_at_def with_rec_def)
    then show "io_ok (\<lambda>a D c. c = None \<and> crash_safe D0 L D \<and> (a \<longrightarrow> all_listed D0 L D \<and> rec_in_step D0 L None D r))
        (io_then (io_modify (\<lambda>w. w\<lparr>rw_rec := Some r\<rparr>)) (io_return r))
        (\<lambda>r a D c. \<exists>b. with_rec D0 L (\<lambda>D. rec_in_step D0 L b D r) r a D c) (after_error D0 L)"
      by (rule io_ok_then) (rule io_ok_return, blast)
  qed
next
  fix r
  show "io_ok (\<lambda>a D c. in_step D0 L b a D c \<and> c = Some r) (io_return r)
      (\<lambda>r a D c. \<exists>b. with_rec D0 L (\<lambda>D. rec_in_step D0 L b D r) r a D c) (after_error D0 L)"
    by (rule io_ok_return) (auto simp: in_step_def with_rec_def)
qed

lemma apply_open_ok:
  "io_ok (in_step D0 L b) (apply_open env now stream g disc pdt) (\<lambda>_. in_step D0 L (Some [])) (after_error D0 L)"
  unfolding apply_open_def
proof (rule io_ok_bind [OF current_recording_ok])
  fix r :: recording
  define s where "s = \<lparr>os_index = length (rc_segments r) + 1, os_tmp = tmp_of (segment_name (length (rc_segments r) + 1)), os_bytes = 0,
      os_discontinuity = (disc \<and> rc_segments r \<noteq> []), os_pdt = pdt\<rparr>"
  define r' where "r' = r\<lparr>rc_open := Some s\<rparr>"
  define P :: assn where "P = (\<lambda>a D c. \<exists>b. with_rec D0 L (\<lambda>D. rec_in_step D0 L b D r) r a D c)"
  have made: "io_ok P (io_disk (create_file (rc_dir r) (os_tmp s))) (\<lambda>_. with_rec D0 L (\<lambda>D. rec_in_step D0 L (Some []) D r') r) (after_error D0 L)"
    unfolding create_file_def
  proof (rule write_file_ok)
    fix D c F assume "P True D c" and F: "D (rc_dir r) = Some F"
    then obtain b where b: "with_rec D0 L (\<lambda>D. rec_in_step D0 L b D r) r True D c" by (auto simp: P_def)
    have same: "same_visible F (F(os_tmp s \<mapsto> []))" by (auto simp: same_visible_def s_def)
    show "with_rec D0 L (\<lambda>D. rec_in_step D0 L (Some []) D r') r True (D(rc_dir r \<mapsto> F(os_tmp s \<mapsto> []))) c"
      by (rule with_rec_quiet [OF b F same], rule rec_in_step_files [where D = D and r = r, OF _ F same])
        (use b in \<open>auto simp: with_rec_def r'_def s_def\<close>)
  next
    fix D c a F G assume "P True D c" and F: "D (rc_dir r) = Some F" and but: "same_but {os_tmp s} F G"
    then obtain b where b: "with_rec D0 L (\<lambda>D. rec_in_step D0 L b D r) r True D c" by (auto simp: P_def)
    have "same_visible F G" by (rule same_but_visible [OF but]) (simp add: s_def)
    then show "after_error D0 L a (D(rc_dir r \<mapsto> G)) c"
      by (rule quiet_error [OF b F]) (use b in \<open>auto simp: with_rec_def intro: rec_in_step_dir_ok\<close>)
  qed (auto simp: P_def with_rec_def after_error_def dest: rec_in_step_dir)
  have set_rec: "io_ok (with_rec D0 L (\<lambda>D. rec_in_step D0 L (Some []) D r') r) (io_modify (\<lambda>w. w\<lparr>rw_rec := Some r'\<rparr>))
      (\<lambda>_. in_step D0 L (Some [])) (after_error D0 L)"
    by (rule io_ok_modify) (auto simp: assn_at_def with_rec_def in_step_def)
  show "io_ok (\<lambda>a D c. \<exists>b. with_rec D0 L (\<lambda>D. rec_in_step D0 L b D r) r a D c)
     (let index = length (rc_segments r) + 1; tmp = tmp_of (segment_name index)
      in io_then (io_disk (create_file (rc_dir r) tmp))
          (io_modify (\<lambda>w. w\<lparr>rw_rec := Some (r\<lparr>rc_open := Some
             \<lparr>os_index = index, os_tmp = tmp, os_bytes = 0, os_discontinuity = disc \<and> rc_segments r \<noteq> [], os_pdt = pdt\<rparr>\<rparr>)\<rparr>)))
     (\<lambda>_. in_step D0 L (Some [])) (after_error D0 L)"
    using io_ok_then [OF made set_rec] unfolding P_def r'_def s_def Let_def by simp
qed

lemma in_step_rec:
  "in_step D0 L b a D c \<Longrightarrow> c = Some r \<Longrightarrow> with_rec D0 L (\<lambda>D. rec_in_step D0 L b D r) r a D c"
  by (auto simp: in_step_def with_rec_def)

lemma with_rec_error:
  "with_rec D0 L (\<lambda>D. rec_in_step D0 L b D r) r a D c \<Longrightarrow> after_error D0 L a D c"
  by (auto simp: with_rec_def after_error_def rec_in_step_dir_ok)

lemma rec_open_in_step: "rec_in_step D0 L b D r \<Longrightarrow> (b = None \<longleftrightarrow> rc_open r = None)"
  by (auto simp: rec_in_step_def split: option.splits)

lemma apply_fragment_ok:
  "io_ok (in_step D0 L b) (apply_fragment f) (\<lambda>_. in_step D0 L (map_option (\<lambda>x. x @ raw f) b)) (after_error D0 L)"
  unfolding apply_fragment_def
proof (rule io_ok_rec)
  show "io_ok (\<lambda>a D c. in_step D0 L b a D c \<and> c = None) (io_return ()) (\<lambda>_. in_step D0 L (map_option (\<lambda>x. x @ raw f) b)) (after_error D0 L)"
    by (rule io_ok_return) (auto simp: in_step_def)
next
  fix r :: recording
  show "io_ok (\<lambda>a D c. in_step D0 L b a D c \<and> c = Some r)
      (\<lambda>w. case rc_open r of None \<Rightarrow> io_return () w
       | Some s \<Rightarrow> io_then (io_disk (append_file (rc_dir r) (os_tmp s) (raw f)))
           (io_modify (\<lambda>w. w\<lparr>rw_rec := Some (r\<lparr>rc_open := Some (s\<lparr>os_bytes := os_bytes s + length f\<rparr>)\<rparr>)\<rparr>)) w)
      (\<lambda>_. in_step D0 L (map_option (\<lambda>x. x @ raw f) b)) (after_error D0 L)"
  proof (cases "rc_open r")
    case None
    have "in_step D0 L (map_option (\<lambda>x. x @ raw f) b) a D c" if "in_step D0 L b a D c" "c = Some r" for a D c
      using that None rec_open_in_step [of D0 L b D r] by (cases b) (auto simp: in_step_def)
    then show ?thesis unfolding None option.case by (intro io_ok_return) blast
  next
    case (Some s)
    define r' where "r' = r\<lparr>rc_open := Some (s\<lparr>os_bytes := os_bytes s + length f\<rparr>)\<rparr>"
    define P :: assn where "P = (\<lambda>a D c. in_step D0 L b a D c \<and> c = Some r)"
    have P: "with_rec D0 L (\<lambda>D. rec_in_step D0 L b D r) r a D c" if "P a D c" for a D c
      using that in_step_rec by (auto simp: P_def)
    have inside: "\<exists>x. b = Some x \<and> F (os_tmp s) = Some x \<and> os_tmp s = tmp_of (segment_name (os_index s)) \<and>
        os_index s = length (rc_segments r) + 1" if "P True D c" "D (rc_dir r) = Some F" for D c F
      using P [OF that(1)] that(2) Some by (auto simp: with_rec_def rec_in_step_def split: option.splits)
    have made: "io_ok P (io_disk (append_file (rc_dir r) (os_tmp s) (raw f)))
        (\<lambda>_. with_rec D0 L (\<lambda>D. rec_in_step D0 L (map_option (\<lambda>x. x @ raw f) b) D r') r) (after_error D0 L)"
    proof (rule append_file_ok)
      fix D c F x assume "P True D c" and F: "D (rc_dir r) = Some F" "F (os_tmp s) = Some x"
      note b = P [OF this(1)] inside [OF this(1) F(1)]
      have same: "same_visible F (F(os_tmp s \<mapsto> x @ raw f))" using b(2) by (auto simp: same_visible_def)
      show "with_rec D0 L (\<lambda>D. rec_in_step D0 L (map_option (\<lambda>x. x @ raw f) b) D r') r True (D(rc_dir r \<mapsto> F(os_tmp s \<mapsto> x @ raw f))) c"
        by (rule with_rec_quiet [OF b(1) F(1) same], rule rec_in_step_files [where D = D and r = r, OF _ F(1) same])
          (use b F(2) in \<open>auto simp: with_rec_def r'_def\<close>)
    next
      fix D c a F G assume "P True D c" and F: "D (rc_dir r) = Some F" and but: "same_but {os_tmp s} F G"
      note b = P [OF this(1)] inside [OF this(1) F(1)]
      have "same_visible F G" by (rule same_but_visible [OF but]) (use b(2) in auto)
      then show "after_error D0 L a (D(rc_dir r \<mapsto> G)) c"
        by (rule quiet_error [OF b(1) F]) (use b(1) in \<open>auto simp: with_rec_def intro: rec_in_step_dir_ok\<close>)
    next
      fix D c assume held: "P True D c"
      from P [OF held] have "rec_in_step D0 L b D r" by (simp add: with_rec_def)
      from rec_in_step_dir [OF this] obtain F where F: "D (rc_dir r) = Some F" by blast
      with inside [OF held F] show "\<exists>F x. D (rc_dir r) = Some F \<and> F (os_tmp s) = Some x" by auto
    next
      fix D c assume "P False D c"
      from with_rec_error [OF P [OF this]] show "after_error D0 L False D c" .
    qed
    have set_rec: "io_ok (with_rec D0 L (\<lambda>D. rec_in_step D0 L (map_option (\<lambda>x. x @ raw f) b) D r') r) (io_modify (\<lambda>w. w\<lparr>rw_rec := Some r'\<rparr>))
        (\<lambda>_. in_step D0 L (map_option (\<lambda>x. x @ raw f) b)) (after_error D0 L)"
      by (rule io_ok_modify) (auto simp: assn_at_def with_rec_def in_step_def)
    show ?thesis
      using io_ok_then [OF made set_rec] unfolding Some option.case P_def r'_def by simp
  qed
qed

text \<open>A segment becomes a file of its own, then the playlist lists it.\<close>

definition renamed :: "(dir \<rightharpoonup> files) \<Rightarrow> string list \<Rightarrow> recording \<Rightarrow> (dir \<rightharpoonup> files) \<Rightarrow> bool" where
  "renamed D0 L r D \<longleftrightarrow>
     rc_dir r \<notin> dom D0 \<and> numbered (rc_segments r) \<and> rc_open r = None \<and> rc_segments r \<noteq> [] \<and>
     (\<exists>F k t. D (rc_dir r) = Some F \<and> holds_segments L k (length (rc_segments r)) F \<and>
        k + length (rc_segments r) = length L \<and> F ''index.m3u8'' = Some t \<and> listing t (length (rc_segments r) - 1))"

lemma renamed_dir_ok: "renamed D0 L r D \<Longrightarrow> rec_dir_ok D0 L D r"
  by (auto simp: renamed_def rec_dir_ok_def)

lemma with_segment_simps [simp]:
  "rc_dir (with_segment d s r) = rc_dir r" "rc_open (with_segment d s r) = None"
  "\<exists>e. rc_segments (with_segment d s r) = rc_segments r @ [e] \<and> se_index e = os_index s"
  by (simp_all add: with_segment_def Let_def)

lemma holds_segments_snoc:
  assumes "holds_segments L k n F" "k + n = length L" and "G (segment_name (n + 1)) = Some x" "\<And>i. i \<noteq> n + 1 \<Longrightarrow> G (segment_name i) = F (segment_name i)"
  shows "holds_segments (L @ [x]) k (n + 1) G"
  unfolding holds_segments_def
proof (intro allI impI)
  fix i assume "i < n + 1"
  then show "k + i < length (L @ [x]) \<and> G (segment_name (i + 1)) = Some ((L @ [x]) ! (k + i))"
    using assms(1-3) assms(4) [of "i + 1"] by (cases "i = n") (auto simp: holds_segments_def nth_append)
qed

lemma rename_renames:
  assumes in_step: "rec_in_step D0 L (Some x) D r" and s: "rc_open r = Some s" and F: "D (rc_dir r) = Some F" "F (os_tmp s) = Some y"
    and safe: "crash_safe D0 (L @ [x]) D" "all_listed D0 L D"
  defines "G \<equiv> F(os_tmp s := None, segment_name (os_index s) \<mapsto> y)"
  shows "renamed D0 (L @ [x]) (with_segment d s r) (D(rc_dir r \<mapsto> G)) \<and> crash_safe D0 (L @ [x]) (D(rc_dir r \<mapsto> G)) \<and>
    all_listed D0 L (D(rc_dir r \<mapsto> G))"
proof -
  define n where "n = length (rc_segments r)"
  obtain k t where F': "holds_segments L k n F" "k + n = length L" "F ''index.m3u8'' = Some t" "listing t n"
      and numbers: "numbered (rc_segments r)"
      and open_s: "os_index s = n + 1" "os_tmp s = tmp_of (segment_name (n + 1))" "y = x"
    using rec_in_stepD [OF in_step F(1)] s F(2) unfolding n_def by auto
  have r: "rc_dir r \<notin> dom D0" "numbered (rc_segments r)" using rec_in_step_dir [OF in_step] numbers by simp_all
  obtain e where e: "rc_segments (with_segment d s r) = rc_segments r @ [e]" "se_index e = n + 1"
    using with_segment_simps(3) [where d = d and s = s and r = r] open_s(1) by auto
  have G: "G (segment_name (n + 1)) = Some x" "G ''index.m3u8'' = Some t" "\<And>i. i \<noteq> n + 1 \<Longrightarrow> G (segment_name i) = F (segment_name i)"
    using open_s F'(3) by (simp_all add: G_def)
  have holds: "holds_segments (L @ [x]) k (n + 1) G" by (rule holds_segments_snoc [OF F'(1,2) G(1,3)])
  have "numbered (rc_segments (with_segment d s r))" using numbered_snoc [OF r(2), of e] e by (simp add: n_def)
  then have ren: "renamed D0 (L @ [x]) (with_segment d s r) (D(rc_dir r \<mapsto> G))"
    unfolding renamed_def e(1) using r(1) holds F'(2,4) G(2) by (auto simp: n_def)
  have "holds_segments (L @ [x]) k n G" using holds unfolding holds_segments_def by auto
  then have "shows_ok (L @ [x]) G" using G(2) F'(4) by (auto simp: shows_ok_def)
  then have "crash_safe D0 (L @ [x]) (D(rc_dir r \<mapsto> G))" by (rule crash_safe_upd [OF safe(1) r(1)])
  moreover have "all_listed D0 L (D(rc_dir r \<mapsto> G))"
  proof (rule all_listed_upd [OF safe(2) r(1)])
    fix F'' i assume "D (rc_dir r) = Some F''" "lists_segment L i F''"
    then obtain t' m j where t': "F ''index.m3u8'' = Some t'" "listing t' m" "j < m" "F (segment_name (j + 1)) = Some (L ! i)"
      using F(1) by (auto simp: lists_segment_def)
    then have "m = n" using listing_unique F'(3,4) by auto
    then show "lists_segment L i G" unfolding lists_segment_def using t' G(2) G(3) [of "j + 1"] F'(3,4) \<open>m = n\<close> by (intro exI conjI) auto
  qed
  ultimately show ?thesis using ren by blast
qed

lemma renamed_step:
  assumes ren: "renamed D0 L r D" and F: "D (rc_dir r) = Some F" and safe: "crash_safe D0 L D" "all_listed D0 M D" "L = M @ [x]"
    and but: "same_but {''index.m3u8'', tmp_of ''index.m3u8''} F G"
    and G: "G ''index.m3u8'' = Some (rec_playlist (rc_segments r) m e)"
  shows "rec_in_step D0 L None (D(rc_dir r \<mapsto> G)) r \<and> crash_safe D0 L (D(rc_dir r \<mapsto> G)) \<and> all_listed D0 L (D(rc_dir r \<mapsto> G))"
proof -
  define n where "n = length (rc_segments r)"
  obtain k t where F': "holds_segments L k n F" "k + n = length L" "F ''index.m3u8'' = Some t" "listing t (n - 1)" "0 < n"
    and r: "numbered (rc_segments r)" "rc_open r = None"
    using ren F unfolding renamed_def n_def by auto
  have dir: "rc_dir r \<notin> dom D0" using ren by (simp add: renamed_def)
  have same: "G (segment_name i) = F (segment_name i)" for i using but by (simp add: same_but_def)
  have holds: "holds_segments L k n G" using F'(1) holds_segments_cong [of G F] same by simp
  have new: "listing (rec_playlist (rc_segments r) m e) n" using numbered_listing [OF r(1)] by (simp add: n_def)
  have "rec_in_step D0 L None (D(rc_dir r \<mapsto> G)) r"
    unfolding rec_in_step_def option.case using dir r holds F'(2) G new
    by (intro conjI exI [of _ G] exI [of _ k] exI [of _ "rec_playlist (rc_segments r) m e"]) (simp_all add: n_def)
  moreover have "crash_safe D0 L (D(rc_dir r \<mapsto> G))"
    by (rule crash_safe_upd [OF safe(1) dir]) (use G new holds in \<open>auto simp: shows_ok_def\<close>)
  moreover have "all_listed D0 L (D(rc_dir r \<mapsto> G))"
  proof -
    have old: "\<exists>d F. d \<notin> dom D0 \<and> (D(rc_dir r \<mapsto> G)) d = Some F \<and> lists_segment L i F" if i: "i < length M" for i
    proof -
      obtain d F1 where d: "d \<notin> dom D0" "D d = Some F1" "lists_segment M i F1" using safe(2) i unfolding all_listed_def by blast
      then have L: "lists_segment L i F1" using i safe(3) by (simp add: lists_segment_def nth_append)
      show ?thesis
      proof (cases "d = rc_dir r")
        case True
        then have "F1 = F" using d(2) F by simp
        then obtain t1 n1 j where j: "F ''index.m3u8'' = Some t1" "listing t1 n1" "j < n1" "F (segment_name (j + 1)) = Some (L ! i)"
          using L unfolding lists_segment_def by blast
        then have "n1 = n - 1" using listing_unique [OF j(2), of "n - 1"] F'(3,4) by simp
        then have "j < n" "G (segment_name (j + 1)) = Some (L ! i)" using j(3,4) same by simp_all
        then have "lists_segment L i G" using G new unfolding lists_segment_def by blast
        then show ?thesis using dir by (intro exI [of _ "rc_dir r"] exI [of _ G]) simp
      next
        case False
        with d L show ?thesis by (intro exI [of _ d] exI [of _ F1]) simp
      qed
    qed
    have "G (segment_name ((n - 1) + 1)) = Some (L ! length M)"
    proof -
      have "n - 1 < n" "k + (n - 1) = length M" using F'(2,5) safe(3) by simp_all
      then show ?thesis using holds [unfolded holds_segments_def, THEN spec, of "n - 1"] by simp
    qed
    moreover have "n - 1 < n" using F'(5) by simp
    ultimately have "lists_segment L (length M) G" using G new unfolding lists_segment_def by blast
    then have "\<exists>d F. d \<notin> dom D0 \<and> (D(rc_dir r \<mapsto> G)) d = Some F \<and> lists_segment L (length M) F"
      using dir by (intro exI [of _ "rc_dir r"] exI [of _ G]) simp
    with old show ?thesis unfolding all_listed_def using safe(3) by (auto simp: less_Suc_eq)
  qed
  ultimately show ?thesis by blast
qed

lemma in_step_quiet:
  assumes P: "in_step D0 L None True D (Some r)" and F: "D (rc_dir r) = Some F" "same_visible F G"
  shows "in_step D0 L None a (D(rc_dir r \<mapsto> G)) (Some r)"
proof -
  have held: "with_rec D0 L (\<lambda>D. rec_in_step D0 L None D r) r True D (Some r)" using in_step_rec [OF P refl] .
  have "rec_in_step D0 L None (D(rc_dir r \<mapsto> G)) r"
    by (rule rec_in_step_files [where D = D and r = r, OF _ F]) (use held rec_open_in_step [where b = None and D = D and r = r] in \<open>auto simp: with_rec_def\<close>)
  then have "with_rec D0 L (\<lambda>D. rec_in_step D0 L None D r) r a (D(rc_dir r \<mapsto> G)) (Some r)"
    by (rule with_rec_quiet [where D = D and r = r, OF held F])
  then show ?thesis by (rule with_rec_in_step)
qed

lemma write_meta_in_step:
  "io_ok (\<lambda>a D c. in_step D0 L None a D c \<and> c = Some r) (write_meta env r) (\<lambda>_ a D c. in_step D0 L None a D c \<and> c = Some r) (after_error D0 L)"
  unfolding write_meta_def
proof (rule write_atomic_ok)
  fix D c F G assume P: "in_step D0 L None True D c \<and> c = Some r" "D (rc_dir r) = Some F" and "same_but {''meta.json'', tmp_of ''meta.json''} F G"
  then have "same_visible F G" by (auto intro: same_but_visible)
  with P show "in_step D0 L None True (D(rc_dir r \<mapsto> G)) c \<and> c = Some r" using in_step_quiet [where D = D and r = r] by blast
next
  fix D c a F G assume P: "in_step D0 L None True D c \<and> c = Some r" "D (rc_dir r) = Some F" and "same_but {tmp_of ''meta.json''} F G"
  then have "same_visible F G" by (auto intro: same_but_visible)
  with P have "in_step D0 L None a (D(rc_dir r \<mapsto> G)) c" using in_step_quiet [where D = D and r = r] by blast
  then show "after_error D0 L a (D(rc_dir r \<mapsto> G)) c" by (rule in_step_error)
qed (use in_step_error in_step_rec rec_in_step_dir in \<open>fastforce simp: with_rec_def\<close>)+

lemma write_playlist_renamed:
  assumes L: "L = M @ [x]"
  shows "io_ok (\<lambda>a D c. c = Some r \<and> crash_safe D0 L D \<and> (a \<longrightarrow> all_listed D0 M D \<and> renamed D0 L r D))
     (write_playlist env r e) (\<lambda>_ a D c. in_step D0 L None a D c \<and> c = Some r) (after_error D0 L)"
  unfolding write_playlist_def
proof (rule write_atomic_ok)
  fix D c F G
  assume P: "c = Some r \<and> crash_safe D0 L D \<and> (True \<longrightarrow> all_listed D0 M D \<and> renamed D0 L r D)" and F: "D (rc_dir r) = Some F"
    and but: "same_but {''index.m3u8'', tmp_of ''index.m3u8''} F G"
    and G: "G ''index.m3u8'' = Some (rec_playlist (rc_segments r) (min_target env) e)"
  from P renamed_step [where D = D and r = r, OF _ F _ _ L but G] show "in_step D0 L None True (D(rc_dir r \<mapsto> G)) c \<and> c = Some r"
    by (simp add: in_step_def)
next
  fix D c a F G
  assume P: "c = Some r \<and> crash_safe D0 L D \<and> (True \<longrightarrow> all_listed D0 M D \<and> renamed D0 L r D)" and F: "D (rc_dir r) = Some F"
    and "same_but {tmp_of ''index.m3u8''} F G"
  then have same: "same_visible F G" by (auto intro: same_but_visible)
  have ok: "rec_dir_ok D0 L D r" using P renamed_dir_ok by blast
  then have "rec_dir_ok D0 L (D(rc_dir r \<mapsto> G)) r" by (rule rec_dir_ok_same [where D = D and r = r, OF _ F same])
  moreover have "crash_safe D0 L (D(rc_dir r \<mapsto> G))"
    by (rule crash_safe_same [where D = D and d = "rc_dir r", OF _ _ F same]) (use P ok in \<open>simp_all add: rec_dir_ok_def\<close>)
  ultimately show "after_error D0 L a (D(rc_dir r \<mapsto> G)) c" using P by (simp add: after_error_def)
qed (auto simp: after_error_def renamed_def)

lemma all_listed_enqueue [simp]: "rw_disk (upload_segment env r name w) = rw_disk w"
  by (simp add: upload_segment_def Let_def)

lemma upload_segment_rec:
  "rw_rec w = Some r \<Longrightarrow> \<exists>r'. rw_rec (upload_segment env r name w) = Some r' \<and> rc_dir r' = rc_dir r \<and> rc_segments r' = rc_segments r \<and>
     rc_open r' = rc_open r"
  by (auto simp: upload_segment_def Let_def)

lemma rec_in_step_cong:
  "rec_in_step D0 L None D r \<Longrightarrow> rc_dir r' = rc_dir r \<Longrightarrow> rc_segments r' = rc_segments r \<Longrightarrow> rc_open r' = rc_open r \<Longrightarrow>
   rec_in_step D0 L None D r'"
  by (simp add: rec_in_step_def)

lemma rec_dir_ok_more: "rec_dir_ok D0 L D r \<Longrightarrow> rec_dir_ok D0 (L @ M) D r"
  using holds_segments_more unfolding rec_dir_ok_def by blast

lemma after_error_more: "after_error D0 L a D c \<Longrightarrow> after_error D0 (L @ M) a D c"
  using crash_safe_more rec_dir_ok_more by (auto simp: after_error_def split: option.splits)

lemma io_ok_False: "io_ok (\<lambda>_ _ _. False) m Q E"
  by (simp add: io_ok_def assn_at_def)

lemma apply_close_ok:
  "io_ok (in_step D0 L b) (apply_close env d)
     (\<lambda>_. in_step D0 (fst (seg_one (L, b) (SegClose d))) (snd (seg_one (L, b) (SegClose d))))
     (after_error D0 (fst (seg_one (L, b) (SegClose d))))"
  unfolding apply_close_def
proof (rule io_ok_rec)
  show "io_ok (\<lambda>a D c. in_step D0 L b a D c \<and> c = None) (io_return ())
     (\<lambda>_. in_step D0 (fst (seg_one (L, b) (SegClose d))) (snd (seg_one (L, b) (SegClose d))))
     (after_error D0 (fst (seg_one (L, b) (SegClose d))))"
    by (rule io_ok_return) (cases b; auto simp: in_step_def intro: crash_safe_more)
next
  fix r :: recording
  show "io_ok (\<lambda>a D c. in_step D0 L b a D c \<and> c = Some r)
      (\<lambda>w. case rc_open r of None \<Rightarrow> io_return () w
       | Some s \<Rightarrow> (let name = segment_name (os_index s); r' = with_segment d s r in
          io_then (io_modify (\<lambda>w. w\<lparr>rw_rec := Some (r\<lparr>rc_open := None\<rparr>)\<rparr>))
         (io_then (io_disk other_op) (io_then (io_disk other_op)
         (io_then (io_disk (rename_file (rc_dir r) (os_tmp s) name))
         (io_then (io_modify (\<lambda>w. w\<lparr>rw_rec := Some r'\<rparr>))
         (io_then (write_playlist env r' False)
         (io_then (write_meta env r') (io_modify (upload_segment env r' name)))))))) w))
     (\<lambda>_. in_step D0 (fst (seg_one (L, b) (SegClose d))) (snd (seg_one (L, b) (SegClose d))))
     (after_error D0 (fst (seg_one (L, b) (SegClose d))))"
  proof (cases "rc_open r")
    case None
    have "in_step D0 (fst (seg_one (L, b) (SegClose d))) (snd (seg_one (L, b) (SegClose d))) a D c"
      if "in_step D0 L b a D c" "c = Some r" for a D c
      using that None rec_open_in_step [where b = b and D = D and r = r] crash_safe_more by (cases b) (auto simp: in_step_def)
    then show ?thesis unfolding None option.case by (intro io_ok_return) blast
  next
    case s: (Some s)
    define r0 where "r0 = r\<lparr>rc_open := None\<rparr>"
    define r' where "r' = with_segment d s r"
    show ?thesis
    proof (cases b)
      case None
      define P :: assn where "P = (\<lambda>a D c. \<not> a \<and> crash_safe D0 L D)"
      have dead: "\<not> a \<and> crash_safe D0 L D" if "in_step D0 L b a D c" "c = Some r" for a D c
        using that s None rec_open_in_step [where b = b and D = D and r = r] by (auto simp: in_step_def)
      have start: "io_ok (\<lambda>a D c. in_step D0 L b a D c \<and> c = Some r) (io_modify (\<lambda>w. w\<lparr>rw_rec := Some r0\<rparr>)) (\<lambda>_. P) (after_error D0 L)"
        by (rule io_ok_modify) (auto simp: assn_at_def P_def dest: dead)
      have stop: "io_ok P (io_disk other_op) (\<lambda>_ _ _ _. False) (after_error D0 L)"
        unfolding other_op_def by (rule io_ok_disk) (auto simp: P_def after_error_def)
      show ?thesis
        unfolding s option.case Let_def r0_def [symmetric] using io_ok_then [OF start io_ok_then [OF stop io_ok_False]] by (simp add: None)
    next
      case (Some x)
      define L' where "L' = L @ [x]"
      define P :: assn where "P = (\<lambda>a D c. c = Some r0 \<and> crash_safe D0 L' D \<and> (a \<longrightarrow> all_listed D0 L D \<and> rec_in_step D0 L (Some x) D r))"
      define P1 :: assn where "P1 = (\<lambda>a D c. c = Some r0 \<and> crash_safe D0 L' D \<and> (a \<longrightarrow> all_listed D0 L D \<and> renamed D0 L' r' D))"
      define P2 :: assn where "P2 = (\<lambda>a D c. c = Some r' \<and> crash_safe D0 L' D \<and> (a \<longrightarrow> all_listed D0 L D \<and> renamed D0 L' r' D))"
      have held: "rec_dir_ok D0 L' D r0" if "rec_in_step D0 L (Some x) D r" for D
        using rec_dir_ok_more [OF rec_in_step_dir_ok [OF that], of "[x]"] by (simp add: rec_dir_ok_def L'_def r0_def)
      have E: "after_error D0 L' a D c" if "P a' D c" "a \<longrightarrow> a'" for a a' D c
        using that held by (auto simp: P_def after_error_def)
      have start: "io_ok (\<lambda>a D c. in_step D0 L b a D c \<and> c = Some r) (io_modify (\<lambda>w. w\<lparr>rw_rec := Some r0\<rparr>)) (\<lambda>_. P) (after_error D0 L')"
        by (rule io_ok_modify) (use Some in \<open>auto simp: assn_at_def P_def L'_def in_step_def intro: crash_safe_more\<close>)
      have sync: "io_ok P (io_disk other_op) (\<lambda>_. P) (after_error D0 L')"
        by (rule other_op_ok) (use E in auto)
      have rename: "io_ok P (io_disk (rename_file (rc_dir r) (os_tmp s) (segment_name (os_index s)))) (\<lambda>_. P1) (after_error D0 L')"
      proof (rule rename_file_ok)
        fix D c F y assume "P True D c" and F: "D (rc_dir r) = Some F" "F (os_tmp s) = Some y"
        then have P: "c = Some r0" "crash_safe D0 (L @ [x]) D" "all_listed D0 L D" "rec_in_step D0 L (Some x) D r"
          by (simp_all add: P_def L'_def)
        from rename_renames [OF P(4) s F P(2,3)]
        show "P1 True (D(rc_dir r \<mapsto> F(os_tmp s := None, segment_name (os_index s) \<mapsto> y))) c"
          using P(1) by (simp add: P1_def L'_def r'_def)
      next
        fix D c assume "P True D c"
        then have held: "rec_in_step D0 L (Some x) D r" by (simp add: P_def)
        from rec_in_step_dir [OF held] obtain F where "D (rc_dir r) = Some F" by blast
        with rec_in_stepD [OF held this] s show "\<exists>F x. D (rc_dir r) = Some F \<and> F (os_tmp s) = Some x" by auto
      qed (use E in auto)
      have set_rec: "io_ok P1 (io_modify (\<lambda>w. w\<lparr>rw_rec := Some r'\<rparr>)) (\<lambda>_. P2) (after_error D0 L')"
        by (rule io_ok_modify) (simp add: assn_at_def P1_def P2_def)
      have list: "io_ok P2 (write_playlist env r' False) (\<lambda>_ a D c. in_step D0 L' None a D c \<and> c = Some r') (after_error D0 L')"
        unfolding P2_def by (rule write_playlist_renamed [OF L'_def])
      have upload: "io_ok (\<lambda>a D c. in_step D0 L' None a D c \<and> c = Some r') (io_modify (upload_segment env r' (segment_name (os_index s))))
          (\<lambda>_. in_step D0 L' None) (after_error D0 L')"
      proof (rule io_ok_modify)
        fix w assume w: "assn_at (\<lambda>a D c. in_step D0 L' None a D c \<and> c = Some r') w"
        then obtain r'' where r'': "rw_rec (upload_segment env r' (segment_name (os_index s)) w) = Some r''" "rc_dir r'' = rc_dir r'"
            "rc_segments r'' = rc_segments r'" "rc_open r'' = rc_open r'"
          using upload_segment_rec [where w = w and r = r'] by (auto simp: assn_at_def)
        with w rec_in_step_cong [OF _ r''(2-4)] show "assn_at (in_step D0 L' None) (upload_segment env r' (segment_name (os_index s)) w)"
          by (auto simp: assn_at_def in_step_def)
      qed
      have "fst (seg_one (L, b) (SegClose d)) = L'" "snd (seg_one (L, b) (SegClose d)) = None" using Some by (simp_all add: L'_def)
      then show ?thesis
        unfolding s option.case Let_def r0_def [symmetric] r'_def [symmetric]
        using io_ok_then [OF start io_ok_then [OF sync io_ok_then [OF sync io_ok_then [OF rename io_ok_then [OF set_rec
            io_ok_then [OF list io_ok_then [OF write_meta_in_step upload]]]]]]] by simp
    qed
  qed
qed

lemma apply_out_ok:
  "io_ok (in_step D0 L b) (apply_out env now stream g x) (\<lambda>_. in_step D0 (fst (seg_one (L, b) x)) (snd (seg_one (L, b) x)))
     (after_error D0 (fst (seg_one (L, b) x)))"
  using apply_open_ok apply_fragment_ok apply_close_ok by (cases x) simp_all

definition seg_state :: "seg_out list \<Rightarrow> string list \<times> string option" where
  "seg_state outs = foldl seg_one ([], None) outs"

lemma seg_fold_more: "\<exists>M. fst (foldl seg_one p xs) = fst p @ M"
proof (induction xs arbitrary: p)
  case (Cons x xs)
  have "\<exists>M. fst (seg_one p x) = fst p @ M" by (cases p; cases x) (auto split: option.splits)
  with Cons.IH [of "seg_one p x"] show ?case by auto
qed simp

lemma apply_outs_ok:
  "io_ok (in_step D0 (fst p) (snd p)) (apply_outs env now stream g xs)
     (\<lambda>_. in_step D0 (fst (foldl seg_one p xs)) (snd (foldl seg_one p xs))) (after_error D0 (fst (foldl seg_one p xs)))"
proof (induction xs arbitrary: p)
  case Nil
  then show ?case by (simp add: io_ok_return)
next
  case (Cons x xs)
  obtain M where M: "fst (foldl seg_one (seg_one p x) xs) = fst (seg_one p x) @ M" using seg_fold_more by blast
  have "io_ok (in_step D0 (fst p) (snd p)) (apply_out env now stream g x)
      (\<lambda>_. in_step D0 (fst (seg_one p x)) (snd (seg_one p x))) (after_error D0 (fst (foldl seg_one (seg_one p x) xs)))"
    using apply_out_ok [of D0 "fst p" "snd p" env now stream g x]
    by (rule io_ok_weaken) (simp_all add: M after_error_more)
  from io_ok_then [OF this Cons.IH] show ?case by simp
qed

subsection \<open>The recorder\<close>

lemma scan_state:
  "seg_scan e outs = Some e' \<Longrightarrow> (snd p \<noteq> None \<longleftrightarrow> e) \<Longrightarrow> (snd (foldl seg_one p outs) \<noteq> None \<longleftrightarrow> e')"
proof (induction e outs arbitrary: p rule: seg_scan.induct)
  case (2 d t f xs)
  then show ?case by (cases p) simp
next
  case (3 f xs)
  then show ?case by (cases p) auto
next
  case (4 d xs)
  then show ?case by (cases p) (auto split: option.splits)
qed auto

text \<open>
  What holds between two events: the files are those of the recorder's history, and the segmenter has a segment open
  exactly when a file is.
\<close>

definition completed :: "recorder \<Rightarrow> string list" where
  "completed st = fst (seg_state (ra_log st))"

definition recorder_ok :: "(dir \<rightharpoonup> files) \<Rightarrow> recorder \<Rightarrow> bool" where
  "recorder_ok D0 st \<longleftrightarrow>
     seg_ok (ra_seg st) \<and> sg_out (ra_seg st) = [] \<and> (snd (seg_state (ra_log st)) \<noteq> None \<longleftrightarrow> sg_seg_emitted (ra_seg st)) \<and>
     (\<not> ra_active st \<longrightarrow> \<not> sg_seg_emitted (ra_seg st)) \<and>
     assn_at (in_step D0 (completed st) (snd (seg_state (ra_log st)))) (ra_world st)"

text \<open>What holds once the task has ended, with or without an error.\<close>

definition recorded_files_ok :: "(dir \<rightharpoonup> files) \<Rightarrow> recorder \<Rightarrow> bool" where
  "recorded_files_ok D0 st \<longleftrightarrow>
     crash_safe D0 (completed st) (dk_dirs (rw_disk (ra_world st))) \<and>
     (ra_phase st \<noteq> Failed \<longrightarrow> dk_alive (rw_disk (ra_world st)) \<longrightarrow>
        all_listed D0 (completed st) (dk_dirs (rw_disk (ra_world st))))"

lemma recorder_ok_files: "recorder_ok D0 st \<Longrightarrow> recorded_files_ok D0 st"
  by (auto simp: recorder_ok_def recorded_files_ok_def in_step_def assn_at_def)

text \<open>The segmenter was fed, and what came out is now in the files.\<close>

lemma apply_taken_ok:
  assumes "seg_steps g g'" and "sg_out g = []" and "(snd (seg_state (ra_log st)) \<noteq> None) = sg_seg_emitted g" and "ra_seg st = g'"
    and world: "assn_at (in_step D0 (completed st) (snd (seg_state (ra_log st)))) (ra_world st)"
    and run: "apply_taken env now st = (res, st')"
  shows "seg_ok (ra_seg st')" "sg_out (ra_seg st') = []" "(snd (seg_state (ra_log st')) \<noteq> None) = sg_seg_emitted g'"
    "sg_seg_emitted (ra_seg st') = sg_seg_emitted g'" "ra_active st' = ra_active st" "ra_phase st' = ra_phase st"
    "res = Inr () \<Longrightarrow> assn_at (in_step D0 (completed st') (snd (seg_state (ra_log st')))) (ra_world st')"
    "res = Inl e \<Longrightarrow> assn_at (after_error D0 (completed st')) (ra_world st')"
proof -
  obtain w where w: "apply_outs env now (ra_stream st) (g'\<lparr>sg_out := []\<rparr>) (sg_out g') (ra_world st) = (res, w)"
      "st' = st\<lparr>ra_seg := g'\<lparr>sg_out := []\<rparr>, ra_world := w, ra_log := ra_log st @ sg_out g'\<rparr>"
    using run assms(4) by (auto simp: apply_taken_def seg_take_def split: prod.splits)
  have steps: "seg_ok g'" "seg_scan (sg_seg_emitted g) (sg_out g') = Some (sg_seg_emitted g')"
    using assms(1,2) by (auto simp: seg_steps_def)
  then show "seg_ok (ra_seg st')" by (simp add: w(2) seg_ok_def)
  show "sg_out (ra_seg st') = []" "sg_seg_emitted (ra_seg st') = sg_seg_emitted g'" "ra_active st' = ra_active st" "ra_phase st' = ra_phase st"
    by (simp_all add: w(2))
  have log: "seg_state (ra_log st') = foldl seg_one (seg_state (ra_log st)) (sg_out g')" by (simp add: w(2) seg_state_def)
  show "(snd (seg_state (ra_log st')) \<noteq> None) = sg_seg_emitted g'"
    using scan_state [OF steps(2) assms(3)] by (simp add: log)
  have all: "case res of Inl e \<Rightarrow> assn_at (after_error D0 (completed st')) w
      | Inr x \<Rightarrow> assn_at (in_step D0 (completed st') (snd (seg_state (ra_log st')))) w"
    using io_okD [OF apply_outs_ok [where p = "seg_state (ra_log st)" and env = env and now = now and stream = "ra_stream st"
        and g = "g'\<lparr>sg_out := []\<rparr>" and xs = "sg_out g'"] world [unfolded completed_def]]
    by (simp add: w(1) log completed_def split: sum.splits)
  show "res = Inr () \<Longrightarrow> assn_at (in_step D0 (completed st') (snd (seg_state (ra_log st')))) (ra_world st')"
    "res = Inl e \<Longrightarrow> assn_at (after_error D0 (completed st')) (ra_world st')"
    using all by (simp_all add: w(2))
qed

text \<open>The recording in hand ends; nothing else is in step with it then.\<close>

lemma finish_current_same [simp]:
  "ra_seg (finish_current env now err st) = ra_seg st" "ra_log (finish_current env now err st) = ra_log st"
  "ra_active (finish_current env now err st) = ra_active st" "ra_phase (finish_current env now err st) = ra_phase st"
  "completed (finish_current env now err st) = completed st"
  by (simp_all add: finish_current_def completed_def split: option.split)

lemma finish_world:
  assumes "case finish_recording env now r err w of (Inl e, w') \<Rightarrow> assn_at P w' | (Inr x, w') \<Rightarrow> assn_at P w'"
  shows "assn_at P (snd (finish_recording env now r err w))"
  using assms by (cases "finish_recording env now r err w"; cases "fst (finish_recording env now r err w)") simp_all

lemma finish_current_error:
  assumes "assn_at (after_error D0 (completed st)) (ra_world st)"
  shows "crash_safe D0 (completed st) (dk_dirs (rw_disk (ra_world (finish_current env now err st))))"
proof (cases "rw_rec (ra_world st)")
  case None
  then show ?thesis using assms by (simp add: finish_current_def assn_at_def after_error_def)
next
  case (Some r)
  have "assn_at (closing D0 (completed st) False r None) ((ra_world st)\<lparr>rw_rec := None\<rparr>)"
    using assms Some by (simp add: assn_at_def after_error_def closing_def)
  from io_okD [OF finish_ok [where E = "\<lambda>a D c. crash_safe D0 (completed st) D" and env = env and now = now and err = err] this]
  have "assn_at (\<lambda>a D c. crash_safe D0 (completed st) D) (snd (finish_recording env now r err ((ra_world st)\<lparr>rw_rec := None\<rparr>)))"
    by (intro finish_world) (auto simp: assn_at_def split: prod.splits sum.splits)
  then show ?thesis using Some by (simp add: finish_current_def assn_at_def)
qed

lemma rec_in_step_listed: "rec_in_step D0 L b D r \<Longrightarrow> listed_there D r"
  by (auto simp: rec_in_step_def listed_there_def)

lemma finish_current_in_step:
  assumes "assn_at (in_step D0 (completed st) None) (ra_world st)"
  shows "assn_at (in_step D0 (completed st) None) (ra_world (finish_current env now err st))"
proof (cases "rw_rec (ra_world st)")
  case None
  then show ?thesis using assms by (simp add: finish_current_def)
next
  case (Some r)
  have "assn_at (closing D0 (completed st) True r None) ((ra_world st)\<lparr>rw_rec := None\<rparr>)"
    using assms Some rec_in_step_listed rec_in_step_dir_ok by (auto simp: assn_at_def in_step_def closing_def)
  from io_okD [OF finish_ok [where E = "\<lambda>a D c. c = None \<and> crash_safe D0 (completed st) D \<and> (a \<longrightarrow> all_listed D0 (completed st) D)"
      and env = env and now = now and err = err] this]
  have "assn_at (\<lambda>a D c. c = None \<and> crash_safe D0 (completed st) D \<and> (a \<longrightarrow> all_listed D0 (completed st) D))
      (snd (finish_recording env now r err ((ra_world st)\<lparr>rw_rec := None\<rparr>)))"
    by (intro finish_world) (auto simp: assn_at_def split: prod.splits sum.splits)
  then show ?thesis using Some by (simp add: finish_current_def assn_at_def in_step_def)
qed

text \<open>A step of the recorder: the segmenter is fed, and then, if nothing failed, \<open>f\<close> follows.\<close>

lemma fed_step_ok:
  assumes ok: "recorder_ok D0 st" and steps: "seg_steps (ra_seg st) g'" and run: "ra_phase st = Running"
    and st1: "st1 = st\<lparr>ra_seg := g', ra_active := act, ra_fresh := fresh\<rparr>" and act: "\<not> act \<longrightarrow> \<not> sg_seg_emitted g'"
    and f: "f = id \<or> (\<not> sg_seg_emitted g' \<and> (\<exists>err. f = finish_current env now err))"
  shows "(ra_phase (unless_failed env now f (apply_taken env now st1)) = Running \<and> recorder_ok D0 (unless_failed env now f (apply_taken env now st1))) \<or>
    (ra_phase (unless_failed env now f (apply_taken env now st1)) = Failed \<and> recorded_files_ok D0 (unless_failed env now f (apply_taken env now st1)))"
proof -
  obtain res st' where taken: "apply_taken env now st1 = (res, st')" by fastforce
  have pre: "sg_out (ra_seg st) = []" "(snd (seg_state (ra_log st1)) \<noteq> None) = sg_seg_emitted (ra_seg st)" "ra_seg st1 = g'"
    "assn_at (in_step D0 (completed st1) (snd (seg_state (ra_log st1)))) (ra_world st1)"
    using ok by (simp_all add: recorder_ok_def st1 completed_def)
  note out = apply_taken_ok [OF steps pre taken]
  show ?thesis
  proof (cases res)
    case (Inl e)
    have "crash_safe D0 (completed st') (dk_dirs (rw_disk (ra_world (finish_current env now (Some (''write failed: '' @ e)) st'))))"
      by (rule finish_current_error [OF out(8) [OF Inl]])
    then have "recorded_files_ok D0 ((finish_current env now (Some (''write failed: '' @ e)) st')\<lparr>ra_phase := Failed\<rparr>)"
      by (simp add: recorded_files_ok_def completed_def)
    then show ?thesis using Inl by (simp add: taken unless_failed_def)
  next
    case (Inr u)
    have world: "assn_at (in_step D0 (completed st') (snd (seg_state (ra_log st')))) (ra_world st')" using out(7) Inr by simp
    have phase: "ra_phase st' = Running" "ra_active st' = act" using out(5,6) run by (simp_all add: st1)
    have fed: "recorder_ok D0 st'" using out(1-4) world act phase(2) by (simp add: recorder_ok_def)
    show ?thesis
    proof (cases "f = id")
      case True
      then show ?thesis using Inr fed phase by (simp add: taken unless_failed_def)
    next
      case False
      then obtain err where f: "f = finish_current env now err" "\<not> sg_seg_emitted g'" using f by blast
      then have none: "snd (seg_state (ra_log st')) = None" using out(3) by simp
      have "assn_at (in_step D0 (completed st') None) (ra_world (finish_current env now err st'))"
        by (rule finish_current_in_step) (use world none in simp)
      then have "recorder_ok D0 (f st')" using fed none f by (simp add: recorder_ok_def)
      then show ?thesis using Inr f(1) phase by (simp add: taken unless_failed_def)
    qed
  qed
qed

lemma seg_closed_flush:
  assumes "seg_ok g"
  shows "seg_steps g (seg_flush enc g)" "\<not> sg_seg_emitted (seg_flush enc g)"
  using seg_flush_steps(1,2) [OF assms, of enc] by (auto simp: seg_steps_def seg_ok_def)

lemma seg_lagged_closed:
  assumes "seg_ok g"
  shows "seg_steps g (seg_lagged enc g)" "\<not> sg_seg_emitted (seg_lagged enc g)"
  using seg_step_steps [OF assms, of undefined enc SgLagged] seg_closed_flush(2) [OF assms, of enc]
  by (simp_all add: seg_lagged_def Let_def)

lemma seg_set_tracks_closed:
  assumes "seg_ok g" "fst (seg_set_tracks mc enc ts g)"
  shows "\<not> sg_seg_emitted (snd (seg_set_tracks mc enc ts g))"
  using assms(2) seg_closed_flush(2) [OF assms(1), of enc]
  by (auto simp: seg_set_tracks_def Let_def case_prod_unfold split: if_splits)

lemma seg_set_tracks_same: "\<not> fst (seg_set_tracks mc enc ts g) \<Longrightarrow> snd (seg_set_tracks mc enc ts g) = g"
  by (simp add: seg_set_tracks_def Let_def case_prod_unfold split: if_splits)

lemma fed_running:
  assumes "recorder_ok D0 st" "seg_steps (ra_seg st) g'" "ra_phase st = Running" "ra_active st"
    and "f = id \<or> (\<not> sg_seg_emitted g' \<and> (\<exists>err. f = finish_current env now err))"
    and "st' = unless_failed env now f (apply_taken env now (st\<lparr>ra_seg := g', ra_fresh := fresh\<rparr>))"
  shows "(ra_phase st' = Running \<and> recorder_ok D0 st') \<or> (ra_phase st' = Failed \<and> recorded_files_ok D0 st')"
proof -
  have "st\<lparr>ra_seg := g', ra_fresh := fresh\<rparr> = st\<lparr>ra_seg := g', ra_active := True, ra_fresh := fresh\<rparr>"
    using assms(4) by (cases st) simp
  from fed_step_ok [OF assms(1-3) this _ assms(5)] show ?thesis unfolding assms(6) by simp
qed

lemma recorder_event_ok:
  assumes ok: "recorder_ok D0 st" and run: "ra_phase st = Running" and st': "st' = recorder_event mc enc env now ev st"
  shows "(ra_phase st' = Running \<and> recorder_ok D0 st') \<or> recorded_files_ok D0 st' \<and> ra_phase st' \<noteq> Running"
proof -
  have g: "seg_ok (ra_seg st)" using ok by (simp add: recorder_ok_def)
  show ?thesis
  proof (cases ev)
    case (RvGate opened)
    show ?thesis
    proof (cases "opened = ra_active st \<or> opened")
      case True
      then show ?thesis using ok run st' RvGate by (auto simp: recorder_ok_def completed_def)
    next
      case False
      have "(ra_phase st' = Running \<and> recorder_ok D0 st') \<or> (ra_phase st' = Failed \<and> recorded_files_ok D0 st')"
      proof -
        define g' where "g' = seg_lagged enc (ra_seg st)"
        have steps: "seg_steps (ra_seg st) g'" "\<not> sg_seg_emitted g'" unfolding g'_def by (rule seg_lagged_closed [OF g])+
        have fed: "st\<lparr>ra_active := False, ra_seg := g'\<rparr> = st\<lparr>ra_seg := g', ra_active := False, ra_fresh := ra_fresh st\<rparr>"
          by (cases st) simp
        have st': "st' = unless_failed env now (finish_current env now None) (apply_taken env now (st\<lparr>ra_active := False, ra_seg := g'\<rparr>))"
        proof -
          have "\<not> opened" "ra_active st" using False by auto
          then show ?thesis by (simp add: st' RvGate g'_def)
        qed
        show ?thesis unfolding st' by (rule fed_step_ok [OF ok steps(1) run fed]) (use steps(2) in auto)
      qed
      then show ?thesis by auto
    qed
  next
    case (RvTracks ts)
    obtain changed g' where tracks: "seg_set_tracks mc enc ts (ra_seg st) = (changed, g')" by fastforce
    have steps: "seg_steps (ra_seg st) g'" using seg_set_tracks_steps [OF g, of mc enc ts] tracks by simp
    have closed: "\<not> sg_seg_emitted g'" if changed using seg_set_tracks_closed [OF g, of mc enc ts] tracks that by simp
    have same: "g' = ra_seg st" if "\<not> changed" using seg_set_tracks_same [of mc enc ts "ra_seg st"] tracks that by simp
    show ?thesis
    proof (cases "ra_active st")
      case False
      then have "\<not> sg_seg_emitted g'" using ok closed same by (cases changed) (auto simp: recorder_ok_def)
      moreover have "seg_ok (g'\<lparr>sg_out := []\<rparr>)" using steps by (simp add: seg_steps_def seg_ok_def)
      ultimately have "recorder_ok D0 st'"
        using ok False tracks by (auto simp: st' RvTracks recorder_ok_def completed_def seg_take_def)
      then show ?thesis using run False tracks by (simp add: st' RvTracks)
    next
      case True
      show ?thesis
      proof (cases changed)
        case changed: True
        have fed: "st' = unless_failed env now (finish_current env now None) (apply_taken env now (st\<lparr>ra_seg := g', ra_fresh := ra_fresh st\<rparr>))"
          using True changed tracks by (simp add: st' RvTracks)
        have ends: "finish_current env now None = id \<or> (\<not> sg_seg_emitted g' \<and> (\<exists>err. finish_current env now None = finish_current env now err))"
          using closed [OF changed] by blast
        from fed_running [OF ok steps run True ends fed] show ?thesis by auto
      next
        case unchanged: False
        then have "st' = st" using True tracks same by (simp add: st' RvTracks)
        then show ?thesis using ok run by simp
      qed
    qed
  next
    case (RvFrame f buffered)
    show ?thesis
    proof (cases "ra_active st")
      case True
      then have "\<exists>received. st' = unless_failed env now id (apply_taken env now (st\<lparr>ra_seg := seg_push enc f received (ra_seg st), ra_fresh := False\<rparr>))"
        unfolding st' RvFrame recorder_event.simps Let_def
        by (intro exI [of _ "if ra_fresh st then now - max buffered 0 * 1000 else now"]) (cases st; simp)
      then obtain received where "st' = unless_failed env now id (apply_taken env now (st\<lparr>ra_seg := seg_push enc f received (ra_seg st), ra_fresh := False\<rparr>))" ..
      from fed_running [OF ok seg_push_steps [OF g] run True _ this] show ?thesis by auto
    qed (use ok run st' RvFrame in simp)
  next
    case RvLagged
    show ?thesis
    proof (cases "ra_active st")
      case True
      have "st' = unless_failed env now id (apply_taken env now (st\<lparr>ra_seg := seg_lagged enc (ra_seg st), ra_fresh := True\<rparr>))"
        using True by (simp add: st' RvLagged)
      from fed_running [OF ok seg_lagged_closed(1) [OF g] run True _ this] show ?thesis by auto
    qed (use ok run st' RvLagged in simp)
  next
    case RvCue
    then show ?thesis using ok run st' by simp
  next
    case RvEnd
    define p where "p = apply_taken env now (st\<lparr>ra_seg := seg_end enc (ra_seg st)\<rparr>)"
    define q where "q = unless_failed env now (finish_current env now None) p"
    have q: "(ra_phase q = Running \<and> recorder_ok D0 q) \<or> (ra_phase q = Failed \<and> recorded_files_ok D0 q)"
    proof -
      define g' where "g' = seg_end enc (ra_seg st)"
      have steps: "seg_steps (ra_seg st) g'" "\<not> sg_seg_emitted g'" unfolding g'_def seg_end_def by (rule seg_closed_flush [OF g])+
      have fed: "st\<lparr>ra_seg := g'\<rparr> = st\<lparr>ra_seg := g', ra_active := ra_active st, ra_fresh := ra_fresh st\<rparr>" by (cases st) simp
      show ?thesis unfolding q_def p_def g'_def [symmetric] by (rule fed_step_ok [OF ok steps(1) run fed]) (use steps(2) in auto)
    qed
    have st': "st' = unless_failed env now (\<lambda>st. (finish_current env now None st)\<lparr>ra_phase := Ended\<rparr>) p"
      by (simp add: st' RvEnd p_def)
    show ?thesis
    proof (cases "fst p")
      case (Inl e)
      then have "st' = q" "ra_phase q = Failed" by (simp_all add: st' q_def unless_failed_def case_prod_unfold)
      then show ?thesis using q by auto
    next
      case (Inr u)
      then have "st' = q\<lparr>ra_phase := Ended\<rparr>" by (simp add: st' q_def unless_failed_def case_prod_unfold)
      moreover have "recorded_files_ok D0 q" using q recorder_ok_files by blast
      moreover have "ra_phase q \<noteq> Failed"
      proof -
        have "ra_phase (snd p) = Running" using run by (simp add: p_def apply_taken_def case_prod_unfold Let_def)
        then show ?thesis using Inr by (simp add: q_def unless_failed_def case_prod_unfold)
      qed
      ultimately show ?thesis by (simp add: recorded_files_ok_def completed_def)
    qed
  qed
qed

lemma recorder_new_ok: "recorder_ok (dk_dirs dk) (recorder_new env stream gate dk)"
  by (simp add: recorder_ok_def recorder_new_def segmenter_new_def seg_ok_def lane_pending_def seg_state_def completed_def
      assn_at_def in_step_def crash_safe_def all_listed_def dom_def)

lemma recorder_run_ok:
  "recorder_ok D0 st \<Longrightarrow> ra_phase st = Running \<Longrightarrow> recorded_files_ok D0 (recorder_run mc enc env evs st)"
proof (induction mc enc env evs st rule: recorder_run.induct)
  case (2 mc enc env now ev evs st)
  define st' where "st' = recorder_event mc enc env now ev st"
  from recorder_event_ok [OF 2(2,3) st'_def]
  show ?case
  proof
    assume "ra_phase st' = Running \<and> recorder_ok D0 st'"
    then show ?thesis using 2(1) 2(3) by (simp add: st'_def)
  next
    assume stopped: "recorded_files_ok D0 st' \<and> ra_phase st' \<noteq> Running"
    have "recorder_run mc enc env evs st' = st'" by (cases evs) (use stopped in auto)
    then show ?thesis using stopped 2(3) by (simp add: st'_def)
  qed
qed (simp add: recorder_ok_files)

text \<open>
  Claim C38. Recordings are crash safe: whichever file operation fails and whenever the server is killed, directories that
  were there before stay as they are, and a playlist in a new one lists only segments whose file is complete, namely
  consecutive ones of those the segmenter completed, in order. And nothing is lost: as long as no operation has
  failed, every completed segment is listed in a playlist on disk.
\<close>

theorem recording_crash_safe:
  "recorded_files_ok (dk_dirs dk) (recorder_run mc enc env evs (recorder_new env stream gate dk))"
  by (rule recorder_run_ok [OF recorder_new_ok]) (simp add: recorder_new_def)

end
