(* ===== verification/Record_Recover.thy ===== *)
theory Record_Recover
  imports Record_Files
begin

text \<open>
  What a restart makes of a recording a crash left open: with nothing failing, the playlist the recorder would have
  written at the end; killed at the wrong moment, a playlist that lists a file that is not there.
\<close>

subsection \<open>Without failures\<close>

lemma disk_op_works:
  "dk_alive dk \<Longrightarrow> dk_outcomes dk = [] \<Longrightarrow> disk_op done partly dk = (Inr (), dk\<lparr>dk_dirs := done (dk_dirs dk)\<rparr>)"
  by (simp add: disk_op_def)

lemma quiet_write:
  "dk_alive dk \<Longrightarrow> dk_outcomes dk = [] \<Longrightarrow> dk_dirs dk d = Some F \<Longrightarrow>
   io_quiet (write_file d f data) dk = dk\<lparr>dk_dirs := (dk_dirs dk)(d \<mapsto> F(f \<mapsto> data))\<rparr>"
  by (simp add: io_quiet_def write_file_def disk_op_works on_files_def)

lemma quiet_remove:
  "dk_alive dk \<Longrightarrow> dk_outcomes dk = [] \<Longrightarrow> dk_dirs dk d = Some F \<Longrightarrow>
   io_quiet (remove_file d f) dk = dk\<lparr>dk_dirs := (dk_dirs dk)(d \<mapsto> F(f := None))\<rparr>"
  by (simp add: io_quiet_def remove_file_def disk_op_works on_files_def)

definition without_temporaries :: "string list \<Rightarrow> files \<Rightarrow> files" where
  "without_temporaries names F = (\<lambda>f. if f \<in> set names \<and> ends_with ''.tmp'' f then None else F f)"

lemma remove_temporaries_works:
  "dk_alive dk \<Longrightarrow> dk_outcomes dk = [] \<Longrightarrow> dk_dirs dk d = Some F \<Longrightarrow>
   remove_temporaries d names dk = dk\<lparr>dk_dirs := (dk_dirs dk)(d \<mapsto> without_temporaries names F)\<rparr>"
proof (induction names arbitrary: dk F)
  case Nil
  then have "(dk_dirs dk)(d \<mapsto> F) = dk_dirs dk" by (simp add: fun_upd_idem)
  then show ?case by (simp add: without_temporaries_def)
next
  case (Cons f names)
  show ?case
  proof (cases "ends_with ''.tmp'' f")
    case True
    have "without_temporaries names (F(f := None)) = without_temporaries (f # names) F"
      using True by (auto simp: without_temporaries_def)
    moreover have "remove_temporaries d names (dk\<lparr>dk_dirs := (dk_dirs dk)(d \<mapsto> F(f := None))\<rparr>) =
        dk\<lparr>dk_dirs := (dk_dirs dk)(d \<mapsto> F(f := None), d \<mapsto> without_temporaries names (F(f := None)))\<rparr>"
      by (subst Cons.IH) (simp_all add: Cons.prems)
    ultimately show ?thesis using True by (simp only: remove_temporaries.simps if_True quiet_remove [OF Cons.prems] fun_upd_upd)
  next
    case False
    then have "without_temporaries names F = without_temporaries (f # names) F" by (auto simp: without_temporaries_def)
    then show ?thesis using Cons.IH [OF Cons.prems] False by (simp only: remove_temporaries.simps if_False)
  qed
qed

lemma ends_with_last: "ends_with p s \<Longrightarrow> p \<noteq> [] \<Longrightarrow> s \<noteq> [] \<and> last s = last p"
  by (auto simp: ends_with_def strip_suffix_def strip_prefix_Some) (metis last_appendR rev_append rev_is_Nil_conv rev_rev_ident)+

lemma kept_names: "\<not> ends_with ''.tmp'' ''index.m3u8''" "\<not> ends_with ''.tmp'' ''meta.json''" "\<not> ends_with ''.tmp'' (segment_name i)"
  using ends_with_last [of "''.tmp''"] by (auto simp: segment_name_def dest!: ends_with_last)

definition ended_meta :: "int \<Rightarrow> rec_meta \<Rightarrow> rec_meta" where
  "ended_meta modified m = m\<lparr>rm_ended_at := Some (rfc3339 modified),
     rm_error := (case rm_error m of Some e \<Rightarrow> Some e | None \<Rightarrow> Some ''interrupted: the server stopped while recording'')\<rparr>"

lemma recover_open:
  assumes "dk_alive dk" "dk_outcomes dk = []" "dk_dirs dk d = Some F"
    and "F ''index.m3u8'' = Some pl" "F ''meta.json'' = Some j" "json_dec j = Some m" "rm_ended_at m = None"
  shows "dk_dirs (recover_dir json json_dec modified names d dk) d =
    Some ((without_temporaries names F)(''index.m3u8'' \<mapsto> close_playlist pl, ''meta.json'' \<mapsto> json (ended_meta modified m)))"
proof -
  define F1 where "F1 = without_temporaries names F"
  have F1: "F1 ''index.m3u8'' = Some pl" "F1 ''meta.json'' = Some j"
    using assms(4,5) kept_names by (simp_all add: F1_def without_temporaries_def)
  define dk1 where "dk1 = dk\<lparr>dk_dirs := (dk_dirs dk)(d \<mapsto> F1)\<rparr>"
  have dk1: "remove_temporaries d names dk = dk1" "dk_alive dk1" "dk_outcomes dk1 = []" "dk_dirs dk1 d = Some F1"
    using remove_temporaries_works [OF assms(1-3)] assms(1,2) by (simp_all add: dk1_def F1_def)
  define dk2 where "dk2 = dk1\<lparr>dk_dirs := (dk_dirs dk1)(d \<mapsto> F1(''index.m3u8'' \<mapsto> close_playlist pl))\<rparr>"
  have dk2: "io_quiet (write_file d ''index.m3u8'' (close_playlist pl)) dk1 = dk2" "dk_alive dk2" "dk_outcomes dk2 = []"
      "dk_dirs dk2 d = Some (F1(''index.m3u8'' \<mapsto> close_playlist pl))"
    using quiet_write [OF dk1(2-4)] dk1(2,3) by (simp_all add: dk2_def)
  have "recover_dir json json_dec modified names d dk = io_quiet (write_file d ''meta.json'' (json (ended_meta modified m))) dk2"
    using F1 assms(6,7) dk1 dk2(1) by (simp add: recover_dir_def Let_def read_file_def ended_meta_def)
  then show ?thesis using quiet_write [OF dk2(2-4)] by (simp add: F1_def)
qed

text \<open>A recording that was killed in its second segment.\<close>

definition crashed_segments :: "seg_entry list" where
  "crashed_segments = [\<lparr>se_index = 1, se_duration = 6, se_discontinuity = False, se_pdt = None\<rparr>]"

definition crashed_meta :: rec_meta where
  "crashed_meta = \<lparr>rm_stream = ''cam'', rm_id = ''d'', rm_started_at = ''s'', rm_ended_at = None, rm_duration_ms = 6000,
     rm_bytes = 3, rm_segments = 1, rm_tracks = [], rm_error = None\<rparr>"

definition crashed_json :: "rec_meta \<Rightarrow> string" where
  "crashed_json m = (case rm_ended_at m of None \<Rightarrow> ''open'' | Some e \<Rightarrow> e)"

definition crashed_names :: "string list" where
  "crashed_names = [''seg-000002.m4s.tmp'', segment_name 1, ''meta.json'', ''index.m3u8'']"

definition crashed_files :: files where
  "crashed_files = [''seg-000002.m4s.tmp'' \<mapsto> ''ab'', segment_name 1 \<mapsto> ''abc'', ''meta.json'' \<mapsto> ''open'',
     ''index.m3u8'' \<mapsto> rec_playlist crashed_segments 6 False]"

lemma crashed_listed: "set crashed_names = dom crashed_files"
  by (auto simp: crashed_names_def crashed_files_def)

lemma crashed_files_at:
  "crashed_files ''index.m3u8'' = Some (rec_playlist crashed_segments 6 False)" "crashed_files ''meta.json'' = Some ''open''"
  "crashed_files (segment_name 1) = Some ''abc''"
proof -
  have "segment_name 1 \<noteq> ''index.m3u8''" "segment_name 1 \<noteq> ''meta.json''" by (auto simp: segment_name_def)
  then show "crashed_files (segment_name 1) = Some ''abc''" by (simp add: crashed_files_def)
qed (simp_all add: crashed_files_def)

text \<open>
  Claim C39. A restart that finds a recording a crash left open, with the playlist still open or already closed, and that
  is itself not disturbed (nothing it does on the disk fails, and the listing names the files there are) leaves it as one that
  ended: no temporary file, the closed playlist with the same segments, metadata that say when it ended, and every other
  file as it was.
\<close>

theorem recovery_closes:
  assumes "dk_alive dk" "dk_outcomes dk = []" "dk_dirs dk d = Some F" "set names = dom F"
    and "F ''index.m3u8'' = Some (rec_playlist es t ended)" "F ''meta.json'' = Some j" "json_dec j = Some m" "rm_ended_at m = None"
  shows "\<exists>G. dk_dirs (recover_dir json json_dec modified names d dk) d = Some G \<and>
    (\<forall>f. G f = (if f = ''index.m3u8'' then Some (rec_playlist es t True)
       else if f = ''meta.json'' then Some (json (ended_meta modified m))
       else if ends_with ''.tmp'' f then None else F f)) \<and>
    (\<forall>i. G (segment_name i) = F (segment_name i))"
proof -
  have closed: "close_playlist (rec_playlist es t ended) = rec_playlist es t True"
    by (cases ended) (simp_all only: close_rec_playlist close_closed_playlist)
  have swept: "without_temporaries names F f = (if ends_with ''.tmp'' f then None else F f)" for f
    using assms(4) by (auto simp: without_temporaries_def)
  have "segment_name i \<noteq> ''index.m3u8''" "segment_name i \<noteq> ''meta.json''" for i
    by (auto simp: segment_name_def)
  then show ?thesis
    using recover_open [where dk = dk and d = d and F = F and pl = "rec_playlist es t ended" and j = j and json_dec = json_dec and m = m
        and json = json and modified = modified and names = names, OF assms(1-3,5-8)] kept_names(3)
    by (simp add: closed swept)
qed

theorem recovery_closes_witness:
  "\<exists>G. dk_dirs (recover_dir crashed_json (\<lambda>_. Some crashed_meta) 0 crashed_names (''cam'', ''d'')
        \<lparr>dk_dirs = [(''cam'', ''d'') \<mapsto> crashed_files], dk_outcomes = [], dk_alive = True\<rparr>) (''cam'', ''d'') = Some G \<and>
     G (segment_name 1) = Some ''abc'' \<and> G ''seg-000002.m4s.tmp'' = None \<and>
     G ''meta.json'' = Some (crashed_json (ended_meta 0 crashed_meta)) \<and> G ''index.m3u8'' = Some (rec_playlist crashed_segments 6 True)"
proof -
  define dk where "dk = \<lparr>dk_dirs = [(''cam'', ''d'') \<mapsto> crashed_files], dk_outcomes = [], dk_alive = True\<rparr>"
  have dk: "dk_alive dk" "dk_outcomes dk = []" "dk_dirs dk (''cam'', ''d'') = Some crashed_files"
    by (simp_all add: dk_def)
  have meta: "(\<lambda>_. Some crashed_meta) ''open'' = Some crashed_meta" "rm_ended_at crashed_meta = None"
    by (simp_all add: crashed_meta_def)
  have tmp: "ends_with ''.tmp'' ''seg-000002.m4s.tmp''" by code_simp
  show ?thesis
    using recovery_closes [OF dk crashed_listed crashed_files_at(1,2) meta, where json = crashed_json and modified = 0]
  proof (fold dk_def, elim exE conjE)
    fix G
    assume G: "dk_dirs (recover_dir crashed_json (\<lambda>_. Some crashed_meta) 0 crashed_names (''cam'', ''d'') dk) (''cam'', ''d'') = Some G"
      and other: "\<forall>f. G f = (if f = ''index.m3u8'' then Some (rec_playlist crashed_segments 6 True)
        else if f = ''meta.json'' then Some (crashed_json (ended_meta 0 crashed_meta))
        else if ends_with ''.tmp'' f then None else crashed_files f)"
      and media: "\<forall>i. G (segment_name i) = crashed_files (segment_name i)"
    have "G ''seg-000002.m4s.tmp'' = None" "G ''meta.json'' = Some (crashed_json (ended_meta 0 crashed_meta))"
      "G ''index.m3u8'' = Some (rec_playlist crashed_segments 6 True)"
      using other tmp by simp_all
    moreover have "G (segment_name 1) = Some ''abc''" using media crashed_files_at(3) by (simp only:)
    ultimately show "\<exists>G. dk_dirs (recover_dir crashed_json (\<lambda>_. Some crashed_meta) 0 crashed_names (''cam'', ''d'') dk) (''cam'', ''d'') = Some G \<and>
     G (segment_name 1) = Some ''abc'' \<and> G ''seg-000002.m4s.tmp'' = None \<and>
     G ''meta.json'' = Some (crashed_json (ended_meta 0 crashed_meta)) \<and> G ''index.m3u8'' = Some (rec_playlist crashed_segments 6 True)"
      using G by blast
  qed
qed

subsection \<open>Killed while it rewrites the playlist\<close>

text \<open>
  \<open>recover\<close> writes the playlist in place. Killed after the first \<open>k\<close> characters it leaves those, and metadata that say the
  recording is open; the next restart closes the torn text. With one segment on the disk the text can be cut inside its name.
\<close>

lemma torn_recovery:
  fixes json :: "rec_meta \<Rightarrow> string" and modified :: int
  assumes "dk_alive dk" "dk_outcomes dk = [Killed (Suc k)]" "dk_dirs dk d = Some F" "\<forall>f \<in> set names. \<not> ends_with ''.tmp'' f"
    and "F ''index.m3u8'' = Some pl" "F ''meta.json'' = Some j" "json_dec j = Some m" "rm_ended_at m = None"
  defines "torn \<equiv> recover_dir json json_dec modified names d dk"
  shows "dk_dirs torn d = Some (F(''index.m3u8'' \<mapsto> take k (close_playlist pl)))"
    and "\<exists>G. dk_dirs (recover_dir json json_dec later names d (torn\<lparr>dk_outcomes := [], dk_alive := True\<rparr>)) d = Some G \<and>
      G ''index.m3u8'' = Some (close_playlist (take k (close_playlist pl)))"
proof -
  have none: "remove_temporaries d names dk = dk" for dk
    using assms(4) by (induction names) simp_all
  have quiet: "io_quiet (write_file d f data) e = e" if "\<not> dk_alive e" for f data e
    using that by (simp add: io_quiet_def write_file_def disk_op_def)
  show torn: "dk_dirs torn d = Some (F(''index.m3u8'' \<mapsto> take k (close_playlist pl)))"
    using assms(1-3,5-8) none
    by (simp add: torn_def recover_dir_def Let_def read_file_def quiet) (simp add: io_quiet_def write_file_def disk_op_def on_files_def)
  show "\<exists>G. dk_dirs (recover_dir json json_dec later names d (torn\<lparr>dk_outcomes := [], dk_alive := True\<rparr>)) d = Some G \<and>
      G ''index.m3u8'' = Some (close_playlist (take k (close_playlist pl)))"
    using recover_open [of "torn\<lparr>dk_outcomes := [], dk_alive := True\<rparr>" d _ _ j json_dec m json later names] torn assms(6-8) by simp
qed

definition torn_lines :: "string list" where
  "torn_lines = header_of (playlist_target crashed_segments 6) True @ [''#EXTINF:'' @ fmt_fixed 5 6 @ '','']"

lemma torn_line_ok: "\<forall>l \<in> set torn_lines. line_ok l \<and> strip_prefix event_line l = None \<and> strip_prefix end_line l = None"
proof -
  have "set torn_lines \<subseteq> set (rec_lines crashed_segments 6 True)"
    by (auto simp: torn_lines_def rec_lines_def crashed_segments_def entry_lines_def)
  moreover have "\<forall>l \<in> set (rec_lines es t True). strip_prefix event_line l = None" for es t
    using other_lines entry_line_ok literal_lines(1)
    by (auto simp only: rec_lines_split list.pred_inject set_append set_concat set_map list.set if_True Un_iff insert_iff empty_iff)
  ultimately show ?thesis using rec_line_ok by blast
qed

lemma torn_closed: "close_playlist (unlines torn_lines @ ''seg-00'') = unlines (torn_lines @ [''seg-00'', end_line])"
proof -
  define torn where "torn = unlines torn_lines @ ''seg-00''"
  have "str_replace event_line vod_line torn = unlines torn_lines @ str_replace event_line vod_line ''seg-00''"
    unfolding torn_def by (rule replace_lines [OF patterns(1-3)]) (use torn_line_ok in blast)
  then have same: "str_replace event_line vod_line torn = torn" by (simp add: torn_def)
  have "str_contains end_line torn = str_contains end_line ''seg-00''"
    unfolding torn_def by (rule contains_lines [OF patterns(5-7)]) (use torn_line_ok in blast)
  then have opened: "\<not> str_contains end_line torn" by simp
  have "\<not> ends_with [newline] torn" using ends_with_last [of "[newline]" torn] by (auto simp: torn_def)
  with same opened have "close_playlist torn = (torn @ [newline]) @ end_line @ [newline]"
    by (simp only: close_playlist_def Let_def if_False)
  then show ?thesis by (simp add: torn_def)
qed

lemma torn_listed: "map fst (playlist_segments (unlines (torn_lines @ [''seg-00'', end_line]))) = [''seg-00'']"
proof -
  have "\<forall>l \<in> set (torn_lines @ [''seg-00'', end_line]). line_ok l"
    using torn_line_ok literal_lines(3) by (simp add: line_ok_def)
  then have "str_lines (unlines (torn_lines @ [''seg-00'', end_line])) = torn_lines @ [''seg-00'', end_line]"
    using str_lines_unlines [of "torn_lines @ [''seg-00'', end_line]" "[]"] by simp
  moreover have "split_once (CHR '','') (fmt_fixed 5 6 @ '','') = Some (fmt_fixed 5 6, [])"
    by (rule split_once_first) (use plain_not [OF plain_fixed] in auto)
  ultimately show ?thesis
    using parse_fixed by (simp add: playlist_segments_def torn_lines_def listed_header)
qed

lemma torn_recovery_lists_missing:
  "\<exists>k. map fst (playlist_segments (close_playlist (take k (close_playlist (rec_playlist crashed_segments 6 False))))) = [''seg-00'']"
proof -
  have name: "segment_name 1 = ''seg-000001.m4s''" by code_simp
  have "rec_playlist crashed_segments 6 True = unlines torn_lines @ segment_name 1 @ newline # end_line @ [newline]"
    by (simp add: rec_playlist_lines rec_lines_def torn_lines_def entry_lines_def crashed_segments_def)
  then have "take (length (unlines torn_lines) + 6) (rec_playlist crashed_segments 6 True) = unlines torn_lines @ ''seg-00''"
    by (simp only: name take_add) simp
  then show ?thesis
    using torn_closed torn_listed by (metis close_rec_playlist)
qed

subsection \<open>Whatever fails\<close>

lemma disk_op_kept:
  assumes "\<And>dirs. look (done dirs) = look dirs" "\<And>k dirs. look (partly k dirs) = look dirs"
  shows "look (dk_dirs (io_quiet (disk_op done partly) dk)) = look (dk_dirs dk)"
  using assms by (simp add: io_quiet_def disk_op_def split: list.split io_outcome.split)

lemma on_files_lookup: "on_files d f dirs e = (if e = d then map_option f (dirs d) else dirs e)"
  by (auto simp: on_files_def split: option.split)

definition file_at :: "dir \<Rightarrow> string \<Rightarrow> (dir \<rightharpoonup> files) \<Rightarrow> string option" where
  "file_at d f dirs = Option.bind (dirs d) (\<lambda>F. F f)"

lemma file_at_on_files: "(\<And>F. h F f = F f) \<Longrightarrow> file_at e f (on_files d h dirs) = file_at e f dirs"
  by (cases "dirs d") (auto simp: file_at_def on_files_lookup)

lemma write_kept: "g \<noteq> f \<Longrightarrow> file_at e f (dk_dirs (io_quiet (write_file d g data) dk)) = file_at e f (dk_dirs dk)"
  unfolding write_file_def by (rule disk_op_kept) (auto intro!: file_at_on_files split: nat.split)

lemma remove_kept: "g \<noteq> f \<Longrightarrow> file_at e f (dk_dirs (io_quiet (remove_file d g) dk)) = file_at e f (dk_dirs dk)"
  unfolding remove_file_def by (rule disk_op_kept) (auto intro!: file_at_on_files)

lemma remove_temporaries_kept:
  "\<not> ends_with ''.tmp'' f \<Longrightarrow> file_at e f (dk_dirs (remove_temporaries d names dk)) = file_at e f (dk_dirs dk)"
proof (induction names arbitrary: dk)
  case (Cons g names)
  then show ?case by (cases "g = f") (simp_all add: remove_kept)
qed simp

text \<open>
  Whatever fails during a restart, and whenever it is killed again, no media file of any recording changes: only
  temporary files, the playlist and the metadata are touched.
\<close>

lemma recovery_keeps_media:
  assumes "f \<notin> {''index.m3u8'', ''meta.json''}" "\<not> ends_with ''.tmp'' f"
  shows "file_at e f (dk_dirs (recover_dir json json_dec modified names d dk)) = file_at e f (dk_dirs dk)"
  using assms by (auto simp: recover_dir_def Let_def write_kept remove_temporaries_kept split: option.split)

end
