(* ===== verification/Record_Store.thy ===== *)
theory Record_Store
  imports Record_Recover Record_Schedule
begin

text \<open>
  The recordings of a server (\<open>crates/caudal-record/src/lib.rs\<close>): which directories are recordings, the recovery of all of
  them at start, the retention sweep, and the start of a recorder for each publish. The directories found on disk are an
  argument.
\<close>

subsection \<open>Operations\<close>

definition recording_dirs :: "dir list \<Rightarrow> dir list" where
  "recording_dirs found = filter (\<lambda>(stream, i). valid_stream_name stream \<and> valid_id i) found"

text \<open>\<open>modified\<close> and \<open>listing\<close> are what \<open>metadata\<close> and \<open>read_dir\<close> say of each directory.\<close>

fun recover_dirs :: "(rec_meta \<Rightarrow> string) \<Rightarrow> (string \<Rightarrow> rec_meta option) \<Rightarrow> (dir \<Rightarrow> int) \<Rightarrow> (dir \<Rightarrow> string list) \<Rightarrow> dir list \<Rightarrow> disk \<Rightarrow> disk" where
  "recover_dirs json json_dec modified listing [] dk = dk"
| "recover_dirs json json_dec modified listing (d # ds) dk =
     recover_dirs json json_dec modified listing ds (recover_dir json json_dec (modified d) (listing d) d dk)"

definition recover :: "(rec_meta \<Rightarrow> string) \<Rightarrow> (string \<Rightarrow> rec_meta option) \<Rightarrow> (dir \<Rightarrow> int) \<Rightarrow> (dir \<Rightarrow> string list) \<Rightarrow> dir list \<Rightarrow> disk \<Rightarrow> disk" where
  "recover json json_dec modified listing found = recover_dirs json json_dec modified listing (recording_dirs found)"

text \<open>\<open>remove_dir_all\<close>: when it fails, the first \<open>k\<close> of the files it was deleting are gone.\<close>

definition remove_dir_all :: "dir \<Rightarrow> string list \<Rightarrow> disk \<Rightarrow> (string + unit) \<times> disk" where
  "remove_dir_all d names = disk_op (\<lambda>dirs. dirs(d := None)) (\<lambda>k. on_files d (\<lambda>F. F |` (- set (take k names))))"

definition ended_at :: "(string \<Rightarrow> rec_meta option) \<Rightarrow> dir \<Rightarrow> disk \<Rightarrow> int option" where
  "ended_at json_dec d dk =
     (case Option.bind (read_file d ''meta.json'' dk) json_dec of
        None \<Rightarrow> None
      | Some m \<Rightarrow> Option.bind (rm_ended_at m) parse_rfc3339)"

fun sweep_dirs :: "(string \<Rightarrow> rec_meta option) \<Rightarrow> int \<Rightarrow> dir set \<Rightarrow> (dir \<Rightarrow> string list) \<Rightarrow> dir list \<Rightarrow> nat \<Rightarrow> disk \<Rightarrow> nat \<times> disk" where
  "sweep_dirs json_dec cutoff active listing [] deleted dk = (deleted, dk)"
| "sweep_dirs json_dec cutoff active listing (d # ds) deleted dk =
     (if d \<in> active then sweep_dirs json_dec cutoff active listing ds deleted dk
      else case ended_at json_dec d dk of
          None \<Rightarrow> sweep_dirs json_dec cutoff active listing ds deleted dk
        | Some ended \<Rightarrow>
           if ended \<ge> cutoff then sweep_dirs json_dec cutoff active listing ds deleted dk
           else (case remove_dir_all d (listing d) dk of
               (Inr _, dk) \<Rightarrow> sweep_dirs json_dec cutoff active listing ds (deleted + 1) dk
             | (Inl _, dk) \<Rightarrow> sweep_dirs json_dec cutoff active listing ds deleted dk))"

definition sweep_recordings :: "(string \<Rightarrow> rec_meta option) \<Rightarrow> nat option \<Rightarrow> int \<Rightarrow> dir set \<Rightarrow> (dir \<Rightarrow> string list) \<Rightarrow> dir list \<Rightarrow> disk \<Rightarrow> nat \<times> disk" where
  "sweep_recordings json_dec retention_hours now active listing found dk =
     (case retention_hours of
        None \<Rightarrow> (0, dk)
      | Some hours \<Rightarrow>
         sweep_dirs json_dec (now - int hours * 3600 * 10 ^ 9) active listing (recording_dirs found) 0 dk)"

subsection \<open>What a recorder creates is found\<close>

lemma digits_at: "list_all is_ascii_digit s \<Longrightarrow> c \<in> set s \<Longrightarrow> is_ascii_digit c"
  by (auto simp: list_all_iff)

lemma base_id:
  assumes "0 \<le> t" "t < 2 * 10 ^ 20"
  obtains a b where "id_for t = a @ ''T'' @ b @ ''Z''" "length a = 8" "length b = 6" "list_all is_ascii_digit a" "list_all is_ascii_digit b"
proof -
  obtain y m d sod ms where split: "split_time t = (y, m, d, sod, ms)" and ymd: "0 \<le> y" "1 \<le> m" "m \<le> 12" "1 \<le> d" "d \<le> 31"
    and sod: "0 \<le> sod" "sod < 86400" and year: "y \<le> (t div 10 ^ 9 div 86400 + 719468) div 146097 * 400 + 400"
    by (rule split_time_parts [OF assms(1)]) blast
  have "t div 10 ^ 9 < 2 * 10 ^ 11" using assms(2) by (simp add: div_less_iff_less_mult)
  then have "t div 10 ^ 9 div 86400 < 2400000" by (simp add: div_less_iff_less_mult)
  then have "(t div 10 ^ 9 div 86400 + 719468) div 146097 < 22" by (simp add: div_less_iff_less_mult)
  then have "y < 10000" using year by linarith
  then have y: "y < 10 ^ 4" by simp
  note hms = hms_bounds [OF sod]
  define a where "a = padded 4 y @ padded 2 m @ padded 2 d"
  define b where "b = padded 2 (sod div 3600) @ padded 2 (sod mod 3600 div 60) @ padded 2 (sod mod 60)"
  have "length a = 8" using padded_length [of y 4] padded_length [of m 2] padded_length [of d 2] ymd y by (simp add: a_def)
  moreover have "length b = 6"
    using padded_length [of "sod div 3600" 2] padded_length [of "sod mod 3600 div 60" 2] padded_length [of "sod mod 60" 2] hms
    by (simp add: b_def)
  moreover have "list_all is_ascii_digit a" "list_all is_ascii_digit b"
    using padded_digits ymd hms by (simp_all add: a_def b_def)
  moreover have "id_for t = a @ ''T'' @ b @ ''Z''" by (simp add: id_for_def split a_def b_def)
  ultimately show thesis using that by blast
qed

lemma decimal_first: "0 < n \<Longrightarrow> hd (decimal n) \<noteq> CHR ''0''"
proof (induction n rule: decimal.induct)
  case (1 n)
  show ?case
  proof (cases "n < 10")
    case True
    then have "digit_val (char_of (48 + n)) = int n" using digit_char by simp
    with 1(2) True show ?thesis by (auto simp: decimal.simps [of n] digit_val_def byte_of_def)
  next
    case False
    then have "0 < n div 10" by (simp add: div_greater_zero_iff)
    with 1(1) [OF False] False show ?thesis using decimal_digits [of "n div 10"] by (simp add: decimal.simps [of n])
  qed
qed

text \<open>
  Every directory a recorder makes is one that recovery, retention and the HTTP routes know as a recording: its
  name is valid, for all times to the year 8307, and for each of the numbers a restart in the same second may give it.
\<close>

lemma created_dirs_are_found:
  assumes "0 \<le> t" "t < 2 * 10 ^ 20" "1 \<le> n" "n \<le> 999" "valid_stream_name stream"
  shows "(stream, dir_name (id_for t) n) \<in> set (recording_dirs found) \<longleftrightarrow> (stream, dir_name (id_for t) n) \<in> set found"
proof -
  obtain a b where i: "id_for t = a @ ''T'' @ b @ ''Z''" "length a = 8" "length b = 6"
      and digits: "list_all is_ascii_digit a" "list_all is_ascii_digit b"
    using base_id [OF assms(1,2)] .
  have no: "CHR ''-'' \<notin> set (id_for t)"
    using digits_at [OF digits(1)] digits_at [OF digits(2)] separators(1) by (auto simp: i(1))
  have base: "length (id_for t) = 16" "list_all is_ascii_digit (take 8 (id_for t))" "id_for t ! 8 = CHR ''T''"
      "list_all is_ascii_digit (take 6 (drop 9 (id_for t)))" "id_for t ! 15 = CHR ''Z''"
    using i digits by (simp_all add: nth_append)
  have num: "decimal n \<noteq> []" "length (decimal n) \<le> 6" "list_all is_ascii_digit (decimal n)" "hd (decimal n) \<noteq> CHR ''0''"
    using decimal_digits [of n] length_decimal [of n 3] decimal_first [of n] assms(3,4) by simp_all
  have "valid_id (dir_name (id_for t) n)"
    using base num no by (simp add: valid_id_def dir_name_def split_once_none split_once_first)
  then show ?thesis using assms(5) by (simp add: recording_dirs_def)
qed

subsection \<open>Retention\<close>

definition expired :: "(string \<Rightarrow> rec_meta option) \<Rightarrow> int \<Rightarrow> dir set \<Rightarrow> disk \<Rightarrow> dir \<Rightarrow> bool" where
  "expired json_dec cutoff active dk d \<longleftrightarrow> d \<notin> active \<and> (case ended_at json_dec d dk of Some ended \<Rightarrow> ended < cutoff | None \<Rightarrow> False)"

lemma sweep_dirs_expired:
  "sweep_dirs json_dec cutoff active listing (d # ds) deleted dk =
     (if expired json_dec cutoff active dk d
      then (let (r, dk) = remove_dir_all d (listing d) dk in
        sweep_dirs json_dec cutoff active listing ds (case r of Inr _ \<Rightarrow> deleted + 1 | Inl _ \<Rightarrow> deleted) dk)
      else sweep_dirs json_dec cutoff active listing ds deleted dk)"
  by (auto simp: expired_def split: option.split prod.split sum.split)

lemma expired_local: "dk_dirs dk d = dk_dirs dk' d \<Longrightarrow> expired json_dec cutoff active dk d = expired json_dec cutoff active dk' d"
  by (simp add: expired_def ended_at_def read_file_def)

lemma remove_dir_all_other: "d' \<noteq> d \<Longrightarrow> dk_dirs (snd (remove_dir_all d' names dk)) d = dk_dirs dk d"
  by (simp add: remove_dir_all_def disk_op_def on_files_lookup split: list.split io_outcome.split)

lemma sweep_dirs_keeps:
  "\<not> (d \<in> set ds \<and> expired json_dec cutoff active dk d) \<Longrightarrow>
   dk_dirs (snd (sweep_dirs json_dec cutoff active listing ds deleted dk)) d = dk_dirs dk d"
proof (induction ds arbitrary: deleted dk)
  case (Cons d' ds)
  show ?case
  proof (cases "expired json_dec cutoff active dk d'")
    case True
    then have "d' \<noteq> d" using Cons.prems by auto
    then have other: "dk_dirs (snd (remove_dir_all d' (listing d') dk)) d = dk_dirs dk d" by (rule remove_dir_all_other)
    then have "\<not> (d \<in> set ds \<and> expired json_dec cutoff active (snd (remove_dir_all d' (listing d') dk)) d)"
      using Cons.prems expired_local [OF other, of json_dec cutoff active] by auto
    from Cons.IH [OF this] True other show ?thesis by (simp only: sweep_dirs_expired if_True case_prod_unfold Let_def)
  next
    case False
    have "\<not> (d \<in> set ds \<and> expired json_dec cutoff active dk d)" using Cons.prems by auto
    from Cons.IH [OF this] False show ?thesis by (simp only: sweep_dirs_expired if_False)
  qed
qed simp

lemma sweep_dirs_deletes:
  "dk_alive dk \<Longrightarrow> dk_outcomes dk = [] \<Longrightarrow> d \<in> set ds \<Longrightarrow> expired json_dec cutoff active dk d \<Longrightarrow>
   dk_dirs (snd (sweep_dirs json_dec cutoff active listing ds deleted dk)) d = None"
proof (induction ds arbitrary: deleted dk)
  case (Cons d' ds)
  have quiet: "remove_dir_all d' (listing d') dk = (Inr (), dk\<lparr>dk_dirs := (dk_dirs dk)(d' := None)\<rparr>)"
    using Cons.prems(1,2) by (simp add: remove_dir_all_def disk_op_works)
  define dk' where "dk' = dk\<lparr>dk_dirs := (dk_dirs dk)(d' := None)\<rparr>"
  have dk': "dk_alive dk'" "dk_outcomes dk' = []" "dk_dirs dk' d' = None" "d' \<noteq> d \<Longrightarrow> dk_dirs dk' d = dk_dirs dk d"
    using Cons.prems(1,2) by (simp_all add: dk'_def)
  have gone: "\<not> expired json_dec cutoff active dk' d'"
    using dk'(3) by (simp add: expired_def ended_at_def read_file_def)
  show ?case
  proof (cases "d' = d")
    case True
    then have "sweep_dirs json_dec cutoff active listing (d' # ds) deleted dk = sweep_dirs json_dec cutoff active listing ds (deleted + 1) dk'"
      using Cons.prems(4) quiet by (simp add: sweep_dirs_expired dk'_def del: sweep_dirs.simps)
    then show ?thesis using sweep_dirs_keeps [of d ds json_dec cutoff active dk'] gone dk'(3) True by simp
  next
    case other: False
    then have d: "d \<in> set ds" using Cons.prems(3) by simp
    have "expired json_dec cutoff active dk' d"
      using Cons.prems(4) expired_local [OF dk'(4) [OF other]] by simp
    note later = Cons.IH [OF dk'(1,2) d this] Cons.IH [OF Cons.prems(1,2) d Cons.prems(4)]
    then show ?thesis
      by (cases "expired json_dec cutoff active dk d'") (simp_all add: sweep_dirs_expired quiet dk'_def del: sweep_dirs.simps)
  qed
qed simp

definition past_retention :: "(string \<Rightarrow> rec_meta option) \<Rightarrow> nat option \<Rightarrow> int \<Rightarrow> dir set \<Rightarrow> dir list \<Rightarrow> disk \<Rightarrow> dir \<Rightarrow> bool" where
  "past_retention json_dec retention_hours now active found dk d \<longleftrightarrow>
     (\<exists>hours F m ended e. retention_hours = Some hours \<and> d \<in> set found \<and> valid_stream_name (fst d) \<and> valid_id (snd d) \<and> d \<notin> active \<and>
        dk_dirs dk d = Some F \<and> Option.bind (F ''meta.json'') json_dec = Some m \<and> rm_ended_at m = Some ended \<and>
        parse_rfc3339 ended = Some e \<and> e + int hours * 3600 * 10 ^ 9 < now)"

lemma past_retention_expired:
  "past_retention json_dec (Some hours) now active found dk d \<longleftrightarrow>
   d \<in> set (recording_dirs found) \<and> expired json_dec (now - int hours * 3600 * 10 ^ 9) active dk d"
  by (cases d; cases "dk_dirs dk d")
    (auto simp: past_retention_def expired_def ended_at_def read_file_def recording_dirs_def bind_eq_Some_conv split: option.splits)

text \<open>
  Claim C40. The retention sweep deletes recordings only: of those, only the ones nobody writes that ended longer ago than
  the configured hours, whatever fails; every other directory keeps all its files. When nothing fails, it deletes all of them.
\<close>

theorem sweep_retains:
  "(\<not> past_retention json_dec retention_hours now active found dk d \<longrightarrow>
      dk_dirs (snd (sweep_recordings json_dec retention_hours now active listing found dk)) d = dk_dirs dk d) \<and>
   (past_retention json_dec retention_hours now active found dk d \<longrightarrow> dk_alive dk \<longrightarrow> dk_outcomes dk = [] \<longrightarrow>
      dk_dirs (snd (sweep_recordings json_dec retention_hours now active listing found dk)) d = None)"
proof (cases retention_hours)
  case None
  then show ?thesis by (simp add: sweep_recordings_def past_retention_def)
next
  case (Some hours)
  then show ?thesis
    unfolding Some past_retention_expired using sweep_dirs_keeps sweep_dirs_deletes by (simp add: sweep_recordings_def)
qed

text \<open>Ended on day 0, a day of retention, two and a half days later: a recording that is still being written stays.\<close>

definition old_disk :: disk where
  "old_disk = \<lparr>dk_dirs = [(''cam'', ''19700101T000000Z'') \<mapsto> [''meta.json'' \<mapsto> ''1970-01-01T00:00:00.000Z''],
     (''cam'', ''19700101T000000Z-2'') \<mapsto> [''meta.json'' \<mapsto> ''1970-01-01T00:00:00.000Z'']], dk_outcomes = [], dk_alive = True\<rparr>"

definition old_found :: "dir list" where
  "old_found = [(''cam'', ''19700101T000000Z''), (''cam'', ''19700101T000000Z-2'')]"

definition old_meta :: "string \<Rightarrow> rec_meta option" where
  "old_meta s = Some \<lparr>rm_stream = ''cam'', rm_id = ''d'', rm_started_at = ''s'', rm_ended_at = Some s, rm_duration_ms = 6000,
     rm_bytes = 3, rm_segments = 1, rm_tracks = [], rm_error = None\<rparr>"

theorem sweep_retains_witness:
  "dk_dirs (snd (sweep_recordings old_meta (Some 24) 216000000000000 {(''cam'', ''19700101T000000Z-2'')} (\<lambda>_. []) old_found old_disk))
      (''cam'', ''19700101T000000Z'') = None \<and>
   dk_dirs (snd (sweep_recordings old_meta (Some 24) 216000000000000 {(''cam'', ''19700101T000000Z-2'')} (\<lambda>_. []) old_found old_disk))
      (''cam'', ''19700101T000000Z-2'') = Some [''meta.json'' \<mapsto> ''1970-01-01T00:00:00.000Z'']"
proof -
  have end0: "parse_rfc3339 ''1970-01-01T00:00:00.000Z'' = Some 0" by code_simp
  have valid: "valid_id ''19700101T000000Z''" "valid_stream_name ''cam''" by code_simp+
  have "past_retention old_meta (Some 24) 216000000000000 {(''cam'', ''19700101T000000Z-2'')} old_found old_disk
      (''cam'', ''19700101T000000Z'')"
    using end0 valid by (simp add: past_retention_def old_disk_def old_found_def old_meta_def)
  moreover have "\<not> past_retention old_meta (Some 24) 216000000000000 {(''cam'', ''19700101T000000Z-2'')} old_found old_disk
      (''cam'', ''19700101T000000Z-2'')"
    by (simp add: past_retention_def)
  moreover have "dk_alive old_disk" "dk_outcomes old_disk = []"
      "dk_dirs old_disk (''cam'', ''19700101T000000Z-2'') = Some [''meta.json'' \<mapsto> ''1970-01-01T00:00:00.000Z'']"
    by (simp_all add: old_disk_def)
  ultimately show ?thesis using sweep_retains by metis
qed

subsection \<open>Recorders\<close>

text \<open>
  The table of recorders, with the tasks started so far. A stream is its name and the address of its \<open>Arc\<close>; \<open>gate_for\<close> is the
  scheduler.
\<close>

record 'g recorders =
  rt_table :: "string \<rightharpoonup> nat"
  rt_spawned :: "((string \<times> nat) \<times> 'g option) list"

definition spawn_recorder :: "string list \<Rightarrow> (string \<Rightarrow> 'g option) \<Rightarrow> string \<times> nat \<Rightarrow> 'g recorders \<Rightarrow> 'g recorders" where
  "spawn_recorder patterns gate_for s st =
     (let always = pattern_matches patterns (fst s); gate = (if always then None else gate_for (fst s)) in
      if \<not> always \<and> gate = None then st
      else if rt_table st (fst s) = Some (snd s) then st
      else st\<lparr>rt_table := (rt_table st)(fst s \<mapsto> snd s), rt_spawned := rt_spawned st @ [(s, gate)]\<rparr>)"

text \<open>The end of \<open>run\<close>.\<close>

definition recorder_ended :: "string \<times> nat \<Rightarrow> 'g recorders \<Rightarrow> 'g recorders" where
  "recorder_ended s st = (if rt_table st (fst s) = Some (snd s) then st\<lparr>rt_table := (rt_table st)(fst s := None)\<rparr> else st)"

text \<open>What \<open>listen\<close> receives, and the ends of recorders in between; after a lag it takes the streams that are on air.\<close>

datatype listen_event = LsPublished "string \<times> nat" | LsLagged "(string \<times> nat) list" | LsEnded "string \<times> nat"

fun listen_step :: "string list \<Rightarrow> (string \<Rightarrow> 'g option) \<Rightarrow> listen_event \<Rightarrow> 'g recorders \<Rightarrow> 'g recorders" where
  "listen_step patterns gate_for (LsPublished s) st = spawn_recorder patterns gate_for s st"
| "listen_step patterns gate_for (LsLagged on_air) st = fold (spawn_recorder patterns gate_for) on_air st"
| "listen_step patterns gate_for (LsEnded s) st = recorder_ended s st"

definition listen :: "string list \<Rightarrow> (string \<Rightarrow> 'g option) \<Rightarrow> (string \<times> nat) list \<Rightarrow> listen_event list \<Rightarrow> 'g recorders" where
  "listen patterns gate_for on_air evs =
     fold (listen_step patterns gate_for) evs
       (fold (spawn_recorder patterns gate_for) on_air \<lparr>rt_table = Map.empty, rt_spawned = []\<rparr>)"

definition table_ok :: "'g recorders \<Rightarrow> bool" where
  "table_ok st \<longleftrightarrow> (\<forall>name addr. rt_table st name = Some addr \<longrightarrow> (name, addr) \<in> fst ` set (rt_spawned st))"

lemma spawn_recorder_ok:
  assumes "table_ok st"
  shows "table_ok (spawn_recorder patterns gate_for s st) \<and> set (rt_spawned st) \<subseteq> set (rt_spawned (spawn_recorder patterns gate_for s st)) \<and>
    (pattern_matches patterns (fst s) \<or> gate_for (fst s) \<noteq> None \<longrightarrow> s \<in> fst ` set (rt_spawned (spawn_recorder patterns gate_for s st)))"
  using assms by (cases s) (auto simp: spawn_recorder_def table_ok_def Let_def image_Un)

lemma spawn_recorders_ok:
  "table_ok st \<Longrightarrow> table_ok (fold (spawn_recorder patterns gate_for) ss st) \<and>
   set (rt_spawned st) \<subseteq> set (rt_spawned (fold (spawn_recorder patterns gate_for) ss st)) \<and>
   (\<forall>s\<in>set ss. pattern_matches patterns (fst s) \<or> gate_for (fst s) \<noteq> None \<longrightarrow>
      s \<in> fst ` set (rt_spawned (fold (spawn_recorder patterns gate_for) ss st)))"
proof (induction ss arbitrary: st)
  case (Cons s ss)
  note step = spawn_recorder_ok [OF Cons.prems, of patterns gate_for s]
  then have "table_ok (spawn_recorder patterns gate_for s st)" by blast
  from Cons.IH [OF this] step show ?case unfolding fold_simps comp_apply list.set by blast
qed simp

fun event_streams :: "listen_event \<Rightarrow> (string \<times> nat) set" where
  "event_streams (LsPublished s) = {s}"
| "event_streams (LsLagged on_air) = set on_air"
| "event_streams (LsEnded s) = {}"

lemma listen_step_ok:
  "table_ok st \<Longrightarrow> table_ok (listen_step patterns gate_for e st) \<and> set (rt_spawned st) \<subseteq> set (rt_spawned (listen_step patterns gate_for e st)) \<and>
   (\<forall>s\<in>event_streams e. pattern_matches patterns (fst s) \<or> gate_for (fst s) \<noteq> None \<longrightarrow>
      s \<in> fst ` set (rt_spawned (listen_step patterns gate_for e st)))"
proof (cases e)
  case (LsEnded s)
  assume "table_ok st"
  then show ?thesis by (auto simp: LsEnded recorder_ended_def table_ok_def)
qed (use spawn_recorder_ok spawn_recorders_ok in simp_all)

lemma listen_steps_ok:
  "table_ok st \<Longrightarrow> set (rt_spawned st) \<subseteq> set (rt_spawned (fold (listen_step patterns gate_for) evs st)) \<and>
   (\<forall>e\<in>set evs. \<forall>s\<in>event_streams e. pattern_matches patterns (fst s) \<or> gate_for (fst s) \<noteq> None \<longrightarrow>
      s \<in> fst ` set (rt_spawned (fold (listen_step patterns gate_for) evs st)))"
proof (induction evs arbitrary: st)
  case (Cons e evs)
  note step = listen_step_ok [OF Cons.prems, of patterns gate_for e]
  then have "table_ok (listen_step patterns gate_for e st)" by blast
  from Cons.IH [OF this] step show ?case unfolding fold_simps comp_apply list.set by blast
qed simp

text \<open>Every stream the service hears of, at start, by a publish or after a lag, gets a recorder if it is to be recorded.\<close>

lemma recorded_streams_have_recorders:
  assumes "pattern_matches patterns (fst s) \<or> gate_for (fst s) \<noteq> None" and "s \<in> set on_air \<or> (\<exists>e\<in>set evs. s \<in> event_streams e)"
  shows "s \<in> fst ` set (rt_spawned (listen patterns gate_for on_air evs))"
proof -
  have "table_ok \<lparr>rt_table = Map.empty, rt_spawned = []\<rparr>" by (simp add: table_ok_def)
  note start = spawn_recorders_ok [OF this, of patterns gate_for on_air]
  then have "table_ok (fold (spawn_recorder patterns gate_for) on_air \<lparr>rt_table = Map.empty, rt_spawned = []\<rparr>)" by blast
  from listen_steps_ok [OF this, of patterns gate_for evs] start assms show ?thesis
    unfolding listen_def by blast
qed

text \<open>
  It may get two. The service subscribes to publishes before it lists the streams, and a name that is published again in
  between is listed with its new stream while both publishes are still to be received: the first replaces the entry of the
  second, which is then not known as a duplicate. The same can happen after a lag.
\<close>

lemma republish_recorded_twice:
  "map fst (rt_spawned (listen [''*''] gate_for [(''cam'', 2)] [LsPublished (''cam'', 1), LsPublished (''cam'', 2)])) =
   [(''cam'', 2), (''cam'', 1), (''cam'', 2)]"
proof -
  have "pattern_matches [''*''] ''cam''" by code_simp
  then show ?thesis by (simp add: listen_def spawn_recorder_def Let_def)
qed

end
