(* ===== verification/Spec2Isabelle.thy ===== *)
theory Spec2Isabelle
  imports Net Viewers Wakeups Registry Stitcher Switching Failover_Runner Pull_Clock Access_Rules Rate_Limit Ts_Roundtrip Cmaf Calendar_Correct Hls_Correct Multicast Health Rtp Rtsp_Session Record_Schedule Record_Segmenter Record_Meta Record_Correct Record_Recover Record_Store
begin

text \<open>
  Caudal is a media server in Rust. Publishers push frames into named streams, each a bounded ring buffer; every
  output (LL-HLS, recordings, RTSP, SRT, WebRTC, multicast) is a viewer of such a ring, and a failover or a pull from
  another node is a publisher of its own. This development models its core logic and proves what makes it correct.
  All paths are under \<open>src/crates\<close>.

  \<^bold>\<open>The core\<close> (\<open>caudal-core\<close>). \<open>Media\<close>: tracks, codecs, frames, cues, stream names (\<open>media.rs\<close>). \<open>Net\<close>: addresses, CIDR
  blocks and X-Forwarded-For (\<open>net.rs\<close>). \<open>Ring\<close>: the ring of one stream, \<open>push\<close>, \<open>inject_cue\<close> and the evictions they end with
  (\<open>stream.rs\<close>); \<open>Live_Log\<close>: the interface \<open>live_log\<close>, a log of which a window is kept; \<open>Live_Stream\<close>: the stream around the
  ring, which interprets it; \<open>Viewers\<close>: subscribers and a step relation in which they interleave with the publisher,
  with the history of all pushes as the abstract state; \<open>Wakeups\<close>: the notification protocol behind \<open>recv\<close>; \<open>Registry\<close>:
  names, publisher handles, demand and the access gate (\<open>registry.rs\<close>, \<open>gate.rs\<close>). The lemmas show that a viewer reads the
  history without loss or is told how much it lost, that the ring stays bounded and decodable, that no wake-up is
  lost, and that a name has one publisher.

  \<^bold>\<open>Several sources, one timeline\<close> (\<open>caudal-failover\<close>, \<open>caudal-cluster\<close>). \<open>Stampers\<close> states what a rewriter of timestamps promises,
  as the locale \<open>stamper\<close>; \<open>Stitcher\<close> (\<open>stitch.rs\<close>) and \<open>Pull_Clock\<close> (\<open>timing.rs\<close>) interpret it: decode times increase strictly
  across switches and changes of timescale. \<open>Switching\<close> (\<open>switcher.rs\<close>) chooses the source, \<open>Failover_Runner\<close> (\<open>lib.rs\<close>) is the task around both, with
  its ticks, reloads and entries.

  \<^bold>\<open>Who may do what\<close> (\<open>caudal-access\<close>, \<open>caudal-admin\<close>). \<open>Access_Rules\<close>: the first matching rule against an abstract reading, and the
  gate that combines rules and tokens. \<open>Rate_Limit\<close>: the login limiter.

  \<^bold>\<open>MPEG-TS and SCTE-35\<close> (\<open>caudal-scte35\<close>, \<open>caudal-ts\<close>). \<open>Scte35\<close>: cue sections, built and parsed. \<open>Ts_Mux\<close> (\<open>mux.rs\<close>), \<open>Ts_Demux\<close> (\<open>ts.rs\<close>) and
  \<open>Ts_Timeline\<close> (\<open>demux.rs\<close>) model the two directions, \<open>Ts_Roundtrip\<close> puts the muxer's output through the demuxer.

  \<^bold>\<open>CMAF, LL-HLS, recordings\<close> (\<open>caudal-cmaf\<close>, \<open>caudal-hls\<close>, \<open>caudal-record\<close>). \<open>Cmaf\<close>: init segments and fragments; \<open>F64\<close>: IEEE double
  arithmetic on rationals, for durations; \<open>Calendar\<close>, \<open>Calendar_Correct\<close>: dates and wall clock texts. \<open>Hls_Packager\<close>,
  \<open>Hls_Playlist\<close>: \<open>packager.rs\<close>, state and texts; \<open>Hls_Cutting\<close>: the invariant of its window; \<open>Hls_Correct\<close>: what a player can
  rely on. \<open>Record_Segmenter\<close> (\<open>segmenter.rs\<close>) cuts recordings, \<open>Record_Schedule\<close> (\<open>schedule.rs\<close>) says when to record: windows,
  timer tasks, and the merge of several gates as interleaved steps. \<open>Record_Meta\<close> (\<open>meta.rs\<close>): the texts of a recording, what is
  read back of them, and the closing of an open playlist. \<open>Record_Files\<close> (\<open>recorder.rs\<close>, \<open>recover\<close> in \<open>lib.rs\<close>): the recorder task
  over a disk on which every operation may fail or be the last one before a kill; \<open>Disk_Logic\<close>: rules for what such
  operations keep of the files; \<open>Record_Correct\<close>: whatever fails, a playlist lists only complete segments;
  \<open>Record_Recover\<close>: what a restart makes of a recording that was left open, undisturbed or killed in its turn; \<open>Record_Store\<close>
  (\<open>lib.rs\<close>): recovery of all recordings, retention, and which publishes get a recorder. The upload worker is left out.

  \<^bold>\<open>Other outputs\<close>. \<open>Multicast\<close> (\<open>caudal-multicast\<close>): datagrams, pacing and the send queue. \<open>Rtp\<close> (\<open>caudal-rtsp/src/rtp.rs\<close>): packetizing and a
  receiver that undoes it. \<open>Rtsp_Session\<close> (\<open>server.rs\<close>, \<open>udp.rs\<close>): what a connection does with each request.

  \<^bold>\<open>Watching\<close> (\<open>caudal-health\<close>). \<open>Health\<close>: rules with hysteresis, trackers, the tick, the watcher tasks as interleaved steps, the event
  log and the delivery queue.

  \<^bold>\<open>Conventions\<close>. \<open>Prelude\<close> holds the words, byte and text functions of the standard library and the 64-bit arithmetic:
  \<open>checked64\<close> is what an operator does in a debug build, where it panics (\<open>None\<close>), and in a release build, where it wraps.
  Records are structs, datatypes enums, errors the left of a sum, and a task is a step of an inductive relation over
  the state it shares. Instants and durations are nanoseconds as natural numbers, wall clocks as integers. Loops are
  recursive functions with a termination proof; where a loop of the code may not end, its model is an option or
  carries fuel, and that it does end is a theorem. Third-party code is an argument: the box codec (\<open>mp4_codec\<close>), the cron and
  zone library (\<open>cron_lib\<close>), the country database, the environment of an RTSP connection (\<open>rtsp_env\<close>); what the proofs need of it is a
  hypothesis, and the witness of the theorem provides an instance.

  \<^bold>\<open>Not modelled\<close>: sockets, HTTP routes and the texts of JSON answers; configuration by serde; the RTMP, SRT, WebRTC, MoQ and TLS
  stacks, which are libraries with glue around them; codecs, transcoding and speech recognition; the command line
  tools and the benchmarks. Memory ordering is sequential consistency, and the code between two awaits or inside one
  lock is one step; a tick of the health task, which locks twice, is one step as well, and writes to a file being recorded take
  effect when they are called, without the buffer the runtime puts between.
\<close>

end
